(* ===== verification/Sg_Prelude.thy ===== *)
theory Sg_Prelude
  imports Main "HOL-Library.Word" "HOL-Library.Sublist"
begin

text \<open>
  Shared vocabulary of the development: the machine integers and byte strings of the Rust
  sources, the error type of \<^verbatim>\<open>src/error.rs\<close>, the result type with the \<^verbatim>\<open>?\<close> operator,
  the few operations of Rust's \<^verbatim>\<open>String\<close>, slice and integer types the sources use, the
  asynchronous read and write events of the streams, and the locales several components
  instantiate. Message texts of errors are Russian in the sources; theories are ASCII, so a
  message is represented by a short English rendering.
\<close>

section \<open>Machine integers and bytes\<close>

type_synonym u8 = "8 word"
type_synonym u16 = "16 word"
type_synonym u32 = "32 word"
type_synonym u64 = "64 word"
type_synonym bytes = "u8 list"

text \<open>
  A \<^verbatim>\<open>usize\<close> that is a length or an index is a \<^typ>\<open>nat\<close>: it is bounded by the length of a
  buffer that fits in memory. Where the source calls \<^verbatim>\<open>checked_add\<close> the overflow branch is kept.
\<close>

definition usize_checked_add :: "nat \<Rightarrow> nat \<Rightarrow> nat option" where
  "usize_checked_add a b = (if a + b < 2 ^ 64 then Some (a + b) else None)"

text \<open>\<^verbatim>\<open>u16::from_be_bytes([a, b]) as usize\<close> and its kin.\<close>

definition be16 :: "u8 \<Rightarrow> u8 \<Rightarrow> nat" where
  "be16 a b = unat a * 256 + unat b"

definition be24 :: "u8 \<Rightarrow> u8 \<Rightarrow> u8 \<Rightarrow> nat" where
  "be24 a b c = unat a * 65536 + unat b * 256 + unat c"

definition be32 :: "u8 \<Rightarrow> u8 \<Rightarrow> u8 \<Rightarrow> u8 \<Rightarrow> nat" where
  "be32 a b c d = unat a * 16777216 + unat b * 65536 + unat c * 256 + unat d"

text \<open>\<^verbatim>\<open>(n as u16).to_be_bytes()\<close>: the cast drops the bits above the width.\<close>

definition u8_of :: "nat \<Rightarrow> u8" where
  "u8_of n = word_of_nat n"

definition u16_be :: "nat \<Rightarrow> bytes" where
  "u16_be n = [u8_of (n div 256), u8_of n]"

definition u24_be :: "nat \<Rightarrow> bytes" where
  "u24_be n = [u8_of (n div 65536), u8_of (n div 256), u8_of n]"

definition u32_be :: "nat \<Rightarrow> bytes" where
  "u32_be n = [u8_of (n div 16777216), u8_of (n div 65536), u8_of (n div 256), u8_of n]"

definition u32_le :: "u32 \<Rightarrow> bytes" where
  "u32_le w = [u8_of (unat w), u8_of (unat w div 256),
               u8_of (unat w div 65536), u8_of (unat w div 16777216)]"

definition u64_be :: "u64 \<Rightarrow> bytes" where
  "u64_be w = map (\<lambda>k. u8_of (unat w div 256 ^ k)) [7, 6, 5, 4, 3, 2, 1, 0]"

text \<open>\<^verbatim>\<open>&xs[i..i + n]\<close>; every use in the sources is guarded by a length test.\<close>

definition slice :: "'a list \<Rightarrow> nat \<Rightarrow> nat \<Rightarrow> 'a list" where
  "slice xs i n = take n (drop i xs)"

definition xor_bytes :: "bytes \<Rightarrow> bytes \<Rightarrow> bytes" where
  "xor_bytes xs ys = map2 (\<lambda>x y. Bit_Operations.xor x y) xs ys"

text \<open>Overwriting a range: \<^verbatim>\<open>xs[i..i + ys.len()].copy_from_slice(ys)\<close>.\<close>

definition splice :: "'a list \<Rightarrow> nat \<Rightarrow> 'a list \<Rightarrow> 'a list" where
  "splice xs i ys = take i xs @ ys @ drop (i + length ys) xs"


section \<open>Errors and results\<close>

datatype io_kind =
    BrokenPipe | ConnectionReset | UnexpectedEof | WriteZero | InvalidData | TimedOut | OtherIo

datatype sg_error =
    Config string
  | TlsParse string
  | Detector string
  | Proxy string
  | Io io_kind

type_synonym 'a result = "sg_error + 'a"

text \<open>\<^verbatim>\<open>err.to_string()\<close>\<close>

fun error_text :: "(io_kind \<Rightarrow> string) \<Rightarrow> sg_error \<Rightarrow> string" where
  "error_text io (Config m) = ''configuration error: '' @ m"
| "error_text io (TlsParse m) = ''TLS parse error: '' @ m"
| "error_text io (Detector m) = ''detector error: '' @ m"
| "error_text io (Proxy m) = ''proxy error: '' @ m"
| "error_text io (Io k) = io k"

text \<open>The \<^verbatim>\<open>?\<close> operator: the first error returns.\<close>

fun bindR :: "'e + 'a \<Rightarrow> ('a \<Rightarrow> 'e + 'b) \<Rightarrow> 'e + 'b" where
  "bindR (Inl e) f = Inl e"
| "bindR (Inr a) f = f a"

fun ok_or :: "'e \<Rightarrow> 'a option \<Rightarrow> 'e + 'a" where
  "ok_or e None = Inl e"
| "ok_or e (Some a) = Inr a"

fun map_err :: "('e \<Rightarrow> 'f) \<Rightarrow> 'e + 'a \<Rightarrow> 'f + 'a" where
  "map_err f (Inl e) = Inl (f e)"
| "map_err f (Inr a) = Inr a"

fun to_opt :: "'e + 'a \<Rightarrow> 'a option" where
  "to_opt (Inl e) = None"
| "to_opt (Inr a) = Some a"

definition is_ok :: "'e + 'a \<Rightarrow> bool" where
  "is_ok r = (case r of Inl _ \<Rightarrow> False | Inr _ \<Rightarrow> True)"

text \<open>\<^verbatim>\<open>for x in xs { f(x)?; }\<close>\<close>

fun try_all :: "('a \<Rightarrow> 'e + unit) \<Rightarrow> 'a list \<Rightarrow> 'e + unit" where
  "try_all f [] = Inr ()"
| "try_all f (x # xs) = bindR (f x) (\<lambda>_. try_all f xs)"

text \<open>\<^verbatim>\<open>iter().map(f).collect::<Result<Vec<_>>>()\<close>\<close>

fun try_map :: "('a \<Rightarrow> 'e + 'b) \<Rightarrow> 'a list \<Rightarrow> 'e + 'b list" where
  "try_map f [] = Inr []"
| "try_map f (x # xs) = bindR (f x) (\<lambda>y. bindR (try_map f xs) (\<lambda>ys. Inr (y # ys)))"


section \<open>Strings\<close>

text \<open>
  A Rust \<^verbatim>\<open>String\<close> is its UTF-8 bytes; the model's \<^typ>\<open>string\<close> is that byte sequence, one
  \<^typ>\<open>char\<close> per byte, so \<^verbatim>\<open>len()\<close> is \<^term>\<open>length\<close>.
\<close>

definition byte_of_char :: "char \<Rightarrow> u8" where
  "byte_of_char c = word_of_nat (of_char c)"

definition char_of_byte :: "u8 \<Rightarrow> char" where
  "char_of_byte b = char_of (unat b)"

definition as_bytes :: "string \<Rightarrow> bytes" where
  "as_bytes s = map byte_of_char s"

definition str_of_bytes :: "bytes \<Rightarrow> string" where
  "str_of_bytes bs = map char_of_byte bs"

definition utf8_cont :: "u8 \<Rightarrow> bool" where
  "utf8_cont b \<longleftrightarrow> 0x80 \<le> b \<and> b \<le> 0xBF"

text \<open>Well-formed UTF-8, as \<^verbatim>\<open>std::str::from_utf8\<close> checks it (no overlong forms, no surrogates).\<close>

fun utf8_valid :: "bytes \<Rightarrow> bool" where
  "utf8_valid [] = True"
| "utf8_valid (a # r) =
     (if a < 0x80 then utf8_valid r
      else (case r of [] \<Rightarrow> False | b # r2 \<Rightarrow>
        if 0xC2 \<le> a \<and> a \<le> 0xDF then utf8_cont b \<and> utf8_valid r2
        else (case r2 of [] \<Rightarrow> False | c # r3 \<Rightarrow>
          if 0xE0 \<le> a \<and> a \<le> 0xEF then
            utf8_cont b \<and> utf8_cont c \<and> (a = 0xE0 \<longrightarrow> 0xA0 \<le> b) \<and> (a = 0xED \<longrightarrow> b \<le> 0x9F)
            \<and> utf8_valid r3
          else (case r3 of [] \<Rightarrow> False | d # r4 \<Rightarrow>
            0xF0 \<le> a \<and> a \<le> 0xF4 \<and> utf8_cont b \<and> utf8_cont c \<and> utf8_cont d
            \<and> (a = 0xF0 \<longrightarrow> 0x90 \<le> b) \<and> (a = 0xF4 \<longrightarrow> b \<le> 0x8F) \<and> utf8_valid r4))))"

definition from_utf8 :: "bytes \<Rightarrow> string option" where
  "from_utf8 bs = (if utf8_valid bs then Some (str_of_bytes bs) else None)"

definition is_rust_str :: "string \<Rightarrow> bool" where
  "is_rust_str s \<longleftrightarrow> utf8_valid (as_bytes s)"

text \<open>
  \<^verbatim>\<open>str::trim\<close> removes the Unicode \<^verbatim>\<open>White_Space\<close> characters; the list holds their UTF-8 forms.
\<close>

definition ws_encodings :: "string list" where
  "ws_encodings =
     map (\<lambda>c. [c]) [CHR 0x09, CHR 0x0A, CHR 0x0B, CHR 0x0C, CHR 0x0D, CHR 0x20]
     @ map (\<lambda>c. [CHR 0xC2, c]) [CHR 0x85, CHR 0xA0]
     @ [[CHR 0xE1, CHR 0x9A, CHR 0x80]]
     @ map (\<lambda>c. [CHR 0xE2, CHR 0x80, c])
         [CHR 0x80, CHR 0x81, CHR 0x82, CHR 0x83, CHR 0x84, CHR 0x85, CHR 0x86, CHR 0x87,
          CHR 0x88, CHR 0x89, CHR 0x8A, CHR 0xA8, CHR 0xA9, CHR 0xAF]
     @ [[CHR 0xE2, CHR 0x81, CHR 0x9F], [CHR 0xE3, CHR 0x80, CHR 0x80]]"

fun strip_one :: "string list \<Rightarrow> string \<Rightarrow> string option" where
  "strip_one [] s = None"
| "strip_one (w # ws) s =
     (if w \<noteq> [] \<and> take (length w) s = w then Some (drop (length w) s) else strip_one ws s)"

lemma strip_one_shrinks: "strip_one ws s = Some t \<Longrightarrow> length t < length s"
proof (induction ws)
  case Nil
  then show ?case by simp
next
  case (Cons w ws)
  show ?case
  proof (cases "w \<noteq> [] \<and> take (length w) s = w")
    case True
    then have "s \<noteq> []" by auto
    with True Cons.prems show ?thesis by auto
  next
    case False
    with Cons show ?thesis by auto
  qed
qed

function strip_many :: "string list \<Rightarrow> string \<Rightarrow> string" where
  "strip_many ws s = (case strip_one ws s of None \<Rightarrow> s | Some t \<Rightarrow> strip_many ws t)"
  by pat_completeness auto
termination
  by (relation "measure (\<lambda>(ws, s). length s)") (auto dest: strip_one_shrinks)

declare strip_many.simps [simp del]

definition trim_start :: "string \<Rightarrow> string" where
  "trim_start s = strip_many ws_encodings s"

definition trim_end :: "string \<Rightarrow> string" where
  "trim_end s = rev (strip_many (map rev ws_encodings) (rev s))"

definition trim :: "string \<Rightarrow> string" where
  "trim s = trim_end (trim_start s)"

definition lower_char :: "char \<Rightarrow> char" where
  "lower_char c = (if of_char c \<ge> (65::nat) \<and> of_char c \<le> (90::nat)
                   then char_of (of_char c + (32::nat)) else c)"

definition to_ascii_lowercase :: "string \<Rightarrow> string" where
  "to_ascii_lowercase s = map lower_char s"

definition eq_ignore_ascii_case :: "string \<Rightarrow> string \<Rightarrow> bool" where
  "eq_ignore_ascii_case a b \<longleftrightarrow> to_ascii_lowercase a = to_ascii_lowercase b"

definition starts_with :: "string \<Rightarrow> string \<Rightarrow> bool" where
  "starts_with s p \<longleftrightarrow> take (length p) s = p"

definition strip_prefix :: "string \<Rightarrow> string \<Rightarrow> string option" where
  "strip_prefix s p = (if starts_with s p then Some (drop (length p) s) else None)"

text \<open>\<^verbatim>\<open>split_once(c)\<close> at the first and \<^verbatim>\<open>rsplit_once(c)\<close> at the last occurrence.\<close>

fun split_once :: "char \<Rightarrow> string \<Rightarrow> (string \<times> string) option" where
  "split_once c [] = None"
| "split_once c (x # xs) =
     (if x = c then Some ([], xs)
      else map_option (\<lambda>(a, b). (x # a, b)) (split_once c xs))"

definition rsplit_once :: "char \<Rightarrow> string \<Rightarrow> (string \<times> string) option" where
  "rsplit_once c s = map_option (\<lambda>(a, b). (rev b, rev a)) (split_once c (rev s))"

definition is_digit :: "char \<Rightarrow> bool" where
  "is_digit c \<longleftrightarrow> (48::nat) \<le> of_char c \<and> of_char c \<le> (57::nat)"

definition is_ascii_hexdigit :: "char \<Rightarrow> bool" where
  "is_ascii_hexdigit c \<longleftrightarrow> is_digit c
     \<or> (97::nat) \<le> of_char c \<and> of_char c \<le> (102::nat)
     \<or> (65::nat) \<le> of_char c \<and> of_char c \<le> (70::nat)"

text \<open>Decimal printing (\<^verbatim>\<open>{n}\<close>) and \<^verbatim>\<open>str::parse\<close> of an unsigned integer below a bound.\<close>

definition digit_char :: "nat \<Rightarrow> char" where
  "digit_char d = char_of (48 + d)"

fun dec_string :: "nat \<Rightarrow> string" where
  "dec_string n = (if n < 10 then [digit_char n] else dec_string (n div 10) @ [digit_char (n mod 10)])"

declare dec_string.simps [simp del]

definition digits_value :: "string \<Rightarrow> nat" where
  "digits_value s = foldl (\<lambda>a c. 10 * a + (of_char c - 48)) 0 s"

definition parse_unsigned :: "nat \<Rightarrow> string \<Rightarrow> nat option" where
  "parse_unsigned bound s =
     (let t = (case s of c # r \<Rightarrow> if c = CHR ''+'' then r else s | [] \<Rightarrow> s) in
      if t \<noteq> [] \<and> list_all is_digit t \<and> digits_value t < bound then Some (digits_value t)
      else None)"


section \<open>Polled streams\<close>

text \<open>
  The asynchronous sources and sinks below the code (TCP sockets, in-memory pipes) are outside
  the repository. A source is the sequence of answers its \<^verbatim>\<open>poll_read\<close> will give, a sink the
  sequence of answers its \<^verbatim>\<open>poll_write\<close> will give; an exhausted script answers \<^verbatim>\<open>Pending\<close>.
\<close>

datatype 'a poll = Pending | Ready 'a

datatype rd_event = RData bytes | RPending | REof | RErr io_kind

datatype wr_event = WAccept nat | WPending | WErr io_kind

text \<open>One inner \<^verbatim>\<open>poll_read\<close> with room for \<open>n\<close> bytes: what does not fit stays for the next call.\<close>

fun inner_read :: "nat \<Rightarrow> rd_event list \<Rightarrow> (io_kind + bytes) poll \<times> rd_event list" where
  "inner_read n [] = (Pending, [])"
| "inner_read n (RPending # es) = (Pending, es)"
| "inner_read n (REof # es) = (Ready (Inr []), REof # es)"
| "inner_read n (RErr k # es) = (Ready (Inl k), es)"
| "inner_read n (RData bs # es) =
     (Ready (Inr (take n bs)), if length bs \<le> n then es else RData (drop n bs) # es)"

text \<open>One inner \<^verbatim>\<open>poll_write\<close>: the answer, the bytes taken and the remaining script.\<close>

fun inner_write :: "bytes \<Rightarrow> wr_event list \<Rightarrow> (io_kind + nat) poll \<times> bytes \<times> wr_event list" where
  "inner_write bs [] = (Pending, [], [])"
| "inner_write bs (WPending # es) = (Pending, [], es)"
| "inner_write bs (WErr k # es) = (Ready (Inl k), [], es)"
| "inner_write bs (WAccept n # es) =
     (Ready (Inr (min n (length bs))), take (min n (length bs)) bs, es)"

end
