(* ===== verification/Sg_Laws.thy ===== *)
theory Sg_Laws
  imports Sg_Prelude
begin

text \<open>
  Laws of the shared vocabulary: byte-order conversions, slices, results, strings, and the
  three generic interfaces of the development: machines with an invariant, self-delimiting
  codecs and the counters of the connection limiter.
\<close>

section \<open>Results\<close>

lemma bindR_Inr_iff [simp]: "bindR m f = Inr y \<longleftrightarrow> (\<exists>x. m = Inr x \<and> f x = Inr y)"
  by (cases m) auto

lemma bindR_Inl_iff: "bindR m f = Inl e \<longleftrightarrow> m = Inl e \<or> (\<exists>x. m = Inr x \<and> f x = Inl e)"
  by (cases m) auto

lemma ok_or_Inr_iff [simp]: "ok_or e m = Inr x \<longleftrightarrow> m = Some x"
  by (cases m) auto

lemma map_err_Inr_iff [simp]: "map_err f m = Inr x \<longleftrightarrow> m = Inr x"
  by (cases m) auto

lemma to_opt_Some_iff [simp]: "to_opt m = Some x \<longleftrightarrow> m = Inr x"
  by (cases m) auto

lemma to_opt_None_iff: "to_opt m = None \<longleftrightarrow> (\<exists>e. m = Inl e)"
  by (cases m) auto

lemma is_ok_simps [simp]: "is_ok (Inl e) = False" "is_ok (Inr x) = True"
  by (simp_all add: is_ok_def)

lemma is_ok_iff: "is_ok r \<longleftrightarrow> (\<exists>x. r = Inr x)"
  by (cases r) auto

lemma is_ok_bindR [simp]: "is_ok (bindR m f) \<longleftrightarrow> (\<exists>x. m = Inr x \<and> is_ok (f x))"
  by (cases m) auto

lemma unit_result_cases: "(r :: 'e + unit) = Inr () \<or> (\<exists>e. r = Inl e)"
  by (cases r) auto

lemma try_all_ok [simp]: "try_all f xs = Inr () \<longleftrightarrow> (\<forall>x \<in> set xs. f x = Inr ())"
  by (induction xs) auto

lemma try_map_Inr_iff: "try_map f xs = Inr ys \<longleftrightarrow> list_all2 (\<lambda>x y. f x = Inr y) xs ys"
  by (induction xs arbitrary: ys) (auto simp: list_all2_Cons1)

lemma try_map_length: "try_map f xs = Inr ys \<Longrightarrow> length ys = length xs"
  by (simp add: try_map_Inr_iff list_all2_lengthD)


section \<open>Bytes\<close>

lemma unat_u8_of [simp]: "unat (u8_of n) = n mod 256"
  by (simp add: u8_of_def unat_of_nat)

lemma u8_of_unat [simp]: "u8_of (unat b) = b"
  by (simp add: u8_of_def)

lemma u8_of_mod: "u8_of (n mod 256) = u8_of n"
  by (metis unat_u8_of u8_of_unat)

lemma u8_of_eq_iff: "u8_of m = u8_of n \<longleftrightarrow> m mod 256 = n mod 256"
  by (metis unat_u8_of u8_of_unat u8_of_mod)

lemma unat_u8_less [simp]: "unat (b :: u8) < 256"
  by (metis unat_u8_of u8_of_unat mod_less_divisor zero_less_numeral)

lemma length_u16_be [simp]: "length (u16_be n) = 2"
  by (simp add: u16_be_def)

lemma length_u24_be [simp]: "length (u24_be n) = 3"
  by (simp add: u24_be_def)

lemma length_u32_be [simp]: "length (u32_be n) = 4"
  by (simp add: u32_be_def)

lemma length_u32_le [simp]: "length (u32_le w) = 4"
  by (simp add: u32_le_def)

lemma length_u64_be [simp]: "length (u64_be w) = 8"
  by (simp add: u64_be_def)

lemma be16_u8_of: "be16 (u8_of (n div 256)) (u8_of n) = n mod 65536"
proof -
  have "n mod (256 * 256) = 256 * (n div 256 mod 256) + n mod 256"
    by (rule mod_mult2_eq)
  then show ?thesis by (simp add: be16_def)
qed

lemma be24_u8_of: "be24 (u8_of (n div 65536)) (u8_of (n div 256)) (u8_of n) = n mod 16777216"
proof -
  have "n mod (256 * 65536) = 256 * (n div 256 mod 65536) + n mod 256"
    by (rule mod_mult2_eq)
  moreover have "n div 256 mod (256 * 256) = 256 * (n div 256 div 256 mod 256) + n div 256 mod 256"
    by (rule mod_mult2_eq)
  moreover have "n div 256 div 256 = n div 65536"
    by (simp add: div_mult2_eq [symmetric])
  ultimately show ?thesis by (simp add: be24_def)
qed

lemma be32_u8_of:
  "be32 (u8_of (n div 16777216)) (u8_of (n div 65536)) (u8_of (n div 256)) (u8_of n)
     = n mod 4294967296"
proof -
  have "n mod (256 * 16777216) = 256 * (n div 256 mod 16777216) + n mod 256"
    by (rule mod_mult2_eq)
  moreover have "be24 (u8_of (n div 256 div 65536)) (u8_of (n div 256 div 256)) (u8_of (n div 256))
      = n div 256 mod 16777216"
    by (rule be24_u8_of)
  moreover have "n div 256 div 256 = n div 65536" "n div 256 div 65536 = n div 16777216"
    by (simp_all add: div_mult2_eq [symmetric])
  ultimately show ?thesis by (simp add: be24_def be32_def)
qed

lemma be16_less [simp]: "be16 a b < 65536"
  using unat_u8_less [of a] unat_u8_less [of b] unfolding be16_def by linarith

lemma be32_less: "be32 a b c d < 4294967296"
  using unat_u8_less [of a] unat_u8_less [of b] unat_u8_less [of c] unat_u8_less [of d]
  unfolding be32_def by linarith

lemma u16_be_be16 [simp]: "u16_be (be16 a b) = [a, b]"
proof -
  have "be16 a b div 256 = unat a" "be16 a b mod 256 = unat b"
    by (simp_all add: be16_def)
  then show ?thesis
    by (metis u16_be_def u8_of_unat u8_of_mod)
qed

lemma u32_be_be32: "u32_be (be32 a b c d) = [a, b, c, d]"
proof -
  note less = unat_u8_less [of a] unat_u8_less [of b] unat_u8_less [of c] unat_u8_less [of d]
  let ?n = "be32 a b c d"
  have n: "?n = ((unat a * 256 + unat b) * 256 + unat c) * 256 + unat d"
    by (simp add: be32_def)
  have step: "(x * 256 + r) div 256 = x" if "r < 256" for x r :: nat
    using that by simp
  have c: "?n div 256 = (unat a * 256 + unat b) * 256 + unat c"
    unfolding n by (rule step) (rule less)
  have b: "?n div 65536 = unat a * 256 + unat b"
    using c step [OF less(3), of "unat a * 256 + unat b"]
    by (simp only: div_mult2_eq [of ?n 256 256, simplified])
  have a: "?n div 16777216 = unat a"
    using b step [OF less(2), of "unat a"]
    by (simp only: div_mult2_eq [of ?n 65536 256, simplified])
  have last: "u8_of (m * 256 + unat x) = x" for m and x :: u8
    by (metis mod_mult_self3 u8_of_unat u8_of_eq_iff)
  show ?thesis
    unfolding u32_be_def a b c unfolding n last by simp
qed

lemma length_xor_bytes [simp]: "length (xor_bytes xs ys) = min (length xs) (length ys)"
  by (simp add: xor_bytes_def)

lemma xor_bytes_cancel: "length xs \<le> length ks \<Longrightarrow> xor_bytes (xor_bytes xs ks) ks = xs"
  by (induction xs ks rule: list_induct2') (auto simp: xor_bytes_def xor.assoc)

lemma xor_bytes_append:
  "length xs = length ks \<Longrightarrow> xor_bytes (xs @ ys) (ks @ ls) = xor_bytes xs ks @ xor_bytes ys ls"
  by (simp add: xor_bytes_def)


section \<open>Slices\<close>

lemma length_slice: "i + n \<le> length xs \<Longrightarrow> length (slice xs i n) = n"
  by (simp add: slice_def)

lemma slice_0 [simp]: "slice xs i 0 = []"
  by (simp add: slice_def)

lemma slice_append_right: "slice (xs @ ys) (length xs + i) n = slice ys i n"
  by (simp add: slice_def)

lemma slice_append_exact: "slice (xs @ ys @ zs) (length xs) (length ys) = ys"
  by (simp add: slice_def)

lemma take_slice_drop: "take i xs @ slice xs i n @ drop (i + n) xs = xs"
  by (metis add.commute append_take_drop_id drop_drop slice_def)

lemma length_splice [simp]: "i + length ys \<le> length xs \<Longrightarrow> length (splice xs i ys) = length xs"
  by (simp add: splice_def)

lemma slice_splice: "i + length ys \<le> length xs \<Longrightarrow> slice (splice xs i ys) i (length ys) = ys"
  by (simp add: slice_def splice_def)

lemma splice_splice:
  "i + length ys \<le> length xs \<Longrightarrow> length zs = length ys \<Longrightarrow>
   splice (splice xs i ys) i zs = splice xs i zs"
  by (simp add: splice_def)

lemma splice_self: "i + n \<le> length xs \<Longrightarrow> splice xs i (slice xs i n) = xs"
  by (simp add: splice_def slice_def) (metis add.commute append_take_drop_id drop_drop)

lemma splice_nth_before: "k < i \<Longrightarrow> i \<le> length xs \<Longrightarrow> splice xs i ys ! k = xs ! k"
  by (simp add: splice_def nth_append)

lemma splice_nth_after:
  "i + length ys \<le> k \<Longrightarrow> i + length ys \<le> length xs \<Longrightarrow> splice xs i ys ! k = xs ! k"
  by (cases "i = length xs") (auto simp: splice_def nth_append min_def)

lemma drop_splice:
  "i + length ys \<le> k \<Longrightarrow> i + length ys \<le> length xs \<Longrightarrow> drop k (splice xs i ys) = drop k xs"
  by (simp add: splice_def)

lemma take_splice: "k \<le> i \<Longrightarrow> i \<le> length xs \<Longrightarrow> take k (splice xs i ys) = take k xs"
  by (simp add: splice_def min_def)


section \<open>Strings\<close>

lemma byte_char_inverse [simp]: "byte_of_char (char_of_byte b) = b"
  by (simp add: byte_of_char_def char_of_byte_def)

lemma of_char_less [simp]: "(of_char c :: nat) < 256"
proof -
  have "(of_char c :: nat) = of_char c mod 256"
    by (metis char_of_char of_char_of)
  then show ?thesis by (metis mod_less_divisor zero_less_numeral)
qed

lemma char_byte_inverse [simp]: "char_of_byte (byte_of_char c) = c"
  by (simp add: byte_of_char_def char_of_byte_def unat_of_nat)

lemma as_bytes_str_of_bytes [simp]: "as_bytes (str_of_bytes bs) = bs"
  by (simp add: as_bytes_def str_of_bytes_def comp_def)

lemma str_of_bytes_as_bytes [simp]: "str_of_bytes (as_bytes s) = s"
  by (simp add: as_bytes_def str_of_bytes_def comp_def)

lemma length_as_bytes [simp]: "length (as_bytes s) = length s"
  by (simp add: as_bytes_def)

lemma as_bytes_append [simp]: "as_bytes (s @ t) = as_bytes s @ as_bytes t"
  by (simp add: as_bytes_def)

lemma as_bytes_inject [simp]: "as_bytes s = as_bytes t \<longleftrightarrow> s = t"
  by (metis str_of_bytes_as_bytes)

lemma from_utf8_as_bytes: "is_rust_str s \<Longrightarrow> from_utf8 (as_bytes s) = Some s"
  by (simp add: from_utf8_def is_rust_str_def)

lemma from_utf8_Some_iff: "from_utf8 bs = Some s \<longleftrightarrow> utf8_valid bs \<and> bs = as_bytes s"
  by (auto simp: from_utf8_def)

lemma utf8_valid_ascii: "list_all (\<lambda>b. b < 0x80) bs \<Longrightarrow> utf8_valid bs"
  by (induction bs) auto

lemma byte_of_char_less: "of_char c < (128::nat) \<Longrightarrow> byte_of_char c < 0x80"
  by (simp add: byte_of_char_def word_less_nat_alt unat_of_nat)

lemma is_rust_str_ascii: "list_all (\<lambda>c. of_char c < (128::nat)) s \<Longrightarrow> is_rust_str s"
  unfolding is_rust_str_def as_bytes_def
  by (rule utf8_valid_ascii) (auto simp: list_all_iff intro: byte_of_char_less)

lemma length_lowercase [simp]: "length (to_ascii_lowercase s) = length s"
  by (simp add: to_ascii_lowercase_def)

lemma eq_ignore_case_refl [simp]: "eq_ignore_ascii_case s s"
  by (simp add: eq_ignore_ascii_case_def)

lemma eq_ignore_case_sym: "eq_ignore_ascii_case s t \<longleftrightarrow> eq_ignore_ascii_case t s"
  by (auto simp: eq_ignore_ascii_case_def)

lemma eq_ignore_case_trans:
  "eq_ignore_ascii_case s t \<Longrightarrow> eq_ignore_ascii_case t u \<Longrightarrow> eq_ignore_ascii_case s u"
  by (simp add: eq_ignore_ascii_case_def)

lemma starts_with_append [simp]: "starts_with (p @ s) p"
  by (simp add: starts_with_def)

lemma starts_with_iff: "starts_with s p \<longleftrightarrow> (\<exists>t. s = p @ t)"
  by (metis append_eq_conv_conj append_take_drop_id starts_with_def)

lemma strip_prefix_Some_iff: "strip_prefix s p = Some t \<longleftrightarrow> s = p @ t"
  by (auto simp: strip_prefix_def starts_with_iff)

lemma split_once_Some_iff: "split_once c s = Some (a, b) \<longleftrightarrow> s = a @ c # b \<and> c \<notin> set a"
proof (induction s arbitrary: a)
  case Nil
  then show ?case by simp
next
  case (Cons x s)
  note IH = Cons.IH
  show ?case
  proof (cases a)
    case Nil
    then show ?thesis by auto
  next
    case (Cons y ys)
    then show ?thesis using IH [of ys] by auto
  qed
qed

lemma split_once_None_iff: "split_once c s = None \<longleftrightarrow> c \<notin> set s"
  by (induction s) auto

lemma rsplit_once_Some_iff: "rsplit_once c s = Some (a, b) \<longleftrightarrow> s = a @ c # b \<and> c \<notin> set b"
proof -
  have "rsplit_once c s = Some (a, b) \<longleftrightarrow> split_once c (rev s) = Some (rev b, rev a)"
    by (auto simp: rsplit_once_def)
  also have "\<dots> \<longleftrightarrow> rev s = rev b @ c # rev a \<and> c \<notin> set b"
    by (simp add: split_once_Some_iff)
  also have "rev s = rev b @ c # rev a \<longleftrightarrow> s = a @ c # b"
    by (metis append.assoc append_Cons append_Nil rev.simps(2) rev_append rev_rev_ident)
  finally show ?thesis .
qed

lemma rsplit_once_None_iff: "rsplit_once c s = None \<longleftrightarrow> c \<notin> set s"
  by (simp add: rsplit_once_def split_once_None_iff)


subsection \<open>Trimming\<close>

lemma strip_one_Some_D: "strip_one ws s = Some t \<Longrightarrow> \<exists>w \<in> set ws. w \<noteq> [] \<and> s = w @ t"
proof (induction ws)
  case Nil
  then show ?case by simp
next
  case (Cons w ws)
  show ?case
  proof (cases "w \<noteq> [] \<and> take (length w) s = w")
    case True
    with Cons.prems have "t = drop (length w) s" by auto
    with True have "s = w @ t" by (metis append_take_drop_id)
    with True show ?thesis by auto
  next
    case False
    with Cons.prems have "strip_one ws s = Some t" by (auto split: if_splits)
    then show ?thesis using Cons.IH by auto
  qed
qed

lemma strip_one_None_iff: "strip_one ws s = None \<longleftrightarrow> (\<forall>w \<in> set ws. w \<noteq> [] \<longrightarrow> take (length w) s \<noteq> w)"
  by (induction ws) auto

lemma strip_one_take: "strip_one ws s = None \<Longrightarrow> strip_one ws (take k s) = None"
  unfolding strip_one_None_iff by (auto simp: min_def split: if_splits)

lemma strip_many_done: "strip_one ws (strip_many ws s) = None"
proof (induction ws s rule: strip_many.induct)
  case (1 ws s)
  then show ?case
    by (cases "strip_one ws s") (simp_all add: strip_many.simps [of ws s])
qed

lemma strip_many_suffix: "\<exists>p. s = p @ strip_many ws s"
proof (induction ws s rule: strip_many.induct)
  case (1 ws s)
  show ?case
  proof (cases "strip_one ws s")
    case None
    then show ?thesis by (simp add: strip_many.simps [of ws s])
  next
    case (Some t)
    obtain w where "s = w @ t" using strip_one_Some_D [OF Some] by blast
    moreover obtain p where "t = p @ strip_many ws t" using "1.IH" [OF Some] by blast
    moreover have "strip_many ws s = strip_many ws t"
      by (simp add: strip_many.simps [of ws s] Some)
    ultimately have "s = (w @ p) @ strip_many ws s" by simp
    then show ?thesis by blast
  qed
qed

lemma strip_many_id: "strip_one ws s = None \<Longrightarrow> strip_many ws s = s"
  by (simp add: strip_many.simps)

lemma trim_end_prefix: "\<exists>k. trim_end s = take k s"
proof -
  obtain p where "rev s = p @ strip_many (map rev ws_encodings) (rev s)"
    using strip_many_suffix by blast
  then have "s = trim_end s @ rev p"
    unfolding trim_end_def by (metis rev_append rev_rev_ident)
  then show ?thesis by (metis append_eq_conv_conj)
qed

lemma trim_idem [simp]: "trim (trim s) = trim s"
proof -
  have "strip_one ws_encodings (trim_start s) = None"
    unfolding trim_start_def by (rule strip_many_done)
  moreover obtain k where "trim s = take k (trim_start s)"
    unfolding trim_def using trim_end_prefix by blast
  ultimately have "strip_one ws_encodings (trim s) = None"
    by (metis strip_one_take)
  then have "trim_start (trim s) = trim s"
    by (simp add: trim_start_def strip_many_id)
  moreover have "trim_end (trim s) = trim s"
    unfolding trim_def trim_end_def
    by (simp add: strip_many_id [OF strip_many_done])
  ultimately show ?thesis by (metis trim_def)
qed

lemma length_trim_le: "length (trim s) \<le> length s"
proof -
  obtain p where "s = p @ trim_start s" using strip_many_suffix unfolding trim_start_def by blast
  then have "length (trim_start s) \<le> length s" by (metis le_add2 length_append)
  moreover obtain k where "trim s = take k (trim_start s)"
    unfolding trim_def using trim_end_prefix by blast
  ultimately show ?thesis by simp
qed


subsection \<open>UTF-8\<close>

text \<open>The four lead-byte classes, and the validity test rewritten class by class.\<close>

definition lead2 :: "u8 \<Rightarrow> bool" where "lead2 a \<longleftrightarrow> 0xC2 \<le> a \<and> a \<le> 0xDF"
definition lead3 :: "u8 \<Rightarrow> bool" where "lead3 a \<longleftrightarrow> 0xE0 \<le> a \<and> a \<le> 0xEF"

lemma utf8_valid_1: "a < 0x80 \<Longrightarrow> utf8_valid (a # r) = utf8_valid r"
  by simp

lemma utf8_valid_2:
  "\<not> a < 0x80 \<Longrightarrow> lead2 a \<Longrightarrow> utf8_valid (a # b # r) \<longleftrightarrow> utf8_cont b \<and> utf8_valid r"
  by (simp add: lead2_def)

lemma utf8_valid_3:
  "\<not> a < 0x80 \<Longrightarrow> \<not> lead2 a \<Longrightarrow> lead3 a \<Longrightarrow> utf8_valid (a # b # c # r) \<longleftrightarrow>
     utf8_cont b \<and> utf8_cont c \<and> (a = 0xE0 \<longrightarrow> 0xA0 \<le> b) \<and> (a = 0xED \<longrightarrow> b \<le> 0x9F) \<and> utf8_valid r"
  unfolding lead2_def lead3_def by (subst utf8_valid.simps(2)) (simp only: list.case if_False if_True simp_thms)

lemma utf8_valid_4:
  "\<not> a < 0x80 \<Longrightarrow> \<not> lead2 a \<Longrightarrow> \<not> lead3 a \<Longrightarrow> utf8_valid (a # b # c # d # r) \<longleftrightarrow>
     0xF0 \<le> a \<and> a \<le> 0xF4 \<and> utf8_cont b \<and> utf8_cont c \<and> utf8_cont d
     \<and> (a = 0xF0 \<longrightarrow> 0x90 \<le> b) \<and> (a = 0xF4 \<longrightarrow> b \<le> 0x8F) \<and> utf8_valid r"
  unfolding lead2_def lead3_def by (subst utf8_valid.simps(2)) (simp only: list.case if_False if_True simp_thms)

lemma utf8_valid_shape:
  assumes "utf8_valid u"
  obtains "u = []"
  | a r where "u = a # r" "a < 0x80" "utf8_valid r"
  | a b r where "u = a # b # r" "\<not> a < 0x80" "lead2 a" "utf8_cont b" "utf8_valid r"
  | a b c r where "u = a # b # c # r" "\<not> a < 0x80" "\<not> lead2 a" "lead3 a" "utf8_cont b" "utf8_cont c"
      "utf8_valid r"
  | a b c d r where "u = a # b # c # d # r" "\<not> a < 0x80" "\<not> lead2 a" "\<not> lead3 a"
      "utf8_cont b" "utf8_cont c" "utf8_cont d" "utf8_valid r"
proof (cases u)
  case Nil
  then show thesis by (rule that(1))
next
  case (Cons a r)
  show thesis
  proof (cases "a < 0x80")
    case True
    with assms Cons show thesis by (intro that(2) [of a r]) simp_all
  next
    case ge: False
    with assms Cons obtain b r2 where r: "r = b # r2" by (cases r) simp_all
    show thesis
    proof (cases "lead2 a")
      case True
      with ge assms Cons r show thesis by (intro that(3) [of a b r2]) (simp_all add: utf8_valid_2 del: utf8_valid.simps)
    next
      case l2: False
      with ge assms Cons r obtain c r3 where r2: "r2 = c # r3"
        by (cases r2) (simp_all add: lead2_def split: if_splits)
      show thesis
      proof (cases "lead3 a")
        case True
        with l2 ge assms Cons r r2 show thesis
          by (intro that(4) [of a b c r3]) (simp_all add: utf8_valid_3 del: utf8_valid.simps)
      next
        case l3: False
        with l2 ge assms Cons r r2 obtain d r4 where r3: "r3 = d # r4"
          by (cases r3) (simp_all add: lead2_def lead3_def split: if_splits)
        with l3 l2 ge assms Cons r r2 show thesis
          by (intro that(5) [of a b c d r4]) (simp_all add: utf8_valid_4 del: utf8_valid.simps)
      qed
    qed
  qed
qed

lemma utf8_valid_append: "utf8_valid u \<Longrightarrow> utf8_valid (u @ t) = utf8_valid t"
proof (induction "length u" arbitrary: u rule: less_induct)
  case less
  note IH = less.hyps
  from less.prems show ?case
  proof (cases rule: utf8_valid_shape)
    case 1
    then show ?thesis by simp
  next
    case (2 a r)
    then show ?thesis using IH [of r] by simp
  next
    case (3 a b r)
    then show ?thesis using IH [of r] by (simp add: utf8_valid_2 del: utf8_valid.simps)
  next
    case (4 a b c r)
    then show ?thesis using IH [of r] less.prems by (simp add: utf8_valid_3 del: utf8_valid.simps)
  next
    case (5 a b c d r)
    then show ?thesis using IH [of r] less.prems by (simp add: utf8_valid_4 del: utf8_valid.simps)
  qed
qed

lemma utf8_valid_cut_lead:
  assumes "utf8_valid (s @ w)" and "w \<noteq> []" and "\<not> utf8_cont (hd w)"
  shows "utf8_valid s"
  using assms(1)
proof (induction "length s" arbitrary: s rule: less_induct)
  case less
  note IH = less.hyps
  obtain x ws where w: "w = x # ws" "\<not> utf8_cont x" using assms by (cases w) auto
  show ?case
  proof (cases "s = []")
    case ne: False
    from less.prems show ?thesis
    proof (cases rule: utf8_valid_shape)
      case 1
      then show ?thesis using ne by simp
    next
      case (2 a r)
      with ne obtain s' where "s = a # s'" "r = s' @ w" by (auto simp: append_eq_Cons_conv)
      with 2 IH [of s'] show ?thesis by simp
    next
      case (3 a b r)
      with ne w obtain s' where "s = a # b # s'" "r = s' @ w" by (auto simp: append_eq_Cons_conv)
      with 3 IH [of s'] show ?thesis by (simp add: utf8_valid_2 del: utf8_valid.simps)
    next
      case (4 a b c r)
      with ne w obtain s' where "s = a # b # c # s'" "r = s' @ w" by (auto simp: append_eq_Cons_conv)
      with 4 IH [of s'] less.prems show ?thesis by (simp add: utf8_valid_3 del: utf8_valid.simps)
    next
      case (5 a b c d r)
      with ne w obtain s' where "s = a # b # c # d # s'" "r = s' @ w" by (auto simp: append_eq_Cons_conv)
      with 5 IH [of s'] less.prems show ?thesis by (simp add: utf8_valid_4 del: utf8_valid.simps)
    qed
  qed simp
qed

lemma ws_encodings_utf8:
  "\<forall>w \<in> set ws_encodings. w \<noteq> [] \<and> utf8_valid (as_bytes w) \<and> \<not> utf8_cont (byte_of_char (hd w))"
  by (simp add: ws_encodings_def as_bytes_def byte_of_char_def utf8_cont_def)

lemma is_rust_str_strip_many:
  "is_rust_str s \<Longrightarrow> is_rust_str (strip_many ws_encodings s)"
proof (induction ws_encodings s rule: strip_many.induct)
  case (1 s)
  show ?case
  proof (cases "strip_one ws_encodings s")
    case None
    then show ?thesis using 1 by (simp add: strip_many_id)
  next
    case (Some t)
    then obtain w where "w \<in> set ws_encodings" "s = w @ t" using strip_one_Some_D by blast
    with "1.prems" have "is_rust_str t"
      using ws_encodings_utf8 utf8_valid_append by (auto simp: is_rust_str_def)
    with Some "1.hyps" show ?thesis by (simp add: strip_many.simps [of _ s])
  qed
qed

lemma is_rust_str_strip_many_rev:
  "is_rust_str (rev s) \<Longrightarrow> is_rust_str (rev (strip_many (map rev ws_encodings) s))"
proof (induction "map rev ws_encodings" s rule: strip_many.induct)
  case (1 s)
  show ?case
  proof (cases "strip_one (map rev ws_encodings) s")
    case None
    then show ?thesis using 1 by (simp add: strip_many_id)
  next
    case (Some t)
    then obtain w where w: "w \<in> set ws_encodings" "s = rev w @ t" using strip_one_Some_D by fastforce
    then have "utf8_valid (as_bytes (rev t) @ as_bytes w)"
      using "1.prems" by (simp add: is_rust_str_def)
    moreover have "as_bytes w \<noteq> []" "\<not> utf8_cont (hd (as_bytes w))"
      using ws_encodings_utf8 w(1) by (auto simp: as_bytes_def hd_map)
    ultimately have "is_rust_str (rev t)"
      unfolding is_rust_str_def by (rule utf8_valid_cut_lead)
    with Some "1.hyps" show ?thesis by (simp add: strip_many.simps [of _ s])
  qed
qed

lemma is_rust_str_trim: "is_rust_str s \<Longrightarrow> is_rust_str (trim s)"
  unfolding trim_def trim_end_def trim_start_def
  by (rule is_rust_str_strip_many_rev) (simp add: is_rust_str_strip_many)




subsection \<open>Decimal numbers\<close>

lemma is_digit_digit_char [simp]: "d < 10 \<Longrightarrow> is_digit (digit_char d)"
  by (simp add: is_digit_def digit_char_def)

lemma digit_char_value [simp]: "d < 10 \<Longrightarrow> of_char (digit_char d) - (48::nat) = d"
  by (simp add: digit_char_def)

lemma digits_value_snoc: "digits_value (s @ [c]) = 10 * digits_value s + (of_char c - 48)"
  by (simp add: digits_value_def)

lemma dec_string_ne [simp]: "dec_string n \<noteq> []"
  by (subst dec_string.simps) simp

lemma dec_string_digits: "list_all is_digit (dec_string n)"
proof (induction n rule: dec_string.induct)
  case (1 n)
  then show ?case by (cases "n < 10") (simp_all add: dec_string.simps [of n])
qed

lemma dec_string_value: "digits_value (dec_string n) = n"
proof (induction n rule: dec_string.induct)
  case (1 n)
  show ?case
  proof (cases "n < 10")
    case True
    then show ?thesis by (simp add: dec_string.simps [of n] digits_value_def)
  next
    case False
    with 1 show ?thesis by (simp add: dec_string.simps [of n] digits_value_snoc)
  qed
qed

lemma not_digit_plus: "\<not> is_digit (CHR ''+'')"
  by (simp add: is_digit_def)

lemma parse_dec_string: "n < bound \<Longrightarrow> parse_unsigned bound (dec_string n) = Some n"
  using dec_string_digits [of n] dec_string_value [of n] not_digit_plus
  by (auto simp: parse_unsigned_def Let_def split: list.splits)

lemma dec_string_inject [simp]: "dec_string m = dec_string n \<longleftrightarrow> m = n"
  by (metis dec_string_value)


section \<open>Interfaces\<close>

text \<open>
  A machine whose operations keep an invariant. Every stateful component of the proxy that is
  shared between connections is one; the run lemma is proved here once.
\<close>

locale invariant_machine =
  fixes step :: "'s \<Rightarrow> 'op \<Rightarrow> 's"
    and inv :: "'s \<Rightarrow> bool"
  assumes step_inv: "inv s \<Longrightarrow> inv (step s oper)"
begin

lemma run_inv: "inv s \<Longrightarrow> inv (foldl step s opers)"
  by (induction opers arbitrary: s) (auto intro: step_inv)

lemma run_prefix_inv: "inv s \<Longrightarrow> inv (foldl step s (take k opers))"
  by (rule run_inv)

end

text \<open>
  A self-delimiting wire format: the decoder finds the end of a value in any continuation of
  the stream. TLS records, SGFB frames and SGFB opening frames all promise this; what follows
  for sequences of messages is proved here once.
\<close>

fun decode_stream :: "(bytes \<Rightarrow> ('a \<times> bytes) option) \<Rightarrow> nat \<Rightarrow> bytes \<Rightarrow> ('a list \<times> bytes) option" where
  "decode_stream dec 0 bs = Some ([], bs)"
| "decode_stream dec (Suc n) bs =
     (case dec bs of None \<Rightarrow> None
      | Some (x, r) \<Rightarrow> (case decode_stream dec n r of None \<Rightarrow> None
                        | Some (xs, r') \<Rightarrow> Some (x # xs, r')))"

locale framed_codec =
  fixes enc :: "'a \<Rightarrow> bytes"
    and dec :: "bytes \<Rightarrow> ('a \<times> bytes) option"
    and wf :: "'a \<Rightarrow> bool"
  assumes dec_enc: "wf x \<Longrightarrow> dec (enc x @ r) = Some (x, r)"
begin

lemma decode_concat:
  "list_all wf xs \<Longrightarrow> decode_stream dec (length xs) (concat (map enc xs) @ r) = Some (xs, r)"
  by (induction xs) (auto simp: dec_enc)

lemma enc_inject: "wf x \<Longrightarrow> wf y \<Longrightarrow> enc x @ r = enc y @ r' \<Longrightarrow> x = y \<and> r = r'"
  by (metis dec_enc option.inject prod.inject)

lemma enc_prefix_free: "wf x \<Longrightarrow> wf y \<Longrightarrow> prefix (enc x) (enc y) \<Longrightarrow> x = y"
  by (metis append_Nil2 enc_inject prefixE)

lemma enc_concat_inject:
  "list_all wf xs \<Longrightarrow> list_all wf ys \<Longrightarrow> length xs = length ys \<Longrightarrow>
   concat (map enc xs) = concat (map enc ys) \<Longrightarrow> xs = ys"
  by (metis append_Nil2 decode_concat option.inject prod.inject)

end

text \<open>
  A way to cut a buffer into pieces for separate writes. Fragmentation, dynamic record sizing
  and the dd mode are three of them; what the peer receives does not depend on which.
\<close>

locale chunking =
  fixes chunks :: "bytes \<Rightarrow> bytes list"
  assumes chunks_concat: "concat (chunks data) = data"
begin

lemma chunks_length: "sum_list (map length (chunks data)) = length data"
  by (metis chunks_concat length_concat)

lemma chunks_foldl_append: "foldl (@) pre (chunks data) = pre @ data"
proof -
  have "foldl (@) pre xss = pre @ concat xss" for xss :: "bytes list"
    by (induction xss arbitrary: pre) auto
  then show ?thesis by (simp add: chunks_concat)
qed

lemma chunks_inject: "chunks a = chunks b \<Longrightarrow> a = b"
  by (metis chunks_concat)

end

end
