(* ===== verification/Anti_Replay.thy ===== *)
theory Anti_Replay
  imports Sg_Laws
begin

text \<open>
  \<^verbatim>\<open>src/antireplay.rs\<close>: the bounded first-in first-out cache of ClientHello fingerprints.
  \<^verbatim>\<open>seen\<close> answers membership, \<^verbatim>\<open>order\<close> remembers arrival. The lock on \<^verbatim>\<open>seen\<close> is held for
  the whole of \<^verbatim>\<open>is_replay\<close>, so concurrent calls are some sequence of the calls modelled
  here. The hash behind the fingerprint is a parameter of the theories that use it.
\<close>

record antireplay_cache =
  capacity :: nat
  order :: "u64 list"
  seen :: "u64 set"

definition new_cache :: "nat \<Rightarrow> antireplay_cache" where
  "new_cache n = \<lparr>capacity = max n 1, order = [], seen = {}\<rparr>"

text \<open>\<^verbatim>\<open>while order.len() > capacity { pop_front; seen.remove }\<close>\<close>

fun evict :: "nat \<Rightarrow> u64 list \<Rightarrow> u64 set \<Rightarrow> u64 list \<times> u64 set" where
  "evict cap [] s = ([], s)"
| "evict cap (old # rest) s =
     (if cap < length (old # rest) then evict cap rest (s - {old}) else (old # rest, s))"

definition is_replay :: "u64 \<Rightarrow> antireplay_cache \<Rightarrow> bool \<times> antireplay_cache" where
  "is_replay fp c =
     (if fp \<in> seen c then (True, c)
      else (case evict (capacity c) (order c @ [fp]) (insert fp (seen c)) of
              (ord, sn) \<Rightarrow> (False, c\<lparr>order := ord, seen := sn\<rparr>)))"

text \<open>\<^verbatim>\<open>client_hello_fingerprint\<close>: the standard hasher, a parameter, over the peeked bytes.\<close>

definition client_hello_fingerprint :: "(bytes \<Rightarrow> u64) \<Rightarrow> bytes \<Rightarrow> u64" where
  "client_hello_fingerprint hasher data = hasher data"

fun replay_run :: "antireplay_cache \<Rightarrow> u64 list \<Rightarrow> bool list \<times> antireplay_cache" where
  "replay_run c [] = ([], c)"
| "replay_run c (fp # fps) =
     (case is_replay fp c of (b, c') \<Rightarrow> case replay_run c' fps of (bs, c'') \<Rightarrow> (b # bs, c''))"


section \<open>Specification: the window of the last accepted fingerprints\<close>

definition last_n :: "nat \<Rightarrow> 'a list \<Rightarrow> 'a list" where
  "last_n n xs = drop (length xs - n) xs"

definition window_step :: "nat \<Rightarrow> u64 \<Rightarrow> u64 list \<Rightarrow> bool \<times> u64 list" where
  "window_step n fp w = (if fp \<in> set w then (True, w) else (False, last_n n (w @ [fp])))"

fun window_run :: "nat \<Rightarrow> u64 list \<Rightarrow> u64 list \<Rightarrow> bool list \<times> u64 list" where
  "window_run n w [] = ([], w)"
| "window_run n w (fp # fps) =
     (case window_step n fp w of (b, w') \<Rightarrow> case window_run n w' fps of (bs, w'') \<Rightarrow> (b # bs, w''))"

definition cache_inv :: "antireplay_cache \<Rightarrow> bool" where
  "cache_inv c \<longleftrightarrow> distinct (order c) \<and> seen c = set (order c)
     \<and> length (order c) \<le> capacity c \<and> 1 \<le> capacity c"


section \<open>Lemmas\<close>

lemma last_n_all: "length xs \<le> n \<Longrightarrow> last_n n xs = xs"
  by (simp add: last_n_def)

lemma length_last_n [simp]: "length (last_n n xs) = min n (length xs)"
  by (simp add: last_n_def)

lemma evict_last_n:
  "distinct ord \<Longrightarrow> evict cap ord (set ord) = (last_n cap ord, set (last_n cap ord))"
proof (induction cap ord "set ord" rule: evict.induct)
  case (1 cap)
  then show ?case by (simp add: last_n_def)
next
  case (2 cap old rest)
  show ?case
  proof (cases "cap < length (old # rest)")
    case True
    have "set (old # rest) - {old} = set rest" using 2 by auto
    with True 2 show ?thesis by (simp add: last_n_def Suc_diff_le)
  next
    case False
    then show ?thesis by (simp add: last_n_def)
  qed
qed

lemma cache_inv_new: "cache_inv (new_cache n)"
  by (simp add: cache_inv_def new_cache_def)

lemma is_replay_window:
  assumes "cache_inv c"
  shows "fst (is_replay fp c) = fst (window_step (capacity c) fp (order c))"
    and "order (snd (is_replay fp c)) = snd (window_step (capacity c) fp (order c))"
    and "cache_inv (snd (is_replay fp c))"
    and "capacity (snd (is_replay fp c)) = capacity c"
proof -
  have sn: "seen c = set (order c)" and d: "distinct (order c)" and len: "length (order c) \<le> capacity c"
    and cap: "1 \<le> capacity c"
    using assms by (auto simp: cache_inv_def)
  show "fst (is_replay fp c) = fst (window_step (capacity c) fp (order c))"
    by (simp add: is_replay_def window_step_def sn case_prod_beta)
  have new: "evict (capacity c) (order c @ [fp]) (insert fp (seen c))
      = (last_n (capacity c) (order c @ [fp]), set (last_n (capacity c) (order c @ [fp])))"
    if "fp \<notin> set (order c)"
    using that d evict_last_n [of "order c @ [fp]" "capacity c"] by (simp add: sn)
  show "order (snd (is_replay fp c)) = snd (window_step (capacity c) fp (order c))"
    by (auto simp: is_replay_def window_step_def sn new [unfolded sn])
  show "cache_inv (snd (is_replay fp c))"
  proof (cases "fp \<in> seen c")
    case True
    with assms show ?thesis by (simp add: is_replay_def)
  next
    case False
    with d sn have "distinct (order c @ [fp])" by simp
    then have "distinct (last_n (capacity c) (order c @ [fp]))"
      unfolding last_n_def by (rule distinct_drop)
    with False new cap show ?thesis by (simp add: is_replay_def cache_inv_def sn)
  qed
  show "capacity (snd (is_replay fp c)) = capacity c"
    by (simp add: is_replay_def split: prod.splits)
qed

lemma replay_run_window:
  "cache_inv c \<Longrightarrow>
   fst (replay_run c fps) = fst (window_run (capacity c) (order c) fps)
   \<and> order (snd (replay_run c fps)) = snd (window_run (capacity c) (order c) fps)"
proof (induction fps arbitrary: c)
  case Nil
  then show ?case by simp
next
  case (Cons fp fps)
  note w = is_replay_window [OF Cons.prems, of fp]
  from Cons.IH [OF w(3)] w show ?case
    by (simp add: case_prod_beta)
qed

interpretation replay_cache: invariant_machine "\<lambda>c fp. snd (is_replay fp c)" cache_inv
  by unfold_locales (rule is_replay_window)

text \<open>
  While fewer than \<open>capacity\<close> new fingerprints arrive after it, a fingerprint stays in the
  window: the cache drops an entry only when \<open>capacity\<close> fresh ones displaced it.
\<close>

lemma window_run_keeps:
  assumes "w = p @ fp # q" and "length q + length fps < n" and "length w \<le> n"
  shows "\<exists>p' q'. snd (window_run n w fps) = p' @ fp # q'"
  using assms
proof (induction fps arbitrary: w p q)
  case Nil
  then show ?case by auto
next
  case (Cons x fps)
  show ?case
  proof (cases "x \<in> set w")
    case True
    from Cons.prems(2) have "length q + length fps < n" by simp
    from Cons.IH [OF Cons.prems(1) this Cons.prems(3)] obtain p' q'
      where "snd (window_run n w fps) = p' @ fp # q'" by blast
    with True have "snd (window_run n w (x # fps)) = p' @ fp # q'"
      by (simp add: window_step_def case_prod_beta)
    then show ?thesis by blast
  next
    case False
    let ?w = "last_n n (w @ [x])"
    have len: "length ?w \<le> n" by simp
    have "?w = drop (length (w @ [x]) - n) p @ fp # (q @ [x])"
      using Cons.prems by (simp add: last_n_def)
    moreover have "length (q @ [x]) + length fps < n" using Cons.prems by simp
    ultimately obtain p' q' where "snd (window_run n ?w fps) = p' @ fp # q'"
      using Cons.IH [OF _ _ len] by blast
    with False have "snd (window_run n w (x # fps)) = p' @ fp # q'"
      by (simp add: window_step_def case_prod_beta)
    then show ?thesis by blast
  qed
qed

lemma replay_run_foldl: "snd (replay_run c fps) = foldl (\<lambda>c fp. snd (is_replay fp c)) c fps"
  by (induction fps arbitrary: c) (simp_all add: case_prod_beta)

lemma window_step_contains: "1 \<le> n \<Longrightarrow> fp \<in> set (snd (window_step n fp w))"
  by (auto simp: window_step_def last_n_def)


section \<open>Properties\<close>

text \<open>
  C38. The cache refines its specification: on every sequence of fingerprints presented to a
  fresh cache, the answers of \<^verbatim>\<open>is_replay\<close> are those of a window holding the last
  \<^verbatim>\<open>max(capacity, 1)\<close> accepted fingerprints.
\<close>

theorem replay_refines_window:
  "fst (replay_run (new_cache n) fps) = fst (window_run (max n 1) [] fps)"
  using replay_run_window [OF cache_inv_new, of n fps] by (simp add: new_cache_def)

text \<open>
  Replay protection: after a fingerprint was presented, it is answered as a replay as long
  as fewer than \<open>capacity\<close> further fingerprints were presented in between, whatever they are
  and whatever the cache held before.
\<close>

theorem replay_within_window_detected:
  assumes "cache_inv c" and "length fps < capacity c" and "fp \<in> set (order c) \<Longrightarrow> last (order c) = fp"
  shows "fst (is_replay fp (snd (replay_run (snd (is_replay fp c)) fps)))"
proof -
  define c1 where "c1 = snd (is_replay fp c)"
  note w = is_replay_window [OF assms(1), of fp, folded c1_def]
  have "\<exists>p. order c1 = p @ [fp]"
  proof (cases "fp \<in> set (order c)")
    case True
    then have "order c = butlast (order c) @ [fp]"
      using assms(3) by (metis append_butlast_last_id list.distinct(1) list.set_cases)
    with True w(2) show ?thesis by (auto simp: window_step_def)
  next
    case False
    have "1 \<le> capacity c" using assms(1) by (simp add: cache_inv_def)
    with False w(2) show ?thesis by (auto simp: window_step_def last_n_def)
  qed
  then obtain p where p: "order c1 = p @ fp # []" by blast
  have "length (order c1) \<le> capacity c1" using w(3) by (simp add: cache_inv_def)
  with window_run_keeps [OF p, of fps "capacity c1"] assms(2) w(4)
  obtain p' q' where "snd (window_run (capacity c1) (order c1) fps) = p' @ fp # q'" by auto
  then have mem: "fp \<in> set (order (snd (replay_run c1 fps)))"
    using replay_run_window [OF w(3), of fps] by simp
  have "cache_inv (snd (replay_run c1 fps))"
    using replay_cache.run_inv [OF w(3)] by (simp add: replay_run_foldl)
  with mem show ?thesis
    by (simp add: c1_def is_replay_def cache_inv_def)
qed

theorem replay_within_window_detected_witness:
  "fst (is_replay 7 (snd (replay_run (snd (is_replay 7 (new_cache 3))) [8, 9])))"
  by (rule replay_within_window_detected) (simp_all add: cache_inv_new, simp_all add: new_cache_def)

end
