(* ===== verification/Std_Net.thy ===== *)
theory Std_Net
  imports Sg_Laws
begin

text \<open>
  The part of Rust's \<^verbatim>\<open>std::net\<close> the sources use: parsing of IP addresses and socket
  addresses (\<^verbatim>\<open>str::parse::<IpAddr>\<close> in the blacklist and the front allowlist,
  \<^verbatim>\<open>str::parse::<SocketAddr>\<close> for the listeners). The grammar is that of the standard
  library's parser: dotted quads without octal forms, eight colon-separated groups with one
  optional \<^verbatim>\<open>::\<close> and an optional trailing dotted quad, and no trailing characters.
\<close>

datatype ip_addr = V4 nat nat nat nat | V6 "nat list"

datatype socket_addr = SocketAddr ip_addr nat

definition hex_value :: "char \<Rightarrow> nat" where
  "hex_value c = (let n = of_char c in
     if n \<le> 57 then n - 48 else if n \<le> 70 then n - 55 else n - 87)"

definition radix_digit :: "nat \<Rightarrow> char \<Rightarrow> bool" where
  "radix_digit radix c \<longleftrightarrow> (if radix = 16 then is_ascii_hexdigit c else is_digit c)"

definition radix_value :: "nat \<Rightarrow> string \<Rightarrow> nat" where
  "radix_value radix ds = foldl (\<lambda>a c. radix * a + hex_value c) 0 ds"

definition read_number :: "nat \<Rightarrow> nat option \<Rightarrow> bool \<Rightarrow> nat \<Rightarrow> string \<Rightarrow> (nat \<times> string) option" where
  "read_number radix max_digits allow_zero bound s =
     (let ds = takeWhile (radix_digit radix) s; v = radix_value radix ds in
      if ds = [] \<or> (case max_digits of None \<Rightarrow> False | Some m \<Rightarrow> m < length ds)
         \<or> (\<not> allow_zero \<and> hd ds = CHR ''0'' \<and> 1 < length ds) \<or> bound \<le> v
      then None else Some (v, dropWhile (radix_digit radix) s))"

fun read_char :: "char \<Rightarrow> string \<Rightarrow> string option" where
  "read_char c [] = None"
| "read_char c (x # xs) = (if x = c then Some xs else None)"

definition read_sep :: "char \<Rightarrow> nat \<Rightarrow> string \<Rightarrow> string option" where
  "read_sep c i s = (if i = 0 then Some s else read_char c s)"

definition read_octet :: "string \<Rightarrow> (nat \<times> string) option" where
  "read_octet = read_number 10 (Some 3) False 256"

definition read_ipv4 :: "string \<Rightarrow> ((nat \<times> nat \<times> nat \<times> nat) \<times> string) option" where
  "read_ipv4 s =
     Option.bind (read_octet s) (\<lambda>(a, s1). Option.bind (read_char (CHR ''.'') s1) (\<lambda>s2.
     Option.bind (read_octet s2) (\<lambda>(b, s3). Option.bind (read_char (CHR ''.'') s3) (\<lambda>s4.
     Option.bind (read_octet s4) (\<lambda>(c, s5). Option.bind (read_char (CHR ''.'') s5) (\<lambda>s6.
     Option.bind (read_octet s6) (\<lambda>(d, s7). Some ((a, b, c, d), s7))))))))"

fun read_groups :: "nat \<Rightarrow> nat \<Rightarrow> string \<Rightarrow> nat list \<times> bool \<times> string" where
  "read_groups limit 0 s = ([], False, s)"
| "read_groups limit (Suc k) s =
     (let i = limit - Suc k in
      case (if i + 1 < limit then Option.bind (read_sep (CHR '':'') i s) read_ipv4 else None) of
        Some ((a, b, c, d), r) \<Rightarrow> ([a * 256 + b, c * 256 + d], True, r)
      | None \<Rightarrow>
          (case Option.bind (read_sep (CHR '':'') i s) (read_number 16 (Some 4) True 65536) of
             None \<Rightarrow> ([], False, s)
           | Some (g, r) \<Rightarrow> (case read_groups limit k r of (gs, v4, r') \<Rightarrow> (g # gs, v4, r'))))"

definition read_ipv6 :: "string \<Rightarrow> (nat list \<times> string) option" where
  "read_ipv6 s =
     (case read_groups 8 8 s of (hd_gs, hd_v4, r) \<Rightarrow>
      if length hd_gs = 8 then Some (hd_gs, r)
      else if hd_v4 then None
      else Option.bind (read_char (CHR '':'') r) (\<lambda>r1.
           Option.bind (read_char (CHR '':'') r1) (\<lambda>r2.
           let limit = 8 - (length hd_gs + 1) in
           case read_groups limit limit r2 of (tl_gs, _, r3) \<Rightarrow>
             Some (hd_gs @ replicate (8 - length hd_gs - length tl_gs) 0 @ tl_gs, r3))))"

definition read_ip :: "string \<Rightarrow> (ip_addr \<times> string) option" where
  "read_ip s = (case read_ipv4 s of
     Some ((a, b, c, d), r) \<Rightarrow> Some (V4 a b c d, r)
   | None \<Rightarrow> map_option (\<lambda>(gs, r). (V6 gs, r)) (read_ipv6 s))"

text \<open>\<^verbatim>\<open>s.parse::<IpAddr>()\<close> and \<^verbatim>\<open>s.parse::<SocketAddr>()\<close>.\<close>

definition parse_ip :: "string \<Rightarrow> ip_addr option" where
  "parse_ip s = (case read_ip s of Some (ip, []) \<Rightarrow> Some ip | _ \<Rightarrow> None)"

definition read_port :: "string \<Rightarrow> (nat \<times> string) option" where
  "read_port s = Option.bind (read_char (CHR '':'') s) (read_number 10 None True 65536)"

definition read_socket :: "string \<Rightarrow> (socket_addr \<times> string) option" where
  "read_socket s =
     (case Option.bind (read_ipv4 s) (\<lambda>((a, b, c, d), r).
             map_option (\<lambda>(p, r'). (SocketAddr (V4 a b c d) p, r')) (read_port r)) of
        Some x \<Rightarrow> Some x
      | None \<Rightarrow>
          Option.bind (read_char (CHR ''['') s) (\<lambda>s1.
          Option.bind (read_ipv6 s1) (\<lambda>(gs, s2).
          let s3 = (case Option.bind (read_char (CHR ''%'') s2) (read_number 10 None True 4294967296) of
                      Some (_, r) \<Rightarrow> r | None \<Rightarrow> s2) in
          Option.bind (read_char (CHR '']'') s3) (\<lambda>s4.
          map_option (\<lambda>(p, r). (SocketAddr (V6 gs) p, r)) (read_port s4)))))"

definition parse_socket_addr :: "string \<Rightarrow> socket_addr option" where
  "parse_socket_addr s = (case read_socket s of Some (a, []) \<Rightarrow> Some a | _ \<Rightarrow> None)"

lemma read_octet_less: "read_octet s = Some (v, r) \<Longrightarrow> v < 256"
  by (auto simp: read_octet_def read_number_def Let_def split: if_splits)

lemma read_ipv4_octets:
  assumes "read_ipv4 s = Some ((a, b, c, d), r)"
  shows "a < 256 \<and> b < 256 \<and> c < 256 \<and> d < 256"
  using assms unfolding read_ipv4_def
  by (clarsimp simp: bind_eq_Some_conv) (auto dest: read_octet_less)

lemma parse_ip_v4_octets:
  assumes "parse_ip s = Some (V4 a b c d)"
  shows "a < 256 \<and> b < 256 \<and> c < 256 \<and> d < 256"
proof -
  from assms have "read_ip s = Some (V4 a b c d, [])"
    by (auto simp: parse_ip_def split: option.splits prod.splits list.splits)
  then have "read_ipv4 s = Some ((a, b, c, d), [])"
    by (auto simp: read_ip_def split: option.splits prod.splits)
  then show ?thesis by (rule read_ipv4_octets)
qed

end
