(* ===== verification/Secrets.thy ===== *)
theory Secrets
  imports Std_Net
begin

text \<open>
  MTProto secrets as \<^verbatim>\<open>src/config.rs\<close> reads, checks and prints them: an optional prefix
  \<^verbatim>\<open>dd\<close> or \<^verbatim>\<open>ee\<close>, a core of 32 hex characters and, for \<^verbatim>\<open>ee\<close>, a hex-encoded domain.
  The crate \<^verbatim>\<open>hex\<close> is a parameter (\<open>hex_lib\<close>); \<open>hex_laws\<close> states its documented behaviour
  and \<open>base16\<close> is a codec that satisfies it.
\<close>

datatype secret_kind = Classic | Dd | Ee

record hex_lib =
  hex_encode :: "bytes \<Rightarrow> string"
  hex_decode :: "string \<Rightarrow> bytes option"

definition normalize_secret :: "string \<Rightarrow> string" where
  "normalize_secret secret = to_ascii_lowercase (trim secret)"

definition secret_mode :: "string \<Rightarrow> secret_kind" where
  "secret_mode secret =
     (let normalized = normalize_secret secret in
      if starts_with normalized ''dd'' then Dd
      else if starts_with normalized ''ee'' then Ee
      else Classic)"

fun mode_name :: "secret_kind \<Rightarrow> string" where
  "mode_name Dd = ''dd''"
| "mode_name Ee = ''ee''"
| "mode_name Classic = ''classic''"

definition is_protocol_allowed :: "string \<Rightarrow> string list \<Rightarrow> bool" where
  "is_protocol_allowed secret allowed =
     (if allowed = [] then True
      else list_ex (\<lambda>v. eq_ignore_ascii_case v (mode_name (secret_mode secret))) allowed)"

definition strip_mode_prefix :: "string \<Rightarrow> string" where
  "strip_mode_prefix normalized =
     (case strip_prefix normalized ''dd'' of Some r \<Rightarrow> r
      | None \<Rightarrow> (case strip_prefix normalized ''ee'' of Some r \<Rightarrow> r | None \<Rightarrow> normalized))"

definition secret_hex_payload :: "string \<Rightarrow> string result" where
  "secret_hex_payload secret =
     (let hex_part = strip_mode_prefix (normalize_secret secret) in
      if hex_part = [] then Inl (Config ''secret must not be empty'')
      else if \<not> list_all is_ascii_hexdigit hex_part
        then Inl (Config ''secret must be hex characters with an optional dd/ee prefix'')
      else Inr hex_part)"

definition secret_core_hex :: "string \<Rightarrow> string result" where
  "secret_core_hex secret =
     bindR (secret_hex_payload secret) (\<lambda>hex_part.
       if length hex_part < 32
         then Inl (Config ''secret must hold at least 16 bytes of hex'')
       else let core = take 32 hex_part in
         if \<not> list_all is_ascii_hexdigit core then Inl (Config ''the core must be 32 hex characters'')
         else Inr core)"

definition decode_secret :: "hex_lib \<Rightarrow> string \<Rightarrow> bytes result" where
  "decode_secret hx secret =
     bindR (secret_core_hex secret) (\<lambda>core_hex.
       ok_or (Config ''bad hex secret'') (hex_decode hx core_hex))"

definition secret_embedded_domain :: "hex_lib \<Rightarrow> string \<Rightarrow> string option" where
  "secret_embedded_domain hx secret =
     Option.bind (to_opt (secret_hex_payload secret)) (\<lambda>hex_part.
       if \<not> starts_with (normalize_secret secret) ''ee'' \<or> length hex_part \<le> 32 then None
       else Option.bind (hex_decode hx (drop 32 hex_part)) from_utf8)"

definition format_ee_secret :: "hex_lib \<Rightarrow> string \<Rightarrow> string \<Rightarrow> string result" where
  "format_ee_secret hx core_hex domain =
     (let core = to_ascii_lowercase (trim core_hex) in
      if length core \<noteq> 32 \<or> \<not> list_all is_ascii_hexdigit core
        then Inl (Config ''the ee core must be 32 hex characters'')
      else let domain = trim domain in
        if domain = [] then Inl (Config ''the ee domain must not be empty'')
        else Inr (''ee'' @ core @ hex_encode hx (as_bytes domain)))"

definition telegram_proxy_secret :: "hex_lib \<Rightarrow> string \<Rightarrow> string \<Rightarrow> string result" where
  "telegram_proxy_secret hx secret fake_domain =
     (if starts_with (normalize_secret secret) ''ee'' then
        if secret_embedded_domain hx secret \<noteq> None then Inr (trim secret)
        else bindR (secret_core_hex secret) (\<lambda>core. format_ee_secret hx core fake_domain)
      else Inr (trim secret))"

definition validate_secret :: "string \<Rightarrow> unit result" where
  "validate_secret secret =
     (let normalized = normalize_secret secret in
      if normalized = [] then Inl (Config ''secret must not be empty'')
      else if starts_with normalized ''dd'' \<or> starts_with normalized ''ee''
        then bindR (secret_core_hex secret) (\<lambda>_. Inr ())
      else bindR (secret_hex_payload secret) (\<lambda>hex_part.
        if length hex_part \<noteq> 32
          then Inl (Config ''a classic secret has exactly 32 hex characters'')
          else Inr ()))"


section \<open>The hex crate\<close>

definition is_lower_hexdigit :: "char \<Rightarrow> bool" where
  "is_lower_hexdigit c \<longleftrightarrow> is_digit c \<or> (97::nat) \<le> of_char c \<and> of_char c \<le> (102::nat)"

definition hex_laws :: "hex_lib \<Rightarrow> bool" where
  "hex_laws hx \<longleftrightarrow>
     (\<forall>bs. hex_decode hx (hex_encode hx bs) = Some bs
           \<and> length (hex_encode hx bs) = 2 * length bs
           \<and> list_all is_lower_hexdigit (hex_encode hx bs))
     \<and> (\<forall>s. list_all is_ascii_hexdigit s \<and> even (length s) \<longrightarrow>
           (\<exists>bs. hex_decode hx s = Some bs \<and> 2 * length bs = length s))"

definition hex_digit :: "nat \<Rightarrow> char" where
  "hex_digit n = (if n < 10 then char_of (48 + n) else char_of (87 + n))"

fun base16_decode :: "string \<Rightarrow> bytes option" where
  "base16_decode [] = Some []"
| "base16_decode [c] = None"
| "base16_decode (c # d # r) =
     (if is_ascii_hexdigit c \<and> is_ascii_hexdigit d
      then map_option (\<lambda>bs. u8_of (16 * hex_value c + hex_value d) # bs) (base16_decode r)
      else None)"

definition base16_encode :: "bytes \<Rightarrow> string" where
  "base16_encode bs = concat (map (\<lambda>b. [hex_digit (unat b div 16), hex_digit (unat b mod 16)]) bs)"

definition base16 :: hex_lib where
  "base16 = \<lparr>hex_encode = base16_encode, hex_decode = base16_decode\<rparr>"

lemma hex_digit_props:
  assumes "n < 16"
  shows "hex_value (hex_digit n) = n" "is_lower_hexdigit (hex_digit n)"
  using assms by (auto simp: hex_value_def hex_digit_def is_lower_hexdigit_def is_digit_def Let_def)

lemma lower_hexdigit_hexdigit: "is_lower_hexdigit c \<Longrightarrow> is_ascii_hexdigit c"
  by (auto simp: is_lower_hexdigit_def is_ascii_hexdigit_def)

lemma base16_decode_encode: "base16_decode (base16_encode bs) = Some bs"
proof (induction bs)
  case Nil
  then show ?case by (simp add: base16_encode_def)
next
  case (Cons b bs)
  have "unat b div 16 < 16" by (rule less_mult_imp_div_less) simp
  then show ?case
    using Cons by (simp add: base16_encode_def hex_digit_props lower_hexdigit_hexdigit)
qed

lemma base16_encode_shape:
  "length (base16_encode bs) = 2 * length bs \<and> list_all is_lower_hexdigit (base16_encode bs)"
proof (induction bs)
  case Nil
  then show ?case by (simp add: base16_encode_def)
next
  case (Cons b bs)
  have "unat b div 16 < 16" by (rule less_mult_imp_div_less) simp
  then show ?case using Cons by (simp add: base16_encode_def hex_digit_props)
qed

lemma base16_decode_total:
  "list_all is_ascii_hexdigit s \<Longrightarrow> even (length s) \<Longrightarrow>
   \<exists>bs. base16_decode s = Some bs \<and> 2 * length bs = length s"
  by (induction s rule: base16_decode.induct) auto

lemma hex_laws_base16: "hex_laws base16"
  using base16_decode_encode base16_encode_shape base16_decode_total
  by (simp add: hex_laws_def base16_def)


section \<open>Reading back what is printed\<close>

lemma ws_first_last:
  "\<forall>w \<in> set ws_encodings. w \<noteq> [] \<and> \<not> is_ascii_hexdigit (hd w) \<and> \<not> is_ascii_hexdigit (last w)"
  by (simp add: ws_encodings_def is_ascii_hexdigit_def is_digit_def)

lemma strip_one_hd_None:
  assumes "\<forall>w \<in> set ws. \<not> P (hd w)" and "list_all P s"
  shows "strip_one ws s = None"
  unfolding strip_one_None_iff
proof (intro ballI impI)
  fix w assume w: "w \<in> set ws" "w \<noteq> []"
  show "take (length w) s \<noteq> w"
    using assms w by (cases w; cases s) auto
qed

lemma trim_hexdigits: "list_all is_ascii_hexdigit s \<Longrightarrow> trim s = s"
proof -
  assume s: "list_all is_ascii_hexdigit s"
  have "strip_one ws_encodings s = None"
    using ws_first_last s by (intro strip_one_hd_None [where P = is_ascii_hexdigit]) auto
  then have 1: "trim_start s = s" by (simp add: trim_start_def strip_many_id)
  have "strip_one (map rev ws_encodings) (rev s) = None"
    using ws_first_last s
    by (intro strip_one_hd_None [where P = is_ascii_hexdigit]) (auto simp: hd_rev)
  then have "trim_end s = s" by (simp add: trim_end_def strip_many_id)
  with 1 show ?thesis by (simp add: trim_def)
qed

lemma lower_char_hexdigit: "is_ascii_hexdigit c \<Longrightarrow> is_lower_hexdigit (lower_char c)"
  by (auto simp: is_ascii_hexdigit_def is_lower_hexdigit_def is_digit_def lower_char_def)

lemma lower_char_lower_hexdigit: "is_lower_hexdigit c \<Longrightarrow> lower_char c = c"
  by (auto simp: is_lower_hexdigit_def is_digit_def lower_char_def)

lemma lower_char_idem [simp]: "lower_char (lower_char c) = lower_char c"
  by (simp add: lower_char_def)

lemma lowercase_idem [simp]: "to_ascii_lowercase (to_ascii_lowercase s) = to_ascii_lowercase s"
  by (simp add: to_ascii_lowercase_def)

lemma lower_char_hexdigit_iff: "is_ascii_hexdigit (lower_char c) \<Longrightarrow> is_lower_hexdigit (lower_char c)"
  using lower_char_hexdigit [of "lower_char c"] by simp

lemma normalize_trim [simp]: "normalize_secret (trim s) = normalize_secret s"
  by (simp add: normalize_secret_def)

lemma normalize_lower_hex: "list_all is_lower_hexdigit s \<Longrightarrow> normalize_secret s = s"
proof -
  assume s: "list_all is_lower_hexdigit s"
  then have "trim s = s"
    by (intro trim_hexdigits) (auto simp: list_all_iff lower_hexdigit_hexdigit)
  then show ?thesis
    using s unfolding normalize_secret_def to_ascii_lowercase_def
    by (auto simp: list_all_iff lower_char_lower_hexdigit intro: map_idI)
qed

lemma strip_mode_prefix_cases:
  "(\<exists>r. n = ''dd'' @ r \<and> strip_mode_prefix n = r) \<or> (\<exists>r. n = ''ee'' @ r \<and> strip_mode_prefix n = r)
   \<or> (\<not> starts_with n ''dd'' \<and> \<not> starts_with n ''ee'' \<and> strip_mode_prefix n = n)"
proof -
  have "strip_prefix n p = None \<longleftrightarrow> \<not> starts_with n p" for p
    by (simp add: strip_prefix_def)
  then show ?thesis
    by (auto simp: strip_mode_prefix_def strip_prefix_Some_iff split: option.splits)
qed

lemma strip_mode_prefix_subset: "set (strip_mode_prefix n) \<subseteq> set n"
  using strip_mode_prefix_cases [of n] by (metis Un_upper2 set_append subset_refl)

lemma secret_hex_payload_Inr_iff:
  "secret_hex_payload s = Inr p \<longleftrightarrow>
     p = strip_mode_prefix (normalize_secret s) \<and> p \<noteq> [] \<and> list_all is_ascii_hexdigit p"
  by (auto simp: secret_hex_payload_def Let_def)

lemma secret_hex_payload_trim [simp]: "secret_hex_payload (trim s) = secret_hex_payload s"
  by (simp add: secret_hex_payload_def)

lemma secret_core_hex_Inr_iff:
  "secret_core_hex s = Inr c \<longleftrightarrow>
     (\<exists>p. secret_hex_payload s = Inr p \<and> 32 \<le> length p \<and> c = take 32 p)"
  by (auto simp: secret_core_hex_def Let_def secret_hex_payload_Inr_iff list_all_iff
           dest: in_set_takeD)

lemma secret_core_hex_trim [simp]: "secret_core_hex (trim s) = secret_core_hex s"
  by (simp add: secret_core_hex_def)

lemma secret_mode_trim [simp]: "secret_mode (trim s) = secret_mode s"
  by (simp add: secret_mode_def)

lemma secret_core_hex_props:
  assumes "secret_core_hex s = Inr c"
  shows "length c = 32" "list_all is_ascii_hexdigit c" "list_all is_lower_hexdigit c"
proof -
  obtain p where p: "secret_hex_payload s = Inr p" "32 \<le> length p" "c = take 32 p"
    using assms by (auto simp: secret_core_hex_Inr_iff)
  then show "length c = 32" by simp
  have hex: "list_all is_ascii_hexdigit p" and p_def: "p = strip_mode_prefix (normalize_secret s)"
    using p(1) unfolding secret_hex_payload_Inr_iff by blast+
  show "list_all is_ascii_hexdigit c"
    using hex p(3) by (auto simp: list_all_iff dest: in_set_takeD)
  have "set p \<subseteq> set (normalize_secret s)"
    using strip_mode_prefix_subset p_def by simp
  then have "set p \<subseteq> range lower_char"
    by (auto simp: normalize_secret_def to_ascii_lowercase_def)
  then show "list_all is_lower_hexdigit c"
    using hex p(3) lower_char_hexdigit_iff by (fastforce simp: list_all_iff dest: in_set_takeD)
qed

lemma decode_core:
  assumes "hex_laws hx" and "secret_core_hex s = Inr c"
  shows "\<exists>bs. decode_secret hx s = Inr bs \<and> length bs = 16"
proof -
  note c = secret_core_hex_props [OF assms(2)]
  have "even (length c)" using c(1) by simp
  then obtain bs where "hex_decode hx c = Some bs" "2 * length bs = length c"
    using assms(1) c(2) by (auto simp: hex_laws_def)
  with c(1) assms(2) show ?thesis by (simp add: decode_secret_def)
qed

lemma validate_secret_iff:
  "validate_secret s = Inr () \<longleftrightarrow>
     (\<exists>p. secret_hex_payload s = Inr p \<and> 32 \<le> length p \<and> (secret_mode s = Classic \<longrightarrow> length p = 32))"
proof (cases "starts_with (normalize_secret s) ''dd'' \<or> starts_with (normalize_secret s) ''ee''")
  case True
  then have "normalize_secret s \<noteq> []" and "secret_mode s \<noteq> Classic"
    by (auto simp: starts_with_def secret_mode_def Let_def)
  with True show ?thesis
    by (auto simp: validate_secret_def Let_def secret_core_hex_Inr_iff)
next
  case False
  then have "secret_mode s = Classic" by (simp add: secret_mode_def Let_def)
  with False show ?thesis
    by (auto simp: validate_secret_def Let_def secret_hex_payload_Inr_iff strip_mode_prefix_def
        strip_prefix_def split: if_splits)
qed

lemma format_ee_secret_shape:
  assumes hx: "hex_laws hx" and "format_ee_secret hx core domain = Inr s"
  defines "lc \<equiv> to_ascii_lowercase (trim core)" and "dh \<equiv> hex_encode hx (as_bytes (trim domain))"
  shows "s = ''ee'' @ lc @ dh" "length lc = 32" "list_all is_lower_hexdigit s" "trim domain \<noteq> []"
    "normalize_secret s = s" "secret_hex_payload s = Inr (lc @ dh)"
proof -
  show s: "s = ''ee'' @ lc @ dh" and len: "length lc = 32" and "trim domain \<noteq> []"
    using assms(2) by (auto simp: format_ee_secret_def lc_def dh_def Let_def split: if_splits)
  have "list_all is_ascii_hexdigit lc"
    using assms(2) by (auto simp: format_ee_secret_def lc_def Let_def split: if_splits)
  then have "list_all is_lower_hexdigit lc"
    using lower_char_hexdigit_iff by (auto simp: list_all_iff lc_def to_ascii_lowercase_def)
  moreover have "list_all is_lower_hexdigit dh"
    using hx by (simp add: hex_laws_def dh_def)
  moreover have "list_all is_lower_hexdigit ''ee''"
    by (simp add: is_lower_hexdigit_def)
  ultimately show low: "list_all is_lower_hexdigit s" by (simp add: s)
  then show n: "normalize_secret s = s" by (rule normalize_lower_hex)
  have "strip_mode_prefix s = lc @ dh"
    by (simp add: s strip_mode_prefix_def strip_prefix_def starts_with_def)
  then show "secret_hex_payload s = Inr (lc @ dh)"
    using low len unfolding secret_hex_payload_Inr_iff n
    by (auto simp: s list_all_iff lower_hexdigit_hexdigit)
qed

lemma format_ee_secret_reads_back:
  assumes hx: "hex_laws hx" and f: "format_ee_secret hx core domain = Inr s"
  shows "secret_mode s = Ee" "secret_core_hex s = Inr (to_ascii_lowercase (trim core))"
    "validate_secret s = Inr ()"
    "is_rust_str domain \<Longrightarrow> secret_embedded_domain hx s = Some (trim domain)"
proof -
  note sh = format_ee_secret_shape [OF hx f]
  have e: "starts_with (normalize_secret s) ''ee''" and d: "\<not> starts_with (normalize_secret s) ''dd''"
    unfolding sh(5) by (simp_all add: sh(1) starts_with_def)
  then show mode: "secret_mode s = Ee" by (simp add: secret_mode_def Let_def)
  show "secret_core_hex s = Inr (to_ascii_lowercase (trim core))"
    unfolding secret_core_hex_Inr_iff sh(6) using sh(2) by simp
  show "validate_secret s = Inr ()"
    unfolding validate_secret_iff sh(6) using sh(2) mode by simp
  assume "is_rust_str domain"
  then have "from_utf8 (as_bytes (trim domain)) = Some (trim domain)"
    by (intro from_utf8_as_bytes is_rust_str_trim)
  then show "secret_embedded_domain hx s = Some (trim domain)"
    using hx sh(2,4) e unfolding secret_embedded_domain_def sh(6)
    by (simp add: hex_laws_def)
qed

section \<open>Properties\<close>

text \<open>
  Validation is exact and sufficient: a secret is accepted precisely when its hex part has
  at least 32 characters (exactly 32 without a prefix), and every accepted secret decodes to a
  16-byte key.
\<close>

theorem validated_secret_decodes:
  assumes "hex_laws hx"
  shows "(validate_secret s = Inr () \<longleftrightarrow>
            (\<exists>p. secret_hex_payload s = Inr p \<and> 32 \<le> length p
                 \<and> (secret_mode s = Classic \<longrightarrow> length p = 32)))
         \<and> (validate_secret s = Inr () \<longrightarrow>
            (\<exists>bs. decode_secret hx s = Inr bs \<and> length bs = 16))"
  using decode_core [OF assms] by (auto simp: validate_secret_iff secret_core_hex_Inr_iff)

theorem validated_secret_decodes_witness:
  "\<exists>bs. decode_secret base16 ''dd0123456789abcdef0123456789abcdef'' = Inr bs \<and> length bs = 16"
proof -
  have "validate_secret ''dd0123456789abcdef0123456789abcdef'' = Inr ()"
    by code_simp
  then show ?thesis
    using validated_secret_decodes [OF hex_laws_base16] by blast
qed

text \<open>
  Round trip of the full \<^verbatim>\<open>ee\<close> secret: what \<^verbatim>\<open>format_ee_secret\<close> prints is a valid
  \<^verbatim>\<open>ee\<close> secret whose core and embedded domain are the ones it was printed from.
\<close>

theorem ee_secret_roundtrip:
  assumes "hex_laws hx" and "is_rust_str domain" and "format_ee_secret hx core domain = Inr s"
  shows "secret_mode s = Ee \<and> validate_secret s = Inr ()
    \<and> secret_core_hex s = Inr (to_ascii_lowercase (trim core))
    \<and> secret_embedded_domain hx s = Some (trim domain)"
  using format_ee_secret_reads_back [OF assms(1,3)] assms(2) by simp

theorem ee_secret_roundtrip_witness:
  "secret_embedded_domain base16 ''ee0123456789abcdef0123456789abcdef612e62'' = Some ''a.b''"
proof -
  have u: "is_rust_str '' a.b ''" by code_simp
  have f: "format_ee_secret base16 ''0123456789ABCDEF0123456789abcdef'' '' a.b ''
      = Inr ''ee0123456789abcdef0123456789abcdef612e62''" by code_simp
  have t: "trim '' a.b '' = ''a.b''" by code_simp
  show ?thesis
    using ee_secret_roundtrip [OF hex_laws_base16 u f] unfolding t by blast
qed

text \<open>
  The secret published in a \<^verbatim>\<open>tg://proxy\<close> link has the mode and the 16-byte key of the
  configured secret, and publishing it again (under any domain) changes nothing.
\<close>

theorem telegram_link_keeps_key:
  assumes "hex_laws hx" and "is_rust_str domain" and "telegram_proxy_secret hx s domain = Inr t"
  shows "decode_secret hx t = decode_secret hx s \<and> secret_mode t = secret_mode s
    \<and> telegram_proxy_secret hx t d' = Inr t"
proof (cases "starts_with (normalize_secret s) ''ee'' \<and> secret_embedded_domain hx s = None")
  case False
  then have t: "t = trim s" using assms(3) by (auto simp: telegram_proxy_secret_def split: if_splits)
  have "secret_embedded_domain hx t = secret_embedded_domain hx s"
    by (simp add: t secret_embedded_domain_def)
  then show ?thesis using False
    by (auto simp: t decode_secret_def telegram_proxy_secret_def)
next
  case True
  then obtain c where c: "secret_core_hex s = Inr c" "format_ee_secret hx c domain = Inr t"
    using assms(3) by (auto simp: telegram_proxy_secret_def)
  note rb = format_ee_secret_reads_back [OF assms(1) c(2)] and sh = format_ee_secret_shape [OF assms(1) c(2)]
  note cp = secret_core_hex_props [OF c(1)]
  have "to_ascii_lowercase (trim c) = c"
    using normalize_lower_hex [OF cp(3)] by (simp add: normalize_secret_def)
  then have "decode_secret hx t = decode_secret hx s"
    using rb(2) c(1) by (simp add: decode_secret_def)
  moreover have "\<not> starts_with (normalize_secret s) ''dd''"
    using True by (auto simp: starts_with_def)
  then have "secret_mode t = secret_mode s"
    using rb(1) True by (simp add: secret_mode_def Let_def)
  moreover have "trim t = t"
    using sh(3) by (intro trim_hexdigits) (auto simp: list_all_iff lower_hexdigit_hexdigit)
  moreover have "secret_embedded_domain hx t \<noteq> None" using rb(4) assms(2) by simp
  moreover have "starts_with (normalize_secret t) ''ee''"
    unfolding sh(5) by (simp add: sh(1) starts_with_def)
  ultimately show ?thesis by (simp add: telegram_proxy_secret_def)
qed

theorem telegram_link_keeps_key_witness:
  "\<exists>t. telegram_proxy_secret base16 ''EE0123456789abcdef0123456789abcdef'' ''x.io'' = Inr t
     \<and> decode_secret base16 t = decode_secret base16 ''EE0123456789abcdef0123456789abcdef''
     \<and> secret_mode t = Ee"
proof -
  let ?s = "''EE0123456789abcdef0123456789abcdef''" and ?t = "''ee0123456789abcdef0123456789abcdef782e696f''"
  have u: "is_rust_str ''x.io''" by code_simp
  have t: "telegram_proxy_secret base16 ?s ''x.io'' = Inr ?t" by code_simp
  have "secret_mode ?s = Ee" by code_simp
  then show ?thesis
    using telegram_link_keeps_key [OF hex_laws_base16 u t] t by auto
qed

end
