(* ===== verification/Tls_Pool.thy ===== *)
theory Tls_Pool
  imports Sg_Laws
begin

text \<open>
  \<^verbatim>\<open>src/tls_pool.rs\<close>: pools of SNI domains and JA4 fingerprints with rotation. An
  \<^verbatim>\<open>Instant\<close> is a number of nanoseconds; the random index of \<^verbatim>\<open>gen_range(0..n)\<close> is the
  parameter \<open>pick\<close>; the rotation counter is a 64-bit word and wraps.
\<close>

datatype rotation_mode = RotNone | PerConnection | TimeBased

record rotation_selector =
  rs_items :: "string list"
  rs_mode :: rotation_mode
  rs_interval :: nat
  rs_counter :: u64
  rs_started :: nat

definition default_rotation_interval_secs :: nat where
  "default_rotation_interval_secs = 300"

definition nanos_per_sec :: nat where
  "nanos_per_sec = 1000000000"

definition selector_new :: "string list \<Rightarrow> rotation_mode \<Rightarrow> nat option \<Rightarrow> nat \<Rightarrow> rotation_selector" where
  "selector_new items mode interval_secs now =
     \<lparr>rs_items = items, rs_mode = mode,
      rs_interval = max (case interval_secs of None \<Rightarrow> default_rotation_interval_secs | Some s \<Rightarrow> s) 1,
      rs_counter = 0, rs_started = now\<rparr>"

text \<open>The loop body of \<^verbatim>\<open>merge_unique\<close>: skip blanks and values already present up to case.\<close>

definition push_unique :: "string list \<Rightarrow> string \<Rightarrow> string list" where
  "push_unique acc item =
     (let trimmed = trim item in
      if trimmed = [] then acc
      else if list_ex (\<lambda>existing. eq_ignore_ascii_case existing trimmed) acc then acc
      else acc @ [trimmed])"

definition merge_unique :: "string \<Rightarrow> string list \<Rightarrow> string list" where
  "merge_unique primary pool =
     foldl push_unique (if trim primary = [] then [] else [trim primary]) pool"

definition sni_matches_pool :: "string \<Rightarrow> string \<Rightarrow> string list \<Rightarrow> bool" where
  "sni_matches_pool domain primary pool =
     list_ex (\<lambda>candidate. eq_ignore_ascii_case candidate domain) (merge_unique primary pool)"

definition all_items :: "string \<Rightarrow> rotation_selector \<Rightarrow> string list" where
  "all_items primary s = merge_unique primary (rs_items s)"

text \<open>\<^verbatim>\<open>counter.fetch_add(1)\<close> returns the old value.\<close>

definition active_item :: "nat \<Rightarrow> string \<Rightarrow> rotation_selector \<Rightarrow> string \<times> rotation_selector" where
  "active_item now primary s =
     (let items = all_items primary s in
      if items = [] then (primary, s)
      else if length items = 1 \<or> rs_mode s = RotNone then (items ! 0, s)
      else (case rs_mode s of
              RotNone \<Rightarrow> (items ! 0, s)
            | PerConnection \<Rightarrow>
                (items ! (unat (rs_counter s) mod length items), s\<lparr>rs_counter := rs_counter s + 1\<rparr>)
            | TimeBased \<Rightarrow>
                (let slot = ((now - rs_started s) div nanos_per_sec) div rs_interval s in
                 (items ! (slot mod length items), s))))"

definition random_item :: "(nat \<Rightarrow> nat) \<Rightarrow> string \<Rightarrow> rotation_selector \<Rightarrow> string" where
  "random_item pick primary s =
     (let items = all_items primary s in
      if items = [] then primary
      else if length items = 1 then items ! 0
      else items ! pick (length items))"

definition select_item ::
    "(nat \<Rightarrow> nat) \<Rightarrow> nat \<Rightarrow> string \<Rightarrow> rotation_selector \<Rightarrow> string \<times> rotation_selector" where
  "select_item pick now primary s =
     (case rs_mode s of
        RotNone \<Rightarrow> (primary, s)
      | PerConnection \<Rightarrow> (random_item pick primary s, s)
      | TimeBased \<Rightarrow> active_item now primary s)"


section \<open>Merging\<close>

definition ci_distinct :: "string list \<Rightarrow> bool" where
  "ci_distinct xs \<longleftrightarrow> distinct (map to_ascii_lowercase xs)"

definition pool_ok :: "string list \<Rightarrow> bool" where
  "pool_ok xs \<longleftrightarrow> ci_distinct xs \<and> list_all (\<lambda>x. x \<noteq> [] \<and> trim x = x) xs"

definition ci_member :: "string \<Rightarrow> string list \<Rightarrow> bool" where
  "ci_member x xs \<longleftrightarrow> to_ascii_lowercase x \<in> to_ascii_lowercase ` set xs"

lemma list_ex_ci: "list_ex (\<lambda>e. eq_ignore_ascii_case e x) xs \<longleftrightarrow> ci_member x xs"
  by (auto simp: list_ex_iff eq_ignore_ascii_case_def ci_member_def image_iff) metis

lemma ci_member_append [simp]: "ci_member x (xs @ ys) \<longleftrightarrow> ci_member x xs \<or> ci_member x ys"
  by (auto simp: ci_member_def)

lemma ci_member_single [simp]: "ci_member x [y] \<longleftrightarrow> eq_ignore_ascii_case x y"
  by (simp add: ci_member_def eq_ignore_ascii_case_def)

lemma ci_member_Nil [simp]: "\<not> ci_member x []"
  by (simp add: ci_member_def)

lemma push_unique_ok: "pool_ok acc \<Longrightarrow> pool_ok (push_unique acc item)"
  by (auto simp: push_unique_def Let_def pool_ok_def ci_distinct_def list_ex_ci ci_member_def)

lemma push_unique_member:
  "ci_member x (push_unique acc item) \<longleftrightarrow>
     ci_member x acc \<or> (trim item \<noteq> [] \<and> eq_ignore_ascii_case x (trim item))"
  by (auto simp: push_unique_def Let_def list_ex_ci)
     (auto simp: ci_member_def eq_ignore_ascii_case_def)

lemma push_unique_id:
  "trim x = x \<Longrightarrow> x \<noteq> [] \<Longrightarrow> \<not> ci_member x acc \<Longrightarrow> push_unique acc x = acc @ [x]"
  by (simp add: push_unique_def list_ex_ci)

lemma foldl_push_ok: "pool_ok acc \<Longrightarrow> pool_ok (foldl push_unique acc pool)"
  by (induction pool arbitrary: acc) (auto intro: push_unique_ok)

lemma foldl_push_member:
  "ci_member x (foldl push_unique acc pool) \<longleftrightarrow>
     ci_member x acc \<or> (\<exists>y \<in> set pool. trim y \<noteq> [] \<and> eq_ignore_ascii_case x (trim y))"
  by (induction pool arbitrary: acc) (auto simp: push_unique_member)

lemma foldl_push_id:
  "pool_ok (acc @ xs) \<Longrightarrow> foldl push_unique acc xs = acc @ xs"
proof (induction xs arbitrary: acc)
  case Nil
  then show ?case by simp
next
  case (Cons x xs)
  then have "push_unique acc x = acc @ [x]"
    by (intro push_unique_id) (auto simp: pool_ok_def ci_distinct_def ci_member_def)
  with Cons.IH [of "acc @ [x]"] Cons.prems show ?case by simp
qed

lemma merge_unique_ok: "pool_ok (merge_unique primary pool)"
  unfolding merge_unique_def
  by (rule foldl_push_ok) (simp add: pool_ok_def ci_distinct_def)

lemma merge_unique_member:
  "ci_member x (merge_unique primary pool) \<longleftrightarrow>
     (\<exists>y \<in> set (primary # pool). trim y \<noteq> [] \<and> eq_ignore_ascii_case x (trim y))"
  by (simp add: merge_unique_def foldl_push_member)

lemma foldl_push_prefix: "\<exists>ys. foldl push_unique acc pool = acc @ ys"
proof (induction pool arbitrary: acc)
  case Nil
  then show ?case by simp
next
  case (Cons x pool)
  have "\<exists>zs. push_unique acc x = acc @ zs" by (auto simp: push_unique_def Let_def)
  then show ?case using Cons by (metis append.assoc foldl_Cons)
qed

lemma merge_unique_hd:
  assumes "trim primary \<noteq> []"
  shows "merge_unique primary pool \<noteq> [] \<and> hd (merge_unique primary pool) = trim primary"
  using assms foldl_push_prefix [of "[trim primary]" pool] by (auto simp: merge_unique_def)

lemma active_item_member:
  "all_items primary s \<noteq> [] \<Longrightarrow> fst (active_item now primary s) \<in> set (all_items primary s)"
  by (auto simp: active_item_def Let_def split: rotation_mode.splits)

lemma random_item_member:
  "all_items primary s \<noteq> [] \<Longrightarrow> (\<And>n. 0 < n \<Longrightarrow> pick n < n) \<Longrightarrow>
   random_item pick primary s \<in> set (all_items primary s)"
  by (auto simp: random_item_def Let_def)

fun active_run :: "nat \<Rightarrow> nat \<Rightarrow> string \<Rightarrow> rotation_selector \<Rightarrow> string list" where
  "active_run 0 now primary s = []"
| "active_run (Suc k) now primary s =
     (case active_item now primary s of (x, s') \<Rightarrow> x # active_run k now primary s')"

lemma active_run_cycle:
  "rs_mode s = PerConnection \<Longrightarrow> 2 \<le> length (all_items primary s) \<Longrightarrow>
   unat (rs_counter s) + k < 2 ^ 64 \<Longrightarrow>
   active_run k now primary s =
     map (\<lambda>i. all_items primary s ! ((unat (rs_counter s) + i) mod length (all_items primary s))) [0..<k]"
proof (induction k arbitrary: s)
  case 0
  then show ?case by simp
next
  case (Suc k)
  let ?items = "all_items primary s" and ?c = "unat (rs_counter s)"
  define s' where "s' = s\<lparr>rs_counter := rs_counter s + 1\<rparr>"
  have item: "active_item now primary s = (?items ! (?c mod length ?items), s')"
    using Suc.prems by (auto simp: active_item_def Let_def s'_def)
  have c': "unat (rs_counter s') = Suc ?c"
    using Suc.prems(3) by (simp add: s'_def unat_word_ariths)
  have it': "all_items primary s' = ?items" by (simp add: s'_def all_items_def)
  have "active_run k now primary s' =
      map (\<lambda>i. ?items ! ((Suc ?c + i) mod length ?items)) [0..<k]"
    using Suc.IH [of s'] Suc.prems c' it' by (simp add: s'_def)
  then show ?case
    by (simp add: item upt_conv_Cons map_Suc_upt [symmetric] comp_def del: upt_Suc)
qed


section \<open>Properties\<close>

text \<open>
  \<^verbatim>\<open>merge_unique\<close> computes the pool without duplicates: no two entries agree up to ASCII
  case, every entry is trimmed and not blank, every non-blank input is represented, nothing else
  is, a non-blank primary value comes first, and merging the result again changes nothing.
\<close>

theorem merge_unique_correct:
  "ci_distinct (merge_unique primary pool)
   \<and> list_all (\<lambda>x. x \<noteq> [] \<and> trim x = x) (merge_unique primary pool)
   \<and> (\<forall>x. ci_member x (merge_unique primary pool) =
          (\<exists>y. y \<in> set (primary # pool) \<and> trim y \<noteq> [] \<and> eq_ignore_ascii_case x (trim y)))
   \<and> (trim primary = [] \<or> hd (merge_unique primary pool) = trim primary)
   \<and> merge_unique [] (merge_unique primary pool) = merge_unique primary pool"
proof -
  have "trim [] = []" using length_trim_le [of "[]"] by simp
  then have "merge_unique [] (merge_unique primary pool) = merge_unique primary pool"
    using foldl_push_id [of "[]" "merge_unique primary pool"] merge_unique_ok
    by (simp add: merge_unique_def)
  then show ?thesis
    using merge_unique_ok [of primary pool] merge_unique_hd [of primary pool]
      merge_unique_member [of _ primary pool]
    unfolding pool_ok_def Bex_def by blast
qed

text \<open>
  Whatever the rotation mode, the counter, the clock and the random index, the selected
  domain is one the detector accepts: it matches the pool it was selected from.
\<close>

theorem selected_item_in_pool:
  assumes "trim primary = primary" and "primary \<noteq> []" and "\<And>n. 0 < n \<Longrightarrow> pick n < n"
  shows "sni_matches_pool (fst (select_item pick now primary s)) primary (rs_items s)"
proof -
  have ne: "all_items primary s \<noteq> []" and hd: "hd (all_items primary s) = primary"
    using merge_unique_hd [of primary "rs_items s"] assms(1,2) by (auto simp: all_items_def)
  then have "primary \<in> set (all_items primary s)" by (metis list.set_sel(1))
  then have "fst (select_item pick now primary s) \<in> set (all_items primary s)"
    using active_item_member [OF ne] random_item_member [OF ne assms(3)]
    by (auto simp: select_item_def split: rotation_mode.splits)
  then show ?thesis
    by (auto simp: sni_matches_pool_def all_items_def list_ex_iff intro!: bexI)
qed

theorem selected_item_in_pool_witness:
  "sni_matches_pool
     (fst (select_item (\<lambda>n. n - 1) 0 ''a.com'' (selector_new [''b.com''] PerConnection None 0)))
     ''a.com'' [''b.com'']"
proof -
  have "trim ''a.com'' = ''a.com''" by code_simp
  then show ?thesis
    using selected_item_in_pool
      [of "''a.com''" "\<lambda>n. n - 1" 0 "selector_new [''b.com''] PerConnection None 0"]
    by (simp add: selector_new_def)
qed

text \<open>
  Per-connection rotation is fair: \<open>k\<close> consecutive calls walk the pool cyclically from the
  counter's position, as long as the 64-bit counter does not wrap.
\<close>

theorem per_connection_rotation_cycles:
  assumes "rs_mode s = PerConnection" and "2 \<le> length (all_items primary s)"
    and "unat (rs_counter s) + k < 2 ^ 64"
  shows "active_run k now primary s =
     map (\<lambda>i. all_items primary s ! ((unat (rs_counter s) + i) mod length (all_items primary s))) [0..<k]"
  using assms by (rule active_run_cycle)

theorem per_connection_rotation_cycles_witness:
  "active_run 4 0 ''a'' (selector_new [''b'', ''c''] PerConnection None 0) = [''a'', ''b'', ''c'', ''a'']"
proof -
  let ?s = "selector_new [''b'', ''c''] PerConnection None 0"
  have items: "all_items ''a'' ?s = [''a'', ''b'', ''c'']" by code_simp
  have "rs_mode ?s = PerConnection" "unat (rs_counter ?s) = 0" by (simp_all add: selector_new_def)
  then show ?thesis
    using per_connection_rotation_cycles [of ?s "''a''" 4 0] unfolding items by (simp add: upt_rec)
qed

end
