(* ===== verification/Config_Model.thy ===== *)
theory Config_Model
  imports Secrets Tls_Pool
begin

text \<open>
  \<^verbatim>\<open>src/config.rs\<close>: the configuration records with their defaults, validation, loading and
  saving. Fields of a fixed width are words; \<^verbatim>\<open>usize\<close> fields are naturals (TOML integers
  are below \<^verbatim>\<open>2^63\<close>). The TOML parser and printer and the existence test of a path are
  parameters; the file system is a map from paths to contents.
\<close>

datatype domain_fronting_mode = FrontNone | FrontSni | FrontFixed
datatype backend_failover_strategy = Priority | RoundRobin
datatype split_mode = Monolith | Front | Back

record listen_config =
  listen_host :: string
  listen_port :: u16

record tls_config =
  fake_domain :: string
  cert_file :: "string option"
  key_file :: "string option"
  ja4_profile :: "string option"
  sni_pool :: "string list"
  sni_rotation :: rotation_mode
  fingerprint_pool :: "string list"
  fingerprint_rotation :: rotation_mode
  rotation_interval_secs :: u64

record secret_entry =
  se_label :: string
  se_secret :: string
  se_backend :: "string option"
  se_max_connections :: u32

record mtproto_config =
  mt_secret :: string
  mt_backend :: string
  mt_backends :: "string list"
  failover_strategy :: backend_failover_strategy
  mt_secrets :: "secret_entry list"

record secret_route =
  sr_label :: string
  sr_secret :: string
  sr_mode :: secret_kind
  sr_backend :: string
  sr_max_connections :: u32

record fallback_config =
  fb_upstream :: "string option"
  static_html :: "string option"
  domain_fronting :: domain_fronting_mode
  fronting_host :: "string option"
  fronting_port :: u16

record fragmentation_config =
  fr_enabled :: bool
  chunk_sizes :: "nat list"
  delay_ms :: u64

record drs_config =
  drs_enabled :: bool
  record_sizes :: "nat list"
  ee_relay :: bool
  jitter_ms :: u64

record dd_config =
  min_chunk_size :: nat
  max_chunk_size :: nat

record webhooks_config =
  wh_enabled :: bool
  wh_urls :: "string list"
  wh_events :: "string list"

record security_config =
  antireplay_cache_size :: nat
  ja4_enforce :: bool
  max_connections_per_ip :: u32
  ip_blacklist :: "string list"
  allowed_protocols :: "string list"

record network_config =
  socks5_proxy :: "string option"
  backend_timeout_secs :: u64

record metrics_config =
  me_enabled :: bool
  me_host :: string
  me_port :: u16

record split_config =
  sp_mode :: split_mode
  auth_token :: "string option"
  back_servers :: "string list"
  back_listen_host :: "string option"
  back_listen_port :: "u16 option"
  front_allowlist :: "string list"
  connect_timeout_secs :: u64
  encrypt_relay :: bool

record admin_config =
  ad_socket :: "string option"
  uninstall_enabled :: bool
  uninstall_script :: "string option"
  uninstall_use_sudo :: bool

record webui_config =
  ui_enabled :: bool
  ui_host :: string
  ui_port :: u16
  session_secret :: string
  users_file :: string

record config =
  listen :: listen_config
  tls :: tls_config
  mtproto :: mtproto_config
  fallback :: fallback_config
  fragmentation :: fragmentation_config
  drs :: drs_config
  dd :: dd_config
  security :: security_config
  network :: network_config
  metrics :: metrics_config
  admin :: admin_config
  webui :: webui_config
  webhooks :: webhooks_config
  split :: split_config

section \<open>Defaults\<close>

definition fragmentation_default :: fragmentation_config where
  "fragmentation_default = \<lparr>fr_enabled = False, chunk_sizes = [1, 2, 1], delay_ms = 0\<rparr>"

definition default_drs_sizes :: "nat list" where
  "default_drs_sizes = [512, 1024, 1398, 256]"

definition drs_default :: drs_config where
  "drs_default = \<lparr>drs_enabled = False, record_sizes = default_drs_sizes, ee_relay = True, jitter_ms = 0\<rparr>"

definition dd_default :: dd_config where
  "dd_default = \<lparr>min_chunk_size = 64, max_chunk_size = 1024\<rparr>"

definition webhooks_default :: webhooks_config where
  "webhooks_default = \<lparr>wh_enabled = False, wh_urls = [],
     wh_events = [''config_reloaded'', ''secret_updated'', ''backend_failover'']\<rparr>"

definition security_default :: security_config where
  "security_default = \<lparr>antireplay_cache_size = 65536, ja4_enforce = False,
     max_connections_per_ip = 0, ip_blacklist = [], allowed_protocols = []\<rparr>"

definition network_default :: network_config where
  "network_default = \<lparr>socks5_proxy = None, backend_timeout_secs = 30\<rparr>"

definition metrics_default :: metrics_config where
  "metrics_default = \<lparr>me_enabled = False, me_host = ''127.0.0.1'', me_port = 9091\<rparr>"

definition split_default :: split_config where
  "split_default = \<lparr>sp_mode = Monolith, auth_token = None, back_servers = [],
     back_listen_host = None, back_listen_port = None, front_allowlist = [],
     connect_timeout_secs = 10, encrypt_relay = True\<rparr>"

definition admin_default :: admin_config where
  "admin_default = \<lparr>ad_socket = None, uninstall_enabled = False, uninstall_script = None,
     uninstall_use_sudo = True\<rparr>"

definition webui_default :: webui_config where
  "webui_default = \<lparr>ui_enabled = False, ui_host = ''127.0.0.1'', ui_port = 8088,
     session_secret = ''change-me-in-production'', users_file = ''data/users.json''\<rparr>"

definition test_minimal :: "string \<Rightarrow> config" where
  "test_minimal users = \<lparr>
     listen = \<lparr>listen_host = ''127.0.0.1'', listen_port = 8443\<rparr>,
     tls = \<lparr>fake_domain = ''example.com'', cert_file = None, key_file = None, ja4_profile = None,
            sni_pool = [], sni_rotation = RotNone, fingerprint_pool = [],
            fingerprint_rotation = RotNone, rotation_interval_secs = 300\<rparr>,
     mtproto = \<lparr>mt_secret = ''0123456789abcdef0123456789abcdef'', mt_backend = ''127.0.0.1:443'',
            mt_backends = [], failover_strategy = Priority, mt_secrets = []\<rparr>,
     fallback = \<lparr>fb_upstream = None, static_html = None, domain_fronting = FrontNone,
            fronting_host = None, fronting_port = 443\<rparr>,
     fragmentation = fragmentation_default, drs = drs_default, dd = dd_default,
     security = security_default, network = network_default, metrics = metrics_default,
     admin = admin_default, webui = webui_default\<lparr>users_file := users\<rparr>,
     webhooks = webhooks_default, split = split_default\<rparr>"

section \<open>Derived values\<close>

text \<open>\<^verbatim>\<open>format!("{host}:{port}").parse::<SocketAddr>()\<close>\<close>

definition host_port_addr :: "string \<Rightarrow> string \<Rightarrow> u16 \<Rightarrow> socket_addr result" where
  "host_port_addr what host port =
     ok_or (Config (''bad address: '' @ what))
       (parse_socket_addr (host @ '':'' @ dec_string (unat port)))"

definition listen_socket_addr :: "listen_config \<Rightarrow> socket_addr result" where
  "listen_socket_addr l = host_port_addr ''listen'' (listen_host l) (listen_port l)"

definition webui_socket_addr :: "webui_config \<Rightarrow> socket_addr result" where
  "webui_socket_addr w = host_port_addr ''webui'' (ui_host w) (ui_port w)"

definition tls_validate :: "tls_config \<Rightarrow> unit result" where
  "tls_validate t =
     (if trim (fake_domain t) = [] then Inl (Config ''tls.fake_domain must not be empty'')
      else bindR (try_all (\<lambda>d. if trim d = [] then Inl (Config ''tls.sni_pool has an empty value'')
                               else Inr ()) (sni_pool t)) (\<lambda>_.
           bindR (try_all (\<lambda>p. if trim p = [] then Inl (Config ''tls.fingerprint_pool has an empty value'')
                               else Inr ()) (fingerprint_pool t)) (\<lambda>_.
           if rotation_interval_secs t = 0 then Inl (Config ''tls.rotation_interval_secs must be > 0'')
           else Inr ())))"

definition tls_is_enabled :: "(string \<Rightarrow> bool) \<Rightarrow> tls_config \<Rightarrow> bool" where
  "tls_is_enabled path_exists t =
     (case (cert_file t, key_file t) of
        (Some cert, Some key) \<Rightarrow> path_exists cert \<and> path_exists key
      | _ \<Rightarrow> False)"

definition all_sni_domains :: "tls_config \<Rightarrow> string list" where
  "all_sni_domains t = merge_unique (fake_domain t) (sni_pool t)"

text \<open>Unlike \<^verbatim>\<open>merge_unique\<close>, the primary profile is kept untrimmed.\<close>

definition all_fingerprint_profiles :: "tls_config \<Rightarrow> string list" where
  "all_fingerprint_profiles t =
     foldl push_unique
       (case ja4_profile t of Some p \<Rightarrow> if trim p = [] then [] else [p] | None \<Rightarrow> [])
       (fingerprint_pool t)"

definition all_backends :: "mtproto_config \<Rightarrow> string list" where
  "all_backends m =
     foldl (\<lambda>acc b. if b \<in> set acc then acc else acc @ [b]) [mt_backend m] (mt_backends m)"

definition all_secrets :: "mtproto_config \<Rightarrow> secret_route list" where
  "all_secrets m =
     \<lparr>sr_label = ''default'', sr_secret = mt_secret m, sr_mode = secret_mode (mt_secret m),
      sr_backend = mt_backend m, sr_max_connections = 0\<rparr>
     # map (\<lambda>e. \<lparr>sr_label = se_label e, sr_secret = se_secret e, sr_mode = secret_mode (se_secret e),
                  sr_backend = (case se_backend e of Some b \<Rightarrow> b | None \<Rightarrow> mt_backend m),
                  sr_max_connections = se_max_connections e\<rparr>) (mt_secrets m)"

definition back_socket_addr :: "split_config \<Rightarrow> socket_addr result" where
  "back_socket_addr s =
     bindR (ok_or (Config ''split.back_listen_host is required in back mode'')
              (case back_listen_host s of Some h \<Rightarrow> if h = [] then None else Some h | None \<Rightarrow> None))
       (\<lambda>host. bindR (ok_or (Config ''split.back_listen_port is required in back mode'')
                        (back_listen_port s))
       (\<lambda>port. host_port_addr ''split back'' host port))"

section \<open>Validation\<close>

definition check_ip :: "string \<Rightarrow> string \<Rightarrow> unit result" where
  "check_ip what ip =
     bindR (ok_or (Config (''bad IP in '' @ what @ '': '' @ ip)) (parse_ip ip)) (\<lambda>_. Inr ())"

definition token_long_enough :: "split_config \<Rightarrow> bool" where
  "token_long_enough s \<longleftrightarrow>
     16 \<le> length (trim (case auth_token s of Some t \<Rightarrow> t | None \<Rightarrow> []))"

definition split_validate :: "split_config \<Rightarrow> unit result" where
  "split_validate s =
     (case sp_mode s of
        Monolith \<Rightarrow> Inr ()
      | Front \<Rightarrow>
          if \<not> token_long_enough s then Inl (Config ''split.auth_token too short in front mode'')
          else if back_servers s = [] then Inl (Config ''split.back_servers is required in front mode'')
          else Inr ()
      | Back \<Rightarrow>
          if \<not> token_long_enough s then Inl (Config ''split.auth_token too short in back mode'')
          else bindR (back_socket_addr s) (\<lambda>_. try_all (check_ip ''front_allowlist'') (front_allowlist s)))"

definition guard_that :: "bool \<Rightarrow> string \<Rightarrow> unit result" where
  "guard_that ok msg = (if ok then Inr () else Inl (Config msg))"

definition config_validate :: "config \<Rightarrow> unit result" where
  "config_validate c =
     bindR (validate_secret (mt_secret (mtproto c))) (\<lambda>_.
     bindR (try_all (\<lambda>e. bindR (validate_secret (se_secret e)) (\<lambda>_.
                         guard_that (trim (se_label e) \<noteq> []) ''mtproto.secrets[].label must not be empty''))
              (mt_secrets (mtproto c))) (\<lambda>_.
     bindR (guard_that (\<not> (domain_fronting (fallback c) = FrontFixed
              \<and> (case fronting_host (fallback c) of None \<Rightarrow> True | Some h \<Rightarrow> trim h = [])))
              ''fallback.fronting_host is required with domain_fronting = fixed'') (\<lambda>_.
     bindR (guard_that (\<not> (chunk_sizes (fragmentation c) \<noteq> [] \<and> 0 \<in> set (chunk_sizes (fragmentation c))))
              ''fragmentation.chunk_sizes must not contain 0'') (\<lambda>_.
     bindR (try_all (check_ip ''blacklist'') (ip_blacklist (security c))) (\<lambda>_.
     bindR (guard_that (\<not> max_chunk_size (dd c) < min_chunk_size (dd c))
              ''dd.min_chunk_size must not exceed dd.max_chunk_size'') (\<lambda>_.
     bindR (guard_that (\<not> (record_sizes (drs c) \<noteq> [] \<and> 0 \<in> set (record_sizes (drs c))))
              ''drs.record_sizes must not contain 0'') (\<lambda>_.
     bindR (guard_that (all_backends (mtproto c) \<noteq> []) ''at least one backend is required'') (\<lambda>_.
     bindR (try_all (\<lambda>r. guard_that (is_protocol_allowed (sr_secret r) (allowed_protocols (security c)))
                          (''protocol of secret '' @ sr_secret r @ '' is not allowed''))
              (all_secrets (mtproto c))) (\<lambda>_.
     bindR (split_validate (split c)) (\<lambda>_.
     bindR (tls_validate (tls c)) (\<lambda>_.
     guard_that (backend_timeout_secs (network c) \<noteq> 0)
       ''network.backend_timeout_secs must be > 0'')))))))))))"

definition mtproto_secret_bytes :: "hex_lib \<Rightarrow> config \<Rightarrow> bytes result" where
  "mtproto_secret_bytes hx c = decode_secret hx (mt_secret (mtproto c))"

section \<open>Files\<close>

type_synonym file_system = "string \<Rightarrow> string option"

text \<open>
  \<open>toml_parse\<close> and \<open>toml_print\<close> stand for the crate. \<open>fs_write\<close> is \<^verbatim>\<open>fs::write\<close>: whether it
  succeeded and the file system afterwards (a failed write may leave a truncated file).
\<close>

definition from_file :: "(string \<Rightarrow> config option) \<Rightarrow> file_system \<Rightarrow> string \<Rightarrow> config result" where
  "from_file toml_parse fs path =
     bindR (ok_or (Config (''cannot read '' @ path)) (fs path)) (\<lambda>content.
     bindR (ok_or (Config ''TOML parse error'') (toml_parse content)) (\<lambda>c.
     bindR (config_validate c) (\<lambda>_. Inr c)))"

definition save_to_file ::
    "(config \<Rightarrow> string option) \<Rightarrow> (file_system \<Rightarrow> string \<Rightarrow> string \<Rightarrow> bool \<times> file_system)
     \<Rightarrow> config \<Rightarrow> string \<Rightarrow> file_system \<Rightarrow> unit result \<times> file_system" where
  "save_to_file toml_print fs_write c path fs =
     (case bindR (config_validate c) (\<lambda>_. ok_or (Config ''TOML serialisation'') (toml_print c)) of
        Inl e \<Rightarrow> (Inl e, fs)
      | Inr content \<Rightarrow>
          (case fs_write fs path content of
             (ok, fs') \<Rightarrow> (if ok then Inr () else Inl (Config (''cannot write '' @ path)), fs')))"

definition fs_write_law :: "(file_system \<Rightarrow> string \<Rightarrow> string \<Rightarrow> bool \<times> file_system) \<Rightarrow> bool" where
  "fs_write_law fs_write \<longleftrightarrow>
     (\<forall>fs path content. fst (fs_write fs path content) \<longrightarrow>
        snd (fs_write fs path content) path = Some content)"

definition toml_law :: "(config \<Rightarrow> string option) \<Rightarrow> (string \<Rightarrow> config option) \<Rightarrow> bool" where
  "toml_law toml_print toml_parse \<longleftrightarrow>
     (\<forall>c s. toml_print c = Some s \<longrightarrow> toml_parse s = Some c)"

section \<open>What validation guarantees\<close>

lemma guard_that_Inr [simp]: "guard_that ok msg = Inr () \<longleftrightarrow> ok"
  by (simp add: guard_that_def)

lemma check_ip_Inr [simp]: "check_ip what ip = Inr () \<longleftrightarrow> parse_ip ip \<noteq> None"
  by (auto simp: check_ip_def)

lemma foldl_insert_new:
  "distinct acc \<Longrightarrow>
   distinct (foldl (\<lambda>acc b. if b \<in> set acc then acc else acc @ [b]) acc bs)
   \<and> set (foldl (\<lambda>acc b. if b \<in> set acc then acc else acc @ [b]) acc bs) = set acc \<union> set bs
   \<and> (acc \<noteq> [] \<longrightarrow> hd (foldl (\<lambda>acc b. if b \<in> set acc then acc else acc @ [b]) acc bs) = hd acc)"
  by (induction bs arbitrary: acc) auto

lemma all_backends_props:
  "distinct (all_backends m)" "set (all_backends m) = insert (mt_backend m) (set (mt_backends m))"
  "all_backends m \<noteq> []" "hd (all_backends m) = mt_backend m"
proof -
  note f = foldl_insert_new [of "[mt_backend m]" "mt_backends m"]
  show "distinct (all_backends m)" "hd (all_backends m) = mt_backend m"
    and st: "set (all_backends m) = insert (mt_backend m) (set (mt_backends m))"
    using f by (simp_all add: all_backends_def)
  show "all_backends m \<noteq> []" using st by fastforce
qed

lemma config_validate_D:
  assumes "config_validate c = Inr ()"
  shows "validate_secret (mt_secret (mtproto c)) = Inr ()"
    "e \<in> set (mt_secrets (mtproto c)) \<Longrightarrow> validate_secret (se_secret e) = Inr ()"
    "ip \<in> set (ip_blacklist (security c)) \<Longrightarrow> parse_ip ip \<noteq> None"
    "min_chunk_size (dd c) \<le> max_chunk_size (dd c)"
    "0 \<notin> set (chunk_sizes (fragmentation c))" "0 \<notin> set (record_sizes (drs c))"
    "r \<in> set (all_secrets (mtproto c)) \<Longrightarrow>
       is_protocol_allowed (sr_secret r) (allowed_protocols (security c))"
    "split_validate (split c) = Inr ()" "tls_validate (tls c) = Inr ()"
    "backend_timeout_secs (network c) \<noteq> 0"
  using assms unfolding config_validate_def by auto

lemma all_secrets_validated:
  assumes "config_validate c = Inr ()" and "r \<in> set (all_secrets (mtproto c))"
  shows "validate_secret (sr_secret r) = Inr ()"
  using assms(2) config_validate_D(1,2) [OF assms(1)] by (auto simp: all_secrets_def)

lemma split_validate_Back:
  "split_validate s = Inr () \<Longrightarrow> sp_mode s = Back \<Longrightarrow>
   is_ok (back_socket_addr s) \<and> (\<forall>ip \<in> set (front_allowlist s). parse_ip ip \<noteq> None)"
  by (auto simp: split_validate_def split: if_splits)

lemma split_validate_token:
  "split_validate s = Inr () \<Longrightarrow> sp_mode s \<noteq> Monolith \<Longrightarrow> token_long_enough s"
  by (cases "sp_mode s") (auto simp: split_validate_def split: if_splits)

lemma tls_validate_sni: "tls_validate t = Inr () \<Longrightarrow> all_sni_domains t \<noteq> []"
  using merge_unique_hd [of "fake_domain t" "sni_pool t"]
  by (auto simp: tls_validate_def all_sni_domains_def split: if_splits)

lemma test_minimal_valid: "config_validate (test_minimal users) = Inr ()"
proof -
  have v: "validate_secret ''0123456789abcdef0123456789abcdef'' = Inr ()" by code_simp
  have t: "trim ''example.com'' = ''example.com''" by code_simp
  show ?thesis
    unfolding config_validate_def
    by (simp add: test_minimal_def v t all_backends_def all_secrets_def is_protocol_allowed_def
        security_default_def fragmentation_default_def drs_default_def default_drs_sizes_def dd_default_def
        split_default_def network_default_def split_validate_def tls_validate_def)
qed


lemma saved_config_cases:
  assumes "toml_law toml_print toml_parse" and "fs_write_law fs_write"
  shows "(case save_to_file toml_print fs_write c path fs of
            (Inr _, fs') \<Rightarrow> from_file toml_parse fs' path = Inr c
          | (Inl e, fs') \<Rightarrow> is_ok (config_validate c) \<or> fs' = fs \<and> config_validate c = Inl e)"
proof (cases "config_validate c")
  case (Inl e)
  then show ?thesis by (simp add: save_to_file_def)
next
  case (Inr u)
  then have v: "config_validate c = Inr ()" by simp
  show ?thesis
  proof (cases "toml_print c")
    case None
    then show ?thesis by (simp add: save_to_file_def v)
  next
    case (Some s)
    obtain ok fs' where w: "fs_write fs path s = (ok, fs')" by (cases "fs_write fs path s")
    then have "ok \<Longrightarrow> fs' path = Some s" using assms(2) by (metis fs_write_law_def fst_conv snd_conv)
    then show ?thesis
      using Some w assms(1) by (simp add: save_to_file_def from_file_def v toml_law_def)
  qed
qed

lemma saved_config_loads:
  assumes "toml_law toml_print toml_parse" and "fs_write_law fs_write"
    and "save_to_file toml_print fs_write c path fs = (Inr (), fs1)"
  shows "from_file toml_parse fs1 path = Inr c"
  using saved_config_cases [OF assms(1,2), where c = c and path = path and fs = fs] assms(3) by simp

section \<open>Properties\<close>

text \<open>
  The backend list is the set of configured backends without repetition, primary first.
\<close>

lemma all_backends_correct:
  "distinct (all_backends m) \<and> hd (all_backends m) = mt_backend m
   \<and> set (all_backends m) = insert (mt_backend m) (set (mt_backends m))"
  by (simp add: all_backends_props)

text \<open>
  A validated configuration can be served: every secret route (the default one and the
  additional ones) decodes to a 16-byte key and uses an allowed protocol, blacklist entries are
  addresses, the dd bounds are ordered, no chunk size is zero, there is an SNI to impersonate,
  front and back nodes have a token of at least 16 characters, a front has a back server and a
  back node an address to listen on.
\<close>

theorem validated_config_serves:
  assumes "hex_laws hx" and "config_validate c = Inr ()"
  shows "(\<forall>r \<in> set (all_secrets (mtproto c)).
            (\<exists>bs. decode_secret hx (sr_secret r) = Inr bs \<and> length bs = 16)
            \<and> is_protocol_allowed (sr_secret r) (allowed_protocols (security c)))
    \<and> (\<forall>ip \<in> set (ip_blacklist (security c)). parse_ip ip \<noteq> None)
    \<and> min_chunk_size (dd c) \<le> max_chunk_size (dd c)
    \<and> 0 \<notin> set (chunk_sizes (fragmentation c)) \<and> 0 \<notin> set (record_sizes (drs c))
    \<and> all_sni_domains (tls c) \<noteq> []
    \<and> (sp_mode (split c) \<noteq> Monolith \<longrightarrow> token_long_enough (split c))
    \<and> (sp_mode (split c) = Front \<longrightarrow> back_servers (split c) \<noteq> [])
    \<and> (sp_mode (split c) = Back \<longrightarrow> is_ok (back_socket_addr (split c)))"
proof -
  note v = config_validate_D [OF assms(2)]
  have "\<exists>bs. decode_secret hx (sr_secret r) = Inr bs \<and> length bs = 16"
    if "r \<in> set (all_secrets (mtproto c))" for r
    using all_secrets_validated [OF assms(2) that] decode_core [OF assms(1)]
    unfolding validate_secret_iff by (auto simp: secret_core_hex_Inr_iff)
  moreover have "sp_mode (split c) = Front \<longrightarrow> back_servers (split c) \<noteq> []"
    using v(8) by (auto simp: split_validate_def split: if_splits)
  ultimately show ?thesis
    using v(3-10) tls_validate_sni split_validate_token split_validate_Back by simp
qed

theorem validated_config_serves_witness:
  "\<exists>bs. decode_secret base16 (mt_secret (mtproto (test_minimal ''u''))) = Inr bs \<and> length bs = 16"
  using validated_config_serves [OF hex_laws_base16 test_minimal_valid, of "''u''"]
  by (simp add: all_secrets_def)

text \<open>
  Saving and loading: an invalid configuration is never written, and a configuration that
  was saved is validated and is the one that is loaded back.
\<close>

theorem save_load_roundtrip:
  assumes "toml_law toml_print toml_parse" and "fs_write_law fs_write"
  shows "(case save_to_file toml_print fs_write c path fs of
            (Inr _, fs') \<Rightarrow> from_file toml_parse fs' path = Inr c
          | (Inl e, fs') \<Rightarrow> is_ok (config_validate c) \<or> fs' = fs \<and> config_validate c = Inl e)"
  using assms by (rule saved_config_cases)

theorem save_load_roundtrip_witness:
  "from_file (\<lambda>s. if s = ''c'' then Some (test_minimal ''u'') else None)
     (snd (save_to_file (\<lambda>c. if c = test_minimal ''u'' then Some ''c'' else None)
             (\<lambda>fs p s. (True, fs(p \<mapsto> s))) (test_minimal ''u'') ''/etc/sg.toml'' Map.empty))
     ''/etc/sg.toml'' = Inr (test_minimal ''u'')"
proof -
  let ?print = "\<lambda>c. if c = test_minimal ''u'' then Some ''c'' else None"
    and ?parse = "\<lambda>s. if s = ''c'' then Some (test_minimal ''u'') else None"
    and ?put = "\<lambda>fs p s. (True, fs(p \<mapsto> s))"
  have l: "toml_law ?print ?parse" by (auto simp: toml_law_def split: if_splits)
  have w: "fs_write_law ?put" by (simp add: fs_write_law_def)
  show ?thesis
    using save_load_roundtrip [OF l w, where c = "test_minimal ''u''" and path = "''/etc/sg.toml''"
        and fs = Map.empty]
    by (simp add: save_to_file_def test_minimal_valid)
qed

end
