(* ===== verification/Conn_Limits.thy ===== *)
theory Conn_Limits
  imports Std_Net "HOL-Library.Multiset"
begin

text \<open>
  \<^verbatim>\<open>src/limits.rs\<close>: counters of simultaneous connections per client address and per secret.
  Each counter map has its own lock, so the atomic steps are the four lock sections; the
  sequential functions compose them as the source does, and \<open>lim_step\<close> interleaves the steps
  of any number of connections. A connection carries the limits it was admitted under
  (\<open>ticket\<close>), because the limits may be reloaded while it is open.
\<close>

record limiter =
  per_ip :: "ip_addr \<Rightarrow> u32 option"
  per_secret :: "string \<Rightarrow> u32 option"

definition limiter_new :: limiter where
  "limiter_new = \<lparr>per_ip = Map.empty, per_secret = Map.empty\<rparr>"

text \<open>\<^verbatim>\<open>entry(k).or_insert(0)\<close>, the test against the limit and the increment.\<close>

definition take_slot :: "'k \<Rightarrow> u32 \<Rightarrow> ('k \<Rightarrow> u32 option) \<Rightarrow> bool \<times> ('k \<Rightarrow> u32 option)" where
  "take_slot k limit m =
     (let count = (case m k of Some n \<Rightarrow> n | None \<Rightarrow> 0) in
      if limit \<le> count then (False, m(k \<mapsto> count)) else (True, m(k \<mapsto> count + 1)))"

text \<open>\<^verbatim>\<open>count.saturating_sub(1)\<close>, and the entry goes when it reaches zero.\<close>

definition drop_slot :: "'k \<Rightarrow> ('k \<Rightarrow> u32 option) \<Rightarrow> 'k \<Rightarrow> u32 option" where
  "drop_slot k m =
     (case m k of None \<Rightarrow> m
      | Some n \<Rightarrow> let n' = (if n = 0 then 0 else n - 1) in if n' = 0 then m(k := None) else m(k \<mapsto> n'))"

definition release_ip :: "ip_addr \<Rightarrow> u32 \<Rightarrow> limiter \<Rightarrow> limiter" where
  "release_ip ip max_per_ip l =
     (if max_per_ip = 0 then l else l\<lparr>per_ip := drop_slot ip (per_ip l)\<rparr>)"

definition release_secret :: "string \<Rightarrow> u32 \<Rightarrow> limiter \<Rightarrow> limiter" where
  "release_secret label max_per_secret l =
     (if 0 < max_per_secret then l\<lparr>per_secret := drop_slot label (per_secret l)\<rparr> else l)"

definition acquire_ip :: "ip_addr \<Rightarrow> u32 \<Rightarrow> limiter \<Rightarrow> unit result \<times> limiter" where
  "acquire_ip ip max_per_ip l =
     (if 0 < max_per_ip then
        (case take_slot ip max_per_ip (per_ip l) of
           (ok, m) \<Rightarrow> (if ok then Inr () else Inl (Proxy ''connection limit for IP exceeded''), l\<lparr>per_ip := m\<rparr>))
      else (Inr (), l))"

definition acquire_secret :: "string \<Rightarrow> u32 \<Rightarrow> limiter \<Rightarrow> unit result \<times> limiter" where
  "acquire_secret label max_per_secret l =
     (if 0 < max_per_secret then
        (case take_slot label max_per_secret (per_secret l) of
           (ok, m) \<Rightarrow>
             (if ok then Inr () else Inl (Proxy (''connection limit for secret exceeded: '' @ label)),
              l\<lparr>per_secret := m\<rparr>))
      else (Inr (), l))"

definition acquire ::
    "ip_addr \<Rightarrow> string \<Rightarrow> u32 \<Rightarrow> u32 \<Rightarrow> ip_addr list \<Rightarrow> limiter \<Rightarrow> unit result \<times> limiter" where
  "acquire ip label max_per_ip max_per_secret blacklist l =
     (if ip \<in> set blacklist then (Inl (Proxy ''IP in blacklist''), l)
      else case acquire_ip ip max_per_ip l of
             (Inl e, l1) \<Rightarrow> (Inl e, l1)
           | (Inr _, l1) \<Rightarrow>
               (case acquire_secret label max_per_secret l1 of
                  (Inl e, l2) \<Rightarrow> (Inl e, if 0 < max_per_ip then release_ip ip max_per_ip l2 else l2)
                | (Inr _, l2) \<Rightarrow> (Inr (), l2)))"

definition release :: "ip_addr \<Rightarrow> string \<Rightarrow> u32 \<Rightarrow> u32 \<Rightarrow> limiter \<Rightarrow> limiter" where
  "release ip label max_per_ip max_per_secret l =
     release_secret label max_per_secret
       (if 0 < max_per_ip then release_ip ip max_per_ip l else l)"


section \<open>Interleavings\<close>

record ticket =
  tk_ip :: ip_addr
  tk_label :: string
  tk_max_ip :: u32
  tk_max_secret :: u32

text \<open>
  Where a connection stands: it holds its address slot; it was refused for its secret and still
  holds the address slot; it is admitted; it gave the address slot back.
\<close>

datatype phase = IpHeld | Refused | Admitted | IpReleased

type_synonym sessions = "(ticket \<times> phase) multiset"

inductive lim_step :: "limiter \<times> sessions \<Rightarrow> limiter \<times> sessions \<Rightarrow> bool" where
  Ip_ok: "acquire_ip (tk_ip t) (tk_max_ip t) l = (Inr (), l') \<Longrightarrow>
    lim_step (l, M) (l', add_mset (t, IpHeld) M)"
| Ip_full: "acquire_ip (tk_ip (t :: ticket)) (tk_max_ip t) l = (Inl e, l') \<Longrightarrow> lim_step (l, M) (l', M)"
| Secret_ok: "acquire_secret (tk_label t) (tk_max_secret t) l = (Inr (), l') \<Longrightarrow>
    lim_step (l, add_mset (t, IpHeld) M) (l', add_mset (t, Admitted) M)"
| Secret_full: "acquire_secret (tk_label t) (tk_max_secret t) l = (Inl e, l') \<Longrightarrow>
    lim_step (l, add_mset (t, IpHeld) M) (l', add_mset (t, Refused) M)"
| Undo_ip: "lim_step (l, add_mset (t, Refused) M) (release_ip (tk_ip t) (tk_max_ip t) l, M)"
| Close_ip: "lim_step (l, add_mset (t, Admitted) M)
    (release_ip (tk_ip t) (tk_max_ip t) l, add_mset (t, IpReleased) M)"
| Close_secret: "lim_step (l, add_mset (t, IpReleased) M)
    (release_secret (tk_label t) (tk_max_secret t) l, M)"

inductive lim_reachable :: "limiter \<times> sessions \<Rightarrow> bool" where
  Start: "lim_reachable (limiter_new, {#})"
| Step: "lim_reachable s \<Longrightarrow> lim_step s s' \<Longrightarrow> lim_reachable s'"

inductive_cases lim_stepE: "lim_step (l, M) (l', M')"

text \<open>The connections that occupy a slot of an address, and of a secret, under a limit up to \<open>m\<close>.\<close>

definition on_ip :: "ip_addr \<Rightarrow> u32 \<Rightarrow> ticket \<times> phase \<Rightarrow> bool" where
  "on_ip ip m = (\<lambda>(t, p). tk_ip t = ip \<and> 0 < tk_max_ip t \<and> tk_max_ip t \<le> m \<and> p \<noteq> IpReleased)"

definition on_secret :: "string \<Rightarrow> u32 \<Rightarrow> ticket \<times> phase \<Rightarrow> bool" where
  "on_secret label m = (\<lambda>(t, p). tk_label t = label \<and> 0 < tk_max_secret t \<and> tk_max_secret t \<le> m
     \<and> (p = Admitted \<or> p = IpReleased))"

definition holders :: "('k \<Rightarrow> u32 \<Rightarrow> ticket \<times> phase \<Rightarrow> bool) \<Rightarrow> 'k \<Rightarrow> u32 \<Rightarrow> sessions \<Rightarrow> nat" where
  "holders P k m M = size (filter_mset (P k m) M)"

definition slots :: "('k \<Rightarrow> u32 option) \<Rightarrow> 'k \<Rightarrow> nat" where
  "slots m k = (case m k of None \<Rightarrow> 0 | Some n \<Rightarrow> unat n)"

text \<open>The map counts the holders, has no zero entries and respects every limit.\<close>

definition counts :: "('k \<Rightarrow> u32 \<Rightarrow> ticket \<times> phase \<Rightarrow> bool) \<Rightarrow> ('k \<Rightarrow> u32 option) \<Rightarrow> sessions \<Rightarrow> bool" where
  "counts P m M \<longleftrightarrow>
     (\<forall>k. slots m k = holders P k (- 1) M \<and> m k \<noteq> Some 0
          \<and> (\<forall>b. holders P k b M \<le> unat b))"

definition lim_inv :: "limiter \<times> sessions \<Rightarrow> bool" where
  "lim_inv = (\<lambda>(l, M). counts on_ip (per_ip l) M \<and> counts on_secret (per_secret l) M)"


section \<open>Slots\<close>

lemma holders_add:
  "holders P k m (add_mset x M) = (if P k m x then 1 else 0) + holders P k m M"
  by (simp add: holders_def)

lemma holders_mono: "(\<And>x. P k m x \<Longrightarrow> P k m' x) \<Longrightarrow> holders P k m M \<le> holders P k m' M"
  by (induction M) (auto simp: holders_def intro: le_SucI)

lemma drop_slot_slots: "slots (drop_slot k m) k' = (if k' = k then slots m k - 1 else slots m k')"
  by (auto simp: drop_slot_def slots_def Let_def unat_minus_one split: option.splits)

lemma drop_slot_no_zero: "m k' \<noteq> Some 0 \<Longrightarrow> drop_slot k m k' \<noteq> Some 0"
  by (auto simp: drop_slot_def Let_def split: option.splits)

lemma take_slot_refuse:
  assumes "take_slot k limit m = (False, m')" and "0 < limit"
  shows "m' = m" "unat limit \<le> slots m k"
  using assms by (auto simp: take_slot_def slots_def Let_def word_le_nat_alt word_less_nat_alt fun_upd_idem_iff
      split: option.splits if_splits)

lemma take_slot_ok:
  assumes "take_slot k limit m = (True, m')"
  shows "slots m' k' = (if k' = k then Suc (slots m k) else slots m k')"
    and "slots m k < unat limit" and "\<forall>k. m k \<noteq> Some 0 \<Longrightarrow> m' k' \<noteq> Some 0"
proof -
  define count where "count = (case m k of Some n \<Rightarrow> n | None \<Rightarrow> 0)"
  from assms have lt: "count < limit" and m': "m' = m(k \<mapsto> count + 1)"
    by (auto simp: take_slot_def count_def Let_def split: if_splits)
  have uc: "unat count = slots m k" by (simp add: count_def slots_def split: option.splits)
  have inc: "unat (count + 1) = Suc (unat count)"
  proof -
    have "unat count < unat limit" using lt by (simp add: word_less_nat_alt)
    moreover have "unat limit < 2 ^ 32" using unsigned_less [where 'a = nat, of limit] by simp
    ultimately have "unat count + 1 < 2 ^ 32" by linarith
    then show ?thesis by (simp add: unat_word_ariths)
  qed
  show "slots m' k' = (if k' = k then Suc (slots m k) else slots m k')"
    using inc uc by (simp add: m' slots_def)
  show "slots m k < unat limit" using lt uc by (simp add: word_less_nat_alt)
  assume "\<forall>k. m k \<noteq> Some 0"
  then show "m' k' \<noteq> Some 0" using inc by (auto simp: m')
qed


lemma acquire_ip_ok:
  assumes "acquire_ip ip mx l = (Inr (), l')"
  shows "per_secret l' = per_secret l"
    and "if 0 < mx then take_slot ip mx (per_ip l) = (True, per_ip l') else per_ip l' = per_ip l"
  using assms by (auto simp: acquire_ip_def split: if_splits prod.splits)

lemma acquire_ip_err:
  assumes "acquire_ip ip mx l = (Inl e, l')"
  shows "l' = l" "0 < mx" "unat mx \<le> slots (per_ip l) ip"
proof -
  from assms obtain m where m: "0 < mx" "take_slot ip mx (per_ip l) = (False, m)" "l' = l\<lparr>per_ip := m\<rparr>"
    by (auto simp: acquire_ip_def split: if_splits prod.splits)
  with take_slot_refuse [OF m(2,1)] show "l' = l" "0 < mx" "unat mx \<le> slots (per_ip l) ip"
    by simp_all
qed

lemma acquire_secret_ok:
  assumes "acquire_secret lb mx l = (Inr (), l')"
  shows "per_ip l' = per_ip l"
    and "if 0 < mx then take_slot lb mx (per_secret l) = (True, per_secret l') else per_secret l' = per_secret l"
  using assms by (auto simp: acquire_secret_def split: if_splits prod.splits)

lemma acquire_secret_err:
  assumes "acquire_secret lb mx l = (Inl e, l')"
  shows "l' = l" "0 < mx" "unat mx \<le> slots (per_secret l) lb"
proof -
  from assms obtain m where m: "0 < mx" "take_slot lb mx (per_secret l) = (False, m)"
      "l' = l\<lparr>per_secret := m\<rparr>"
    by (auto simp: acquire_secret_def split: if_splits prod.splits)
  with take_slot_refuse [OF m(2,1)] show "l' = l" "0 < mx" "unat mx \<le> slots (per_secret l) lb"
    by simp_all
qed

lemma release_ip_simps:
  "per_secret (release_ip ip mx l) = per_secret l"
  "per_ip (release_ip ip mx l) = (if 0 < mx then drop_slot ip (per_ip l) else per_ip l)"
  by (simp_all add: release_ip_def word_gt_0)

lemma release_secret_simps:
  "per_ip (release_secret lb mx l) = per_ip l"
  "per_secret (release_secret lb mx l) = (if 0 < mx then drop_slot lb (per_secret l) else per_secret l)"
  by (simp_all add: release_secret_def)


section \<open>The invariant\<close>

text \<open>
  What the address counters and the secret counters share: a class of slot holders that only
  grows with the bound. The counting invariant is proved for such a class once; \<open>x\<close> is the
  connection that moves, and holds a slot of key \<open>k\<close> under \<open>limit\<close>.
\<close>

locale slot_class =
  fixes P :: "'k \<Rightarrow> u32 \<Rightarrow> ticket \<times> phase \<Rightarrow> bool"
  assumes class_mono: "P k b x \<Longrightarrow> P k (- 1) x"
begin

lemma counts_empty: "counts P Map.empty {#}"
  by (simp add: counts_def slots_def holders_def)

lemma counts_move:
  assumes "counts P m M" and "\<And>k b. holders P k b M' = holders P k b M"
  shows "counts P m M'"
  using assms by (simp add: counts_def)

lemma counts_slots: "counts P m M \<Longrightarrow> slots m k = holders P k (- 1) M"
  and counts_no_zero: "counts P m M \<Longrightarrow> m k \<noteq> Some 0"
  and counts_bound: "counts P m M \<Longrightarrow> holders P k b M \<le> unat b"
  by (simp_all add: counts_def)

lemma counts_take:
  assumes c: "counts P m M"
    and t: "if 0 < limit then take_slot k limit m = (True, m') else m' = m"
    and new: "\<And>k' b. P k' b x \<longleftrightarrow> 0 < limit \<and> k' = k \<and> limit \<le> b"
    and same: "\<And>k' b. holders P k' b M' = (if P k' b x then 1 else 0) + holders P k' b M"
  shows "counts P m' M'"
proof (cases "0 < limit")
  case False
  with t have "m' = m" by simp
  with c show ?thesis by (simp add: counts_move [OF c] same new False)
next
  case True
  with t have ts: "take_slot k limit m = (True, m')" by simp
  note tk = take_slot_ok [OF ts]
  have all: "limit \<le> - 1" by simp
  show ?thesis
    unfolding counts_def
  proof (intro allI conjI)
    fix k' b
    show "slots m' k' = holders P k' (- 1) M'"
      using tk(1) [of k'] counts_slots [OF c] by (simp add: same new all True)
    show "m' k' \<noteq> Some 0" using tk(3) counts_no_zero [OF c] by blast
    show "holders P k' b M' \<le> unat b"
    proof (cases "k' = k \<and> limit \<le> b")
      case True
      have "holders P k b M \<le> slots m k"
        unfolding counts_slots [OF c] by (rule holders_mono) (rule class_mono)
      moreover have "slots m k < unat b"
        using tk(2) True by (simp add: word_le_nat_alt)
      ultimately show ?thesis using True \<open>0 < limit\<close> by (simp add: same new)
    next
      case False
      then have "\<not> P k' b x" by (simp add: new)
      then show ?thesis using counts_bound [OF c, of k' b] by (simp add: same)
    qed
  qed
qed

lemma counts_drop:
  assumes c: "counts P m M" and m': "m' = (if 0 < limit then drop_slot k m else m)"
    and old: "\<And>k' b. P k' b x \<longleftrightarrow> 0 < limit \<and> k' = k \<and> limit \<le> b"
    and same: "\<And>k' b. holders P k' b M = (if P k' b x then 1 else 0) + holders P k' b M'"
  shows "counts P m' M'"
  unfolding counts_def
proof (intro allI conjI)
  fix k' b
  have all: "limit \<le> - 1" by simp
  show "slots m' k' = holders P k' (- 1) M'"
    using counts_slots [OF c, of k'] by (auto simp: m' drop_slot_slots same old all)
  show "m' k' \<noteq> Some 0"
    using counts_no_zero [OF c] drop_slot_no_zero [of m k' k] by (simp add: m')
  have "holders P k' b M' \<le> holders P k' b M" by (simp add: same)
  then show "holders P k' b M' \<le> unat b"
    using counts_bound [OF c] by (rule order.trans)
qed

end

interpretation ip_slots: slot_class on_ip
  by unfold_locales (auto simp: on_ip_def)

interpretation secret_slots: slot_class on_secret
  by unfold_locales (auto simp: on_secret_def)

lemmas holder_simps = holders_add on_ip_def on_secret_def

lemma lim_inv_take_ip:
  assumes "lim_inv (l, M)" and "acquire_ip (tk_ip t) (tk_max_ip t) l = (Inr (), l')"
  shows "lim_inv (l', add_mset (t, IpHeld) M)"
proof -
  have "counts on_ip (per_ip l') (add_mset (t, IpHeld) M)"
    using assms(1) acquire_ip_ok(2) [OF assms(2)]
    by - (rule ip_slots.counts_take [where M = M and x = "(t, IpHeld)"], (auto simp: lim_inv_def holder_simps)+)
  moreover have "counts on_secret (per_secret l) (add_mset (t, IpHeld) M)"
    using assms(1)
    by - (rule secret_slots.counts_move [where M = M], (auto simp: lim_inv_def holder_simps)+)
  ultimately show ?thesis using acquire_ip_ok(1) [OF assms(2)] by (simp add: lim_inv_def)
qed

lemma lim_inv_take_secret:
  assumes "lim_inv (l, add_mset (t, IpHeld) M)"
    and "acquire_secret (tk_label t) (tk_max_secret t) l = (Inr (), l')"
  shows "lim_inv (l', add_mset (t, Admitted) M)"
proof -
  let ?M = "add_mset (t, IpHeld) M"
  have "counts on_secret (per_secret l') (add_mset (t, Admitted) M)"
    using assms(1) acquire_secret_ok(2) [OF assms(2)]
    by - (rule secret_slots.counts_take [where M = ?M and x = "(t, Admitted)"], (auto simp: lim_inv_def holder_simps)+)
  moreover have "counts on_ip (per_ip l) (add_mset (t, Admitted) M)"
    using assms(1)
    by - (rule ip_slots.counts_move [where M = ?M], (auto simp: lim_inv_def holder_simps)+)
  ultimately show ?thesis using acquire_secret_ok(1) [OF assms(2)] by (simp add: lim_inv_def)
qed

lemma lim_inv_refuse:
  "lim_inv (l, add_mset (t, IpHeld) M) \<Longrightarrow> lim_inv (l, add_mset (t, Refused) M)"
  unfolding lim_inv_def
  using ip_slots.counts_move [of "per_ip l" "add_mset (t, IpHeld) M" "add_mset (t, Refused) M"]
    secret_slots.counts_move [of "per_secret l" "add_mset (t, IpHeld) M" "add_mset (t, Refused) M"]
  by (simp add: holder_simps)

lemma lim_inv_drop_ip:
  assumes "lim_inv (l, add_mset (t, p) M)" and "p = Refused \<and> M' = M \<or> p = Admitted \<and> M' = add_mset (t, IpReleased) M"
  shows "lim_inv (release_ip (tk_ip t) (tk_max_ip t) l, M')"
proof -
  have "counts on_ip (per_ip (release_ip (tk_ip t) (tk_max_ip t) l)) M'"
    using assms
    by - (rule ip_slots.counts_drop [where M = "add_mset (t, p) M" and x = "(t, p)"], (auto simp: lim_inv_def holder_simps release_ip_simps)+)
  moreover have "counts on_secret (per_secret l) M'"
    using assms
    by - (rule secret_slots.counts_move [where M = "add_mset (t, p) M"], (auto simp: lim_inv_def holder_simps)+)
  ultimately show ?thesis by (simp add: lim_inv_def release_ip_simps)
qed

lemma lim_inv_drop_secret:
  assumes "lim_inv (l, add_mset (t, IpReleased) M)"
  shows "lim_inv (release_secret (tk_label t) (tk_max_secret t) l, M)"
proof -
  let ?M = "add_mset (t, IpReleased) M"
  have "counts on_secret (per_secret (release_secret (tk_label t) (tk_max_secret t) l)) M"
    using assms
    by - (rule secret_slots.counts_drop [where M = ?M and x = "(t, IpReleased)"], (auto simp: lim_inv_def holder_simps release_secret_simps)+)
  moreover have "counts on_ip (per_ip l) M"
    using assms by - (rule ip_slots.counts_move [where M = ?M], (auto simp: lim_inv_def holder_simps)+)
  ultimately show ?thesis by (simp add: lim_inv_def release_secret_simps)
qed

lemma lim_inv_step: "lim_step s s' \<Longrightarrow> lim_inv s \<Longrightarrow> lim_inv s'"
  by (induction rule: lim_step.induct)
    (blast intro: lim_inv_take_ip lim_inv_take_secret lim_inv_refuse lim_inv_drop_ip
      lim_inv_drop_secret dest: acquire_ip_err(1) acquire_secret_err(1))+

lemma lim_reachable_inv: "lim_reachable s \<Longrightarrow> lim_inv s"
proof (induction rule: lim_reachable.induct)
  case Start
  then show ?case
    by (simp add: lim_inv_def limiter_new_def ip_slots.counts_empty secret_slots.counts_empty)
next
  case (Step s s')
  then show ?case using lim_inv_step by blast
qed


section \<open>The sequential functions\<close>

definition no_zero :: "limiter \<Rightarrow> bool" where
  "no_zero l \<longleftrightarrow> (\<forall>ip. per_ip l ip \<noteq> Some 0) \<and> (\<forall>s. per_secret l s \<noteq> Some 0)"

lemma drop_take_slot:
  assumes "take_slot k limit m = (True, m')" and "\<forall>k. m k \<noteq> Some 0"
  shows "drop_slot k m' = m"
proof -
  define count where "count = (case m k of Some n \<Rightarrow> n | None \<Rightarrow> 0)"
  from assms(1) have m': "m' = m(k \<mapsto> count + 1)" "count < limit"
    by (auto simp: take_slot_def count_def Let_def split: if_splits)
  then have ne: "count + 1 \<noteq> 0" using take_slot_ok(3) [OF assms, of k] by auto
  show ?thesis
  proof (cases "m k")
    case None
    then show ?thesis using m' by (auto simp: drop_slot_def count_def)
  next
    case (Some n)
    then have "n \<noteq> 0" using assms(2) by auto
    with Some ne m' show ?thesis by (auto simp: drop_slot_def Let_def count_def)
  qed
qed

lemma no_zero_release: "no_zero l \<Longrightarrow> no_zero (release ip lb mi ms l)"
  by (auto simp: no_zero_def release_def release_ip_simps release_secret_simps drop_slot_no_zero)

lemma no_zero_acquire_ip: "no_zero l \<Longrightarrow> acquire_ip ip mi l = (Inr (), l') \<Longrightarrow> no_zero l'"
  using acquire_ip_ok [of ip mi l l'] take_slot_ok(3)
  by (fastforce simp: no_zero_def split: if_splits)

lemma no_zero_acquire_secret:
  "no_zero l \<Longrightarrow> acquire_secret lb ms l = (Inr (), l') \<Longrightarrow> no_zero l'"
  using acquire_secret_ok [of lb ms l l'] take_slot_ok(3)
  by (fastforce simp: no_zero_def split: if_splits)

lemma release_acquire_ip:
  assumes "no_zero l" and "acquire_ip ip mi l = (Inr (), l')"
  shows "(if 0 < mi then release_ip ip mi l' else l') = l"
  using acquire_ip_ok [OF assms(2)] drop_take_slot [of ip mi "per_ip l" "per_ip l'"] assms(1)
  by (auto simp: no_zero_def release_ip_def word_gt_0 intro!: limiter.equality split: if_splits)

lemma release_acquire_secret:
  assumes "no_zero l" and "acquire_secret lb ms l = (Inr (), l')"
  shows "release_secret lb ms l' = l"
  using acquire_secret_ok [OF assms(2)] drop_take_slot [of lb ms "per_secret l" "per_secret l'"] assms(1)
  by (auto simp: no_zero_def release_secret_def intro!: limiter.equality split: if_splits)

lemma acquire_error_unchanged:
  assumes "no_zero l" and "acquire ip lb mi ms bl l = (Inl e, l')"
  shows "l' = l"
proof (cases "ip \<in> set bl")
  case True
  with assms show ?thesis by (simp add: acquire_def)
next
  case False
  show ?thesis
  proof (cases "acquire_ip ip mi l")
    case (Pair r l1)
    show ?thesis
    proof (cases r)
      case (Inl e1)
      with Pair False assms(2) acquire_ip_err(1) show ?thesis by (auto simp: acquire_def)
    next
      case (Inr u)
      with Pair False assms(2) obtain l2 where l2: "acquire_secret lb ms l1 = (Inl e, l2)"
          "l' = (if 0 < mi then release_ip ip mi l2 else l2)"
        by (auto simp: acquire_def split: sum.splits prod.splits)
      from l2(1) have "l2 = l1" by (rule acquire_secret_err(1))
      with l2(2) release_acquire_ip [OF assms(1)] Pair Inr show ?thesis by simp
    qed
  qed
qed

lemma acquire_ok_parts:
  assumes "acquire ip lb mi ms bl l = (Inr (), l')"
  obtains l1 where "ip \<notin> set bl" "acquire_ip ip mi l = (Inr (), l1)"
    "acquire_secret lb ms l1 = (Inr (), l')"
  using assms by (auto simp: acquire_def split: sum.splits prod.splits if_splits)

datatype lim_op = Acquire ip_addr string u32 u32 "ip_addr list" | Release ip_addr string u32 u32

fun lim_exec :: "limiter \<Rightarrow> lim_op \<Rightarrow> limiter" where
  "lim_exec l (Acquire ip lb mi ms bl) = snd (acquire ip lb mi ms bl l)"
| "lim_exec l (Release ip lb mi ms) = release ip lb mi ms l"

lemma no_zero_acquire: "no_zero l \<Longrightarrow> no_zero (snd (acquire ip lb mi ms bl l))"
proof -
  assume n: "no_zero l"
  obtain r l' where a: "acquire ip lb mi ms bl l = (r, l')" by fastforce
  show ?thesis
  proof (cases r)
    case (Inl e)
    with a have "acquire ip lb mi ms bl l = (Inl e, l')" by simp
    with n have "l' = l" by (rule acquire_error_unchanged)
    with a n show ?thesis by simp
  next
    case (Inr u)
    with a have "acquire ip lb mi ms bl l = (Inr (), l')" by simp
    then obtain l1 where "acquire_ip ip mi l = (Inr (), l1)" "acquire_secret lb ms l1 = (Inr (), l')"
      by (rule acquire_ok_parts)
    with n have "no_zero l'" using no_zero_acquire_ip no_zero_acquire_secret by blast
    then show ?thesis by (simp add: a)
  qed
qed

interpretation limiter_machine: invariant_machine lim_exec no_zero
proof unfold_locales
  fix l op
  assume "no_zero l"
  then show "no_zero (lim_exec l op)"
    by (cases op) (simp_all add: no_zero_acquire no_zero_release)
qed


section \<open>Properties\<close>

text \<open>
  C39. In every reachable interleaving of connections being admitted, refused and closed, under
  limits that may change between connections, each address counter is the number of connections
  holding a slot of that address, each secret counter the number holding a slot of that secret.
\<close>

theorem limiter_counts_exact:
  assumes "lim_reachable (l, M)"
  shows "slots (per_ip l) ip = size {# s \<in># M. on_ip ip (- 1) s #}
    \<and> slots (per_secret l) label = size {# s \<in># M. on_secret label (- 1) s #}"
  using lim_reachable_inv [OF assms] ip_slots.counts_slots secret_slots.counts_slots
  by (auto simp: lim_inv_def holders_def)

theorem limiter_counts_exact_witness:
  "slots (per_ip (snd (acquire_ip (V4 10 0 0 1) 2 limiter_new))) (V4 10 0 0 1) = 1"
proof -
  let ?t = "\<lparr>tk_ip = V4 10 0 0 1, tk_label = ''a'', tk_max_ip = 2, tk_max_secret = 0\<rparr>"
  let ?l = "snd (acquire_ip (V4 10 0 0 1) 2 limiter_new)"
  have "acquire_ip (tk_ip ?t) (tk_max_ip ?t) limiter_new = (Inr (), ?l)"
    by (simp add: acquire_ip_def take_slot_def limiter_new_def)
  then have "lim_reachable (?l, {# (?t, IpHeld) #})"
    using Ip_ok lim_reachable.intros by blast
  from limiter_counts_exact [OF this, of "V4 10 0 0 1" "''a''"] show ?thesis
    by (simp add: on_ip_def)
qed

text \<open>
  The limit holds: at no reachable moment do more than \<open>m\<close> connections that were admitted
  under an address limit between 1 and \<open>m\<close> hold a slot of one address, and likewise for a secret.
\<close>

theorem limiter_bound:
  assumes "lim_reachable (l, M)"
  shows "size {# s \<in># M. on_ip ip m s #} \<le> unat m \<and> size {# s \<in># M. on_secret label m s #} \<le> unat m"
  using lim_reachable_inv [OF assms] ip_slots.counts_bound secret_slots.counts_bound
  by (auto simp: lim_inv_def holders_def)

theorem limiter_bound_witness:
  "size {# s \<in># {#}. on_ip (V6 [0, 0, 0, 0, 0, 0, 0, 1]) 1 s #} \<le> unat (1 :: u32)"
  using limiter_bound [OF lim_reachable.Start] by blast

text \<open>
  No slot leaks: when every connection is gone, whatever was admitted, refused or closed in
  whatever order, both maps are empty again.
\<close>

theorem limiter_no_leak:
  assumes "lim_reachable (l, {#})"
  shows "l = limiter_new"
proof -
  note inv = lim_reachable_inv [OF assms, unfolded lim_inv_def, simplified]
  have e: "m = Map.empty" if "\<And>k. slots m k = 0" "\<And>k. m k \<noteq> Some 0" for m :: "'k \<Rightarrow> u32 option"
  proof
    fix k show "m k = Map.empty k"
      using that [of k] by (cases "m k") (auto simp: slots_def unsigned_eq_0_iff)
  qed
  have "per_ip l = Map.empty"
    using inv ip_slots.counts_slots ip_slots.counts_no_zero by (intro e) (auto simp: holders_def)
  moreover have "per_secret l = Map.empty"
    using inv secret_slots.counts_slots secret_slots.counts_no_zero by (intro e) (auto simp: holders_def)
  ultimately show ?thesis by (simp add: limiter_new_def)
qed

theorem limiter_no_leak_witness:
  "release_ip (V4 10 0 0 1) 1 (snd (acquire_ip (V4 10 0 0 1) 1 limiter_new)) = limiter_new"
proof -
  let ?t = "\<lparr>tk_ip = V4 10 0 0 1, tk_label = ''a'', tk_max_ip = 1, tk_max_secret = 0\<rparr>"
  let ?l = "snd (acquire_ip (V4 10 0 0 1) 1 limiter_new)"
  have "acquire_ip (tk_ip ?t) (tk_max_ip ?t) limiter_new = (Inr (), ?l)"
    by (simp add: acquire_ip_def take_slot_def limiter_new_def)
  then have r1: "lim_reachable (?l, {# (?t, IpHeld) #})"
    using Ip_ok lim_reachable.intros by blast
  have "acquire_secret (tk_label ?t) (tk_max_secret ?t) ?l = (Inr (), ?l)"
    by (simp add: acquire_secret_def)
  then have r2: "lim_reachable (?l, {# (?t, Admitted) #})"
    using Secret_ok lim_reachable.Step [OF r1] by blast
  have r3: "lim_reachable (release_ip (V4 10 0 0 1) 1 ?l, {# (?t, IpReleased) #})"
    using Close_ip [of ?l ?t "{#}"] lim_reachable.Step [OF r2] by simp
  have "lim_reachable (release_ip (V4 10 0 0 1) 1 ?l, {#})"
    using Close_secret [of _ ?t "{#}"] lim_reachable.Step [OF r3] by (simp add: release_secret_def)
  then show ?thesis by (rule limiter_no_leak)
qed

lemma release_undoes_acquire:
  assumes "no_zero l" and "acquire ip label max_ip max_secret blacklist l = (Inr (), l')"
  shows "release ip label max_ip max_secret l' = l"
proof -
  obtain l1 where l1: "acquire_ip ip max_ip l = (Inr (), l1)" "acquire_secret label max_secret l1 = (Inr (), l')"
    using assms(2) by (rule acquire_ok_parts)
  note n1 = no_zero_acquire_ip [OF assms(1) l1(1)]
  have "release ip label max_ip max_secret l' =
      (if 0 < max_ip then release_ip ip max_ip (release_secret label max_secret l')
       else release_secret label max_secret l')"
    by (simp add: release_def release_ip_def release_secret_def)
  then show ?thesis
    using release_acquire_secret [OF n1 l1(2)] release_acquire_ip [OF assms(1) l1(1)] by (simp split: if_splits)
qed

text \<open>
  Sequentially, after any history of calls: a refused \<^verbatim>\<open>acquire\<close> leaves the counters exactly
  as they were (the address slot taken before the secret was found full is given back), a
  blacklisted address is always refused, and \<^verbatim>\<open>release\<close> undoes a successful \<^verbatim>\<open>acquire\<close>.
\<close>

theorem acquire_release_restores:
  assumes "l = foldl lim_exec limiter_new ops"
  shows "(case acquire ip label max_ip max_secret blacklist l of
            (Inl e, l') \<Rightarrow> l' = l
          | (Inr _, l') \<Rightarrow> ip \<notin> set blacklist \<and> release ip label max_ip max_secret l' = l)"
proof -
  have "no_zero limiter_new" by (simp add: no_zero_def limiter_new_def)
  then have n: "no_zero l" using assms limiter_machine.run_inv by simp
  obtain r l' where a: "acquire ip label max_ip max_secret blacklist l = (r, l')" by fastforce
  show ?thesis
  proof (cases r)
    case (Inl e)
    with a have err: "acquire ip label max_ip max_secret blacklist l = (Inl e, l')" by simp
    with n have "l' = l" by (rule acquire_error_unchanged)
    with err show ?thesis by simp
  next
    case (Inr u)
    with a have ok: "acquire ip label max_ip max_secret blacklist l = (Inr (), l')" by simp
    have "ip \<notin> set blacklist" using ok by (rule acquire_ok_parts)
    then show ?thesis using ok release_undoes_acquire [OF n ok] by simp
  qed
qed

theorem acquire_release_restores_witness:
  "release (V4 1 2 3 4) ''s'' 3 1 (snd (acquire (V4 1 2 3 4) ''s'' 3 1 [] limiter_new)) = limiter_new"
  using acquire_release_restores [where l = limiter_new and ops = "[]" and ip = "V4 1 2 3 4"
      and label = "''s''" and max_ip = 3 and max_secret = 1 and blacklist = "[]"]
  by (simp add: acquire_def acquire_ip_def acquire_secret_def take_slot_def limiter_new_def)

end
