(* ===== verification/Stats_Model.thy ===== *)
theory Stats_Model
  imports Sg_Laws
begin

text \<open>
  The live counters of \<^verbatim>\<open>src/state.rs\<close>. Each is an atomic 64-bit word; \<^verbatim>\<open>fetch_add\<close> wraps.
\<close>

record stats =
  total_connections :: u64
  mtproto_connections :: u64
  fallback_connections :: u64
  bytes_to_backend :: u64
  bytes_from_backend :: u64
  tls_handshakes :: u64
  fragmented_writes :: u64
  drs_writes :: u64
  dd_writes :: u64
  backend_failovers :: u64
  replay_blocked :: u64
  domain_fronted :: u64
  split_relayed :: u64
  split_auth_failed :: u64

definition stats_default :: stats where
  "stats_default = \<lparr>total_connections = 0, mtproto_connections = 0, fallback_connections = 0,
     bytes_to_backend = 0, bytes_from_backend = 0, tls_handshakes = 0, fragmented_writes = 0,
     drs_writes = 0, dd_writes = 0, backend_failovers = 0, replay_blocked = 0, domain_fronted = 0,
     split_relayed = 0, split_auth_failed = 0\<rparr>"

end
