(* ===== verification/Backend_Pool.thy ===== *)
theory Backend_Pool
  imports Config_Model Stats_Model "HOL-Library.Multiset"
begin

text \<open>
  \<^verbatim>\<open>src/backend_pool.rs\<close>: the list of Telegram data centres with failover. A backend that
  failed is skipped for 30 seconds. The clock counts nanoseconds; dialling is a parameter that
  says, for a backend and the moment it is dialled, how long the attempt takes and what it
  returns. \<^verbatim>\<open>round_robin\<close> is a 64-bit word and wraps.
\<close>

definition unhealthy_cooldown :: nat where
  "unhealthy_cooldown = 30 * nanos_per_sec"

record backend_pool =
  bp_backends :: "string list"
  bp_strategy :: backend_failover_strategy
  bp_round_robin :: u64
  bp_unhealthy :: "string \<Rightarrow> nat option"

definition pool_from_config :: "mtproto_config \<Rightarrow> backend_pool" where
  "pool_from_config m = \<lparr>bp_backends = all_backends m, bp_strategy = failover_strategy m,
     bp_round_robin = 0, bp_unhealthy = Map.empty\<rparr>"

definition backend_count :: "backend_pool \<Rightarrow> nat" where
  "backend_count p = length (bp_backends p)"

definition is_unhealthy :: "nat \<Rightarrow> string \<Rightarrow> backend_pool \<Rightarrow> bool" where
  "is_unhealthy now backend p =
     (case bp_unhealthy p backend of None \<Rightarrow> False | Some since \<Rightarrow> now - since < unhealthy_cooldown)"

definition mark_unhealthy :: "nat \<Rightarrow> string \<Rightarrow> backend_pool \<Rightarrow> backend_pool" where
  "mark_unhealthy now backend p = p\<lparr>bp_unhealthy := (bp_unhealthy p)(backend \<mapsto> now)\<rparr>"

text \<open>\<^verbatim>\<open>order.iter().position(..)\<close>, \<^verbatim>\<open>remove\<close> and \<^verbatim>\<open>insert(0, ..)\<close>\<close>

definition move_to_front :: "string \<Rightarrow> string list \<Rightarrow> string list" where
  "move_to_front x xs = (if x \<in> set xs then x # remove1 x xs else xs)"

definition connection_order :: "string option \<Rightarrow> backend_pool \<Rightarrow> string list \<times> backend_pool" where
  "connection_order preferred p =
     (let bs = bp_backends p; n = length bs in
      if n \<le> 1 then (bs, p)
      else
        let (start_idx, p') =
              (case bp_strategy p of
                 Priority \<Rightarrow> (0, p)
               | RoundRobin \<Rightarrow> (unat (bp_round_robin p) mod n, p\<lparr>bp_round_robin := bp_round_robin p + 1\<rparr>));
            order = map (\<lambda>offset. bs ! ((start_idx + offset) mod n)) [0..<n]
        in (case preferred of None \<Rightarrow> (order, p') | Some b \<Rightarrow> (move_to_front b order, p')))"

fun connect_loop ::
    "(string \<Rightarrow> nat \<Rightarrow> nat \<times> 's result) \<Rightarrow> string list \<Rightarrow> nat \<Rightarrow> backend_pool \<Rightarrow> stats
     \<Rightarrow> sg_error option \<Rightarrow> ('s \<times> string) result \<times> nat \<times> backend_pool \<times> stats" where
  "connect_loop dial [] now p st last_error =
     (Inl (case last_error of None \<Rightarrow> Proxy ''no backend servers available'' | Some e \<Rightarrow> e), now, p, st)"
| "connect_loop dial (backend # order) now p st last_error =
     (if is_unhealthy now backend p then connect_loop dial order now p st last_error
      else (case dial backend now of
              (elapsed, Inr stream) \<Rightarrow> (Inr (stream, backend), now + elapsed, p, st)
            | (elapsed, Inl err) \<Rightarrow>
                connect_loop dial order (now + elapsed) (mark_unhealthy (now + elapsed) backend p)
                  (st\<lparr>backend_failovers := backend_failovers st + 1\<rparr>) (Some err)))"

definition pool_connect ::
    "(string \<Rightarrow> nat \<Rightarrow> nat \<times> 's result) \<Rightarrow> string option \<Rightarrow> nat \<Rightarrow> backend_pool \<Rightarrow> stats
     \<Rightarrow> ('s \<times> string) result \<times> nat \<times> backend_pool \<times> stats" where
  "pool_connect dial preferred now p st =
     (case connection_order preferred p of (order, p') \<Rightarrow> connect_loop dial order now p' st None)"

section \<open>Lemmas\<close>

lemma rotate_by_index:
  assumes "n = length bs" and "0 < n"
  shows "map (\<lambda>i. bs ! ((s + i) mod n)) [0..<n] = rotate s bs"
  using assms by (intro nth_equalityI) (simp_all add: nth_rotate add.commute)

lemma rotate_by_index_mod:
  assumes "bs \<noteq> []"
  shows "map (\<lambda>i. bs ! ((s mod length bs + i) mod length bs)) [0..<length bs] = rotate s bs"
  using rotate_by_index [OF refl, of bs "s mod length bs"] assms by (simp add: rotate_conv_mod [symmetric])

lemma mset_move_to_front [simp]: "mset (move_to_front x xs) = mset xs"
  by (simp add: move_to_front_def)

definition base_order :: "backend_pool \<Rightarrow> string list" where
  "base_order p = (case bp_strategy p of
     Priority \<Rightarrow> bp_backends p | RoundRobin \<Rightarrow> rotate (unat (bp_round_robin p)) (bp_backends p))"

lemma mset_base_order: "mset (base_order p) = mset (bp_backends p)"
proof -
  have "mset (rotate s bs) = mset bs" for s and bs :: "string list"
    by (simp add: rotate_drop_take) (metis append_take_drop_id mset_append union_commute)
  then show ?thesis by (simp add: base_order_def split: backend_failover_strategy.splits)
qed

lemma connection_order_eq:
  assumes "1 < length (bp_backends p)"
  shows "fst (connection_order preferred p) =
     (case preferred of None \<Rightarrow> base_order p | Some b \<Rightarrow> move_to_front b (base_order p))"
proof -
  have "bp_backends p \<noteq> []" using assms by auto
  note r = rotate_by_index_mod [OF this, of 0] rotate_by_index_mod [OF this, of "unat (bp_round_robin p)"]
  show ?thesis
    using assms r by (auto simp: connection_order_def Let_def base_order_def
        split: option.splits backend_failover_strategy.splits)
qed

lemma connection_order_single:
  "length (bp_backends p) \<le> 1 \<Longrightarrow> connection_order preferred p = (bp_backends p, p)"
  by (simp add: connection_order_def Let_def)

lemma connection_order_mset: "mset (fst (connection_order preferred p)) = mset (bp_backends p)"
  by (cases "1 < length (bp_backends p)")
    (auto simp: connection_order_eq connection_order_single mset_base_order split: option.splits)

lemma connection_order_pool:
  "bp_backends (snd (connection_order preferred p)) = bp_backends p"
  "bp_unhealthy (snd (connection_order preferred p)) = bp_unhealthy p"
  by (simp_all add: connection_order_def Let_def split: option.splits backend_failover_strategy.splits)

lemma connection_order_preferred:
  assumes "b \<in> set (bp_backends p)"
  shows "hd (fst (connection_order (Some b) p)) = b"
proof (cases "1 < length (bp_backends p)")
  case True
  have "b \<in> set (base_order p)" using assms mset_base_order mset_eq_setD by blast
  with True show ?thesis by (simp add: connection_order_eq move_to_front_def)
next
  case False
  with assms show ?thesis
    by (cases "bp_backends p") (auto simp: connection_order_single)
qed

lemma connection_order_start: "fst (connection_order None p) = base_order p"
proof (cases "1 < length (bp_backends p)")
  case False
  then consider "bp_backends p = []" | b where "bp_backends p = [b]"
    by (cases "bp_backends p") auto
  then show ?thesis
    by cases (simp_all add: connection_order_single base_order_def split: backend_failover_strategy.splits)
qed (simp add: connection_order_eq)


lemma is_unhealthy_mark_other [simp]:
  "b \<noteq> c \<Longrightarrow> is_unhealthy t b (mark_unhealthy t' c p) = is_unhealthy t b p"
  by (simp add: is_unhealthy_def mark_unhealthy_def)

lemma is_unhealthy_earlier: "is_unhealthy t b p \<Longrightarrow> t' \<le> t \<Longrightarrow> is_unhealthy t' b p"
  by (auto simp: is_unhealthy_def split: option.splits)

lemma connect_loop_time: "connect_loop dial order now p st le = (r, now', p', st') \<Longrightarrow> now \<le> now'"
proof (induction dial order now p st le arbitrary: r now' p' st' rule: connect_loop.induct)
  case (2 dial backend order now p st le)
  obtain elapsed res where d: "dial backend now = (elapsed, res)" by fastforce
  show ?case
  proof (cases "is_unhealthy now backend p")
    case True
    with 2 show ?thesis by simp
  next
    case False
    show ?thesis
    proof (cases res)
      case (Inl e)
      have "now + elapsed \<le> now'"
        using "2.IH"(2) [OF False d [unfolded Inl, symmetric] refl] "2.prems" False d Inl by simp
      then show ?thesis by simp
    next
      case (Inr s)
      with "2.prems" False d show ?thesis by simp
    qed
  qed
qed simp

lemma connect_loop_ok:
  "connect_loop dial order now p st le = (Inr (s, b), now', p', st') \<Longrightarrow>
   b \<in> set order \<and> (\<exists>t e. now \<le> t \<and> dial b t = (e, Inr s) \<and> now' = t + e)"
proof (induction dial order now p st le arbitrary: s b now' p' st' rule: connect_loop.induct)
  case (2 dial backend order now p st le)
  obtain elapsed res where d: "dial backend now = (elapsed, res)" by fastforce
  show ?case
  proof (cases "is_unhealthy now backend p")
    case True
    with 2 show ?thesis by auto
  next
    case False
    show ?thesis
    proof (cases res)
      case (Inl e)
      have "b \<in> set order \<and> (\<exists>t e. now + elapsed \<le> t \<and> dial b t = (e, Inr s) \<and> now' = t + e)"
        by (rule "2.IH"(2) [OF False d [unfolded Inl, symmetric] refl]) (use "2.prems" False d Inl in simp)
      then show ?thesis using add_leD1 by fastforce
    next
      case (Inr s)
      with "2.prems" False d show ?thesis by auto
    qed
  qed
qed simp

lemma connect_loop_finds:
  "b \<in> set order \<Longrightarrow> \<not> is_unhealthy now b p \<Longrightarrow> (\<And>t. is_ok (snd (dial b t))) \<Longrightarrow>
   is_ok (fst (connect_loop dial order now p st le))"
proof (induction dial order now p st le rule: connect_loop.induct)
  case (2 dial backend order now p st le)
  obtain elapsed res where d: "dial backend now = (elapsed, res)" by fastforce
  show ?case
  proof (cases "is_unhealthy now backend p")
    case True
    with 2 show ?thesis by auto
  next
    case False
    show ?thesis
    proof (cases res)
      case (Inl e)
      then have ne: "backend \<noteq> b" using "2.prems"(3) [of now] d by auto
      have "\<not> is_unhealthy (now + elapsed) b (mark_unhealthy (now + elapsed) backend p)"
        using "2.prems"(2) is_unhealthy_earlier [of "now + elapsed" b p now] ne by auto
      with "2.IH"(2) [OF False d [unfolded Inl, symmetric]] "2.prems"(1,3) ne False d Inl show ?thesis by simp
    next
      case (Inr s)
      with False d show ?thesis by simp
    qed
  qed
qed simp

lemma connect_loop_skips:
  assumes "connect_loop dial order now p st le = (r, now', p', st')"
    and "is_unhealthy now' b p" and "\<And>c t. c \<noteq> b \<Longrightarrow> dial' c t = dial c t"
  shows "connect_loop dial' order now p st le = (r, now', p', st')"
  using assms
proof (induction dial order now p st le rule: connect_loop.induct)
  case (2 dial backend order now p st le)
  note uh = is_unhealthy_earlier [OF "2.prems"(2) connect_loop_time [OF "2.prems"(1)]]
  obtain elapsed res where d: "dial backend now = (elapsed, res)" by fastforce
  show ?case
  proof (cases "is_unhealthy now backend p")
    case True
    with 2 show ?thesis by simp
  next
    case False
    then have ne: "backend \<noteq> b" using uh by auto
    then have d': "dial' backend now = (elapsed, res)" using "2.prems"(3) d by simp
    show ?thesis
    proof (cases res)
      case (Inl e)
      have "is_unhealthy now' b (mark_unhealthy (now + elapsed) backend p)"
        using "2.prems"(2) ne by simp
      with "2.IH"(2) [OF False d [unfolded Inl, symmetric]] "2.prems"(1,3) False d d' Inl show ?thesis
        by simp
    next
      case (Inr s)
      with "2.prems"(1) False d d' show ?thesis by simp
    qed
  qed
qed simp


section \<open>Properties\<close>

text \<open>
  The connection order is a permutation of the backends; a preferred backend that is in the
  pool comes first; without one the order starts at the primary (priority) or at the counter's
  position (round robin), and each round-robin call advances the start by one.
\<close>

theorem connection_order_correct:
  "mset (fst (connection_order preferred p)) = mset (bp_backends p)
   \<and> (b \<notin> set (bp_backends p) \<or> hd (fst (connection_order (Some b) p)) = b)
   \<and> fst (connection_order None p) =
       (case bp_strategy p of Priority \<Rightarrow> bp_backends p
        | RoundRobin \<Rightarrow> rotate (unat (bp_round_robin p)) (bp_backends p))
   \<and> (if bp_strategy p = RoundRobin \<and> 1 < backend_count p
      then bp_round_robin (snd (connection_order preferred p)) = bp_round_robin p + 1
      else bp_round_robin (snd (connection_order preferred p)) = bp_round_robin p)"
proof -
  have "(if bp_strategy p = RoundRobin \<and> 1 < backend_count p
      then bp_round_robin (snd (connection_order preferred p)) = bp_round_robin p + 1
      else bp_round_robin (snd (connection_order preferred p)) = bp_round_robin p)"
    by (auto simp: connection_order_def Let_def backend_count_def
        split: option.splits backend_failover_strategy.splits)
  then show ?thesis
    using connection_order_mset connection_order_preferred [of b p] connection_order_start [of p]
    by (simp add: base_order_def)
qed

text \<open>
  Failover is complete: if some backend of the pool is not in its cooldown and accepts
  connections, the pool connects, whatever the strategy, the preference and however many other
  backends fail before it.
\<close>

theorem connect_finds_healthy_backend:
  assumes "b \<in> set (bp_backends p)" and "\<not> is_unhealthy now b p" and "\<And>t. is_ok (snd (dial b t))"
  shows "is_ok (fst (pool_connect dial preferred now p st))"
proof -
  have "b \<in> set (fst (connection_order preferred p))"
    using assms(1) connection_order_mset mset_eq_setD by blast
  moreover have "\<not> is_unhealthy now b (snd (connection_order preferred p))"
    using assms(2) by (simp add: is_unhealthy_def connection_order_pool)
  ultimately show ?thesis
    using connect_loop_finds [of b _ now _ dial] assms(3) by (simp add: pool_connect_def case_prod_beta)
qed

definition pool_ab :: backend_pool where
  "pool_ab = \<lparr>bp_backends = [''a:443'', ''b:443''], bp_strategy = Priority, bp_round_robin = 0,
     bp_unhealthy = Map.empty\<rparr>"

definition dial_b :: "string \<Rightarrow> nat \<Rightarrow> nat \<times> nat result" where
  "dial_b backend t = (5, if backend = ''b:443'' then Inr 7 else Inl (Proxy ''refused''))"

theorem connect_finds_healthy_backend_witness:
  "is_ok (fst (pool_connect dial_b (Some ''a:443'') 0 pool_ab stats_default))"
  by (rule connect_finds_healthy_backend [where b = "''b:443''"])
    (simp_all add: pool_ab_def is_unhealthy_def dial_b_def)

text \<open>
  A connection the pool returns was obtained by dialling a backend of the pool, after the
  call started.
\<close>

theorem connect_result_sound:
  assumes "pool_connect dial preferred now p st = (Inr (s, b), now', p', st')"
  shows "b \<in> set (bp_backends p) \<and> (\<exists>t e. now \<le> t \<and> dial b t = (e, Inr s) \<and> now' = t + e)"
proof -
  have "b \<in> set (fst (connection_order preferred p)) \<and> (\<exists>t e. now \<le> t \<and> dial b t = (e, Inr s) \<and> now' = t + e)"
    using assms by (auto simp: pool_connect_def case_prod_beta dest!: connect_loop_ok)
  then show ?thesis using connection_order_mset mset_eq_setD by blast
qed

theorem connect_result_sound_witness:
  "\<exists>t e. 0 \<le> t \<and> dial_b ''b:443'' t = (e, Inr 7) \<and> 10 = t + e"
proof -
  have "\<exists>p' st'. pool_connect dial_b None 0 pool_ab stats_default = (Inr (7, ''b:443''), 10, p', st')"
    by (simp add: pool_connect_def connection_order_def pool_ab_def Let_def is_unhealthy_def dial_b_def
        mark_unhealthy_def upt_rec)
  then show ?thesis by (blast dest: connect_result_sound)
qed

text \<open>
  Cooldown: a backend that failed and is still in its 30-second cooldown when the call ends
  is not dialled at all: how it would have answered does not influence the call.
\<close>

theorem cooldown_backend_not_dialled:
  assumes "pool_connect dial preferred now p st = (r, now', p', st')"
    and "is_unhealthy now' b p" and "\<And>c t. c \<noteq> b \<Longrightarrow> dial' c t = dial c t"
  shows "pool_connect dial' preferred now p st = (r, now', p', st')"
proof -
  have "is_unhealthy now' b (snd (connection_order preferred p))"
    using assms(2) by (simp add: is_unhealthy_def connection_order_pool)
  then show ?thesis
    using assms(1,3) connect_loop_skips [where b = b and dial = dial and dial' = dial']
    by (simp add: pool_connect_def case_prod_beta)
qed

theorem cooldown_backend_not_dialled_witness:
  "pool_connect (\<lambda>b t. (3, Inr 1)) None (20 * nanos_per_sec) (mark_unhealthy 0 ''a:443'' pool_ab) stats_default
   = pool_connect (\<lambda>b t. if b = ''a:443'' then (9, Inl (Proxy ''down'')) else (3, Inr (1 :: nat))) None
       (20 * nanos_per_sec) (mark_unhealthy 0 ''a:443'' pool_ab) stats_default"
proof -
  let ?d = "\<lambda>b t. (3, Inr (1 :: nat)) :: nat \<times> nat result"
    and ?d' = "\<lambda>b t. if b = ''a:443'' then (9, Inl (Proxy ''down'')) else (3, Inr (1 :: nat)) :: nat \<times> nat result"
    and ?p = "mark_unhealthy 0 ''a:443'' pool_ab"
  obtain p' st' where c: "pool_connect ?d None (20 * nanos_per_sec) ?p stats_default
      = (Inr (1, ''b:443''), 20 * nanos_per_sec + 3, p', st')"
    by (simp add: pool_connect_def connection_order_def pool_ab_def Let_def is_unhealthy_def
        mark_unhealthy_def upt_rec unhealthy_cooldown_def nanos_per_sec_def)
  have u: "is_unhealthy (20 * nanos_per_sec + 3) ''a:443'' ?p"
    by (simp add: is_unhealthy_def mark_unhealthy_def unhealthy_cooldown_def nanos_per_sec_def)
  have "pool_connect ?d' None (20 * nanos_per_sec) ?p stats_default
      = (Inr (1, ''b:443''), 20 * nanos_per_sec + 3, p', st')"
    by (rule cooldown_backend_not_dialled [OF c u]) simp
  with c show ?thesis by simp
qed

theorem connection_order_correct_witness:
  "hd (fst (connection_order (Some ''b:443'') pool_ab)) = ''b:443''"
  using connection_order_correct [of None pool_ab "''b:443''"] by (simp add: pool_ab_def)

end
