(* ===== verification/Shaping.thy ===== *)
theory Shaping
  imports Config_Model Stats_Model
begin

text \<open>
  The three ways the proxy cuts outgoing data: \<^verbatim>\<open>src/fragmentation.rs\<close> (cyclic chunk sizes
  with a delay), \<^verbatim>\<open>src/drs.rs\<close> (cyclic record sizes with jitter) and \<^verbatim>\<open>src/dd_protocol.rs\<close>
  (random sizes). The socket is a state \<open>'w\<close> with a parameter \<open>wr\<close> for \<^verbatim>\<open>write_all\<close> (its
  answer and the new state, an error may have written a part) and a parameter \<open>sleep\<close> for the
  timer; random numbers are parameters indexed by the number of the draw.
\<close>

type_synonym 'w writer = "'w \<Rightarrow> bytes \<Rightarrow> (io_kind + unit) \<times> 'w"

text \<open>The loop of \<^verbatim>\<open>split_chunks\<close> and \<^verbatim>\<open>split_drs_chunks\<close>.\<close>

definition chunk_end :: "nat list \<Rightarrow> bytes \<Rightarrow> nat \<Rightarrow> nat \<Rightarrow> nat" where
  "chunk_end sizes data offset size_idx =
     min (offset + max (sizes ! (size_idx mod length sizes)) 1) (length data)"

function chunk_loop :: "nat list \<Rightarrow> bytes \<Rightarrow> nat \<Rightarrow> nat \<Rightarrow> bytes list" where
  "chunk_loop sizes data offset size_idx =
     (if offset < length data then
        let e = chunk_end sizes data offset size_idx in
        slice data offset (e - offset) # chunk_loop sizes data e (Suc size_idx)
      else [])"
  by pat_completeness auto
termination
  by (relation "measure (\<lambda>(sizes, data, offset, size_idx). length data - offset)")
    (auto simp: chunk_end_def)

declare chunk_loop.simps [simp del]

definition split_chunks :: "bytes \<Rightarrow> fragmentation_config \<Rightarrow> bytes list" where
  "split_chunks data cfg =
     (if \<not> fr_enabled cfg \<or> chunk_sizes cfg = [] then [data]
      else chunk_loop (chunk_sizes cfg) data 0 0)"

definition split_drs_chunks :: "bytes \<Rightarrow> drs_config \<Rightarrow> bytes list" where
  "split_drs_chunks data cfg =
     (if \<not> drs_enabled cfg \<or> record_sizes cfg = [] then [data]
      else chunk_loop (record_sizes cfg) data 0 0)"

text \<open>
  The writing loop of \<^verbatim>\<open>write_to_backend\<close> and \<^verbatim>\<open>write_chunks_with_jitter\<close>; \<open>pause\<close> is what
  happens between two chunks. The number of chunks sent is part of the result.
\<close>

function write_loop ::
    "'w writer \<Rightarrow> (nat \<Rightarrow> 'w \<Rightarrow> 'w) \<Rightarrow> nat list \<Rightarrow> bytes \<Rightarrow> nat \<Rightarrow> nat \<Rightarrow> nat \<Rightarrow> 'w
     \<Rightarrow> (io_kind + unit) \<times> 'w \<times> nat" where
  "write_loop wr pause sizes data offset size_idx sent w =
     (if offset < length data then
        let e = chunk_end sizes data offset size_idx in
        (case wr w (slice data offset (e - offset)) of
           (Inl err, w1) \<Rightarrow> (Inl err, w1, sent)
         | (Inr _, w1) \<Rightarrow>
             write_loop wr pause sizes data e (Suc size_idx) (Suc sent)
               (if e < length data then pause size_idx w1 else w1))
      else (Inr (), w, sent))"
  by pat_completeness auto
termination
  by (relation "measure (\<lambda>(wr, pause, sizes, data, offset, size_idx, sent, w). length data - offset)")
    (auto simp: chunk_end_def)

declare write_loop.simps [simp del]

definition write_to_backend ::
    "'w writer \<Rightarrow> (u64 \<Rightarrow> 'w \<Rightarrow> 'w) \<Rightarrow> bytes \<Rightarrow> fragmentation_config \<Rightarrow> stats \<Rightarrow> 'w
     \<Rightarrow> unit result \<times> 'w \<times> stats" where
  "write_to_backend wr sleep data cfg st w =
     (if \<not> fr_enabled cfg \<or> chunk_sizes cfg = [] then
        (case wr w data of
           (Inl _, w1) \<Rightarrow> (Inl (Proxy ''write to backend''), w1, st)
         | (Inr _, w1) \<Rightarrow> (Inr (), w1, st))
      else
        (case write_loop wr (\<lambda>_ w. if 0 < delay_ms cfg then sleep (delay_ms cfg) w else w)
                (chunk_sizes cfg) data 0 0 0 w of
           (Inl _, w1, _) \<Rightarrow> (Inl (Proxy ''fragmented write''), w1, st)
         | (Inr _, w1, sent) \<Rightarrow>
             (Inr (), w1, if 1 < sent then st\<lparr>fragmented_writes := fragmented_writes st + 1\<rparr> else st)))"

text \<open>\<^verbatim>\<open>write_chunks_with_jitter\<close>; the counter is absent when called from the ee relay.\<close>

definition write_chunks_with_jitter ::
    "'w writer \<Rightarrow> (u64 \<Rightarrow> 'w \<Rightarrow> 'w) \<Rightarrow> (nat \<Rightarrow> u64) \<Rightarrow> bytes \<Rightarrow> drs_config \<Rightarrow> stats option \<Rightarrow> 'w
     \<Rightarrow> unit result \<times> 'w \<times> stats option" where
  "write_chunks_with_jitter wr sleep rand data cfg st w =
     (let sizes = (if record_sizes cfg = [] then [512, 1024, 1398, 256] else record_sizes cfg);
          pause = (\<lambda>k w. if 0 < jitter_ms cfg then
                     let delay = rand k mod (jitter_ms cfg + 1) in if 0 < delay then sleep delay w else w
                   else w)
      in case write_loop wr pause sizes data 0 0 0 w of
           (Inl _, w1, _) \<Rightarrow> (Inl (Proxy ''DRS chunk write''), w1, st)
         | (Inr _, w1, sent) \<Rightarrow>
             (Inr (), w1,
              if 1 < sent then map_option (\<lambda>s. s\<lparr>drs_writes := drs_writes s + 1\<rparr>) st else st))"

definition write_with_drs ::
    "'w writer \<Rightarrow> (u64 \<Rightarrow> 'w \<Rightarrow> 'w) \<Rightarrow> (nat \<Rightarrow> u64) \<Rightarrow> bytes \<Rightarrow> drs_config \<Rightarrow> stats \<Rightarrow> 'w
     \<Rightarrow> unit result \<times> 'w \<times> stats" where
  "write_with_drs wr sleep rand data cfg st w =
     (if \<not> drs_enabled cfg \<or> record_sizes cfg = [] then
        (case wr w data of
           (Inl _, w1) \<Rightarrow> (Inl (Proxy ''DRS write''), w1, st)
         | (Inr _, w1) \<Rightarrow> (Inr (), w1, st))
      else
        (case write_chunks_with_jitter wr sleep rand data cfg (Some st) w of
           (r, w1, st1) \<Rightarrow> (r, w1, case st1 of Some s \<Rightarrow> s | None \<Rightarrow> st)))"

text \<open>
  \<^verbatim>\<open>plan_dd_chunks\<close>: \<open>rnd k lo hi\<close> is the \<open>k\<close>-th \<^verbatim>\<open>gen_range(lo..=hi)\<close>. Nothing in the code
  makes progress if the generator returned 0, so the loop is a partial function.
\<close>

partial_function (option) dd_plan_loop ::
    "(nat \<Rightarrow> nat \<Rightarrow> nat \<Rightarrow> nat) \<Rightarrow> nat \<Rightarrow> nat \<Rightarrow> nat \<Rightarrow> nat \<Rightarrow> nat \<Rightarrow> (nat \<times> nat) list option" where
  "dd_plan_loop rnd lo hi data_len k offset =
     (if offset < data_len then
        let remaining = data_len - offset;
            chunk_size = (if remaining \<le> lo then remaining else rnd k lo (min hi remaining));
            k' = (if remaining \<le> lo then k else Suc k);
            e = offset + chunk_size
        in Option.bind (dd_plan_loop rnd lo hi data_len k' e) (\<lambda>ranges. Some ((offset, e) # ranges))
      else Some [])"

definition plan_dd_chunks :: "(nat \<Rightarrow> nat \<Rightarrow> nat \<Rightarrow> nat) \<Rightarrow> nat \<Rightarrow> dd_config \<Rightarrow> (nat \<times> nat) list option" where
  "plan_dd_chunks rnd data_len cfg =
     (if data_len = 0 then Some []
      else let lo = max (min_chunk_size cfg) 1; hi = max (max_chunk_size cfg) lo
           in dd_plan_loop rnd lo hi data_len 0 0)"

fun write_ranges :: "'w writer \<Rightarrow> bytes \<Rightarrow> (nat \<times> nat) list \<Rightarrow> nat \<Rightarrow> 'w \<Rightarrow> (io_kind + unit) \<times> 'w \<times> nat" where
  "write_ranges wr data [] sent w = (Inr (), w, sent)"
| "write_ranges wr data ((start, e) # ranges) sent w =
     (case wr w (slice data start (e - start)) of
        (Inl err, w1) \<Rightarrow> (Inl err, w1, sent)
      | (Inr _, w1) \<Rightarrow> write_ranges wr data ranges (Suc sent) w1)"

definition write_dd_randomized ::
    "'w writer \<Rightarrow> (nat \<Rightarrow> nat \<Rightarrow> nat \<Rightarrow> nat) \<Rightarrow> bytes \<Rightarrow> dd_config \<Rightarrow> stats \<Rightarrow> 'w
     \<Rightarrow> (unit result \<times> 'w \<times> stats) option" where
  "write_dd_randomized wr rnd data cfg st w =
     (if data = [] then Some (Inr (), w, st)
      else Option.bind (plan_dd_chunks rnd (length data) cfg) (\<lambda>ranges.
        Some (case write_ranges wr data ranges 0 w of
                (Inl _, w1, _) \<Rightarrow> (Inl (Proxy ''dd write''), w1, st)
              | (Inr _, w1, sent) \<Rightarrow>
                  (Inr (), w1, if 1 < sent then st\<lparr>dd_writes := dd_writes st + 1\<rparr> else st))))"

text \<open>The writers the theorems are about append to what the peer receives.\<close>

definition appending :: "'w writer \<Rightarrow> ('w \<Rightarrow> bytes) \<Rightarrow> bool" where
  "appending wr out \<longleftrightarrow>
     (\<forall>w bs. case wr w bs of
        (Inr _, w') \<Rightarrow> out w' = out w @ bs
      | (Inl _, w') \<Rightarrow> (\<exists>k. out w' = out w @ take k bs))"

definition mem_writer :: "bytes writer" where
  "mem_writer w bs = (Inr (), w @ bs)"

lemma appending_mem_writer: "appending mem_writer (\<lambda>w. w)"
  by (simp add: appending_def mem_writer_def)


section \<open>Cyclic chunks\<close>

lemma chunk_end_bounds:
  "offset < length data \<Longrightarrow> offset < chunk_end sizes data offset i \<and> chunk_end sizes data offset i \<le> length data"
  by (simp add: chunk_end_def)

lemma slice_drop: "offset \<le> e \<Longrightarrow> slice xs offset (e - offset) @ drop e xs = drop offset xs"
  by (metis append_take_drop_id drop_drop le_add_diff_inverse2 slice_def)

lemma chunk_loop_concat: "offset \<le> length data \<Longrightarrow> concat (chunk_loop sizes data offset i) = drop offset data"
proof (induction sizes data offset i rule: chunk_loop.induct)
  case (1 sizes data offset i)
  show ?case
  proof (cases "offset < length data")
    case True
    let ?e = "chunk_end sizes data offset i"
    have b: "offset < ?e" "?e \<le> length data" using chunk_end_bounds [OF True] by auto
    have "concat (chunk_loop sizes data ?e (Suc i)) = drop ?e data"
      using "1.IH" [OF True refl b(2)] .
    then show ?thesis
      using True b slice_drop [of offset ?e data] by (simp add: chunk_loop.simps [of _ _ offset] Let_def)
  next
    case False
    then show ?thesis by (simp add: chunk_loop.simps)
  qed
qed

text \<open>Every chunk has the configured size of its turn; only the last one may be shorter.\<close>

fun sized :: "nat list \<Rightarrow> nat \<Rightarrow> bytes list \<Rightarrow> bool" where
  "sized sizes i [] = True"
| "sized sizes i [c] = (0 < length c \<and> length c \<le> max (sizes ! (i mod length sizes)) 1)"
| "sized sizes i (c # d # cs) =
     (length c = max (sizes ! (i mod length sizes)) 1 \<and> sized sizes (Suc i) (d # cs))"

lemma chunk_loop_Nil: "chunk_loop sizes data offset i = [] \<longleftrightarrow> length data \<le> offset"
  by (simp add: chunk_loop.simps Let_def)

lemma chunk_loop_sized: "sized sizes i (chunk_loop sizes data offset i)"
proof (induction sizes data offset i rule: chunk_loop.induct)
  case (1 sizes data offset i)
  show ?case
  proof (cases "offset < length data")
    case True
    let ?e = "chunk_end sizes data offset i" and ?n = "max (sizes ! (i mod length sizes)) 1"
    let ?c = "slice data offset (?e - offset)" and ?rest = "chunk_loop sizes data ?e (Suc i)"
    have b: "offset < ?e" "?e \<le> length data" using chunk_end_bounds [OF True] by auto
    then have len: "length ?c = ?e - offset" by (simp add: slice_def)
    have IH: "sized sizes (Suc i) ?rest" using "1.IH" [OF True refl] .
    have unf: "chunk_loop sizes data offset i = ?c # ?rest"
      using True by (simp add: chunk_loop.simps [of _ _ offset] Let_def)
    show ?thesis
    proof (cases ?rest)
      case Nil
      have "?e - offset \<le> ?n" by (auto simp: chunk_end_def)
      then show ?thesis using unf Nil len b by simp
    next
      case (Cons d ds)
      then have "?e < length data" using chunk_loop_Nil [of sizes data ?e "Suc i"] by auto
      then have "?e - offset = ?n" by (auto simp: chunk_end_def)
      then show ?thesis using unf Cons len IH by simp
    qed
  next
    case False
    then show ?thesis by (simp add: chunk_loop.simps)
  qed
qed

interpretation fragment_chunks: chunking "\<lambda>data. split_chunks data cfg" for cfg
  by unfold_locales (simp add: split_chunks_def chunk_loop_concat)

interpretation drs_chunks: chunking "\<lambda>data. split_drs_chunks data cfg" for cfg
  by unfold_locales (simp add: split_drs_chunks_def chunk_loop_concat)


section \<open>Writing\<close>

lemma appending_ok:
  assumes "appending wr out" and "wr w bs = (Inr u, w')"
  shows "out w' = out w @ bs"
proof -
  have "case wr w bs of (Inr _, w') \<Rightarrow> out w' = out w @ bs | (Inl _, w') \<Rightarrow> (\<exists>k. out w' = out w @ take k bs)"
    by (rule assms(1) [unfolded appending_def, THEN spec, THEN spec])
  with assms(2) show ?thesis by simp
qed

lemma appending_err:
  assumes "appending wr out" and "wr w bs = (Inl e, w')"
  shows "\<exists>k. out w' = out w @ take k bs"
proof -
  have "case wr w bs of (Inr _, w') \<Rightarrow> out w' = out w @ bs | (Inl _, w') \<Rightarrow> (\<exists>k. out w' = out w @ take k bs)"
    by (rule assms(1) [unfolded appending_def, THEN spec, THEN spec])
  with assms(2) show ?thesis by simp
qed

lemma write_loop_out:
  assumes "appending wr out" and "\<And>k w. out (pause k w) = out w"
  shows "offset \<le> length data \<Longrightarrow> write_loop wr pause sizes data offset i sent w = (r, w', sent') \<Longrightarrow>
    (case r of
       Inr _ \<Rightarrow> out w' = out w @ drop offset data \<and> sent' = sent + length (chunk_loop sizes data offset i)
     | Inl _ \<Rightarrow> \<exists>k. out w' = out w @ take k (drop offset data))"
proof (induction "length data - offset" arbitrary: offset i sent w rule: less_induct)
  case less
  show ?case
  proof (cases "offset < length data")
    case False
    with less.prems show ?thesis by (auto simp: write_loop.simps chunk_loop.simps)
  next
    case True
    let ?e = "chunk_end sizes data offset i"
    let ?c = "slice data offset (?e - offset)"
    have b: "offset < ?e" "?e \<le> length data" using chunk_end_bounds [OF True] by auto
    have cut: "drop offset data = ?c @ drop ?e data" using slice_drop [of offset ?e data] b by simp
    obtain r1 w1 where w1: "wr w ?c = (r1, w1)" by fastforce
    show ?thesis
    proof (cases r1)
      case (Inl e)
      with w1 less.prems True have res: "r = Inl e" "w' = w1"
        by (auto simp: write_loop.simps [of _ _ _ _ offset] Let_def)
      have "wr w ?c = (Inl e, w1)" using w1 Inl by simp
      from appending_err [OF assms(1) this] obtain k where "out w1 = out w @ take k ?c" ..
      then have "out w' = out w @ take (min k (length ?c)) (drop offset data)"
        unfolding cut res by (simp add: min_def)
      then show ?thesis using res by auto
    next
      case (Inr u)
      let ?w2 = "if ?e < length data then pause i w1 else w1"
      have rec: "write_loop wr pause sizes data ?e (Suc i) (Suc sent) ?w2 = (r, w', sent')"
        using w1 Inr less.prems True by (simp add: write_loop.simps [of _ _ _ _ offset] Let_def)
      have o2: "out ?w2 = out w @ ?c" using appending_ok [OF assms(1)] assms(2) w1 Inr by simp
      have "length (chunk_loop sizes data offset i) = Suc (length (chunk_loop sizes data ?e (Suc i)))"
        using True by (simp add: chunk_loop.simps [of _ _ offset] Let_def)
      moreover have "?c @ take k (drop ?e data) = take (length ?c + k) (drop offset data)" for k
        unfolding cut by simp
      moreover have "length data - ?e < length data - offset" using b True by linarith
      note IH = less.hyps [OF this b(2) rec]
      ultimately show ?thesis
      proof (cases r)
        case (Inl e)
        then obtain k where "out w' = out ?w2 @ take k (drop ?e data)" using IH by auto
        then have "out w' = out w @ (?c @ take k (drop ?e data))" unfolding o2 by simp
        then show ?thesis using Inl \<open>\<And>k. ?c @ take k (drop ?e data) = take (length ?c + k) (drop offset data)\<close>
          by auto
      next
        case (Inr u)
        then have "out w' = out ?w2 @ drop ?e data"
            "sent' = Suc sent + length (chunk_loop sizes data ?e (Suc i))"
          using IH by simp_all
        then have "out w' = out w @ drop offset data"
            "sent' = Suc sent + length (chunk_loop sizes data ?e (Suc i))"
          unfolding cut o2 by simp_all
        with Inr \<open>length (chunk_loop sizes data offset i) = _\<close> show ?thesis by simp
      qed
    qed
  qed
qed

lemma write_to_backend_out:
  assumes "appending wr out" and "\<And>d w. out (sleep d w) = out w"
    and "write_to_backend wr sleep data cfg st w = (r, w', st')"
  shows "case r of
      Inr _ \<Rightarrow> out w' = out w @ data
         \<and> st' = (if 1 < length (split_chunks data cfg)
                  then st\<lparr>fragmented_writes := fragmented_writes st + 1\<rparr> else st)
    | Inl _ \<Rightarrow> st' = st \<and> (\<exists>k. out w' = out w @ take k data)"
proof (cases "\<not> fr_enabled cfg \<or> chunk_sizes cfg = []")
  case True
  obtain r1 w1 where "wr w data = (r1, w1)" by fastforce
  with True assms(3) appending_ok [OF assms(1)] appending_err [OF assms(1)] show ?thesis
    by (cases r1) (auto simp: write_to_backend_def split_chunks_def)
next
  case False
  let ?pause = "\<lambda>(_::nat) w. if 0 < delay_ms cfg then sleep (delay_ms cfg) w else w"
  obtain r1 w1 sent where l: "write_loop wr ?pause (chunk_sizes cfg) data 0 0 0 w = (r1, w1, sent)"
    by (cases "write_loop wr ?pause (chunk_sizes cfg) data 0 0 0 w") auto
  have p: "out (?pause k w) = out w" for k w using assms(2) by simp
  have sc: "split_chunks data cfg = chunk_loop (chunk_sizes cfg) data 0 0"
    using False by (simp add: split_chunks_def)
  show ?thesis
    using write_loop_out [where pause = ?pause and out = out, OF assms(1) p _ l] False assms(3) l
    unfolding sc by (cases r1) (auto simp: write_to_backend_def)
qed

lemma write_with_drs_out:
  assumes "appending wr out" and "\<And>d w. out (sleep d w) = out w"
    and "write_with_drs wr sleep rand data cfg st w = (r, w', st')"
  shows "case r of
      Inr _ \<Rightarrow> out w' = out w @ data
         \<and> st' = (if 1 < length (split_drs_chunks data cfg) then st\<lparr>drs_writes := drs_writes st + 1\<rparr> else st)
    | Inl _ \<Rightarrow> st' = st \<and> (\<exists>k. out w' = out w @ take k data)"
proof (cases "\<not> drs_enabled cfg \<or> record_sizes cfg = []")
  case True
  obtain r1 w1 where "wr w data = (r1, w1)" by fastforce
  with True assms(3) appending_ok [OF assms(1)] appending_err [OF assms(1)] show ?thesis
    by (cases r1) (auto simp: write_with_drs_def split_drs_chunks_def)
next
  case False
  let ?pause = "\<lambda>k w. if 0 < jitter_ms cfg then
      let delay = rand k mod (jitter_ms cfg + 1) in if 0 < delay then sleep delay w else w else w"
  obtain r1 w1 sent where l: "write_loop wr ?pause (record_sizes cfg) data 0 0 0 w = (r1, w1, sent)"
    by (cases "write_loop wr ?pause (record_sizes cfg) data 0 0 0 w") auto
  have p: "out (?pause k w) = out w" for k w using assms(2) by (simp add: Let_def)
  have sc: "split_drs_chunks data cfg = chunk_loop (record_sizes cfg) data 0 0"
    using False by (simp add: split_drs_chunks_def)
  show ?thesis
    using write_loop_out [where pause = ?pause and out = out, OF assms(1) p _ l] False assms(3) l
    unfolding sc by (cases r1) (auto simp: write_with_drs_def write_chunks_with_jitter_def)
qed


section \<open>dd plans\<close>

definition gen_range_law :: "(nat \<Rightarrow> nat \<Rightarrow> nat \<Rightarrow> nat) \<Rightarrow> bool" where
  "gen_range_law rnd \<longleftrightarrow> (\<forall>k lo hi. lo \<le> hi \<longrightarrow> lo \<le> rnd k lo hi \<and> rnd k lo hi \<le> hi)"

text \<open>The ranges are contiguous and nonempty; all but the last are at least \<open>lo\<close>, none above \<open>hi\<close>.\<close>

fun tiles :: "nat \<Rightarrow> nat \<Rightarrow> nat \<Rightarrow> (nat \<times> nat) list \<Rightarrow> nat \<Rightarrow> bool" where
  "tiles lo hi a [] b = (a = b)"
| "tiles lo hi a ((s, e) # r) b =
     (s = a \<and> a < e \<and> e - a \<le> hi \<and> (lo \<le> e - a \<or> r = []) \<and> tiles lo hi e r b)"

lemma dd_plan_loop_tiles:
  assumes "gen_range_law rnd" and "1 \<le> lo" and "lo \<le> hi"
  shows "offset \<le> n \<Longrightarrow> \<exists>ranges. dd_plan_loop rnd lo hi n k offset = Some ranges \<and> tiles lo hi offset ranges n"
proof (induction "n - offset" arbitrary: offset k rule: less_induct)
  case less
  show ?case
  proof (cases "offset < n")
    case False
    with less.prems show ?thesis by (simp add: dd_plan_loop.simps)
  next
    case True
    show ?thesis
    proof (cases "n - offset \<le> lo")
      case small: True
      have "dd_plan_loop rnd lo hi n k n = Some []" by (simp add: dd_plan_loop.simps)
      then show ?thesis
        using True small assms(3) by (simp add: dd_plan_loop.simps [of _ _ _ _ _ offset])
    next
      case False
      let ?c = "rnd k lo (min hi (n - offset))"
      have "lo \<le> min hi (n - offset)" using assms(3) False by simp
      then have "lo \<le> ?c \<and> ?c \<le> min hi (n - offset)" using assms(1) unfolding gen_range_law_def by blast
      then have c: "lo \<le> ?c" "?c \<le> hi" "?c \<le> n - offset" by simp_all
      then obtain ranges where "dd_plan_loop rnd lo hi n (Suc k) (offset + ?c) = Some ranges"
          "tiles lo hi (offset + ?c) ranges n"
        using less.hyps [of "offset + ?c" "Suc k"] True assms(2) by fastforce
      then show ?thesis
        using True False c assms(2) by (simp add: dd_plan_loop.simps [of _ _ _ _ _ offset] Let_def)
    qed
  qed
qed

lemma plan_dd_chunks_tiles:
  assumes "gen_range_law rnd"
  shows "\<exists>ranges. plan_dd_chunks rnd n cfg = Some ranges
    \<and> tiles (max (min_chunk_size cfg) 1) (max (max_chunk_size cfg) (max (min_chunk_size cfg) 1)) 0 ranges n"
  using dd_plan_loop_tiles [OF assms, of "max (min_chunk_size cfg) 1" "max (max_chunk_size cfg) (max (min_chunk_size cfg) 1)" 0 n 0]
  by (auto simp: plan_dd_chunks_def Let_def)

lemma tiles_concat:
  "tiles lo hi a ranges b \<Longrightarrow> a \<le> b \<and> concat (map (\<lambda>(s, e). slice data s (e - s)) ranges) = slice data a (b - a)"
proof (induction ranges arbitrary: a)
  case Nil
  then show ?case by simp
next
  case (Cons x ranges)
  obtain s e where x: "x = (s, e)" by fastforce
  with Cons have h: "s = a" "a < e" "e \<le> b"
    "concat (map (\<lambda>(s, e). slice data s (e - s)) ranges) = slice data e (b - e)"
    by auto
  have "slice data a (e - a) @ slice data e (b - e) = slice data a (b - a)"
  proof -
    have "b - a = (e - a) + (b - e)" "drop e data = drop (e - a) (drop a data)" using h by auto
    then show ?thesis by (simp add: slice_def take_add)
  qed
  then show ?case using h x by simp
qed

text \<open>Under the law of the generator, the dd plan is one more way of cutting a buffer.\<close>

definition dd_chunks :: "(nat \<Rightarrow> nat \<Rightarrow> nat \<Rightarrow> nat) \<Rightarrow> dd_config \<Rightarrow> bytes \<Rightarrow> bytes list" where
  "dd_chunks rnd cfg data =
     (case plan_dd_chunks rnd (length data) cfg of
        None \<Rightarrow> [] | Some ranges \<Rightarrow> map (\<lambda>(s, e). slice data s (e - s)) ranges)"

lemma dd_chunking: "gen_range_law rnd \<Longrightarrow> chunking (dd_chunks rnd cfg)"
proof
  fix data :: bytes
  assume "gen_range_law rnd"
  then obtain ranges where "plan_dd_chunks rnd (length data) cfg = Some ranges"
    "tiles (max (min_chunk_size cfg) 1) (max (max_chunk_size cfg) (max (min_chunk_size cfg) 1)) 0 ranges (length data)"
    using plan_dd_chunks_tiles by blast
  then show "concat (dd_chunks rnd cfg data) = data"
    using tiles_concat [of _ _ 0 ranges "length data" data] by (simp add: dd_chunks_def slice_def)
qed

lemma write_ranges_out:
  assumes "appending wr out"
  shows "write_ranges wr data ranges sent w = (r, w', sent') \<Longrightarrow>
    (case r of
       Inr _ \<Rightarrow> out w' = out w @ concat (map (\<lambda>(s, e). slice data s (e - s)) ranges) \<and> sent' = sent + length ranges
     | Inl _ \<Rightarrow> \<exists>k. out w' = out w @ take k (concat (map (\<lambda>(s, e). slice data s (e - s)) ranges)))"
proof (induction ranges arbitrary: sent w)
  case Nil
  then show ?case by auto
next
  case (Cons x ranges)
  obtain s e where x: "x = (s, e)" by fastforce
  let ?c = "slice data s (e - s)" and ?rest = "concat (map (\<lambda>(s, e). slice data s (e - s)) ranges)"
  obtain r1 w1 where w1: "wr w ?c = (r1, w1)" by fastforce
  show ?case
  proof (cases r1)
    case (Inl err)
    then have "wr w ?c = (Inl err, w1)" using w1 by simp
    from appending_err [OF assms this] obtain k where "out w1 = out w @ take k ?c" ..
    then have "out w1 = out w @ take (min k (length ?c)) (?c @ ?rest)" by (simp add: min_def)
    then have "\<exists>k. out w1 = out w @ take k (?c @ ?rest)" by blast
    moreover have "r = Inl err" "w' = w1" using Cons.prems x w1 Inl by simp_all
    moreover have "concat (map (\<lambda>(s, e). slice data s (e - s)) (x # ranges)) = ?c @ ?rest" by (simp add: x)
    ultimately show ?thesis by (simp only: old.sum.case)
  next
    case (Inr u)
    have o1: "out w1 = out w @ ?c" using appending_ok [OF assms] w1 Inr by simp
    have rec: "write_ranges wr data ranges (Suc sent) w1 = (r, w', sent')"
      using Cons.prems x w1 Inr by simp
    show ?thesis
    proof (cases r)
      case (Inl e)
      then obtain k where "out w' = out w1 @ take k ?rest" using Cons.IH [OF rec] by auto
      then have "out w' = out w @ (?c @ take k ?rest)" unfolding o1 by simp
      also have "?c @ take k ?rest = take (length ?c + k) (?c @ ?rest)" by simp
      finally have "\<exists>k. out w' = out w @ take k (?c @ ?rest)" by blast
      moreover have "concat (map (\<lambda>(s, e). slice data s (e - s)) (x # ranges)) = ?c @ ?rest" by (simp add: x)
      ultimately show ?thesis using Inl by (simp only: old.sum.case)
    next
      case (Inr u)
      with Cons.IH [OF rec] o1 x show ?thesis by simp
    qed
  qed
qed


lemma write_dd_out:
  assumes "gen_range_law rnd" and "appending wr out"
  shows "\<exists>r w' st'. write_dd_randomized wr rnd data cfg st w = Some (r, w', st')
    \<and> (case r of Inr _ \<Rightarrow> out w' = out w @ data | Inl _ \<Rightarrow> st' = st \<and> (\<exists>k. out w' = out w @ take k data))"
proof (cases "data = []")
  case True
  then show ?thesis by (simp add: write_dd_randomized_def)
next
  case False
  obtain ranges where p: "plan_dd_chunks rnd (length data) cfg = Some ranges"
    using plan_dd_chunks_tiles [OF assms(1)] by blast
  have cc: "concat (map (\<lambda>(s, e). slice data s (e - s)) ranges) = data"
    using chunking.chunks_concat [OF dd_chunking [OF assms(1)], of cfg data] by (simp add: dd_chunks_def p)
  obtain r w' sent where l: "write_ranges wr data ranges 0 w = (r, w', sent)"
    by (cases "write_ranges wr data ranges 0 w") auto
  show ?thesis
    using write_ranges_out [OF assms(2) l] False p l unfolding cc
    by (cases r) (auto simp: write_dd_randomized_def)
qed


section \<open>Properties\<close>

text \<open>
  Fragmentation and dynamic record sizing only cut: the chunks concatenate to the data, and
  when the feature is on every chunk has the configured size of its turn (at least one byte),
  only the last one may be shorter.
\<close>

theorem split_chunks_correct:
  "concat (split_chunks data frag) = data \<and> concat (split_drs_chunks data drs_cfg) = data
   \<and> sum_list (map length (split_chunks data frag)) = length data
   \<and> (\<not> fr_enabled frag \<or> chunk_sizes frag = [] \<or> sized (chunk_sizes frag) 0 (split_chunks data frag))
   \<and> (\<not> drs_enabled drs_cfg \<or> record_sizes drs_cfg = []
      \<or> sized (record_sizes drs_cfg) 0 (split_drs_chunks data drs_cfg))"
  using fragment_chunks.chunks_concat drs_chunks.chunks_concat fragment_chunks.chunks_length
    chunk_loop_sized [where i = 0 and offset = 0]
  by (auto simp: split_chunks_def split_drs_chunks_def)

text \<open>
  Writing with fragmentation refines the plain write: whatever the configuration and the
  delays, on success the peer has received exactly the data, in as many writes as
  \<^verbatim>\<open>split_chunks\<close> has chunks (the counter moves when there is more than one), and on an
  error it has received a prefix of the data and no counter moved.
\<close>

theorem write_to_backend_delivers:
  assumes "appending wr out" and "\<And>d w. out (sleep d w) = out w"
    and "write_to_backend wr sleep data cfg st w = (r, w', st')"
  shows "case r of
      Inr _ \<Rightarrow> out w' = out w @ data
         \<and> st' = (if 1 < length (split_chunks data cfg)
                  then st\<lparr>fragmented_writes := fragmented_writes st + 1\<rparr> else st)
    | Inl _ \<Rightarrow> st' = st \<and> (\<exists>k. out w' = out w @ take k data)"
  using assms by (rule write_to_backend_out)

theorem split_chunks_correct_witness:
  "sized [2, 3] 0 (split_chunks [1, 2, 3, 4, 5, 6] \<lparr>fr_enabled = True, chunk_sizes = [2, 3], delay_ms = 0\<rparr>)"
  using split_chunks_correct [of "[1, 2, 3, 4, 5, 6]" "\<lparr>fr_enabled = True, chunk_sizes = [2, 3], delay_ms = 0\<rparr>"]
  by simp

theorem write_to_backend_delivers_witness:
  "fst (snd (write_to_backend mem_writer (\<lambda>_ w. w) [1, 2, 3, 4, 5]
      \<lparr>fr_enabled = True, chunk_sizes = [2], delay_ms = 3\<rparr> stats_default [])) = [1, 2, 3, 4, 5]"
proof -
  let ?cfg = "\<lparr>fr_enabled = True, chunk_sizes = [2], delay_ms = 3\<rparr>"
  obtain r w' st' where res:
      "write_to_backend mem_writer (\<lambda>_ w. w) [1, 2, 3, 4, 5] ?cfg stats_default [] = (r, w', st')"
    by (cases "write_to_backend mem_writer (\<lambda>_ w. w) [1, 2, 3, 4, 5] ?cfg stats_default []") auto
  have "is_ok r"
    using res by (auto simp: write_to_backend_def write_loop.simps mem_writer_def chunk_end_def)
  with write_to_backend_delivers [OF appending_mem_writer _ res] show ?thesis
    by (cases r) (simp_all add: res)
qed

text \<open>
  The same for dynamic record sizing, whatever the jitter and the random numbers.
\<close>

theorem write_with_drs_delivers:
  assumes "appending wr out" and "\<And>d w. out (sleep d w) = out w"
    and "write_with_drs wr sleep rand data cfg st w = (r, w', st')"
  shows "case r of
      Inr _ \<Rightarrow> out w' = out w @ data
         \<and> st' = (if 1 < length (split_drs_chunks data cfg) then st\<lparr>drs_writes := drs_writes st + 1\<rparr> else st)
    | Inl _ \<Rightarrow> st' = st \<and> (\<exists>k. out w' = out w @ take k data)"
  using assms by (rule write_with_drs_out)

theorem write_with_drs_delivers_witness:
  "fst (snd (write_with_drs mem_writer (\<lambda>_ w. w) (\<lambda>k. 9) [1, 2, 3]
      \<lparr>drs_enabled = True, record_sizes = [2], ee_relay = True, jitter_ms = 4\<rparr> stats_default [7])) = [7, 1, 2, 3]"
proof -
  let ?cfg = "\<lparr>drs_enabled = True, record_sizes = [2], ee_relay = True, jitter_ms = 4\<rparr>"
  obtain r w' st' where res:
      "write_with_drs mem_writer (\<lambda>_ w. w) (\<lambda>k. 9) [1, 2, 3] ?cfg stats_default [7] = (r, w', st')"
    by (cases "write_with_drs mem_writer (\<lambda>_ w. w) (\<lambda>k. 9) [1, 2, 3] ?cfg stats_default [7]") auto
  have "is_ok r"
    using res by (auto simp: write_with_drs_def write_chunks_with_jitter_def write_loop.simps
        mem_writer_def chunk_end_def Let_def)
  with write_with_drs_delivers [OF appending_mem_writer _ res] show ?thesis
    by (cases r) (simp_all add: res)
qed

text \<open>
  C40. The dd plan always exists and tiles the buffer: for every length, every configuration and
  every generator that keeps to its range, the loop terminates with contiguous nonempty ranges
  from 0 to the length, none longer than the upper bound and only the last shorter than the
  lower one; writing them delivers exactly the data.
\<close>

theorem dd_plan_tiles_buffer:
  assumes "gen_range_law rnd"
  shows "(\<exists>ranges. plan_dd_chunks rnd n cfg = Some ranges
      \<and> tiles (max (min_chunk_size cfg) 1) (max (max_chunk_size cfg) (max (min_chunk_size cfg) 1)) 0 ranges n)
    \<and> concat (dd_chunks rnd cfg data) = data"
  using plan_dd_chunks_tiles [OF assms] chunking.chunks_concat [OF dd_chunking [OF assms]] by blast

theorem dd_plan_tiles_buffer_witness:
  "\<exists>ranges. plan_dd_chunks (\<lambda>k lo hi. hi) 20 \<lparr>min_chunk_size = 3, max_chunk_size = 7\<rparr> = Some ranges
     \<and> tiles 3 7 0 ranges 20"
  using dd_plan_tiles_buffer [of "\<lambda>k lo hi. hi" 20 "\<lparr>min_chunk_size = 3, max_chunk_size = 7\<rparr>"]
  by (simp add: gen_range_law_def)

text \<open>
  Writing in dd mode always finishes planning, delivers exactly the data on success and a
  prefix of it on an error.
\<close>

theorem write_dd_delivers:
  assumes "gen_range_law rnd" and "appending wr out"
  shows "\<exists>r w' st'. write_dd_randomized wr rnd data cfg st w = Some (r, w', st')
    \<and> (case r of Inr _ \<Rightarrow> out w' = out w @ data | Inl _ \<Rightarrow> st' = st \<and> (\<exists>k. out w' = out w @ take k data))"
  using assms by (rule write_dd_out)

theorem write_dd_delivers_witness:
  "\<exists>r w' st'. write_dd_randomized mem_writer (\<lambda>k lo hi. lo) [1, 2, 3, 4]
     \<lparr>min_chunk_size = 2, max_chunk_size = 3\<rparr> stats_default [] = Some (r, w', st')
     \<and> (case r of Inr _ \<Rightarrow> w' = [1, 2, 3, 4] | Inl _ \<Rightarrow> st' = stats_default \<and> (\<exists>k. w' = take k [1, 2, 3, 4]))"
proof -
  have "gen_range_law (\<lambda>k lo hi. lo)" by (simp add: gen_range_law_def)
  from write_dd_delivers [OF this appending_mem_writer, of "[1, 2, 3, 4]"
      "\<lparr>min_chunk_size = 2, max_chunk_size = 3\<rparr>" stats_default "[]"]
  show ?thesis unfolding append_Nil .
qed

end
