(* ===== verification/Tls_Wire.thy ===== *)
theory Tls_Wire
  imports Secrets
begin

text \<open>
  \<^verbatim>\<open>src/tls.rs\<close>: the TLS record layer, the ClientHello parser, SNI extraction from complete
  and from partly received ClientHellos, the JA4-like fingerprint, and the ClientHello builders
  of the test support module. A cursor into a buffer is represented by the bytes that remain
  after it: the test \<^verbatim>\<open>cursor + n > len\<close> is \<open>length rest < n\<close>. SHA-256 and the crate \<^verbatim>\<open>hex\<close>
  are parameters.
\<close>

datatype record_type = ChangeCipherSpec | Alert | Handshake | ApplicationData

fun record_code :: "record_type \<Rightarrow> u8" where
  "record_code ChangeCipherSpec = 20"
| "record_code Alert = 21"
| "record_code Handshake = 22"
| "record_code ApplicationData = 23"

definition record_type_of :: "u8 \<Rightarrow> record_type result" where
  "record_type_of v =
     (if v = 20 then Inr ChangeCipherSpec
      else if v = 21 then Inr Alert
      else if v = 22 then Inr Handshake
      else if v = 23 then Inr ApplicationData
      else Inl (TlsParse ''unknown TLS record type''))"

datatype handshake_type = HsClientHello | HsServerHello | HsOther u8

definition handshake_of :: "u8 \<Rightarrow> handshake_type" where
  "handshake_of v = (if v = 1 then HsClientHello else if v = 2 then HsServerHello else HsOther v)"

record tls_record =
  rec_type :: record_type
  rec_version :: "u8 \<times> u8"
  rec_payload :: bytes

record client_hello =
  ch_version :: "u8 \<times> u8"
  ch_random :: bytes
  ch_session_id :: bytes
  ch_ciphers :: bytes
  ch_compression :: bytes
  ch_extensions :: bytes
  ch_sni :: "string option"

fun parse_record :: "bytes \<Rightarrow> tls_record result" where
  "parse_record (t # v1 # v2 # l1 # l2 # rest) =
     bindR (record_type_of t) (\<lambda>rt.
       if length rest < be16 l1 l2 then Inl (TlsParse ''incomplete TLS record'')
       else Inr \<lparr>rec_type = rt, rec_version = (v1, v2), rec_payload = take (be16 l1 l2) rest\<rparr>)"
| "parse_record _ = Inl (TlsParse ''not enough data for a TLS record'')"

definition tls_record_total_len :: "bytes \<Rightarrow> nat option" where
  "tls_record_total_len data =
     (case data of t # v1 # v2 # l1 # l2 # rest \<Rightarrow>
        (case record_type_of t of Inl _ \<Rightarrow> None | Inr _ \<Rightarrow> usize_checked_add 5 (be16 l1 l2))
      | _ \<Rightarrow> None)"

section \<open>SNI\<close>

text \<open>The name list; \<open>budget\<close> is what is left of the announced list length.\<close>

function sni_names :: "nat \<Rightarrow> bytes \<Rightarrow> string option" where
  "sni_names budget data =
     (case data of t # h # l # rest \<Rightarrow>
        if budget < 3 then None
        else let n = be16 h l in
          if length rest < n then None
          else if t = 0 then from_utf8 (take n rest)
          else sni_names (budget - (3 + n)) (drop n rest)
      | _ \<Rightarrow> None)"
  by pat_completeness auto
termination
  by (relation "measure (\<lambda>(budget, data). length data)") auto

declare sni_names.simps [simp del]

definition parse_sni_extension :: "bytes \<Rightarrow> string option" where
  "parse_sni_extension data =
     (if length data < 5 then None
      else let list_len = be16 (data ! 0) (data ! 1) in
        if length data < 2 + list_len then None
        else sni_names list_len (drop 2 data))"

function extract_sni :: "bytes \<Rightarrow> string option" where
  "extract_sni ext =
     (case ext of t1 # t2 # l1 # l2 # rest \<Rightarrow>
        let ext_len = be16 l1 l2 in
        if length rest < ext_len then None
        else if be16 t1 t2 = 0 then parse_sni_extension (take ext_len rest)
        else extract_sni (drop ext_len rest)
      | _ \<Rightarrow> None)"
  by pat_completeness auto
termination
  by (relation "measure length") auto

declare extract_sni.simps [simp del]

section \<open>ClientHello\<close>

text \<open>\<^verbatim>\<open>if cursor + n > payload.len() { return Err(..) }\<close> and the slice that follows.\<close>

definition cut :: "nat \<Rightarrow> bytes \<Rightarrow> (bytes \<times> bytes) result" where
  "cut n rest =
     (if length rest < n then Inl (TlsParse ''out of bounds in ClientHello'')
      else Inr (take n rest, drop n rest))"

definition cut_u8 :: "bytes \<Rightarrow> (nat \<times> bytes) result" where
  "cut_u8 rest = bindR (cut 1 rest) (\<lambda>(b, r). Inr (unat (b ! 0), r))"

definition cut_u16 :: "bytes \<Rightarrow> (nat \<times> bytes) result" where
  "cut_u16 rest = bindR (cut 2 rest) (\<lambda>(b, r). Inr (be16 (b ! 0) (b ! 1), r))"

definition parse_client_hello :: "bytes \<Rightarrow> client_hello result" where
  "parse_client_hello payload =
     (if payload = [] then Inl (TlsParse ''empty handshake payload'')
      else if handshake_of (payload ! 0) \<noteq> HsClientHello then Inl (TlsParse ''expected a ClientHello'')
      else if length payload < 4 then Inl (TlsParse ''not enough data for a ClientHello'')
      else if length payload < 4 + be24 (payload ! 1) (payload ! 2) (payload ! 3)
        then Inl (TlsParse ''incomplete ClientHello'')
      else
        bindR (cut 2 (drop 4 payload)) (\<lambda>(version, r1).
        bindR (cut 32 r1) (\<lambda>(random, r2).
        bindR (cut_u8 r2) (\<lambda>(session_id_len, r3).
        bindR (cut session_id_len r3) (\<lambda>(session_id, r4).
        bindR (cut_u16 r4) (\<lambda>(cipher_suites_len, r5).
        bindR (cut cipher_suites_len r5) (\<lambda>(cipher_suites, r6).
        bindR (cut_u8 r6) (\<lambda>(compression_len, r7).
        bindR (cut compression_len r7) (\<lambda>(compression_methods, r8).
        bindR (if 2 \<le> length r8
               then bindR (cut_u16 r8) (\<lambda>(extensions_len, r9).
                    bindR (cut extensions_len r9) (\<lambda>(extensions, _). Inr extensions))
               else Inr []) (\<lambda>extensions.
        Inr \<lparr>ch_version = (version ! 0, version ! 1), ch_random = random, ch_session_id = session_id,
             ch_ciphers = cipher_suites, ch_compression = compression_methods,
             ch_extensions = extensions, ch_sni = extract_sni extensions\<rparr>))))))))))"

text \<open>
  The partial parser: every failed test returns \<^verbatim>\<open>None\<close>, the handshake length is not checked and
  the extension block may be cut short.
\<close>

definition try_client_hello_sni_from_payload :: "bytes \<Rightarrow> string option" where
  "try_client_hello_sni_from_payload payload =
     (if payload = [] \<or> handshake_of (payload ! 0) \<noteq> HsClientHello then None
      else if length payload < 4 then None
      else Option.bind (to_opt
        (bindR (cut 2 (drop 4 payload)) (\<lambda>(_, r1).
         bindR (cut 32 r1) (\<lambda>(_, r2).
         bindR (cut_u8 r2) (\<lambda>(session_id_len, r3).
         bindR (cut session_id_len r3) (\<lambda>(_, r4).
         bindR (cut_u16 r4) (\<lambda>(cipher_suites_len, r5).
         bindR (cut cipher_suites_len r5) (\<lambda>(_, r6).
         bindR (cut_u8 r6) (\<lambda>(compression_len, r7).
         bindR (cut compression_len r7) (\<lambda>(_, r8).
         cut_u16 r8)))))))))) (\<lambda>(extensions_len, r9).
        let e = take extensions_len r9 in if e = [] then None else extract_sni e))"

definition looks_like_tls_client_hello :: "bytes \<Rightarrow> bool" where
  "looks_like_tls_client_hello data =
     (if length data < 6 then False
      else if data ! 0 \<noteq> record_code Handshake then False
      else if handshake_of (data ! 5) \<noteq> HsClientHello then False
      else (case parse_record data of
              Inr r \<Rightarrow> rec_payload r \<noteq> []
            | Inl _ \<Rightarrow> True))"

definition try_client_hello_sni :: "bytes \<Rightarrow> string option" where
  "try_client_hello_sni data =
     (if \<not> looks_like_tls_client_hello data then None
      else (case parse_record data of
              Inr r \<Rightarrow>
                (case parse_client_hello (rec_payload r) of
                   Inr hello \<Rightarrow> ch_sni hello
                 | Inl _ \<Rightarrow> try_client_hello_sni_from_payload (rec_payload r))
            | Inl _ \<Rightarrow>
                if 5 < length data then
                  (case parse_client_hello (drop 5 data) of
                     Inr hello \<Rightarrow> ch_sni hello
                   | Inl _ \<Rightarrow> try_client_hello_sni_from_payload (drop 5 data))
                else None))"

section \<open>Fingerprints\<close>

function count_extensions :: "bytes \<Rightarrow> nat" where
  "count_extensions ext =
     (case ext of t1 # t2 # l1 # l2 # rest \<Rightarrow>
        if length rest < be16 l1 l2 then 0
        else Suc (count_extensions (drop (be16 l1 l2) rest))
      | _ \<Rightarrow> 0)"
  by pat_completeness auto
termination
  by (relation "measure length") auto

declare count_extensions.simps [simp del]

text \<open>The formats \<^verbatim>\<open>{:02x}\<close> of a byte and \<^verbatim>\<open>{:02}\<close> of a number below 100.\<close>

definition fmt_02x :: "u8 \<Rightarrow> string" where
  "fmt_02x b = [hex_digit (unat b div 16), hex_digit (unat b mod 16)]"

definition fmt_02 :: "nat \<Rightarrow> string" where
  "fmt_02 n = (if n < 10 then ''0'' @ dec_string n else dec_string n)"

definition compute_ja4 :: "(bytes \<Rightarrow> bytes) \<Rightarrow> hex_lib \<Rightarrow> client_hello \<Rightarrow> string" where
  "compute_ja4 sha256 hx hello =
     (let version = fmt_02x (fst (ch_version hello)) @ fmt_02x (snd (ch_version hello));
          sni_marker = (if ch_sni hello \<noteq> None then CHR ''d'' else CHR ''i'');
          cipher_count = min (length (ch_ciphers hello) div 2) 99;
          ext_count = min (count_extensions (ch_extensions hello)) 99;
          cipher_hash = hex_encode hx (take 6 (sha256 (ch_ciphers hello)));
          ext_hash = hex_encode hx (take 6 (sha256 (ch_extensions hello)))
      in ''t'' @ version @ [sni_marker] @ fmt_02 cipher_count @ fmt_02 ext_count
         @ ''_'' @ cipher_hash @ ''_'' @ ext_hash)"

definition fingerprint_aliases :: "string list" where
  "fingerprint_aliases = [''chrome_120'', ''chrome_121'', ''chrome_122'', ''firefox_122'', ''firefox_123'',
     ''edge_120'', ''edge_121'', ''safari_17'']"

definition resolve_fingerprint_alias :: "string \<Rightarrow> string" where
  "resolve_fingerprint_alias profile =
     (let p = to_ascii_lowercase (trim profile) in
      if p \<in> set fingerprint_aliases then ''t13d'' else p)"

definition ja4_matches :: "string \<Rightarrow> string \<Rightarrow> bool" where
  "ja4_matches fingerprint profile =
     (let resolved = resolve_fingerprint_alias profile in
      fingerprint = resolved \<or> starts_with fingerprint resolved)"

definition ja4_matches_any :: "string \<Rightarrow> string list \<Rightarrow> bool" where
  "ja4_matches_any fingerprint profiles =
     (if profiles = [] then True else list_ex (\<lambda>p. ja4_matches fingerprint p) profiles)"

section \<open>Building ClientHellos\<close>

text \<open>The record header the sources put before a payload; the length is cast to 16 bits.\<close>

definition record_bytes :: "tls_record \<Rightarrow> bytes" where
  "record_bytes r = record_code (rec_type r) # fst (rec_version r) # snd (rec_version r)
     # u16_be (length (rec_payload r)) @ rec_payload r"

text \<open>\<^verbatim>\<open>(host.len() as u16 + 3).to_be_bytes()\<close> and the name that follows.\<close>

definition sni_list_bytes :: "bytes \<Rightarrow> bytes" where
  "sni_list_bytes host = u16_be (length host mod 65536 + 3) @ [0x00] @ u16_be (length host) @ host"

definition sni_extension_bytes :: "bytes \<Rightarrow> bytes" where
  "sni_extension_bytes host =
     [0x00, 0x00] @ u16_be (length (sni_list_bytes host)) @ sni_list_bytes host"

definition hello_fixed :: bytes where
  "hello_fixed = [0x03, 0x03] @ replicate 32 0x00 @ [0x00] @ [0x00, 0x02, 0x13, 0x01] @ [0x01, 0x00]"

definition hello_with_extensions :: "bytes \<Rightarrow> bytes" where
  "hello_with_extensions ext =
     (let body = hello_fixed @ u16_be (length ext) @ ext;
          handshake = [0x01] @ u24_be (length body) @ body
      in [0x16, 0x03, 0x01] @ u16_be (length handshake) @ handshake)"

definition build_client_hello :: "string \<Rightarrow> bytes" where
  "build_client_hello sni = hello_with_extensions (sni_extension_bytes (as_bytes sni))"

text \<open>
  The padded variant; \<^verbatim>\<open>target - fixed - ext - 4\<close> is an unsigned subtraction that panics when
  the target exceeds the unpadded size by less than 4: then there is no result.
\<close>

definition build_client_hello_padded :: "string \<Rightarrow> nat \<Rightarrow> bytes option" where
  "build_client_hello_padded sni min_record_len =
     (let ext = sni_extension_bytes (as_bytes sni);
          handshake_fixed = 4 + length hello_fixed + 2;
          target_handshake = min_record_len - 5
      in if handshake_fixed + length ext < target_handshake then
           (if target_handshake - handshake_fixed - length ext < 4 then None
            else let pad_len = target_handshake - handshake_fixed - length ext - 4 in
              Some (hello_with_extensions
                (ext @ [0x00, 0x15] @ u16_be pad_len @ replicate pad_len 0x00)))
         else Some (hello_with_extensions ext))"


section \<open>Records\<close>

lemma record_type_of_Inr_iff [simp]: "record_type_of v = Inr t \<longleftrightarrow> v = record_code t"
  by (cases t) (auto simp: record_type_of_def)

lemma record_code_inject [simp]: "record_code a = record_code b \<longleftrightarrow> a = b"
  by (cases a; cases b) simp_all

lemma length_record_bytes: "length (record_bytes r) = 5 + length (rec_payload r)"
  by (simp add: record_bytes_def)

lemma parse_record_bytes:
  assumes "length (rec_payload r) < 65536"
  shows "parse_record (record_bytes r @ rest) = Inr r"
  using assms by (simp add: record_bytes_def u16_be_def be16_u8_of)

lemma parse_record_sound:
  assumes "parse_record d = Inr r"
  shows "\<exists>rest. d = record_bytes r @ rest \<and> length (rec_payload r) < 65536"
proof -
  obtain t v1 v2 l1 l2 rest where d: "d = t # v1 # v2 # l1 # l2 # rest"
    using assms by (cases d rule: parse_record.cases) auto
  with assms have "t = record_code (rec_type r)" "rec_version r = (v1, v2)"
      "be16 l1 l2 \<le> length rest" "rec_payload r = take (be16 l1 l2) rest"
    by (auto split: if_splits)
  moreover from this have "length (rec_payload r) = be16 l1 l2" by simp
  ultimately have "d = record_bytes r @ drop (be16 l1 l2) rest"
    using u16_be_be16 [of l1 l2] by (simp add: d record_bytes_def)
  then show ?thesis using \<open>length (rec_payload r) = be16 l1 l2\<close> by auto
qed

lemma parse_record_payload:
  assumes "parse_record d = Inr r"
  shows "rec_payload r = take (length (rec_payload r)) (drop 5 d)" "5 \<le> length d"
  using parse_record_sound [OF assms] by (auto simp: record_bytes_def)

text \<open>Reading one record off the front of a stream.\<close>

definition record_dec :: "bytes \<Rightarrow> (tls_record \<times> bytes) option" where
  "record_dec d = (case parse_record d of
     Inl _ \<Rightarrow> None | Inr r \<Rightarrow> Some (r, drop (5 + length (rec_payload r)) d))"

interpretation tls_records: framed_codec record_bytes record_dec "\<lambda>r. length (rec_payload r) < 65536"
  by unfold_locales (simp add: record_dec_def parse_record_bytes length_record_bytes [symmetric])

section \<open>ClientHellos\<close>

lemma cut_Inr_iff: "cut n r = Inr (a, b) \<longleftrightarrow> r = a @ b \<and> length a = n"
proof
  assume "cut n r = Inr (a, b)"
  then have "n \<le> length r" "a = take n r" "b = drop n r" by (auto simp: cut_def split: if_splits)
  then show "r = a @ b \<and> length a = n" by simp
qed (auto simp: cut_def)

lemma cut_u8_Inr_iff: "cut_u8 r = Inr (n, b) \<longleftrightarrow> (\<exists>x. r = x # b \<and> n = unat x)"
  by (auto simp: cut_u8_def cut_Inr_iff length_Suc_conv)

lemma cut_u16_Inr_iff: "cut_u16 r = Inr (n, b) \<longleftrightarrow> (\<exists>x y. r = x # y # b \<and> n = be16 x y)"
  by (auto simp: cut_u16_def cut_Inr_iff numeral_2_eq_2 length_Suc_conv)

lemmas cut_iffs = cut_Inr_iff cut_u8_Inr_iff cut_u16_Inr_iff

text \<open>The layout of a ClientHello up to its extensions, and the whole message.\<close>

definition hello_front :: "client_hello \<Rightarrow> bytes" where
  "hello_front h = [fst (ch_version h), snd (ch_version h)] @ ch_random h
     @ [u8_of (length (ch_session_id h))] @ ch_session_id h
     @ u16_be (length (ch_ciphers h)) @ ch_ciphers h
     @ [u8_of (length (ch_compression h))] @ ch_compression h"

definition hello_message :: "client_hello \<Rightarrow> bytes" where
  "hello_message h =
     (let body = hello_front h @ u16_be (length (ch_extensions h)) @ ch_extensions h
      in 1 # u24_be (length body) @ body)"

definition hello_wf :: "client_hello \<Rightarrow> bool" where
  "hello_wf h \<longleftrightarrow> length (ch_random h) = 32 \<and> length (ch_session_id h) < 256
     \<and> length (ch_ciphers h) < 65536 \<and> length (ch_compression h) < 256
     \<and> length (ch_extensions h) < 65536 \<and> ch_sni h = extract_sni (ch_extensions h)"

lemma hello_of_1 [simp]: "handshake_of v = HsClientHello \<longleftrightarrow> v = 1"
  by (simp add: handshake_of_def)

lemma parse_hello_message:
  assumes "hello_wf h"
  shows "parse_client_hello (hello_message h @ rest) = Inr h"
proof -
  note wf = assms [unfolded hello_wf_def]
  define body where "body = hello_front h @ u16_be (length (ch_extensions h)) @ ch_extensions h"
  have m: "hello_message h = 1 # u24_be (length body) @ body"
    by (simp add: hello_message_def body_def)
  have "length body \<le> 2 + 32 + 1 + 255 + 2 + 65535 + 1 + 255 + 2 + 65535"
    using wf by (simp add: body_def hello_front_def)
  then have small: "length body < 16777216" by simp
  have be: "be24 (u24_be (length body) ! 0) (u24_be (length body) ! 1) (u24_be (length body) ! 2) = length body"
    using small by (simp add: u24_be_def be24_u8_of)
  have l: "drop 4 (1 # u24_be (length body) @ body @ rest) = body @ rest"
    by (simp add: u24_be_def)
  have n: "(1 # u24_be (length body) @ body @ rest) ! 1 = u24_be (length body) ! 0"
    "(1 # u24_be (length body) @ body @ rest) ! 2 = u24_be (length body) ! 1"
    "(1 # u24_be (length body) @ body @ rest) ! 3 = u24_be (length body) ! 2"
    by (simp_all add: u24_be_def)
  have c8: "cut_u8 (u8_of k # r) = Inr (k, r)" if "k < 256" for k r
    using that by (simp add: cut_u8_Inr_iff)
  have c16: "cut_u16 (u16_be k @ r) = Inr (k, r)" if "k < 65536" for k r
    using that by (simp add: cut_u16_Inr_iff u16_be_def be16_u8_of)
  have cn: "cut (length a) (a @ r) = Inr (a, r)" for a r
    by (simp add: cut_Inr_iff)
  have c2: "cut 2 (a # b # r) = Inr ([a, b], r)" for a b r
    by (simp add: cut_Inr_iff)
  have c32: "cut 32 (ch_random h @ r) = Inr (ch_random h, r)" for r
    using wf by (simp add: cut_Inr_iff)
  have "parse_client_hello (1 # u24_be (length body) @ body @ rest) = Inr h"
    unfolding parse_client_hello_def n be l
    using wf by (simp add: body_def hello_front_def c2 c32 c8 c16 cn)
  then show ?thesis by (simp add: m)
qed

lemma parse_hello_sound:
  assumes "parse_client_hello p = Inr h"
  shows "hello_wf h" "p ! 0 = 1" "4 \<le> length p"
    "\<exists>t. drop 4 p = hello_front h @ t
       \<and> (length t < 2 \<and> ch_extensions h = [] \<or> (\<exists>r. t = u16_be (length (ch_extensions h)) @ ch_extensions h @ r))"
proof -
  have p: "p \<noteq> []" "p ! 0 = 1" "4 \<le> length p"
    using assms by (auto simp: parse_client_hello_def split: if_splits)
  then show "p ! 0 = 1" "4 \<le> length p" by simp_all
  from assms obtain v r1 rnd r2 sl r3 sid r4 cl r5 cs r6 ml r7 cm r8 ext where c:
      "cut 2 (drop 4 p) = Inr (v, r1)" "cut 32 r1 = Inr (rnd, r2)" "cut_u8 r2 = Inr (sl, r3)"
      "cut sl r3 = Inr (sid, r4)" "cut_u16 r4 = Inr (cl, r5)" "cut cl r5 = Inr (cs, r6)"
      "cut_u8 r6 = Inr (ml, r7)" "cut ml r7 = Inr (cm, r8)"
    and e: "(if 2 \<le> length r8 then bindR (cut_u16 r8) (\<lambda>(n, r9). bindR (cut n r9) (\<lambda>(ext, _). Inr ext))
             else Inr []) = Inr ext"
    and h: "h = \<lparr>ch_version = (v ! 0, v ! 1), ch_random = rnd, ch_session_id = sid, ch_ciphers = cs,
             ch_compression = cm, ch_extensions = ext, ch_sni = extract_sni ext\<rparr>"
    by (auto simp: parse_client_hello_def split: if_splits)
  note c' = c [unfolded cut_iffs]
  obtain sb where sb: "r2 = sb # r3" "sl = unat sb" using c'(3) by blast
  obtain c1 c2 where cc: "r4 = c1 # c2 # r5" "cl = be16 c1 c2" using c'(5) by blast
  obtain mb where mb: "r6 = mb # r7" "ml = unat mb" using c'(7) by blast
  have v: "v = [v ! 0, v ! 1]" using c'(1) by (auto simp: numeral_2_eq_2 length_Suc_conv)
  have front: "drop 4 p = hello_front h @ r8"
  proof -
    have "drop 4 p = v @ rnd @ [sb] @ sid @ [c1, c2] @ cs @ [mb] @ cm @ r8"
      using c' sb cc mb by simp
    moreover have "u8_of (length sid) = sb" "u16_be (length cs) = [c1, c2]" "u8_of (length cm) = mb"
      using c' sb cc mb by simp_all
    ultimately show ?thesis using v by (simp add: h hello_front_def)
  qed
  have ext: "length ext < 65536 \<and> (length r8 < 2 \<and> ext = [] \<or> (\<exists>r. r8 = u16_be (length ext) @ ext @ r))"
  proof (cases "2 \<le> length r8")
    case False
    with e show ?thesis by simp
  next
    case True
    with e obtain n r9 q where "cut_u16 r8 = Inr (n, r9)" "cut n r9 = Inr (ext, q)" by auto
    then obtain x y where "r8 = x # y # ext @ q" "length ext = be16 x y"
      by (auto simp: cut_iffs)
    then show ?thesis by (metis Cons_eq_append_conv append_Cons append_Nil be16_less u16_be_be16)
  qed
  then show "\<exists>t. drop 4 p = hello_front h @ t
       \<and> (length t < 2 \<and> ch_extensions h = [] \<or> (\<exists>r. t = u16_be (length (ch_extensions h)) @ ch_extensions h @ r))"
    using front by (auto simp: h)
  show "hello_wf h"
    using c' sb cc mb ext by (simp add: h hello_wf_def)
qed


section \<open>SNI\<close>

lemma sni_names_host:
  assumes "is_rust_str sni" and "length sni < 65536" and "length sni + 3 \<le> budget"
  shows "sni_names budget ([0] @ u16_be (length sni) @ as_bytes sni @ r) = Some sni"
  using assms by (simp add: sni_names.simps u16_be_def be16_u8_of from_utf8_as_bytes)

lemma extract_sni_extension:
  assumes "is_rust_str sni" and "length sni \<le> 65000"
  shows "extract_sni (sni_extension_bytes (as_bytes sni) @ rest) = Some sni"
proof -
  let ?host = "as_bytes sni" and ?n = "length sni"
  have len: "length (sni_list_bytes ?host) = ?n + 5" by (simp add: sni_list_bytes_def)
  have "sni_list_bytes ?host = u16_be (?n + 3) @ [0] @ u16_be ?n @ ?host"
    using assms(2) by (simp add: sni_list_bytes_def)
  then have "parse_sni_extension (sni_list_bytes ?host) = Some sni"
    using assms len sni_names_host [OF assms(1), of "?n + 3" "[]"]
    by (simp add: parse_sni_extension_def u16_be_def be16_u8_of Let_def)
  then show ?thesis
    using assms(2) len
    by (simp add: sni_extension_bytes_def extract_sni.simps u16_be_def be16_u8_of Let_def be16_def)
qed

lemma extract_sni_append: "extract_sni e = Some s \<Longrightarrow> extract_sni (e @ q) = Some s"
proof (induction e rule: extract_sni.induct)
  case (1 e)
  then obtain t1 t2 l1 l2 rest where e: "e = t1 # t2 # l1 # l2 # rest"
    by (subst (asm) (3) extract_sni.simps) (auto split: list.splits)
  show ?case
  proof (cases "length rest < be16 l1 l2")
    case True
    with "1.prems" e show ?thesis by (simp add: extract_sni.simps)
  next
    case False
    show ?thesis
    proof (cases "be16 t1 t2 = 0")
      case True
      with False "1.prems" e show ?thesis by (simp add: extract_sni.simps [of e] extract_sni.simps [of "_ # _"])
    next
      case ne: False
      have "extract_sni (drop (be16 l1 l2) rest) = Some s"
        using "1.prems" e False ne by (simp add: extract_sni.simps [of "_ # _"] Let_def)
      then have "extract_sni (drop (be16 l1 l2) rest @ q) = Some s"
        using "1.IH" [OF e refl refl refl refl False ne] by simp
      with False ne show ?thesis by (simp add: e extract_sni.simps [of "_ # _"] Let_def)
    qed
  qed
qed

text \<open>The part of a ClientHello the partial parser walks over, as one value.\<close>

definition skip_to_extensions :: "bytes \<Rightarrow> (nat \<times> bytes) option" where
  "skip_to_extensions rest =
     to_opt (bindR (cut 2 rest) (\<lambda>(_, r1). bindR (cut 32 r1) (\<lambda>(_, r2).
       bindR (cut_u8 r2) (\<lambda>(n1, r3). bindR (cut n1 r3) (\<lambda>(_, r4).
       bindR (cut_u16 r4) (\<lambda>(n2, r5). bindR (cut n2 r5) (\<lambda>(_, r6).
       bindR (cut_u8 r6) (\<lambda>(n3, r7). bindR (cut n3 r7) (\<lambda>(_, r8). cut_u16 r8)))))))))"

lemma cut_mono: "cut n r = Inr (a, b) \<Longrightarrow> cut n (r @ q) = Inr (a, b @ q)"
  by (simp add: cut_Inr_iff)

lemma cut_u8_mono: "cut_u8 r = Inr (n, b) \<Longrightarrow> cut_u8 (r @ q) = Inr (n, b @ q)"
  by (auto simp: cut_u8_Inr_iff)

lemma cut_u16_mono: "cut_u16 r = Inr (n, b) \<Longrightarrow> cut_u16 (r @ q) = Inr (n, b @ q)"
  by (auto simp: cut_u16_Inr_iff)

lemma skip_mono:
  assumes "skip_to_extensions rest = Some (n, e)"
  shows "skip_to_extensions (rest @ q) = Some (n, e @ q)"
proof -
  from assms obtain v r1 rnd r2 n1 r3 sid r4 n2 r5 cs r6 n3 r7 cm r8 where
      "cut 2 rest = Inr (v, r1)" "cut 32 r1 = Inr (rnd, r2)" "cut_u8 r2 = Inr (n1, r3)"
      "cut n1 r3 = Inr (sid, r4)" "cut_u16 r4 = Inr (n2, r5)" "cut n2 r5 = Inr (cs, r6)"
      "cut_u8 r6 = Inr (n3, r7)" "cut n3 r7 = Inr (cm, r8)" "cut_u16 r8 = Inr (n, e)"
    by (auto simp: skip_to_extensions_def)
  note c = this
  note m = cut_mono [OF c(1), of q] cut_mono [OF c(2), of q] cut_u8_mono [OF c(3), of q]
    cut_mono [OF c(4), of q] cut_u16_mono [OF c(5), of q] cut_mono [OF c(6), of q]
    cut_u8_mono [OF c(7), of q] cut_mono [OF c(8), of q] cut_u16_mono [OF c(9), of q]
  show ?thesis by (simp add: skip_to_extensions_def m)
qed

lemma partial_sni_eq:
  "try_client_hello_sni_from_payload p =
     (if p = [] \<or> p ! 0 \<noteq> 1 \<or> length p < 4 then None
      else case skip_to_extensions (drop 4 p) of None \<Rightarrow> None
         | Some (n, r) \<Rightarrow> extract_sni (take n r))"
proof -
  have "extract_sni [] = None" by (simp add: extract_sni.simps)
  then show ?thesis
    by (auto simp: try_client_hello_sni_from_payload_def skip_to_extensions_def Let_def split: option.splits)
qed

lemma partial_sni_mono:
  assumes "try_client_hello_sni_from_payload p = Some s"
  shows "try_client_hello_sni_from_payload (p @ q) = Some s"
proof -
  from assms obtain n r where p: "p \<noteq> []" "p ! 0 = 1" "4 \<le> length p"
      "skip_to_extensions (drop 4 p) = Some (n, r)" "extract_sni (take n r) = Some s"
    by (auto simp: partial_sni_eq split: if_splits option.splits)
  have "take n (r @ q) = take n r @ take (n - length r) q" by simp
  then have "extract_sni (take n (r @ q)) = Some s" using extract_sni_append [OF p(5)] by simp
  then show ?thesis
    using p skip_mono [OF p(4), of q] by (simp add: partial_sni_eq nth_append)
qed

text \<open>On a ClientHello that parses, the partial parser finds the same SNI.\<close>

lemma partial_sni_agrees:
  assumes "parse_client_hello p = Inr h"
  shows "try_client_hello_sni_from_payload p = ch_sni h"
proof -
  note snd = parse_hello_sound [OF assms]
  from assms obtain v r1 rnd r2 n1 r3 sid r4 n2 r5 cs r6 n3 r7 cm r8 ext where c:
      "cut 2 (drop 4 p) = Inr (v, r1)" "cut 32 r1 = Inr (rnd, r2)" "cut_u8 r2 = Inr (n1, r3)"
      "cut n1 r3 = Inr (sid, r4)" "cut_u16 r4 = Inr (n2, r5)" "cut n2 r5 = Inr (cs, r6)"
      "cut_u8 r6 = Inr (n3, r7)" "cut n3 r7 = Inr (cm, r8)"
    and e: "(if 2 \<le> length r8 then bindR (cut_u16 r8) (\<lambda>(n, r9). bindR (cut n r9) (\<lambda>(ext, _). Inr ext))
             else Inr []) = Inr ext"
    and sni: "ch_sni h = extract_sni ext"
    by (auto simp: parse_client_hello_def split: if_splits)
  have skip: "skip_to_extensions (drop 4 p) = to_opt (cut_u16 r8)"
    by (simp add: skip_to_extensions_def c)
  have p: "p \<noteq> []" "\<not> length p < 4" using snd(3) by auto
  show ?thesis
  proof (cases "2 \<le> length r8")
    case False
    then have "to_opt (cut_u16 r8) = None" by (simp add: cut_u16_def cut_def)
    moreover have "ext = []" using e False by simp
    ultimately show ?thesis
      by (simp add: partial_sni_eq skip sni extract_sni.simps)
  next
    case True
    with e obtain n r9 q where x: "cut_u16 r8 = Inr (n, r9)" "cut n r9 = Inr (ext, q)" by auto
    then have "take n r9 = ext" by (auto simp: cut_Inr_iff)
    with x(1) p snd(2) show ?thesis by (simp add: partial_sni_eq skip sni)
  qed
qed

lemma try_sni_eq:
  "try_client_hello_sni d =
     (if looks_like_tls_client_hello d
      then try_client_hello_sni_from_payload
             (case parse_record d of Inr r \<Rightarrow> rec_payload r | Inl _ \<Rightarrow> drop 5 d)
      else None)"
proof -
  have "5 < length d" if "looks_like_tls_client_hello d"
    using that by (simp add: looks_like_tls_client_hello_def split: if_splits)
  then show ?thesis
    by (auto simp: try_client_hello_sni_def partial_sni_agrees split: sum.splits)
qed

lemma parse_record_append: "parse_record d = Inr r \<Longrightarrow> parse_record (d @ q) = Inr r"
  using parse_record_sound [of d r] parse_record_bytes [of r] by auto

lemma looks_like_append:
  assumes "looks_like_tls_client_hello d"
  shows "looks_like_tls_client_hello (d @ q)"
proof -
  have l: "6 \<le> length d" "d ! 0 = 22" "d ! 5 = 1"
    using assms by (auto simp: looks_like_tls_client_hello_def split: if_splits)
  have "rec_payload r \<noteq> []" if "parse_record (d @ q) = Inr r" for r
  proof (cases "parse_record d")
    case (Inr r')
    then have "r = r'" using parse_record_append [OF Inr, of q] that by simp
    with Inr assms show ?thesis by (simp add: looks_like_tls_client_hello_def split: if_splits)
  next
    case (Inl e)
    obtain t v1 v2 l1 l2 b rest where d: "d = t # v1 # v2 # l1 # l2 # b # rest"
      using l(1) by (auto simp: numeral_eq_Suc Suc_le_length_iff)
    have "record_type_of t = Inr Handshake" using l(2) d by simp
    with Inl d have "0 < be16 l1 l2" by (auto simp: bindR_Inl_iff split: if_splits)
    moreover have "rec_payload r = take (be16 l1 l2) (b # rest @ q)"
      using that d by (auto split: if_splits)
    ultimately show ?thesis by simp
  qed
  then show ?thesis
    using l by (auto simp: looks_like_tls_client_hello_def nth_append split: sum.splits)
qed

lemma try_sni_append:
  assumes "try_client_hello_sni d = Some s"
  shows "try_client_hello_sni (d @ q) = Some s"
proof -
  from assms have ll: "looks_like_tls_client_hello d"
    and f: "try_client_hello_sni_from_payload
              (case parse_record d of Inr r \<Rightarrow> rec_payload r | Inl _ \<Rightarrow> drop 5 d) = Some s"
    by (auto simp: try_sni_eq split: if_splits)
  have l5: "5 \<le> length d" using ll by (simp add: looks_like_tls_client_hello_def split: if_splits)
  have "try_client_hello_sni_from_payload
          (case parse_record (d @ q) of Inr r \<Rightarrow> rec_payload r | Inl _ \<Rightarrow> drop 5 (d @ q)) = Some s"
  proof (cases "parse_record d")
    case (Inr r)
    with f show ?thesis by (simp add: parse_record_append)
  next
    case Inl: (Inl e)
    with f have fp: "try_client_hello_sni_from_payload (drop 5 d) = Some s" by simp
    show ?thesis
    proof (cases "parse_record (d @ q)")
      case (Inl e')
      with fp l5 show ?thesis by (simp add: partial_sni_mono)
    next
      case (Inr r)
      have "\<not> 5 + length (rec_payload r) \<le> length d"
      proof
        assume le: "5 + length (rec_payload r) \<le> length d"
        obtain rest where "d @ q = record_bytes r @ rest" "length (rec_payload r) < 65536"
          using parse_record_sound [OF Inr] by blast
        with le have "d = record_bytes r @ take (length d - length (record_bytes r)) rest"
          by (metis append_eq_append_conv_if append_eq_conv_conj length_record_bytes take_append take_all)
        then have "parse_record d = Inr r"
          using parse_record_bytes [OF \<open>length (rec_payload r) < 65536\<close>] by metis
        with Inl show False by simp
      qed
      then have "length (drop 5 d) \<le> length (rec_payload r)" by simp
      moreover have "rec_payload r = take (length (rec_payload r)) (drop 5 d @ q)"
        using parse_record_payload(1) [OF Inr] l5 by simp
      ultimately obtain t where "rec_payload r = drop 5 d @ t"
        by (metis take_all take_append)
      with Inr fp show ?thesis by (simp add: partial_sni_mono)
    qed
  qed
  then show ?thesis using looks_like_append [OF ll] by (simp add: try_sni_eq)
qed


section \<open>The builders\<close>

definition built_hello :: "bytes \<Rightarrow> client_hello" where
  "built_hello ext = \<lparr>ch_version = (3, 3), ch_random = replicate 32 0, ch_session_id = [],
     ch_ciphers = [0x13, 0x01], ch_compression = [0], ch_extensions = ext, ch_sni = extract_sni ext\<rparr>"

lemma hello_front_built: "hello_front (built_hello ext) = hello_fixed"
  by (simp add: hello_front_def built_hello_def hello_fixed_def u16_be_def u8_of_def)

lemma length_hello_fixed: "length hello_fixed = 41"
  by (simp add: hello_fixed_def)

lemma hello_with_extensions_record:
  "hello_with_extensions ext =
     record_bytes \<lparr>rec_type = Handshake, rec_version = (3, 1), rec_payload = hello_message (built_hello ext)\<rparr>"
  by (simp add: hello_with_extensions_def record_bytes_def hello_message_def Let_def hello_front_built)
     (simp add: built_hello_def)

lemma length_built_message: "length (hello_message (built_hello ext)) = 47 + length ext"
  by (simp add: hello_message_def Let_def hello_front_built length_hello_fixed)
     (simp add: built_hello_def)

lemma built_hello_parses:
  assumes "length ext \<le> 65400"
  shows "parse_record (hello_with_extensions ext @ q) =
      Inr \<lparr>rec_type = Handshake, rec_version = (3, 1), rec_payload = hello_message (built_hello ext)\<rparr>"
    and "parse_client_hello (hello_message (built_hello ext)) = Inr (built_hello ext)"
    and "looks_like_tls_client_hello (hello_with_extensions ext)"
    and "tls_record_total_len (hello_with_extensions ext) = Some (length (hello_with_extensions ext))"
proof -
  let ?r = "\<lparr>rec_type = Handshake, rec_version = (3, 1), rec_payload = hello_message (built_hello ext)\<rparr>"
  have len: "length (rec_payload ?r) < 65536" using assms by (simp add: length_built_message)
  show rec: "parse_record (hello_with_extensions ext @ q) = Inr ?r" for q
    unfolding hello_with_extensions_record using len by (rule parse_record_bytes)
  have "hello_wf (built_hello ext)" using assms by (simp add: hello_wf_def built_hello_def)
  from parse_hello_message [OF this, of "[]"]
  show "parse_client_hello (hello_message (built_hello ext)) = Inr (built_hello ext)" by simp
  have shape: "hello_with_extensions ext = 22 # 3 # 1 # u16_be (47 + length ext) @ hello_message (built_hello ext)"
    by (simp add: hello_with_extensions_record record_bytes_def length_built_message)
  define t where "t = tl (hello_message (built_hello ext))"
  have m: "hello_message (built_hello ext) = 1 # t"
    by (simp add: hello_message_def Let_def t_def)
  define l where "l = 47 + length ext"
  have d: "hello_with_extensions ext = 22 # 3 # 1 # u8_of (l div 256) # u8_of l # 1 # t"
    by (simp add: shape m u16_be_def l_def)
  show "looks_like_tls_client_hello (hello_with_extensions ext)"
  proof -
    have "hello_with_extensions ext ! 0 = 22" "hello_with_extensions ext ! 5 = 1"
        "\<not> length (hello_with_extensions ext) < 6"
      by (simp_all add: d)
    moreover have "parse_record (hello_with_extensions ext) = Inr ?r" using rec [of "[]"] by simp
    ultimately show ?thesis by (simp add: looks_like_tls_client_hello_def m)
  qed
  have "length t = l - 1" using length_built_message [of ext] by (simp add: m l_def)
  moreover have "record_type_of 22 = Inr Handshake" by simp
  moreover have "be16 (u8_of (l div 256)) (u8_of l) = l"
    using assms by (simp add: be16_u8_of l_def)
  ultimately show "tls_record_total_len (hello_with_extensions ext) = Some (length (hello_with_extensions ext))"
    using assms
    by (simp add: tls_record_total_len_def d usize_checked_add_def l_def del: record_type_of_Inr_iff)
qed

lemma built_hello_sni:
  assumes "length ext \<le> 65400"
  shows "try_client_hello_sni (hello_with_extensions ext) = extract_sni ext"
  using built_hello_parses(1) [OF assms, of "[]"] built_hello_parses(2,3) [OF assms]
  by (simp add: try_client_hello_sni_def) (simp add: built_hello_def)

lemma length_sni_extension: "length (sni_extension_bytes host) = length host + 9"
  by (simp add: sni_extension_bytes_def sni_list_bytes_def)

section \<open>JA4 aliases\<close>

lemma hex_digit_inject: "m < 16 \<Longrightarrow> n < 16 \<Longrightarrow> hex_digit m = hex_digit n \<longleftrightarrow> m = n"
  by (metis hex_digit_props(1))

lemma ja4_alias_version:
  assumes "starts_with (compute_ja4 sha256 hx h) ''t13d''"
  shows "fst (ch_version h) = 0x13"
proof -
  let ?v = "fst (ch_version h)"
  have d: "unat ?v div 16 < 16" "unat ?v mod 16 < 16"
    by (rule less_mult_imp_div_less) simp_all
  have "hex_digit (unat ?v div 16) = CHR ''1''" "hex_digit (unat ?v mod 16) = CHR ''3''"
    using assms by (auto simp: compute_ja4_def starts_with_def Let_def fmt_02x_def)
  moreover have "CHR ''1'' = hex_digit 1" "CHR ''3'' = hex_digit 3"
    by code_simp+
  ultimately have "unat ?v div 16 = 1" "unat ?v mod 16 = 3"
    using d hex_digit_inject [of "unat ?v div 16" 1] hex_digit_inject [of "unat ?v mod 16" 3] by auto
  then have "unat ?v = 19" using div_mult_mod_eq [of "unat ?v" 16] by simp
  moreover have "?v = word_of_nat (unat ?v)" by simp
  ultimately show ?thesis by simp
qed


section \<open>Properties\<close>

text \<open>
  C21. The record parser inverts the record format: it accepts exactly the byte strings that start
  with a record of a known type whose 16-bit length is the payload's, returns that record and
  ignores what follows; and a stream of records is read back record by record.
\<close>

theorem parse_record_correct:
  "(parse_record d = Inr r) = (\<exists>rest. d = record_bytes r @ rest \<and> length (rec_payload r) < 65536)
   \<and> (\<not> list_all (\<lambda>r. length (rec_payload r) < 65536) rs
      \<or> decode_stream record_dec (length rs) (concat (map record_bytes rs) @ tail) = Some (rs, tail))"
  using parse_record_sound [of d r] parse_record_bytes [of r] tls_records.decode_concat [of rs tail] by auto

text \<open>
  C22. The ClientHello parser is correct both ways: every well-formed ClientHello message parses to
  itself, whatever follows it, and whatever is accepted is a ClientHello: the bytes after the
  handshake header are the fields returned, in order, with their length prefixes.
\<close>

theorem parse_client_hello_correct:
  "(\<not> hello_wf h \<or> parse_client_hello (hello_message h @ rest) = Inr h)
   \<and> (\<not> (parse_client_hello p = Inr g)
      \<or> hello_wf g \<and> p ! 0 = 1 \<and> (\<exists>t. drop 4 p = hello_front g @ t
           \<and> (length t < 2 \<and> ch_extensions g = []
              \<or> (\<exists>r. t = u16_be (length (ch_extensions g)) @ ch_extensions g @ r))))"
  using parse_hello_message parse_hello_sound by blast

text \<open>
  Peeking more bytes never changes an SNI that was already found, whether the ClientHello was
  complete or cut anywhere.
\<close>

theorem sni_stable_under_more_data:
  assumes "try_client_hello_sni d = Some s"
  shows "try_client_hello_sni (d @ q) = Some s"
  using assms by (rule try_sni_append)

text \<open>
  C23. The partial SNI extractor agrees with the full parser on every ClientHello that parses.
\<close>

theorem partial_sni_equals_full:
  assumes "parse_client_hello p = Inr h"
  shows "try_client_hello_sni_from_payload p = ch_sni h"
  using assms by (rule partial_sni_agrees)

text \<open>
  Round trip of the ClientHello builder: for every name of up to 65000 bytes the built bytes
  look like a ClientHello, announce their own length, and yield the name.
\<close>

theorem build_client_hello_roundtrip:
  assumes "is_rust_str sni" and "length sni \<le> 65000"
  shows "looks_like_tls_client_hello (build_client_hello sni)
    \<and> tls_record_total_len (build_client_hello sni) = Some (length (build_client_hello sni))
    \<and> try_client_hello_sni (build_client_hello sni) = Some sni"
proof -
  have "length (sni_extension_bytes (as_bytes sni)) \<le> 65400"
    using assms(2) by (simp add: length_sni_extension)
  note b = built_hello_parses(3,4) [OF this] built_hello_sni [OF this]
  show ?thesis
    using b extract_sni_extension [OF assms, of "[]"] by (simp add: build_client_hello_def)
qed

theorem build_client_hello_roundtrip_witness:
  "try_client_hello_sni (build_client_hello ''a.io'') = Some ''a.io''"
proof -
  have "is_rust_str ''a.io''" by code_simp
  then show ?thesis using build_client_hello_roundtrip by simp
qed

theorem sni_stable_under_more_data_witness:
  "try_client_hello_sni (build_client_hello ''a.io'' @ [0x17, 0x03]) = Some ''a.io''"
proof (rule sni_stable_under_more_data)
  have "is_rust_str ''a.io''" by code_simp
  then have "extract_sni (sni_extension_bytes (as_bytes ''a.io'') @ []) = Some ''a.io''"
    by (rule extract_sni_extension) simp
  moreover have "length (sni_extension_bytes (as_bytes ''a.io'')) \<le> 65400"
    by (simp add: length_sni_extension)
  ultimately show "try_client_hello_sni (build_client_hello ''a.io'') = Some ''a.io''"
    using built_hello_sni by (simp add: build_client_hello_def)
qed

theorem partial_sni_equals_full_witness:
  "try_client_hello_sni_from_payload (hello_message (built_hello [0, 23, 0, 0])) = None"
proof -
  have "parse_client_hello (hello_message (built_hello [0, 23, 0, 0])) = Inr (built_hello [0, 23, 0, 0])"
    by (rule built_hello_parses(2)) simp
  from partial_sni_equals_full [OF this] show ?thesis
    by (simp add: built_hello_def extract_sni.simps be16_def)
qed

text \<open>
  The named fingerprint profiles never match a ClientHello of TLS 1.0 to 1.3: such a hello
  announces a version whose first byte is 3, its fingerprint starts with that byte in hex, and
  all aliases resolve to the prefix \<^verbatim>\<open>t13d\<close>.
\<close>

theorem alias_never_matches_tls_hello:
  assumes "fst (ch_version h) = 3" and "to_ascii_lowercase (trim profile) \<in> set fingerprint_aliases"
  shows "\<not> ja4_matches (compute_ja4 sha256 hx h) profile"
proof
  assume "ja4_matches (compute_ja4 sha256 hx h) profile"
  then have "starts_with (compute_ja4 sha256 hx h) ''t13d''"
    using assms(2) by (auto simp: ja4_matches_def resolve_fingerprint_alias_def Let_def)
      (simp add: starts_with_def)
  from ja4_alias_version [OF this] assms(1) show False by simp
qed

theorem alias_never_matches_tls_hello_witness:
  "\<not> ja4_matches (compute_ja4 (\<lambda>b. b) base16 (built_hello [])) ''Chrome_120''"
proof (rule alias_never_matches_tls_hello)
  show "fst (ch_version (built_hello [])) = 3" by (simp add: built_hello_def)
  show "to_ascii_lowercase (trim ''Chrome_120'') \<in> set fingerprint_aliases" by code_simp
qed

theorem parse_record_correct_witness:
  "decode_stream record_dec (Suc (Suc 0)) ([22, 3, 1, 0, 1, 9] @ [23, 3, 3, 0, 0] @ [5]) =
     Some ([\<lparr>rec_type = Handshake, rec_version = (3, 1), rec_payload = [9]\<rparr>,
            \<lparr>rec_type = ApplicationData, rec_version = (3, 3), rec_payload = []\<rparr>], [5])"
  using parse_record_correct [THEN conjunct2,
      of "[\<lparr>rec_type = Handshake, rec_version = (3, 1), rec_payload = [9]\<rparr>,
           \<lparr>rec_type = ApplicationData, rec_version = (3, 3), rec_payload = []\<rparr>]" "[5]"]
  by (simp add: record_bytes_def u16_be_def u8_of_def del: decode_stream.simps)

theorem parse_client_hello_correct_witness:
  "parse_client_hello (hello_message (built_hello []) @ [1, 2]) = Inr (built_hello [])"
  using parse_client_hello_correct [of "built_hello []" "[1, 2]"]
  by (simp add: hello_wf_def built_hello_def)

end
