(* ===== verification/Fake_Tls.thy ===== *)
theory Fake_Tls
  imports Tls_Wire Config_Model
begin

text \<open>
  The hello exchange of \<^verbatim>\<open>src/faketls.rs\<close>: reading a ClientHello, checking the HMAC and the
  time stamp hidden in its random field, signing one, and the answering ServerHello. HMAC-SHA256
  is a parameter \<open>hmac key\<close> that is \<^term>\<open>None\<close> when the key is refused; the clock and the
  random bytes are parameters too.
\<close>

definition tls_handshake :: u8 where "tls_handshake = 0x16"
definition tls_change_cipher_spec :: u8 where "tls_change_cipher_spec = 0x14"
definition tls_application_data :: u8 where "tls_application_data = 0x17"
definition max_tls_payload :: nat where "max_tls_payload = 16384"
definition hello_timestamp_skew_secs :: nat where "hello_timestamp_skew_secs = 120"
definition server_hello_random_offset :: nat where "server_hello_random_offset = 11"

record parsed_client_hello =
  pc_raw :: bytes
  pc_random :: bytes
  pc_session_id :: bytes
  pc_cipher_suite :: nat
  pc_sni :: "string option"

definition first_suite :: "bytes \<Rightarrow> nat" where
  "first_suite cs = (if 2 \<le> length cs then be16 (cs ! 0) (cs ! 1) else 0)"

definition parse_client_hello_prefix :: "bytes \<Rightarrow> parsed_client_hello result" where
  "parse_client_hello_prefix data =
     (if length data < server_hello_random_offset + 32
        then Inl (Proxy ''not enough data for a partial ClientHello'')
      else if data ! 0 \<noteq> tls_handshake then Inl (Proxy ''expected a TLS handshake record'')
      else
        let payload = drop 5 data in
        if length payload < 4 + 2 + 32 then Inl (Proxy ''partial ClientHello: no random'')
        else
          let random = take 32 (drop 6 payload); rest = drop 38 payload in
          (case rest of
             [] \<Rightarrow> Inl (Proxy ''partial ClientHello: no session_id'')
           | n # rest1 \<Rightarrow>
               if length rest1 < unat n then Inl (Proxy ''partial ClientHello: session_id cut short'')
               else Inr \<lparr>pc_raw = data, pc_random = random, pc_session_id = take (unat n) rest1,
                         pc_cipher_suite = first_suite (drop (unat n) rest1),
                         pc_sni = try_client_hello_sni data\<rparr>))"

definition parse_client_hello_record :: "bytes \<Rightarrow> parsed_client_hello result" where
  "parse_client_hello_record data =
     bindR (map_err (\<lambda>_. Proxy ''fake TLS ClientHello'') (parse_record data)) (\<lambda>r.
       if rec_type r \<noteq> Handshake then Inl (Proxy ''expected a TLS handshake record'')
       else bindR (map_err (\<lambda>_. Proxy ''fake TLS parse ClientHello'') (parse_client_hello (rec_payload r)))
         (\<lambda>hello.
           if length (ch_random hello) \<noteq> 32 then Inl (Proxy ''ClientHello random must be 32 bytes'')
           else let record_len = 5 + length (rec_payload r) in
             if length data < record_len then Inl (Proxy ''incomplete ClientHello record'')
             else Inr \<lparr>pc_raw = take record_len data, pc_random = ch_random hello,
                       pc_session_id = ch_session_id hello,
                       pc_cipher_suite = first_suite (ch_ciphers hello), pc_sni = ch_sni hello\<rparr>))"

type_synonym hmac_fun = "bytes \<Rightarrow> (bytes \<Rightarrow> bytes) option"

definition zero_random :: "bytes \<Rightarrow> bytes" where
  "zero_random data = splice data server_hello_random_offset (replicate 32 0)"

text \<open>\<^verbatim>\<open>u32::from_le_bytes\<close>\<close>

definition le32 :: "bytes \<Rightarrow> nat" where
  "le32 b = unat (b ! 0) + unat (b ! 1) * 256 + unat (b ! 2) * 65536 + unat (b ! 3) * 16777216"

text \<open>The time stamps are compared as signed 64-bit numbers; \<open>now\<close> is the clock in seconds.\<close>

definition timestamp_ok :: "nat \<Rightarrow> u64 \<Rightarrow> bool" where
  "timestamp_ok ts now \<longleftrightarrow> nat \<bar>int ts - sint now\<bar> \<le> hello_timestamp_skew_secs"

definition validate_client_hello :: "hmac_fun \<Rightarrow> u64 \<Rightarrow> parsed_client_hello \<Rightarrow> bytes \<Rightarrow> unit result" where
  "validate_client_hello hmac now ch secret =
     (if length (pc_raw ch) < server_hello_random_offset + 32
        then Inl (Proxy ''ClientHello too short for the HMAC'')
      else bindR (ok_or (Proxy ''HMAC key'') (hmac secret)) (\<lambda>mac.
        let expected = xor_bytes (mac (zero_random (pc_raw ch))) (pc_random ch) in
        if list_ex (\<lambda>b. b \<noteq> 0) (take 28 expected) then Inl (Proxy ''fake TLS HMAC verification failed'')
        else if \<not> timestamp_ok (le32 (drop 28 expected)) now
          then Inl (Proxy ''fake TLS timestamp out of range'')
        else Inr ()))"

text \<open>Signing; \<^verbatim>\<open>expect\<close> on the key is the \<^term>\<open>None\<close> result.\<close>

definition sign_client_hello_record :: "hmac_fun \<Rightarrow> u64 \<Rightarrow> bytes \<Rightarrow> bytes \<Rightarrow> bytes option" where
  "sign_client_hello_record hmac now data secret =
     Option.bind (hmac secret) (\<lambda>mac.
       let digest = mac (zero_random data); ts_bytes = u32_le (ucast now) in
       Some (splice (splice data server_hello_random_offset (take 28 digest))
               (server_hello_random_offset + 28) (xor_bytes (take 4 (drop 28 digest)) ts_bytes)))"

definition build_signed_client_hello :: "hmac_fun \<Rightarrow> u64 \<Rightarrow> string \<Rightarrow> bytes \<Rightarrow> bytes option" where
  "build_signed_client_hello hmac now sni secret =
     sign_client_hello_record hmac now (build_client_hello sni) secret"

definition build_signed_client_hello_min_len ::
    "hmac_fun \<Rightarrow> u64 \<Rightarrow> string \<Rightarrow> bytes \<Rightarrow> nat \<Rightarrow> bytes option" where
  "build_signed_client_hello_min_len hmac now sni secret min_len =
     Option.bind (build_client_hello_padded sni min_len) (\<lambda>data.
       sign_client_hello_record hmac now data secret)"

section \<open>ServerHello\<close>

definition write_tls_record :: "bytes \<Rightarrow> u8 \<Rightarrow> bytes \<Rightarrow> bytes" where
  "write_tls_record buf rt payload = buf @ [rt] @ [0x03, 0x03] @ u16_be (length payload) @ payload"

text \<open>The random draws of one answer: server random, public key, padding length and padding.\<close>

record hello_rng =
  hr_random :: bytes
  hr_pub_key :: bytes
  hr_pad_draw :: u32
  hr_fill :: "nat \<Rightarrow> bytes"

definition hello_rng_ok :: "hello_rng \<Rightarrow> bool" where
  "hello_rng_ok g \<longleftrightarrow> length (hr_random g) = 32 \<and> length (hr_pub_key g) = 32 \<and> (\<forall>n. length (hr_fill g n) = n)"

definition build_server_hello :: "hello_rng \<Rightarrow> parsed_client_hello \<Rightarrow> bytes" where
  "build_server_hello g ch =
     (let key_share = [0x00, 0x1d, 0x00, 0x20] @ hr_pub_key g;
          extensions = [0x00, 0x2b, 0x00, 0x02, 0x03, 0x04] @ [0x00, 0x33]
            @ u16_be (length key_share) @ key_share;
          body = [0x03, 0x03] @ hr_random g @ [u8_of (length (pc_session_id ch))] @ pc_session_id ch
            @ u16_be (pc_cipher_suite ch) @ [0x00] @ u16_be (length extensions) @ extensions
      in [0x02] @ u24_be (length body) @ body)"

definition pad_length :: "hello_rng \<Rightarrow> nat" where
  "pad_length g = 1024 + unat (hr_pad_draw g) mod 3072"

definition build_server_hello_packet :: "hello_rng \<Rightarrow> parsed_client_hello \<Rightarrow> bytes" where
  "build_server_hello_packet g ch =
     (let out1 = write_tls_record [] tls_handshake (build_server_hello g ch);
          out2 = write_tls_record out1 tls_change_cipher_spec [0x01];
          pad = hr_fill g (pad_length g)
      in write_tls_record out2 tls_application_data pad)"

definition server_hello_bytes :: "hmac_fun \<Rightarrow> hello_rng \<Rightarrow> parsed_client_hello \<Rightarrow> bytes \<Rightarrow> bytes result" where
  "server_hello_bytes hmac g ch secret =
     (let packet = zero_random (build_server_hello_packet g ch) in
      bindR (ok_or (Proxy ''HMAC key'') (hmac secret)) (\<lambda>mac.
        Inr (splice packet server_hello_random_offset (mac (pc_random ch @ packet)))))"

text \<open>\<open>wr\<close> and \<open>flush\<close> are \<^verbatim>\<open>write_all\<close> and \<^verbatim>\<open>flush\<close> of the stream.\<close>

definition send_server_hello ::
    "('w \<Rightarrow> bytes \<Rightarrow> (io_kind + unit) \<times> 'w) \<Rightarrow> ('w \<Rightarrow> (io_kind + unit) \<times> 'w) \<Rightarrow> hmac_fun \<Rightarrow> hello_rng
     \<Rightarrow> parsed_client_hello \<Rightarrow> bytes \<Rightarrow> 'w \<Rightarrow> unit result \<times> 'w" where
  "send_server_hello wr flush hmac g ch secret w =
     (case server_hello_bytes hmac g ch secret of
        Inl e \<Rightarrow> (Inl e, w)
      | Inr packet \<Rightarrow>
          (case wr w packet of
             (Inl _, w1) \<Rightarrow> (Inl (Proxy ''send ServerHello''), w1)
           | (Inr _, w1) \<Rightarrow>
               (case flush w1 of
                  (Inl _, w2) \<Rightarrow> (Inl (Proxy ''flush ServerHello''), w2)
                | (Inr _, w2) \<Rightarrow> (Inr (), w2))))"

definition hmac_law :: "hmac_fun \<Rightarrow> bool" where
  "hmac_law hmac \<longleftrightarrow> (\<forall>key. \<exists>mac. hmac key = Some mac \<and> (\<forall>m. length (mac m) = 32))"

text \<open>A key-dependent checksum with the interface of HMAC, for concrete instances.\<close>

definition toy_hmac :: hmac_fun where
  "toy_hmac key = Some (\<lambda>m. map (\<lambda>i. foldl (\<lambda>a b. a * 31 + b + u8_of i) (u8_of (length key)) (key @ m)) [0..<32])"

lemma hmac_law_toy: "hmac_law toy_hmac"
  by (simp add: hmac_law_def toy_hmac_def)


section \<open>Splicing the random field\<close>

lemma splice_mid: "length p = i \<Longrightarrow> length r' = length r \<Longrightarrow> splice (p @ r @ q) i r' = p @ r' @ q"
  by (simp add: splice_def)

lemma splice_adjacent:
  "i + length a + length b \<le> length xs \<Longrightarrow> splice (splice xs i a) (i + length a) b = splice xs i (a @ b)"
  by (cases a) (auto simp: splice_def min_def ac_simps)

lemma zero_random_splice:
  "length r = 32 \<Longrightarrow> 43 \<le> length data \<Longrightarrow> zero_random (splice data server_hello_random_offset r) = zero_random data"
  by (simp add: zero_random_def server_hello_random_offset_def splice_splice)

lemma xor_zero_iff: "Bit_Operations.xor x y = 0 \<longleftrightarrow> x = (y :: u8)"
proof
  assume "Bit_Operations.xor x y = 0"
  then have "Bit_Operations.xor (Bit_Operations.xor x y) y = y" by simp
  then show "x = y" by (simp only: xor.assoc xor_self_eq xor.right_neutral)
qed simp

lemma xor_bytes_zero_iff:
  "length a = length b \<Longrightarrow> (\<forall>x \<in> set (xor_bytes a b). x = 0) \<longleftrightarrow> a = b"
  by (induction a b rule: list_induct2) (auto simp: xor_bytes_def xor_zero_iff)

lemma take_xor_bytes: "take n (xor_bytes a b) = xor_bytes (take n a) (take n b)"
  by (simp add: xor_bytes_def take_map take_zip)

lemma drop_xor_bytes: "drop n (xor_bytes a b) = xor_bytes (drop n a) (drop n b)"
  by (simp add: xor_bytes_def drop_map drop_zip)

lemma xor_bytes_twice: "length b \<le> length a \<Longrightarrow> xor_bytes a (xor_bytes a b) = b"
  by (induction a b rule: list_induct2') (auto simp: xor_bytes_def xor.assoc [symmetric])

lemma le32_u32_le: "le32 (u32_le w) = unat w"
proof -
  have "unat w < 4294967296" using unsigned_less [where 'a = nat, of w] by simp
  moreover have "le32 (u32_le w) = be32 (u8_of (unat w div 16777216)) (u8_of (unat w div 65536))
      (u8_of (unat w div 256)) (u8_of (unat w))"
    by (simp add: le32_def u32_le_def be32_def)
  ultimately show ?thesis by (simp only: be32_u8_of mod_less)
qed

section \<open>Validation\<close>

lemma validate_iff:
  assumes "43 \<le> length (pc_raw ch)" and "length (pc_random ch) = 32"
    and "hmac secret = Some mac" and "length (mac (zero_random (pc_raw ch))) = 32"
  shows "validate_client_hello hmac now ch secret = Inr () \<longleftrightarrow>
     take 28 (pc_random ch) = take 28 (mac (zero_random (pc_raw ch)))
     \<and> timestamp_ok (le32 (xor_bytes (drop 28 (mac (zero_random (pc_raw ch)))) (drop 28 (pc_random ch)))) now"
proof -
  let ?d = "mac (zero_random (pc_raw ch))"
  have "list_ex (\<lambda>b. b \<noteq> 0) (take 28 (xor_bytes ?d (pc_random ch))) \<longleftrightarrow> take 28 ?d \<noteq> take 28 (pc_random ch)"
    using xor_bytes_zero_iff [of "take 28 ?d" "take 28 (pc_random ch)"] assms
    by (auto simp: take_xor_bytes list_ex_iff)
  then show ?thesis
    using assms by (auto simp: validate_client_hello_def server_hello_random_offset_def Let_def drop_xor_bytes)
qed

definition signed_random :: "(bytes \<Rightarrow> bytes) \<Rightarrow> u64 \<Rightarrow> bytes \<Rightarrow> bytes" where
  "signed_random mac now data =
     take 28 (mac (zero_random data))
     @ xor_bytes (take 4 (drop 28 (mac (zero_random data)))) (u32_le (ucast now))"

lemma length_signed_random:
  "length (mac (zero_random data)) = 32 \<Longrightarrow> length (signed_random mac now data) = 32"
  by (simp add: signed_random_def)

lemma sign_splice:
  assumes "hmac secret = Some mac" and "length (mac (zero_random data)) = 32" and "43 \<le> length data"
  shows "sign_client_hello_record hmac now data secret
    = Some (splice data server_hello_random_offset (signed_random mac now data))"
  using assms splice_adjacent [of 11 "take 28 (mac (zero_random data))"
      "xor_bytes (take 4 (drop 28 (mac (zero_random data)))) (u32_le (ucast now))" data]
  by (simp add: sign_client_hello_record_def signed_random_def server_hello_random_offset_def Let_def)

lemma signed_validates:
  assumes "hmac_law hmac" and "hmac secret = Some mac" and "43 \<le> length data"
    and "pc_raw ch = splice data server_hello_random_offset (signed_random mac now data)"
    and "pc_random ch = signed_random mac now data"
  shows "validate_client_hello hmac now' ch secret = Inr () \<longleftrightarrow> timestamp_ok (unat (ucast now :: u32)) now'"
proof -
  have l32: "length (mac m) = 32" for m
    using assms(1,2) by (metis hmac_law_def option.inject)
  note sr = length_signed_random [of mac data now, OF l32]
  have z: "zero_random (pc_raw ch) = zero_random data"
    unfolding assms(4) using sr assms(3) by (rule zero_random_splice)
  have len: "43 \<le> length (pc_raw ch)"
    unfolding assms(4) using sr assms(3) by (simp add: server_hello_random_offset_def)
  let ?d = "mac (zero_random data)"
  have "take 28 (signed_random mac now data) = take 28 ?d"
    by (simp add: signed_random_def l32)
  moreover have "drop 28 (signed_random mac now data) = xor_bytes (drop 28 ?d) (u32_le (ucast now))"
    by (simp add: signed_random_def l32)
  moreover have "xor_bytes (drop 28 ?d) (xor_bytes (drop 28 ?d) (u32_le (ucast now))) = u32_le (ucast now)"
    by (rule xor_bytes_twice) (simp add: l32)
  ultimately show ?thesis
    using validate_iff [OF len, of hmac secret mac now'] sr assms(2) l32
    by (simp add: z assms(5) le32_u32_le)
qed

section \<open>The signed builder\<close>

lemma built_hello_splice:
  assumes "length r = 32"
  shows "splice (hello_with_extensions ext) server_hello_random_offset r =
     record_bytes \<lparr>rec_type = Handshake, rec_version = (3, 1),
       rec_payload = hello_message ((built_hello ext)\<lparr>ch_random := r\<rparr>)\<rparr>"
proof -
  let ?n = "length (hello_front (built_hello ext) @ u16_be (length ext) @ ext)"
  let ?pre = "[22, 3, 1] @ u16_be (47 + length ext) @ [1] @ u24_be ?n @ [3, 3]"
    and ?post = "[0] @ u16_be (Suc (Suc 0)) @ [0x13, 0x01] @ [1] @ [0] @ u16_be (length ext) @ ext"
  have front: "hello_front ((built_hello ext)\<lparr>ch_random := x\<rparr>) @ u16_be (length ext) @ ext = [3, 3] @ x @ ?post"
    if "length x = 32" for x
    by (simp add: hello_front_def built_hello_def u8_of_def)
  have msg: "hello_message ((built_hello ext)\<lparr>ch_random := x\<rparr>) = [1] @ u24_be ?n @ [3, 3] @ x @ ?post"
    if "length x = 32" for x
  proof -
    have "ch_extensions ((built_hello ext)\<lparr>ch_random := x\<rparr>) = ext" by (simp add: built_hello_def)
    then have "hello_message ((built_hello ext)\<lparr>ch_random := x\<rparr>) =
        [1] @ u24_be (length ([3, 3] @ x @ ?post)) @ [3, 3] @ x @ ?post"
      unfolding hello_message_def Let_def front [OF that, symmetric] by simp
    moreover have "length ([3, 3] @ x @ ?post) = ?n"
      using that by (simp add: hello_front_built length_hello_fixed)
    ultimately show ?thesis by (simp only:)
  qed
  have n: "length (hello_message ((built_hello ext)\<lparr>ch_random := x\<rparr>)) = 47 + length ext" if "length x = 32" for x
    using msg [OF that] that by simp
  have r0: "length (replicate 32 (0 :: u8)) = 32" by simp
  have b0: "(built_hello ext)\<lparr>ch_random := replicate 32 0\<rparr> = built_hello ext" by (simp add: built_hello_def)
  have "hello_with_extensions ext = ?pre @ replicate 32 0 @ ?post"
    using msg [OF r0] n [OF r0] unfolding hello_with_extensions_record b0
    by (simp add: record_bytes_def)
  moreover have "record_bytes \<lparr>rec_type = Handshake, rec_version = (3, 1),
       rec_payload = hello_message ((built_hello ext)\<lparr>ch_random := r\<rparr>)\<rparr> = ?pre @ r @ ?post"
    using msg [OF assms] n [OF assms] by (simp add: record_bytes_def)
  moreover have "splice (?pre @ replicate 32 0 @ ?post) server_hello_random_offset r = ?pre @ r @ ?post"
    by (rule splice_mid) (simp_all add: server_hello_random_offset_def assms)
  ultimately show ?thesis by simp
qed

lemma parse_signed_hello:
  assumes "length r = 32" and "length ext \<le> 65400"
  defines "data \<equiv> splice (hello_with_extensions ext) server_hello_random_offset r"
  shows "parse_client_hello_record data =
    Inr \<lparr>pc_raw = data, pc_random = r, pc_session_id = [], pc_cipher_suite = 0x1301, pc_sni = extract_sni ext\<rparr>"
proof -
  let ?h = "(built_hello ext)\<lparr>ch_random := r\<rparr>"
  let ?rec = "\<lparr>rec_type = Handshake, rec_version = (3, 1), rec_payload = hello_message ?h\<rparr>"
  have d: "data = record_bytes ?rec" unfolding data_def by (rule built_hello_splice [OF assms(1)])
  have "length data = length (hello_with_extensions ext)"
    unfolding data_def by (rule length_splice) (simp add: server_hello_random_offset_def assms(1)
        hello_with_extensions_record length_record_bytes length_built_message)
  then have "length (hello_message ?h) < 65536"
    using assms(2) by (simp add: d length_record_bytes hello_with_extensions_record length_built_message)
  then have "parse_record data = Inr ?rec"
    using parse_record_bytes [of ?rec "[]"] by (simp add: d)
  moreover have "hello_wf ?h" using assms by (simp add: hello_wf_def built_hello_def)
  then have "parse_client_hello (hello_message ?h) = Inr ?h" using parse_hello_message [of ?h "[]"] by simp
  moreover have "take (length data) data = data" "length data = 5 + length (hello_message ?h)"
    by (simp_all add: d length_record_bytes)
  ultimately show ?thesis
    using assms(1) by (simp add: parse_client_hello_record_def)
      (simp add: built_hello_def first_suite_def be16_def)
qed


section \<open>Parsed records\<close>

lemma parse_client_hello_record_Inr:
  assumes "parse_client_hello_record data = Inr ch"
  obtains r h where "parse_record data = Inr r" "rec_type r = Handshake" "parse_client_hello (rec_payload r) = Inr h"
    "length (ch_random h) = 32" "pc_raw ch = record_bytes r" "pc_random ch = ch_random h"
    "pc_session_id ch = ch_session_id h" "pc_sni ch = ch_sni h"
proof -
  from assms obtain r h where p: "parse_record data = Inr r" "rec_type r = Handshake"
      "parse_client_hello (rec_payload r) = Inr h" "length (ch_random h) = 32"
    and ch: "ch = \<lparr>pc_raw = take (5 + length (rec_payload r)) data, pc_random = ch_random h,
        pc_session_id = ch_session_id h, pc_cipher_suite = first_suite (ch_ciphers h), pc_sni = ch_sni h\<rparr>"
    by (auto simp: parse_client_hello_record_def Let_def split: if_splits)
  obtain rest where "data = record_bytes r @ rest" using parse_record_sound [OF p(1)] by blast
  then have "take (5 + length (rec_payload r)) data = record_bytes r"
    by (simp add: length_record_bytes [symmetric])
  with p ch show thesis by (intro that [of r h]) simp_all
qed

lemma raw_layout:
  assumes "parse_client_hello_record data = Inr ch"
  shows "43 \<le> length (pc_raw ch)" "slice (pc_raw ch) server_hello_random_offset 32 = pc_random ch"
    "length (pc_random ch) = 32" "length (pc_session_id ch) < 256"
proof -
  obtain r h where p: "parse_client_hello (rec_payload r) = Inr h" "length (ch_random h) = 32"
      "pc_raw ch = record_bytes r" "pc_random ch = ch_random h" "pc_session_id ch = ch_session_id h"
    using assms by (rule parse_client_hello_record_Inr)
  note snd = parse_hello_sound [OF p(1)]
  obtain t where t: "drop 4 (rec_payload r) = hello_front h @ t" using snd(4) by blast
  define v where "v = [fst (ch_version h), snd (ch_version h)]"
  obtain q where q: "hello_front h @ t = v @ ch_random h @ q" by (simp add: hello_front_def v_def)
  have "rec_payload r = take 4 (rec_payload r) @ v @ ch_random h @ q"
    using t q by (metis append_take_drop_id)
  moreover define w where "w = take 4 (rec_payload r) @ v"
  ultimately have w: "rec_payload r = w @ ch_random h @ q" "length w = 6"
    using snd(3) by (simp_all add: v_def)
  let ?pre = "record_code (rec_type r) # fst (rec_version r) # snd (rec_version r) # u16_be (length (rec_payload r)) @ w"
  have raw: "pc_raw ch = ?pre @ ch_random h @ q"
    using w(1) by (simp add: p(3) record_bytes_def)
  have pre: "length ?pre = 11" using w(2) by simp
  show "length (pc_random ch) = 32" using p by simp
  show "43 \<le> length (pc_raw ch)" using pre p(2) unfolding raw by simp
  show "slice (pc_raw ch) server_hello_random_offset 32 = pc_random ch"
    using pre p(2,4) slice_append_exact [of ?pre "ch_random h" q]
    unfolding raw server_hello_random_offset_def by simp
  show "length (pc_session_id ch) < 256" using snd(1) by (simp add: p(5) hello_wf_def)
qed

section \<open>ServerHello packets\<close>

lemma write_tls_record_bytes:
  "write_tls_record buf (record_code t) payload = buf @ record_bytes \<lparr>rec_type = t, rec_version = (3, 3), rec_payload = payload\<rparr>"
  by (simp add: write_tls_record_def record_bytes_def)

definition server_hello_body :: "hello_rng \<Rightarrow> parsed_client_hello \<Rightarrow> bytes" where
  "server_hello_body g ch =
     [u8_of (length (pc_session_id ch))] @ pc_session_id ch @ u16_be (pc_cipher_suite ch) @ [0x00]
     @ u16_be 46 @ [0x00, 0x2b, 0x00, 0x02, 0x03, 0x04, 0x00, 0x33] @ u16_be 36
     @ [0x00, 0x1d, 0x00, 0x20] @ hr_pub_key g"

lemma build_server_hello_eq:
  assumes "hello_rng_ok g"
  shows "build_server_hello g ch =
     [0x02] @ u24_be (34 + length (server_hello_body g ch)) @ [0x03, 0x03] @ hr_random g @ server_hello_body g ch"
proof -
  have k: "length ([0x00, 0x1d, 0x00, 0x20] @ hr_pub_key g) = 36" using assms by (simp add: hello_rng_ok_def)
  have e: "length ([0x00, 0x2b, 0x00, 0x02, 0x03, 0x04] @ [0x00, 0x33] @ u16_be 36 @ [0x00, 0x1d, 0x00, 0x20] @ hr_pub_key g) = 46"
    using assms by (simp add: hello_rng_ok_def)
  have b: "length ([0x03, 0x03] @ hr_random g @ server_hello_body g ch) = 34 + length (server_hello_body g ch)"
    using assms by (simp add: hello_rng_ok_def)
  have bd: "[0x03, 0x03] @ hr_random g @ [u8_of (length (pc_session_id ch))] @ pc_session_id ch
      @ u16_be (pc_cipher_suite ch) @ [0x00] @ u16_be 46
      @ [0x00, 0x2b, 0x00, 0x02, 0x03, 0x04] @ [0x00, 0x33] @ u16_be 36 @ [0x00, 0x1d, 0x00, 0x20] @ hr_pub_key g
      = [0x03, 0x03] @ hr_random g @ server_hello_body g ch"
    by (simp add: server_hello_body_def)
  show ?thesis
    unfolding build_server_hello_def Let_def k e bd b ..
qed

lemma build_packet_eq:
  "build_server_hello_packet g ch =
     record_bytes \<lparr>rec_type = Handshake, rec_version = (3, 3), rec_payload = build_server_hello g ch\<rparr>
     @ record_bytes \<lparr>rec_type = ChangeCipherSpec, rec_version = (3, 3), rec_payload = [1]\<rparr>
     @ record_bytes \<lparr>rec_type = ApplicationData, rec_version = (3, 3), rec_payload = hr_fill g (pad_length g)\<rparr>"
  using write_tls_record_bytes [of _ Handshake] write_tls_record_bytes [of _ ChangeCipherSpec]
    write_tls_record_bytes [of _ ApplicationData]
  by (simp add: build_server_hello_packet_def Let_def tls_handshake_def tls_change_cipher_spec_def
      tls_application_data_def)

lemma packet_splice:
  assumes "hello_rng_ok g" and "length r = 32"
  shows "splice (build_server_hello_packet g ch) server_hello_random_offset r
    = build_server_hello_packet (g\<lparr>hr_random := r\<rparr>) ch"
proof -
  have g': "hello_rng_ok (g\<lparr>hr_random := r\<rparr>)" using assms by (simp add: hello_rng_ok_def)
  have body: "server_hello_body (g\<lparr>hr_random := x\<rparr>) ch = server_hello_body g ch" for x
    by (simp add: server_hello_body_def)
  let ?n = "34 + length (server_hello_body g ch)"
  let ?pre = "[22, 3, 3] @ u16_be (4 + ?n) @ [2] @ u24_be ?n @ [3, 3]"
  let ?post = "server_hello_body g ch
     @ record_bytes \<lparr>rec_type = ChangeCipherSpec, rec_version = (3, 3), rec_payload = [1]\<rparr>
     @ record_bytes \<lparr>rec_type = ApplicationData, rec_version = (3, 3), rec_payload = hr_fill g (pad_length g)\<rparr>"
  have shape: "build_server_hello_packet g' ch = ?pre @ hr_random g' @ ?post"
    if "hello_rng_ok g'" "g' = g\<lparr>hr_random := x\<rparr>" for g' x
  proof -
    have "length (build_server_hello g' ch) = 4 + ?n"
      using that body [of x] by (simp add: build_server_hello_eq hello_rng_ok_def)
    moreover have "build_server_hello g' ch = [2] @ u24_be ?n @ [3, 3] @ hr_random g' @ server_hello_body g ch"
      using that body [of x] by (simp add: build_server_hello_eq)
    ultimately show ?thesis
      using that(2) unfolding build_packet_eq by (simp add: record_bytes_def pad_length_def)
  qed
  have "g = g\<lparr>hr_random := hr_random g\<rparr>" by simp
  from shape [OF assms(1) this] have s1: "build_server_hello_packet g ch = ?pre @ hr_random g @ ?post" .
  from shape [OF g' refl] have s2: "build_server_hello_packet (g\<lparr>hr_random := r\<rparr>) ch = ?pre @ r @ ?post" by simp
  show ?thesis
    unfolding s1 s2
    by (rule splice_mid) (use assms in \<open>simp_all add: server_hello_random_offset_def hello_rng_ok_def\<close>)
qed


section \<open>Properties\<close>

lemma sint_u64_small:
  assumes "unat x < 2 ^ 63"
  shows "sint (x :: u64) = int (unat x)"
proof -
  have u: "uint x = int (unat x)" by simp
  have "int (unat x) < int (2 ^ 63)" using assms by (simp only: of_nat_less_iff)
  then have "uint x < 2 ^ 63" unfolding u by simp
  moreover have "- (2 ^ 63) \<le> uint x" unfolding u by (rule order.trans [of _ 0]) simp_all
  ultimately have "signed_take_bit 63 (uint x) = uint x" by (intro signed_take_bit_int_eq_self)
  moreover have "sint x = signed_take_bit 63 (uint x)" by (simp add: sint_uint)
  ultimately show ?thesis using u by (simp only:)
qed

text \<open>
  C24. What the ee check accepts, exactly: for a ClientHello that parses and a key HMAC accepts,
  validation succeeds if and only if the first 28 bytes of the random field (which the record
  has at offset 11) are the HMAC of the record with that field zeroed, and the last four, XORed
  with the HMAC, are a time stamp at most 120 seconds from the clock.
\<close>

theorem client_hello_validation_exact:
  assumes "hmac_law hmac" and "hmac secret = Some mac" and "parse_client_hello_record data = Inr ch"
  shows "validate_client_hello hmac now ch secret = Inr () \<longleftrightarrow>
    slice (pc_raw ch) 11 28 = take 28 (mac (zero_random (pc_raw ch)))
    \<and> nat \<bar>int (le32 (xor_bytes (drop 28 (mac (zero_random (pc_raw ch)))) (slice (pc_raw ch) 39 4))) - sint now\<bar> \<le> 120"
proof -
  note lay = raw_layout [OF assms(3)]
  have l32: "length (mac m) = 32" for m using assms(1,2) by (metis hmac_law_def option.inject)
  have "take 28 (pc_random ch) = slice (pc_raw ch) 11 28" "drop 28 (pc_random ch) = slice (pc_raw ch) 39 4"
    unfolding lay(2) [symmetric] by (simp_all add: slice_def server_hello_random_offset_def drop_take)
  then show ?thesis
    using validate_iff [where mac = mac and hmac = hmac and secret = secret, OF lay(1,3) assms(2) l32, of now]
    by (simp add: timestamp_ok_def hello_timestamp_skew_secs_def)
qed

lemma looks_like_signed:
  assumes "length r = 32" and "length ext \<le> 65400"
  shows "looks_like_tls_client_hello (splice (hello_with_extensions ext) server_hello_random_offset r)"
proof -
  let ?h = "(built_hello ext)\<lparr>ch_random := r\<rparr>"
  let ?rec = "\<lparr>rec_type = Handshake, rec_version = (3, 1), rec_payload = hello_message ?h\<rparr>"
  note d = built_hello_splice [OF assms(1), of ext]
  have m: "\<exists>q. hello_message ?h = 1 # q" by (simp add: hello_message_def Let_def)
  then obtain q where q: "hello_message ?h = 1 # q" by blast
  have l: "length (splice (hello_with_extensions ext) server_hello_random_offset r) = length (hello_with_extensions ext)"
    by (rule length_splice) (simp add: server_hello_random_offset_def assms(1)
        hello_with_extensions_record length_record_bytes length_built_message)
  have "length (record_bytes ?rec) = length (hello_with_extensions ext)" using l unfolding d .
  then have "length (hello_message ?h) < 65536"
    using assms(2) by (simp add: length_record_bytes hello_with_extensions_record length_built_message)
  then have "parse_record (record_bytes ?rec) = Inr ?rec"
    using parse_record_bytes [of ?rec "[]"] by simp
  then show ?thesis unfolding d
    by (simp add: looks_like_tls_client_hello_def q) (simp add: record_bytes_def u16_be_def)
qed

lemma signed_hello_checks:
  assumes "hmac_law hmac" and "is_rust_str sni" and "length sni \<le> 65000"
    and "unat now < 2 ^ 32" and "unat now' < 2 ^ 63"
  shows "\<exists>data ch. build_signed_client_hello hmac now sni secret = Some data
     \<and> parse_client_hello_record data = Inr ch \<and> pc_sni ch = Some sni \<and> looks_like_tls_client_hello data
     \<and> (validate_client_hello hmac now' ch secret = Inr () \<longleftrightarrow> \<bar>int (unat now) - int (unat now')\<bar> \<le> 120)"
proof -
  obtain mac where mac: "hmac secret = Some mac" "\<And>m. length (mac m) = 32"
    using assms(1) by (metis hmac_law_def)
  let ?ext = "sni_extension_bytes (as_bytes sni)" and ?hello = "build_client_hello sni"
  have ext: "length ?ext \<le> 65400" using assms(3) by (simp add: length_sni_extension)
  let ?r = "signed_random mac now ?hello"
  have len: "43 \<le> length ?hello"
    by (simp add: build_client_hello_def hello_with_extensions_record length_record_bytes
        length_built_message length_sni_extension)
  have r: "length ?r = 32" by (rule length_signed_random) (rule mac(2))
  let ?data = "splice ?hello server_hello_random_offset ?r"
  let ?ch = "\<lparr>pc_raw = ?data, pc_random = ?r, pc_session_id = [], pc_cipher_suite = 0x1301, pc_sni = extract_sni ?ext\<rparr>"
  have "build_signed_client_hello hmac now sni secret = Some ?data"
    unfolding build_signed_client_hello_def by (rule sign_splice [where mac = mac and hmac = hmac and secret = secret, OF mac(1) mac(2) len])
  moreover have "parse_client_hello_record ?data = Inr ?ch"
    using parse_signed_hello [OF r ext] by (simp add: build_client_hello_def)
  moreover have "looks_like_tls_client_hello ?data"
    using looks_like_signed [OF r ext] by (simp add: build_client_hello_def)
  moreover have "pc_sni ?ch = Some sni" using extract_sni_extension [OF assms(2,3), of "[]"] by simp
  moreover have "unat (ucast now :: u32) = unat now"
    using assms(4) by (simp add: unsigned_ucast_eq take_bit_nat_eq_self)
  then have "timestamp_ok (unat (ucast now :: u32)) now' \<longleftrightarrow> \<bar>int (unat now) - int (unat now')\<bar> \<le> 120"
    using sint_u64_small [OF assms(5)] by (auto simp: timestamp_ok_def hello_timestamp_skew_secs_def)
  then have "validate_client_hello hmac now' ?ch secret = Inr () \<longleftrightarrow> \<bar>int (unat now) - int (unat now')\<bar> \<le> 120"
    using signed_validates [OF assms(1) mac(1) len, of ?ch now now'] by simp
  ultimately show ?thesis by blast
qed

text \<open>
  Completeness of the ee handshake: a ClientHello signed with the secret, for any SNI, parses,
  carries that SNI and is accepted exactly while its time stamp and the verifier's clock differ
  by at most 120 seconds.
\<close>

theorem signed_hello_accepted:
  assumes "hmac_law hmac" and "is_rust_str sni" and "length sni \<le> 65000"
    and "unat now < 2 ^ 32" and "unat now' < 2 ^ 63"
  shows "\<exists>data ch. build_signed_client_hello hmac now sni secret = Some data
     \<and> parse_client_hello_record data = Inr ch \<and> pc_sni ch = Some sni
     \<and> (validate_client_hello hmac now' ch secret = Inr () \<longleftrightarrow> \<bar>int (unat now) - int (unat now')\<bar> \<le> 120)"
  using signed_hello_checks [OF assms] by blast

theorem signed_hello_accepted_witness:
  "\<exists>data ch. build_signed_client_hello toy_hmac 1000 ''a.io'' [1, 2] = Some data
     \<and> parse_client_hello_record data = Inr ch \<and> validate_client_hello toy_hmac 1100 ch [1, 2] = Inr ()"
proof -
  have "is_rust_str ''a.io''" by code_simp
  from signed_hello_accepted [OF hmac_law_toy this, of 1000 1100 "[1, 2]"] show ?thesis by auto
qed

theorem client_hello_validation_exact_witness:
  "\<exists>data ch. parse_client_hello_record data = Inr ch
     \<and> (validate_client_hello toy_hmac 5 ch [7] = Inr () \<longleftrightarrow>
        slice (pc_raw ch) 11 28 = take 28 (the (toy_hmac [7]) (zero_random (pc_raw ch)))
        \<and> nat \<bar>int (le32 (xor_bytes (drop 28 (the (toy_hmac [7]) (zero_random (pc_raw ch)))) (slice (pc_raw ch) 39 4)))
              - sint (5 :: u64)\<bar> \<le> 120)"
proof -
  obtain ch where p: "parse_client_hello_record (splice (hello_with_extensions []) server_hello_random_offset (replicate 32 9)) = Inr ch"
    using parse_signed_hello [of "replicate 32 9" "[]"] by simp
  have m: "toy_hmac [7] = Some (the (toy_hmac [7]))" by (simp add: toy_hmac_def)
  from p client_hello_validation_exact [OF hmac_law_toy m p, of 5] show ?thesis by blast
qed

text \<open>
  The answer of the proxy is a well-formed TLS flight: a Handshake record, a ChangeCipherSpec
  record and an ApplicationData record of 1024 to 4095 bytes and nothing else; the ServerHello
  echoes the client's session id; and the 32 bytes at offset 11 are the HMAC of the client random
  and the packet with those bytes zeroed.
\<close>

theorem server_hello_wellformed:
  assumes "hmac_law hmac" and "hello_rng_ok g" and "length (pc_session_id ch) < 256"
  shows "\<exists>packet mac sh pad. server_hello_bytes hmac g ch secret = Inr packet \<and> hmac secret = Some mac
    \<and> decode_stream record_dec 3 packet = Some
        ([\<lparr>rec_type = Handshake, rec_version = (3, 3), rec_payload = sh\<rparr>,
          \<lparr>rec_type = ChangeCipherSpec, rec_version = (3, 3), rec_payload = [1]\<rparr>,
          \<lparr>rec_type = ApplicationData, rec_version = (3, 3), rec_payload = pad\<rparr>], [])
    \<and> 1024 \<le> length pad \<and> length pad < 4096
    \<and> unat (sh ! 38) = length (pc_session_id ch) \<and> slice sh 39 (length (pc_session_id ch)) = pc_session_id ch
    \<and> slice packet 11 32 = mac (pc_random ch @ zero_random packet)"
proof -
  obtain mac where mac: "hmac secret = Some mac" "\<And>m. length (mac m) = 32"
    using assms(1) by (metis hmac_law_def)
  let ?p0 = "build_server_hello_packet g ch"
  let ?g0 = "g\<lparr>hr_random := replicate 32 0\<rparr>"
  define r where "r = mac (pc_random ch @ zero_random ?p0)"
  let ?g1 = "g\<lparr>hr_random := r\<rparr>"
  have r: "length r = 32" by (simp add: r_def mac)
  have z: "zero_random ?p0 = build_server_hello_packet ?g0 ch"
    unfolding zero_random_def by (rule packet_splice [OF assms(2)]) simp
  have g0: "hello_rng_ok ?g0" and g1: "hello_rng_ok ?g1" using assms(2) r by (simp_all add: hello_rng_ok_def)
  define packet where "packet = build_server_hello_packet ?g1 ch"
  have sp: "splice (zero_random ?p0) server_hello_random_offset r = packet"
    using packet_splice [OF g0 r, of ch] by (simp add: z packet_def)
  have bytes: "server_hello_bytes hmac g ch secret = Inr packet"
    using sp by (simp add: server_hello_bytes_def mac(1) Let_def r_def)
  define sh where "sh = build_server_hello ?g1 ch"
  define pad where "pad = hr_fill g (pad_length g)"
  have pad: "length pad = pad_length g" using assms(2) by (simp add: pad_def hello_rng_ok_def)
  have padb: "1024 \<le> pad_length g \<and> pad_length g < 4096" by (simp add: pad_length_def)
  have shl: "length sh < 65536"
    using assms(3) g1 r by (simp add: sh_def build_server_hello_eq server_hello_body_def hello_rng_ok_def)
  let ?rs = "[\<lparr>rec_type = Handshake, rec_version = (3, 3), rec_payload = sh\<rparr>,
          \<lparr>rec_type = ChangeCipherSpec, rec_version = (3, 3), rec_payload = [1]\<rparr>,
          \<lparr>rec_type = ApplicationData, rec_version = (3, 3), rec_payload = pad\<rparr>]"
  have pk: "packet = concat (map record_bytes ?rs)"
    by (simp add: packet_def build_packet_eq sh_def pad_def pad_length_def)
  have dec: "decode_stream record_dec 3 packet = Some (?rs, [])"
    using tls_records.decode_concat [of ?rs "[]"] shl pad padb unfolding pk
    by (simp add: numeral_3_eq_3 del: decode_stream.simps)
  have shape: "sh = ([2] @ u24_be (34 + length (server_hello_body ?g1 ch)) @ [3, 3] @ r) @ server_hello_body ?g1 ch"
    unfolding sh_def build_server_hello_eq [OF g1] by simp
  have pre: "length ([2] @ u24_be (34 + length (server_hello_body ?g1 ch)) @ [3, 3] @ r) = 38" using r by simp
  have body: "server_hello_body ?g1 ch = u8_of (length (pc_session_id ch)) # pc_session_id ch @ drop (Suc (length (pc_session_id ch))) (server_hello_body ?g1 ch)"
    by (simp add: server_hello_body_def)
  have sid: "unat (sh ! 38) = length (pc_session_id ch)" "slice sh 39 (length (pc_session_id ch)) = pc_session_id ch"
  proof -
    show "unat (sh ! 38) = length (pc_session_id ch)"
      using assms(3) pre body unfolding shape by (metis mod_less nth_append_length unat_u8_of)
    have "drop 39 sh = drop 1 (server_hello_body ?g1 ch)" using pre unfolding shape by simp
    then show "slice sh 39 (length (pc_session_id ch)) = pc_session_id ch"
      by (simp add: slice_def server_hello_body_def)
  qed
  have "packet = splice ?p0 server_hello_random_offset r"
    by (simp add: packet_def packet_splice [OF assms(2) r])
  moreover have "43 \<le> length ?p0"
    using assms(2)
    by (simp add: build_packet_eq length_record_bytes build_server_hello_eq [OF assms(2)] server_hello_body_def
        hello_rng_ok_def)
  ultimately have "slice packet 11 32 = r" "zero_random packet = zero_random ?p0"
    using r slice_splice [of 11 r ?p0] zero_random_splice [OF r]
    by (simp_all add: server_hello_random_offset_def)
  then have "slice packet 11 32 = mac (pc_random ch @ zero_random packet)" by (simp add: r_def)
  with bytes mac(1) dec pad padb sid show ?thesis by (intro exI [of _ packet] exI [of _ mac] exI [of _ sh] exI [of _ pad]) simp
qed

definition zero_rng :: hello_rng where
  "zero_rng = \<lparr>hr_random = replicate 32 0, hr_pub_key = replicate 32 1, hr_pad_draw = 5, hr_fill = (\<lambda>n. replicate n 2)\<rparr>"

theorem server_hello_wellformed_witness:
  "\<exists>packet mac. server_hello_bytes toy_hmac zero_rng
       \<lparr>pc_raw = [], pc_random = [1], pc_session_id = [4, 5], pc_cipher_suite = 0x1301, pc_sni = None\<rparr> [9] = Inr packet
     \<and> toy_hmac [9] = Some mac \<and> slice packet 11 32 = mac ([1] @ zero_random packet)"
  using server_hello_wellformed [OF hmac_law_toy, of zero_rng
      "\<lparr>pc_raw = [], pc_random = [1], pc_session_id = [4, 5], pc_cipher_suite = 0x1301, pc_sni = None\<rparr>" "[9]"]
  by (auto simp: zero_rng_def hello_rng_ok_def)

end
