(* ===== verification/Io_Streams.thy ===== *)
theory Io_Streams
  imports Sg_Laws
begin

text \<open>
  Readers of the streams. \<open>script_data\<close> is what a script of lower-level answers delivers before its
  end of file. \<open>read_exact\<close> and \<open>copy_to_end\<close> are the tokio loops over any \<^verbatim>\<open>poll_read\<close>, for a number
  of polls given as fuel (an unfinished operation is \<^term>\<open>None\<close>: the task is still waiting). The
  locale \<open>byte_source\<close> is the contract a reader of this code base has with the streams below it;
  sockets satisfy it here, \<^verbatim>\<open>PrefixedStream\<close> (\<^verbatim>\<open>src/io_util.rs\<close>) is shown to keep it, and the stream
  theories that follow add the fake TLS, obfuscated and encrypted streams.
\<close>

section \<open>Scripts\<close>

text \<open>The bytes a script will deliver before its end of file.\<close>

fun script_data :: "rd_event list \<Rightarrow> bytes" where
  "script_data [] = []"
| "script_data (RData bs # es) = bs @ script_data es"
| "script_data (REof # es) = []"
| "script_data (_ # es) = script_data es"

lemma inner_read_script:
  assumes "inner_read n es = (r, es')" and "0 < n" and "RData [] \<notin> set es"
  shows "RData [] \<notin> set es'"
    and "case r of Ready (Inr bs) \<Rightarrow> length bs \<le> n \<and> script_data es = bs @ script_data es' \<and> (bs = [] \<longrightarrow> script_data es = [])
         | Ready (Inl k) \<Rightarrow> script_data es' = script_data es \<and> RErr k \<in> set es
         | Pending \<Rightarrow> script_data es' = script_data es"
    and "\<forall>k. RErr k \<in> set es' \<longrightarrow> RErr k \<in> set es"
  using assms by (cases es rule: script_data.cases; force split: if_splits)+

text \<open>A measure that every answer but the end of file consumes.\<close>

fun script_size :: "rd_event list \<Rightarrow> nat" where
  "script_size [] = 0"
| "script_size (RData bs # es) = Suc (length bs) + script_size es"
| "script_size (_ # es) = Suc (script_size es)"

lemma inner_read_size:
  "inner_read n es = (Ready (Inr bs), es') \<Longrightarrow> bs \<noteq> [] \<Longrightarrow> script_size es' < script_size es"
  by (cases es rule: script_size.cases) (auto split: if_splits)

lemma inner_read_progress:
  "inner_read n es = (r, es') \<Longrightarrow> REof \<in> set es \<Longrightarrow>
   (\<exists>k. r = Ready (Inl k)) \<or> r = Ready (Inr []) \<or> REof \<in> set es' \<and> script_size es' < script_size es"
  by (cases es rule: script_size.cases) (auto split: if_splits)

type_synonym 's poll_read_fun = "nat \<Rightarrow> 's \<Rightarrow> (io_kind + bytes) poll \<times> 's"

text \<open>What a poll handed over.\<close>

fun polled :: "(io_kind + bytes) poll \<Rightarrow> bytes" where
  "polled (Ready (Inr bs)) = bs"
| "polled _ = []"

section \<open>The tokio loops\<close>

fun read_exact :: "nat \<Rightarrow> 's poll_read_fun \<Rightarrow> nat \<Rightarrow> 's \<Rightarrow> (io_kind + bytes) option \<times> 's" where
  "read_exact 0 poll n s = (if n = 0 then Some (Inr []) else None, s)"
| "read_exact (Suc fuel) poll n s =
     (if n = 0 then (Some (Inr []), s)
      else (case poll n s of
          (Pending, s1) \<Rightarrow> read_exact fuel poll n s1
        | (Ready (Inl k), s1) \<Rightarrow> (Some (Inl k), s1)
        | (Ready (Inr bs), s1) \<Rightarrow>
            if bs = [] then (Some (Inl UnexpectedEof), s1)
            else (case read_exact fuel poll (n - length bs) s1 of
                (Some (Inr rest), s2) \<Rightarrow> (Some (Inr (bs @ rest)), s2)
              | other \<Rightarrow> other)))"

text \<open>
  \<^verbatim>\<open>read\<close> with a buffer of \<open>n\<close> bytes until the end, every piece passed on: the pieces delivered and
  how it ended (\<^term>\<open>None\<close>: still running).
  It polls again after every \<^verbatim>\<open>Pending\<close>, as a task does that is woken; where a stream answers
  \<^verbatim>\<open>Pending\<close> without having registered a waker (\<^verbatim>\<open>sgfb_crypto.rs\<close> and \<^verbatim>\<open>faketls.rs\<close>, after a part of
  a frame or record), the task of the real program may never be polled again.
\<close>

fun copy_to_end :: "nat \<Rightarrow> 's poll_read_fun \<Rightarrow> nat \<Rightarrow> 's \<Rightarrow> bytes list \<times> (io_kind + unit) option \<times> 's" where
  "copy_to_end 0 poll n s = ([], None, s)"
| "copy_to_end (Suc fuel) poll n s =
     (case poll n s of
        (Pending, s1) \<Rightarrow> copy_to_end fuel poll n s1
      | (Ready (Inl k), s1) \<Rightarrow> ([], Some (Inl k), s1)
      | (Ready (Inr bs), s1) \<Rightarrow>
          if bs = [] then ([], Some (Inr ()), s1)
          else (case copy_to_end fuel poll n s1 of (ps, e, s2) \<Rightarrow> (bs # ps, e, s2)))"

lemmas copy_to_end_numeral = copy_to_end.simps(2) [of "pred_numeral k" for k, folded numeral_eq_Suc]

text \<open>A copy ends when every poll that is not its end makes progress in some measure.\<close>

lemma copy_ends:
  assumes step: "\<And>s m r s1. P s m \<Longrightarrow> poll n s = (r, s1) \<Longrightarrow>
      (\<exists>k. r = Ready (Inl k)) \<or> r = Ready (Inr []) \<or> (\<exists>m1. P s1 m1 \<and> m1 < (m :: nat))"
  shows "P s m \<Longrightarrow> m < fuel \<Longrightarrow> fst (snd (copy_to_end fuel poll n s)) \<noteq> None"
proof (induction fuel arbitrary: s m)
  case (Suc fuel)
  obtain r s1 where p: "poll n s = (r, s1)" by fastforce
  from step [OF Suc.prems(1) p]
  consider k where "r = Ready (Inl k)" | "r = Ready (Inr [])" | m1 where "P s1 m1" "m1 < m" by blast
  then show ?case
  proof cases
    case (3 m1)
    then have "fst (snd (copy_to_end fuel poll n s1)) \<noteq> None" using Suc.IH [of s1 m1] Suc.prems(2) by simp
    then show ?thesis using p by (auto split: poll.splits sum.splits prod.splits)
  qed (simp_all add: p)
qed simp

section \<open>The contract of a stream\<close>

text \<open>
  \<open>owes s d\<close>: the stream in state \<open>s\<close> still has to deliver \<open>d\<close>. A poll hands over the front of it,
  of the size asked for at most, and answers end of file only when nothing is left.
\<close>

locale byte_source =
  fixes poll_rd :: "nat \<Rightarrow> 's \<Rightarrow> (io_kind + bytes) poll \<times> 's" and owes :: "'s \<Rightarrow> bytes \<Rightarrow> bool"
  assumes poll_delivers: "owes s d \<Longrightarrow> 0 < n \<Longrightarrow> poll_rd n s = (r, s1) \<Longrightarrow>
    (\<exists>d1. owes s1 d1 \<and> d = polled r @ d1) \<and> (r = Ready (Inr []) \<longrightarrow> d = []) \<and> length (polled r) \<le> n"
begin

lemma read_exact_delivers:
  "owes s d \<Longrightarrow> read_exact fuel poll_rd n s = (r, s1) \<Longrightarrow>
   \<forall>out. r = Some (Inr out) \<longrightarrow> length out = n \<and> (\<exists>d1. owes s1 d1 \<and> d = out @ d1)"
proof (induction fuel arbitrary: n s d r s1)
  case 0
  then show ?case by (auto split: if_splits)
next
  case (Suc fuel)
  show ?case
  proof (cases "n = 0")
    case True
    with Suc.prems show ?thesis by auto
  next
    case False
    obtain p s2 where p: "poll_rd n s = (p, s2)" by fastforce
    obtain d2 where d2: "owes s2 d2" "d = polled p @ d2" "p = Ready (Inr []) \<longrightarrow> d = []" "length (polled p) \<le> n"
      using poll_delivers [OF Suc.prems(1) _ p] False by auto
    show ?thesis
    proof (cases p)
      case Pending
      then have "read_exact fuel poll_rd n s2 = (r, s1)" using Suc.prems(2) False p by simp
      from Suc.IH [OF d2(1) this] show ?thesis using d2(2) Pending by simp
    next
      case (Ready v)
      show ?thesis
      proof (cases v)
        case (Inl k)
        then show ?thesis using Suc.prems(2) False p Ready by auto
      next
        case (Inr bs)
        show ?thesis
        proof (cases "bs = []")
          case True
          then show ?thesis using Suc.prems(2) False p Ready Inr d2(3) by auto
        next
          case ne: False
          obtain q s3 where q: "read_exact fuel poll_rd (n - length bs) s2 = (q, s3)" by fastforce
          have len: "length bs \<le> n" using d2(4) Ready Inr by simp
          have split: "d = bs @ d2" using d2(2) Ready Inr by simp
          have unf: "read_exact (Suc fuel) poll_rd n s = (case (q, s3) of (Some (Inr rest), s2) \<Rightarrow> (Some (Inr (bs @ rest)), s2)
              | other \<Rightarrow> other)"
            using False ne by (simp add: p Ready Inr q)
          show ?thesis
          proof (cases "\<exists>rest. q = Some (Inr rest)")
            case True
            then obtain rest where rest: "q = Some (Inr rest)" by blast
            then have "r = Some (Inr (bs @ rest))" "s1 = s3" using Suc.prems(2) unf by simp_all
            then show ?thesis using Suc.IH [OF d2(1) q] rest len split by auto
          next
            case no: False
            then have "r = q" using Suc.prems(2) unf by (cases q) (auto split: sum.splits)
            then show ?thesis using no by simp
          qed
        qed
      qed
    qed
  qed
qed

lemma copy_delivers:
  "owes s d \<Longrightarrow> 0 < n \<Longrightarrow> copy_to_end fuel poll_rd n s = (ps, e, s1) \<Longrightarrow>
   (\<exists>d1. owes s1 d1 \<and> d = concat ps @ d1 \<and> (e = Some (Inr ()) \<longrightarrow> d1 = [])) \<and> list_all (\<lambda>p. p \<noteq> [] \<and> length p \<le> n) ps"
proof (induction fuel arbitrary: s d ps e s1)
  case (Suc fuel)
  obtain p s2 where p: "poll_rd n s = (p, s2)" by fastforce
  obtain d2 where d2: "owes s2 d2" "d = polled p @ d2" "p = Ready (Inr []) \<longrightarrow> d = []" "length (polled p) \<le> n"
    using poll_delivers [OF Suc.prems(1,2) p] by auto
  consider "p = Pending" | k where "p = Ready (Inl k)" | bs where "p = Ready (Inr bs)"
    by (cases p) (auto, metis sum.exhaust)
  then show ?case
  proof cases
    case 1
    with Suc.prems(3) p have "copy_to_end fuel poll_rd n s2 = (ps, e, s1)" by simp
    from Suc.IH [OF d2(1) Suc.prems(2) this] show ?thesis using d2(2) 1 by simp
  next
    case (2 k)
    with Suc.prems(3) p d2 show ?thesis by auto
  next
    case (3 bs)
    show ?thesis
    proof (cases "bs = []")
      case True
      with Suc.prems(3) p d2 3 show ?thesis by auto
    next
      case False
      obtain qs e2 s3 where q: "copy_to_end fuel poll_rd n s2 = (qs, e2, s3)" using prod_cases3 by blast
      then have "ps = bs # qs" "e = e2" "s1 = s3" using Suc.prems(3) p 3 False by auto
      then show ?thesis using Suc.IH [OF d2(1) Suc.prems(2) q] d2(2,4) 3 False by auto
    qed
  qed
qed (auto intro: exI)

end

definition owes_script :: "rd_event list \<Rightarrow> bytes \<Rightarrow> bool" where
  "owes_script es d \<longleftrightarrow> script_data es = d \<and> RData [] \<notin> set es"

interpretation socket: byte_source inner_read owes_script
proof (unfold_locales, goal_cases)
  case (1 s d n r s1)
  then show ?case
    using inner_read_script(1,2) [OF 1(3,2)]
    by (cases r rule: polled.cases) (auto simp: owes_script_def)
qed

text \<open>A peer that sends its bytes and closes: no errors on the way.\<close>

definition clean_script :: "rd_event list \<Rightarrow> bool" where
  "clean_script es \<longleftrightarrow> REof \<in> set es
     \<and> list_all (\<lambda>e. case e of RData bs \<Rightarrow> bs \<noteq> [] | RErr _ \<Rightarrow> False | _ \<Rightarrow> True) es"

lemma clean_script_Cons:
  "clean_script (RData bs # es) \<longleftrightarrow> bs \<noteq> [] \<and> clean_script es"
  "clean_script (RPending # es) \<longleftrightarrow> clean_script es"
  "\<not> clean_script (RErr k # es)" "\<not> clean_script []"
  by (auto simp: clean_script_def)

lemma clean_script_owes: "clean_script es \<Longrightarrow> owes_script es (script_data es)"
  by (auto simp: clean_script_def owes_script_def list_all_iff)

text \<open>On such a peer \<^verbatim>\<open>read_exact\<close> returns, with the next \<open>n\<close> bytes or with \<^verbatim>\<open>UnexpectedEof\<close>.\<close>

lemma read_exact_script:
  "clean_script es \<Longrightarrow> script_size es < fuel \<Longrightarrow>
   \<exists>es1. read_exact fuel inner_read n es = (Some (if n \<le> length (script_data es) then Inr (take n (script_data es))
       else Inl UnexpectedEof), es1) \<and> clean_script es1
     \<and> (n \<le> length (script_data es) \<longrightarrow> script_data es1 = drop n (script_data es) \<and> script_size es1 \<le> script_size es)"
proof (induction fuel arbitrary: n es)
  case (Suc fuel)
  show ?case
  proof (cases "n = 0")
    case True
    with Suc.prems show ?thesis by simp
  next
    case False
    consider bs rest where "es = RData bs # rest" | rest where "es = RPending # rest" | rest where "es = REof # rest"
      using Suc.prems(1) by (cases es rule: script_data.cases) (auto simp: clean_script_Cons)
    then show ?thesis
    proof cases
      case data: (1 bs rest)
      let ?es = "if length bs \<le> n then rest else RData (drop n bs) # rest"
      have bs: "bs \<noteq> []" "clean_script rest" using Suc.prems(1) data by (auto simp: clean_script_Cons)
      have size: "clean_script ?es" "script_size ?es < fuel" "script_size ?es \<le> script_size es"
        using Suc.prems(2) data bs False by (auto simp: clean_script_Cons)
      have d: "script_data ?es = drop n bs @ script_data rest" by simp
      obtain es1 where es1: "read_exact fuel inner_read (n - length (take n bs)) ?es =
          (Some (if n - length (take n bs) \<le> length (script_data ?es)
             then Inr (take (n - length (take n bs)) (script_data ?es)) else Inl UnexpectedEof), es1)" "clean_script es1"
          "n - length (take n bs) \<le> length (script_data ?es) \<longrightarrow>
             script_data es1 = drop (n - length (take n bs)) (script_data ?es) \<and> script_size es1 \<le> script_size ?es"
        using Suc.IH [OF size(1,2)] by blast
      have unf: "read_exact (Suc fuel) inner_read n es =
          (case read_exact fuel inner_read (n - length (take n bs)) ?es of
             (Some (Inr r), s2) \<Rightarrow> (Some (Inr (take n bs @ r)), s2) | other \<Rightarrow> other)"
        using False bs by (simp add: data del: length_take)
      have le: "n - length (take n bs) \<le> length (script_data ?es) \<longleftrightarrow> n \<le> length (script_data es)"
        by (auto simp: data d)
      show ?thesis
      proof (cases "n \<le> length (script_data es)")
        case True
        have "take n bs @ take (n - length (take n bs)) (script_data ?es) = take n (script_data es)"
          "drop (n - length (take n bs)) (script_data ?es) = drop n (script_data es)"
          by (cases "length bs \<le> n"; simp add: data)+
        then show ?thesis using True es1 le size(3) by (simp add: unf del: length_take read_exact.simps)
      next
        case no: False
        then show ?thesis using es1 le by (simp add: unf del: length_take read_exact.simps)
      qed
    next
      case (2 rest)
      then show ?thesis using Suc False by (auto simp: clean_script_Cons dest!: Suc.IH [of rest n])
    next
      case (3 rest)
      then show ?thesis using Suc.prems False by simp
    qed
  qed
qed simp

section \<open>A socket\<close>

text \<open>Both directions of a connection: the scripts of its answers and the bytes it has accepted.\<close>

record wire =
  wi_in :: "rd_event list"
  wi_out :: "wr_event list"
  wi_sent :: bytes

definition wire_read :: "wire poll_read_fun" where
  "wire_read n w = (case inner_read n (wi_in w) of (r, es) \<Rightarrow> (r, w\<lparr>wi_in := es\<rparr>))"

type_synonym 's poll_write_fun = "bytes \<Rightarrow> 's \<Rightarrow> (io_kind + nat) poll \<times> 's"

definition wire_write :: "wire poll_write_fun" where
  "wire_write bs w = (case inner_write bs (wi_out w) of (r, acc, es) \<Rightarrow>
     (r, w\<lparr>wi_out := es, wi_sent := wi_sent w @ acc\<rparr>))"

text \<open>A caller polls \<^verbatim>\<open>poll_write\<close> with a sequence of buffers; what it counts as written.\<close>

fun poll_writes :: "'s poll_write_fun \<Rightarrow> bytes list \<Rightarrow> 's \<Rightarrow> bytes \<times> 's" where
  "poll_writes wr [] s = ([], s)"
| "poll_writes wr (b # bs) s =
     (case wr b s of (r, s1) \<Rightarrow>
        (case poll_writes wr bs s1 of (acc, s2) \<Rightarrow>
          ((case r of Ready (Inr n) \<Rightarrow> take n b | _ \<Rightarrow> []) @ acc, s2)))"

definition owes_wire :: "wire \<Rightarrow> bytes \<Rightarrow> bool" where
  "owes_wire w d \<longleftrightarrow> owes_script (wi_in w) d"

interpretation wire_source: byte_source wire_read owes_wire
proof (unfold_locales, goal_cases)
  case (1 s d n r s1)
  then obtain es where "inner_read n (wi_in s) = (r, es)" "s1 = s\<lparr>wi_in := es\<rparr>"
    by (auto simp: wire_read_def split: prod.splits)
  then show ?case using socket.poll_delivers [of "wi_in s" d n r es] 1 by (auto simp: owes_wire_def)
qed

section \<open>PrefixedStream\<close>

record 's prefixed =
  px_data :: bytes
  px_pos :: nat
  px_inner :: 's

definition prefixed_new :: "bytes \<Rightarrow> 's \<Rightarrow> 's prefixed" where
  "prefixed_new pre s = \<lparr>px_data = pre, px_pos = 0, px_inner = s\<rparr>"

definition prefixed_into_inner :: "'s prefixed \<Rightarrow> 's" where
  "prefixed_into_inner s = px_inner s"

definition prefixed_poll_read :: "'s poll_read_fun \<Rightarrow> 's prefixed poll_read_fun" where
  "prefixed_poll_read poll n s =
     (if px_pos s < length (px_data s)
      then let rest = drop (px_pos s) (px_data s); to_copy = min (length rest) n
           in (Ready (Inr (take to_copy rest)), s\<lparr>px_pos := px_pos s + to_copy\<rparr>)
      else (case poll n (px_inner s) of (r, i) \<Rightarrow> (r, s\<lparr>px_inner := i\<rparr>)))"

definition owes_prefixed :: "('s \<Rightarrow> bytes \<Rightarrow> bool) \<Rightarrow> 's prefixed \<Rightarrow> bytes \<Rightarrow> bool" where
  "owes_prefixed owed s d \<longleftrightarrow> (\<exists>d1. owed (px_inner s) d1 \<and> d = drop (px_pos s) (px_data s) @ d1)"

text \<open>Prefixing a source gives a source: what was peeked is delivered first.\<close>

context byte_source
begin

lemma prefixed_delivers:
  assumes "owes_prefixed owes s d" and "0 < n" and "prefixed_poll_read poll_rd n s = (r, s1)"
  shows "(\<exists>d1. owes_prefixed owes s1 d1 \<and> d = polled r @ d1) \<and> (r = Ready (Inr []) \<longrightarrow> d = []) \<and> length (polled r) \<le> n"
proof (cases "px_pos s < length (px_data s)")
  case True
  let ?rest = "drop (px_pos s) (px_data s)" let ?k = "min (length ?rest) n"
  have r: "r = Ready (Inr (take ?k ?rest))" "s1 = s\<lparr>px_pos := px_pos s + ?k\<rparr>"
    using assms(3) True by (simp_all add: prefixed_poll_read_def Let_def)
  obtain d1 where d1: "owes (px_inner s) d1" "d = ?rest @ d1" using assms(1) by (auto simp: owes_prefixed_def)
  have d: "d = take ?k ?rest @ drop ?k ?rest @ d1"
    by (simp only: d1(2) append_take_drop_id flip: append_assoc)
  have o: "owes_prefixed owes s1 (drop ?k ?rest @ d1)"
    using d1(1) by (auto simp: owes_prefixed_def r(2) add.commute)
  have ne: "take ?k ?rest \<noteq> []" using True assms(2) by simp
  show ?thesis unfolding r(1) polled.simps
  proof (intro conjI impI)
    show "\<exists>da. owes_prefixed owes s1 da \<and> d = take ?k ?rest @ da" using o d by blast
  qed (use ne in \<open>simp_all del: take_eq_Nil\<close>)
next
  case False
  obtain i where p: "poll_rd n (px_inner s) = (r, i)" "s1 = s\<lparr>px_inner := i\<rparr>"
    using assms(3) False by (auto simp: prefixed_poll_read_def split: prod.splits)
  obtain d1 where "owes (px_inner s) d1" "d = d1" using assms(1) False by (auto simp: owes_prefixed_def)
  then show ?thesis using poll_delivers [OF _ assms(2) p(1), of d] p(2) False by (auto simp: owes_prefixed_def)
qed

end

interpretation prefixed_socket: byte_source "prefixed_poll_read inner_read" "owes_prefixed owes_script"
  by unfold_locales (rule socket.prefixed_delivers)

lemma prefixed_progress:
  "REof \<in> set (px_inner s) \<Longrightarrow> prefixed_poll_read inner_read n s = (r, s1) \<Longrightarrow> 0 < n \<Longrightarrow>
   (\<exists>k. r = Ready (Inl k)) \<or> r = Ready (Inr []) \<or> REof \<in> set (px_inner s1)
     \<and> length (px_data s1) - px_pos s1 + script_size (px_inner s1) < length (px_data s) - px_pos s + script_size (px_inner s)"
  using inner_read_progress [of n "px_inner s"]
  by (fastforce simp: prefixed_poll_read_def Let_def split: if_splits prod.splits)

text \<open>
  \<^verbatim>\<open>PrefixedStream\<close>: a reader gets the bytes peeked before and then the bytes of the socket, in
  order, without loss or repetition, for any segmentation and any buffer size; a reader that has
  come to the end has got all of them, and it does come to the end when the peer closes.
\<close>

theorem prefixed_stream_delivers:
  assumes "RData [] \<notin> set inp" and "REof \<in> set inp" and "0 < n" and "length pre + script_size inp < fuel"
    and "copy_to_end fuel (prefixed_poll_read inner_read) n (prefixed_new pre inp) = (ps, e, s1)"
  shows "\<exists>rest. pre @ script_data inp = concat ps @ rest \<and> (e = Some (Inr ()) \<longrightarrow> rest = []) \<and> e \<noteq> None"
proof -
  have "owes_prefixed owes_script (prefixed_new pre inp) (pre @ script_data inp)"
    using assms(1) by (auto simp: owes_prefixed_def owes_script_def prefixed_new_def)
  note del = prefixed_socket.copy_delivers [OF this assms(3,5)]
  have "fst (snd (copy_to_end fuel (prefixed_poll_read inner_read) n (prefixed_new pre inp))) \<noteq> None"
    using prefixed_progress [OF _ _ assms(3)] assms(2,4)
    by (intro copy_ends [where P = "\<lambda>s m. REof \<in> set (px_inner s)
          \<and> m = length (px_data s) - px_pos s + script_size (px_inner s)" and m = "length pre + script_size inp"])
      (fastforce simp: prefixed_new_def)+
  then show ?thesis using del assms(5) by auto
qed

lemma prefixed_stream_delivers_witness:
  "\<exists>rest. [1, 2, 3] @ script_data [RData [4], RPending, RData [5, 6], REof] = concat [[1, 2], [3], [4], [5, 6 :: u8]] @ rest
     \<and> (Some (Inr ()) = (Some (Inr ()) :: (io_kind + unit) option) \<longrightarrow> rest = [])
     \<and> Some (Inr ()) \<noteq> (None :: (io_kind + unit) option)"
proof -
  let ?c = "copy_to_end 20 (prefixed_poll_read inner_read) 2
      (prefixed_new [1, 2, 3] [RData [4], RPending, RData [5, 6], REof])"
  have "?c = ([[1, 2], [3], [4], [5, 6]], Some (Inr ()), snd (snd ?c))" by code_simp
  from prefixed_stream_delivers [OF _ _ _ _ this] show ?thesis by simp
qed

end
