(* ===== verification/Fake_Tls_Stream.thy ===== *)
theory Fake_Tls_Stream
  imports Fake_Tls Io_Streams
begin

text \<open>
  \<^verbatim>\<open>FakeTlsStream\<close> of \<^verbatim>\<open>src/faketls.rs\<close>: a byte stream carried in TLS ApplicationData records.
  The stream below it is two scripts of answers (\<open>ft_in\<close> to \<^verbatim>\<open>poll_read\<close>, \<open>ft_out\<close> to
  \<^verbatim>\<open>poll_write\<close>); \<open>ft_sent\<close> is what the lower stream has accepted. Both poll functions are
  total: a read consumes script or stash, a write advances in its buffer or its script.
\<close>

record write_options =
  wo_record_sizes :: "nat list"
  wo_padding :: bool

definition write_options_default :: write_options where
  "write_options_default = \<lparr>wo_record_sizes = [512, 1024, 1398, 256], wo_padding = True\<rparr>"

definition write_options_from_drs :: "drs_config \<Rightarrow> write_options option" where
  "write_options_from_drs d =
     (if \<not> drs_enabled d \<and> \<not> ee_relay d then None
      else Some \<lparr>wo_record_sizes = (if record_sizes d = [] then [512, 1024, 1398, 256] else record_sizes d),
                 wo_padding = False\<rparr>)"

record fake_tls =
  ft_in :: "rd_event list"
  ft_out :: "wr_event list"
  ft_sent :: bytes
  ft_draws :: nat
  ft_read_buf :: bytes
  ft_write_opts :: "write_options option"
  ft_write_size_idx :: nat
  ft_stash :: bytes

definition fake_tls_new :: "rd_event list \<Rightarrow> wr_event list \<Rightarrow> write_options option \<Rightarrow> fake_tls" where
  "fake_tls_new inp outp opts = \<lparr>ft_in = inp, ft_out = outp, ft_sent = [], ft_draws = 0, ft_read_buf = [],
     ft_write_opts = opts, ft_write_size_idx = 0, ft_stash = []\<rparr>"

definition take_read_buf :: "fake_tls \<Rightarrow> bytes \<times> fake_tls" where
  "take_read_buf s = (ft_read_buf s, s\<lparr>ft_read_buf := []\<rparr>)"

section \<open>Reading\<close>

definition looks_like_tls_record_header :: "bytes \<Rightarrow> bool" where
  "looks_like_tls_record_header data \<longleftrightarrow>
     3 \<le> length data
     \<and> data ! 0 \<in> {tls_handshake, tls_application_data, tls_change_cipher_spec}
     \<and> data ! 1 = 0x03 \<and> data ! 2 \<in> {0x01, 0x03}"

definition poll_fill_tls_stash :: "fake_tls \<Rightarrow> (io_kind + nat) poll \<times> fake_tls" where
  "poll_fill_tls_stash s =
     (case inner_read 2048 (ft_in s) of
        (Pending, es) \<Rightarrow> (Pending, s\<lparr>ft_in := es\<rparr>)
      | (Ready (Inl k), es) \<Rightarrow> (Ready (Inl k), s\<lparr>ft_in := es\<rparr>)
      | (Ready (Inr bs), es) \<Rightarrow> (Ready (Inr (length bs)), s\<lparr>ft_in := es, ft_stash := ft_stash s @ bs\<rparr>))"

definition abandon_incomplete_handshake :: "bytes \<Rightarrow> nat \<Rightarrow> bytes" where
  "abandon_incomplete_handshake stash before =
     (if stash = [] \<or> stash ! 0 \<noteq> tls_handshake \<or> length stash \<le> before then stash
      else if stash ! before = tls_application_data \<and> before + 1 < length stash \<and> stash ! (before + 1) = 0x03
        then drop before stash
      else stash)"

text \<open>How the inner \<^verbatim>\<open>while\<close> ends: it is left, or the whole function returns.\<close>

datatype loop_exit = Leave | Return "(io_kind + unit) poll"

lemma poll_fill_size:
  "poll_fill_tls_stash s = (Ready (Inr n), s') \<Longrightarrow> 0 < n \<Longrightarrow> script_size (ft_in s') < script_size (ft_in s)"
  using inner_read_size [of 2048 "ft_in s"]
  by (auto simp: poll_fill_tls_stash_def split: prod.splits poll.splits sum.splits)

function stash_loop :: "fake_tls \<Rightarrow> loop_exit \<times> fake_tls" where
  "stash_loop s =
     (if length (ft_stash s) < 5 then (Leave, s)
      else let payload_len = be16 (ft_stash s ! 3) (ft_stash s ! 4); total = 5 + payload_len in
        if max_tls_payload + 2048 < payload_len then (Return (Ready (Inl InvalidData)), s)
        else if total \<le> length (ft_stash s) then
          let s1 = s\<lparr>ft_stash := drop total (ft_stash s)\<rparr> in
          if ft_stash s ! 0 = tls_application_data
          then (Leave, s1\<lparr>ft_read_buf := slice (ft_stash s) 5 payload_len\<rparr>)
          else stash_loop s1
        else
          (case poll_fill_tls_stash s of
             (Pending, s1) \<Rightarrow> (Return Pending, s1)
           | (Ready (Inl k), s1) \<Rightarrow> (Return (Ready (Inl k)), s1)
           | (Ready (Inr n), s1) \<Rightarrow>
               if n = 0 then (Return (Ready (Inr ())), s1)
               else let s2 = s1\<lparr>ft_stash := abandon_incomplete_handshake (ft_stash s1) (length (ft_stash s))\<rparr> in
                 if length (ft_stash s2) = length (ft_stash s) then (Return Pending, s2)
                 else stash_loop s2))"
  by pat_completeness auto
termination
proof (relation "measures [\<lambda>s. script_size (ft_in s), \<lambda>s. length (ft_stash s)]", goal_cases)
  case 1
  show ?case by simp
next
  case (2 s payload_len total s1)
  then show ?case by simp
next
  case (3 s payload_len total r s1 p n s2)
  then have "poll_fill_tls_stash s = (Ready (Inr n), s1)" "0 < n" by auto
  then have "script_size (ft_in s1) < script_size (ft_in s)" by (rule poll_fill_size)
  then show ?case using 3 by simp
qed

declare stash_loop.simps [simp del]

fun find_header :: "bytes \<Rightarrow> bytes option" where
  "find_header [] = None"
| "find_header (x # xs) =
     (if looks_like_tls_record_header (take 3 (x # xs)) then Some (x # xs) else find_header xs)"

definition resync :: "fake_tls \<Rightarrow> fake_tls" where
  "resync s =
     (if 5 \<le> length (ft_stash s) \<and> \<not> looks_like_tls_record_header (ft_stash s)
      then (case find_header (ft_stash s) of Some st \<Rightarrow> s\<lparr>ft_stash := st\<rparr> | None \<Rightarrow> s)
      else s)"

lemma find_header_length: "find_header xs = Some ys \<Longrightarrow> length ys \<le> length xs"
  by (induction xs) (auto split: if_splits)

lemma resync_size: "length (ft_stash (resync s)) \<le> length (ft_stash s) \<and> ft_in (resync s) = ft_in s"
  by (auto simp: resync_def dest: find_header_length split: option.splits)

text \<open>Leaving the inner loop never grows the state, and shrinks it when a record was taken.\<close>

lemma stash_loop_size:
  "stash_loop s = (Leave, s1) \<Longrightarrow>
   (s1, s) \<in> measures [\<lambda>s. script_size (ft_in s), \<lambda>s. length (ft_stash s)] \<or> s1 = s \<and> length (ft_stash s) < 5"
proof (induction s rule: stash_loop.induct)
  case (1 s)
  let ?m = "measures [\<lambda>s. script_size (ft_in s), \<lambda>s. length (ft_stash s)]"
  define pl where "pl = be16 (ft_stash s ! 3) (ft_stash s ! 4)"
  show ?case
  proof (cases "length (ft_stash s) < 5")
    case True
    with "1.prems" show ?thesis by (simp add: stash_loop.simps)
  next
    case long: False
    with "1.prems" have small: "\<not> max_tls_payload + 2048 < pl"
      by (auto simp: stash_loop.simps [of s] Let_def pl_def split: if_splits)
    show ?thesis
    proof (cases "5 + pl \<le> length (ft_stash s)")
      case full: True
      let ?s1 = "s\<lparr>ft_stash := drop (5 + pl) (ft_stash s)\<rparr>"
      have dec: "(?s1, s) \<in> ?m" using full by simp
      show ?thesis
      proof (cases "ft_stash s ! 0 = tls_application_data")
        case True
        with "1.prems" long small full dec show ?thesis
          by (auto simp: stash_loop.simps [of s] Let_def pl_def)
      next
        case False
        then have "stash_loop ?s1 = (Leave, s1)"
          using "1.prems" long small full by (simp add: stash_loop.simps [of s] Let_def pl_def)
        from "1.IH"(1) [OF long pl_def refl small full refl False this] dec
        show ?thesis by (auto simp: measures_def)
      qed
    next
      case part: False
      with "1.prems" long small obtain n s2 where f: "poll_fill_tls_stash s = (Ready (Inr n), s2)" "0 < n"
        by (auto simp: stash_loop.simps [of s] Let_def pl_def split: prod.splits poll.splits sum.splits if_splits)
      let ?s3 = "s2\<lparr>ft_stash := abandon_incomplete_handshake (ft_stash s2) (length (ft_stash s))\<rparr>"
      have dec: "script_size (ft_in s2) < script_size (ft_in s)" by (rule poll_fill_size [OF f])
      have ne: "length (ft_stash ?s3) \<noteq> length (ft_stash s)" and rec: "stash_loop ?s3 = (Leave, s1)"
        using "1.prems" long small part f
        by (auto simp: stash_loop.simps [of s] Let_def pl_def split: if_splits)
      have "n \<noteq> 0" using f(2) by simp
      from "1.IH"(2) [OF long pl_def refl small part f(1) [symmetric] refl refl this refl ne rec] dec
      show ?thesis by (auto simp: measures_def)
    qed
  qed
qed


lemma poll_read_fill_decreases:
  assumes "(Leave, s1) = stash_loop s" and "(Ready (Inr m), s2) = poll_fill_tls_stash s1" and "m \<noteq> 0"
  shows "(resync s2, s) \<in> measures [\<lambda>s. script_size (ft_in s), \<lambda>s. length (ft_stash s)]"
proof -
  have l: "stash_loop s = (Leave, s1)" and f: "poll_fill_tls_stash s1 = (Ready (Inr m), s2)" and "0 < m"
    using assms by simp_all
  have "script_size (ft_in s1) \<le> script_size (ft_in s)" using stash_loop_size [OF l] by (auto simp: measures_def)
  moreover have "script_size (ft_in s2) < script_size (ft_in s1)" using poll_fill_size [OF f \<open>0 < m\<close>] .
  ultimately show ?thesis using resync_size [of s2] by simp
qed

lemma poll_read_leave_decreases:
  assumes "(Leave, s1) = stash_loop s" and "\<not> length (ft_stash s1) < 5"
  shows "(resync s1, s) \<in> measures [\<lambda>s. script_size (ft_in s), \<lambda>s. length (ft_stash s)]"
  using stash_loop_size [OF assms(1) [symmetric]] assms(2) resync_size [of s1] by (auto simp: measures_def)

text \<open>\<^verbatim>\<open>poll_read\<close> with room for \<open>n\<close> bytes; no bytes in a successful answer is end of file.\<close>

function poll_read :: "nat \<Rightarrow> fake_tls \<Rightarrow> (io_kind + bytes) poll \<times> fake_tls" where
  "poll_read n s =
     (if ft_read_buf s \<noteq> [] then
        (Ready (Inr (take n (ft_read_buf s))), s\<lparr>ft_read_buf := drop n (ft_read_buf s)\<rparr>)
      else
        (case stash_loop s of
           (Return Pending, s1) \<Rightarrow> (Pending, s1)
         | (Return (Ready (Inl k)), s1) \<Rightarrow> (Ready (Inl k), s1)
         | (Return (Ready (Inr _)), s1) \<Rightarrow> (Ready (Inr []), s1)
         | (Leave, s1) \<Rightarrow>
             if ft_read_buf s1 \<noteq> [] then
               (Ready (Inr (take n (ft_read_buf s1))), s1\<lparr>ft_read_buf := drop n (ft_read_buf s1)\<rparr>)
             else if length (ft_stash s1) < 5 then
               (case poll_fill_tls_stash s1 of
                  (Pending, s2) \<Rightarrow> (Pending, s2)
                | (Ready (Inl k), s2) \<Rightarrow> (Ready (Inl k), s2)
                | (Ready (Inr m), s2) \<Rightarrow>
                    if m = 0 then (Ready (Inr []), s2) else poll_read n (resync s2))
             else poll_read n (resync s1)))"
  by pat_completeness auto
termination
proof (relation "inv_image (measures [\<lambda>s. script_size (ft_in s), \<lambda>s. length (ft_stash s)]) snd")
qed (auto simp only: in_inv_image snd_conv wf_inv_image wf_measures
      intro: poll_read_fill_decreases poll_read_leave_decreases)

declare poll_read.simps [simp del]

text \<open>A reader that polls with a sequence of buffer sizes; errors and \<^verbatim>\<open>Pending\<close> deliver nothing.\<close>

fun read_run :: "nat list \<Rightarrow> fake_tls \<Rightarrow> bytes \<times> fake_tls" where
  "read_run [] s = ([], s)"
| "read_run (n # ns) s =
     (case poll_read n s of (r, s1) \<Rightarrow>
        case read_run ns s1 of (out, s2) \<Rightarrow>
          ((case r of Ready (Inr bs) \<Rightarrow> bs | _ \<Rightarrow> []) @ out, s2))"

section \<open>Writing\<close>

text \<open>\<^verbatim>\<open>next_chunk_size\<close>\<close>

definition next_chunk_size :: "nat \<Rightarrow> fake_tls \<Rightarrow> nat \<times> fake_tls" where
  "next_chunk_size remaining s =
     (case ft_write_opts s of
        None \<Rightarrow> (min remaining max_tls_payload, s)
      | Some opts \<Rightarrow>
          if wo_record_sizes opts = [] then (min remaining max_tls_payload, s)
          else let sizes = wo_record_sizes opts;
                   size = max (sizes ! (ft_write_size_idx s mod length sizes)) 1
               in (min (min remaining size) max_tls_payload,
                   s\<lparr>ft_write_size_idx := ft_write_size_idx s + 1\<rparr>))"

text \<open>\<open>rng k\<close> is the \<open>k\<close>-th pair of draws: the number for the length and the filler.\<close>

type_synonym pad_rng = "nat \<Rightarrow> u32 \<times> (nat \<Rightarrow> bytes)"

definition maybe_pad_payload :: "pad_rng \<Rightarrow> bytes \<Rightarrow> fake_tls \<Rightarrow> bytes \<times> fake_tls" where
  "maybe_pad_payload rng payload s =
     (case ft_write_opts s of
        None \<Rightarrow> (payload, s)
      | Some opts \<Rightarrow>
          if \<not> wo_padding opts \<or> payload = [] then (payload, s)
          else let pad_budget = max_tls_payload - length payload in
            if pad_budget = 0 then (payload, s)
            else let pad_len = unat (fst (rng (ft_draws s))) mod min pad_budget 65 in
              (if 0 < pad_len then payload @ snd (rng (ft_draws s)) pad_len else payload,
               s\<lparr>ft_draws := ft_draws s + 1\<rparr>))"

text \<open>The inner loop: one record into the lower stream, or the point where it stopped.\<close>

datatype record_exit = Sent | Stalled nat | Failed io_kind

function send_record :: "bytes \<Rightarrow> nat \<Rightarrow> fake_tls \<Rightarrow> record_exit \<times> fake_tls" where
  "send_record rec written s =
     (if written < length rec then
        (case inner_write (drop written rec) (ft_out s) of
           (Ready (Inr n), bs, es) \<Rightarrow>
             if n = 0 then (Failed WriteZero, s\<lparr>ft_out := es, ft_sent := ft_sent s @ bs\<rparr>)
             else send_record rec (written + n) (s\<lparr>ft_out := es, ft_sent := ft_sent s @ bs\<rparr>)
         | (Ready (Inl k), bs, es) \<Rightarrow> (Failed k, s\<lparr>ft_out := es, ft_sent := ft_sent s @ bs\<rparr>)
         | (Pending, bs, es) \<Rightarrow> (Stalled written, s\<lparr>ft_out := es, ft_sent := ft_sent s @ bs\<rparr>))
      else (Sent, s))"
  by pat_completeness auto
termination
  by (relation "measure (\<lambda>(rec, written, s). length rec - written)") auto

declare send_record.simps [simp del]

lemma next_chunk_size_bounds:
  "0 < remaining \<Longrightarrow> next_chunk_size remaining s = (n, s') \<Longrightarrow> 0 < n \<and> n \<le> remaining \<and> n \<le> max_tls_payload"
  by (auto simp: next_chunk_size_def Let_def max_tls_payload_def split: option.splits if_splits)

lemma next_chunk_advances:
  assumes "offset < length buf" and "(sz, s1) = next_chunk_size (length buf - offset) s"
  shows "length buf - (offset + sz) < length buf - offset"
  using next_chunk_size_bounds [OF _ assms(2) [symmetric]] assms(1) by linarith

function poll_write_loop :: "pad_rng \<Rightarrow> bytes \<Rightarrow> nat \<Rightarrow> fake_tls \<Rightarrow> (io_kind + nat) poll \<times> fake_tls" where
  "poll_write_loop rng buf offset s =
     (if offset < length buf then
        let (size, s1) = next_chunk_size (length buf - offset) s;
            chunk_end = offset + size;
            chunk = slice buf offset size;
            (payload, s2) = maybe_pad_payload rng chunk s1;
            rec = write_tls_record [] tls_application_data payload
        in (case send_record rec 0 s2 of
              (Failed k, s3) \<Rightarrow> (Ready (Inl k), s3)
            | (Stalled written, s3) \<Rightarrow>
                if 0 < offset \<or> 0 < written then (Ready (Inr offset), s3) else (Pending, s3)
            | (Sent, s3) \<Rightarrow> poll_write_loop rng buf chunk_end s3)
      else (Ready (Inr (length buf)), s))"
  by pat_completeness auto
termination
proof (relation "measure (\<lambda>(rng, buf, offset, s). length buf - offset)")
qed (simp_all only: wf_measure in_measure prod.case next_chunk_advances)

declare poll_write_loop.simps [simp del]

definition poll_write :: "pad_rng \<Rightarrow> bytes \<Rightarrow> fake_tls \<Rightarrow> (io_kind + nat) poll \<times> fake_tls" where
  "poll_write rng buf s = poll_write_loop rng buf 0 s"


section \<open>What reading delivers\<close>

definition data_record :: "tls_record \<Rightarrow> bool" where
  "data_record r \<longleftrightarrow> rec_type r \<in> {ApplicationData, ChangeCipherSpec} \<and> rec_version r \<in> {(3, 1), (3, 3)}
     \<and> length (rec_payload r) \<le> max_tls_payload + 2048"

text \<open>The stream still holds the records \<open>rs\<close>; \<open>content\<close> is what its reader is still owed.\<close>

definition carries :: "fake_tls \<Rightarrow> tls_record list \<Rightarrow> bool" where
  "carries s rs \<longleftrightarrow> ft_stash s @ script_data (ft_in s) = concat (map record_bytes rs)
     \<and> list_all data_record rs \<and> RData [] \<notin> set (ft_in s)"

definition app_data :: "tls_record list \<Rightarrow> bytes" where
  "app_data rs = concat (map rec_payload (filter (\<lambda>r. rec_type r = ApplicationData) rs))"

definition content :: "fake_tls \<Rightarrow> tls_record list \<Rightarrow> bytes" where
  "content s rs = ft_read_buf s @ app_data rs"

lemma poll_fill_carries:
  assumes "carries s rs" and "poll_fill_tls_stash s = (r, s')"
  shows "carries s' rs" "ft_read_buf s' = ft_read_buf s" "\<forall>k. RErr k \<in> set (ft_in s') \<longrightarrow> RErr k \<in> set (ft_in s)"
    and "case r of Ready (Inr n) \<Rightarrow> length (ft_stash s') = length (ft_stash s) + n
            \<and> (n = 0 \<longrightarrow> ft_stash s = concat (map record_bytes rs))
         | Ready (Inl k) \<Rightarrow> RErr k \<in> set (ft_in s) \<and> ft_stash s' = ft_stash s
         | Pending \<Rightarrow> ft_stash s' = ft_stash s"
proof -
  obtain r0 es where i: "inner_read 2048 (ft_in s) = (r0, es)" by fastforce
  have nz: "RData [] \<notin> set (ft_in s)" using assms(1) by (simp add: carries_def)
  note sc = inner_read_script [OF i _ nz, simplified]
  have cases: "(\<exists>bs. r0 = Ready (Inr bs) \<and> r = Ready (Inr (length bs)) \<and> s' = s\<lparr>ft_in := es, ft_stash := ft_stash s @ bs\<rparr>)
      \<or> (\<exists>k. r0 = Ready (Inl k) \<and> r = Ready (Inl k) \<and> s' = s\<lparr>ft_in := es\<rparr>)
      \<or> (r0 = Pending \<and> r = Pending \<and> s' = s\<lparr>ft_in := es\<rparr>)"
    using assms(2) i by (auto simp: poll_fill_tls_stash_def split: poll.splits sum.splits)
  then show "carries s' rs" "ft_read_buf s' = ft_read_buf s" "\<forall>k. RErr k \<in> set (ft_in s') \<longrightarrow> RErr k \<in> set (ft_in s)"
    using assms(1) sc by (auto simp: carries_def)
  show "case r of Ready (Inr n) \<Rightarrow> length (ft_stash s') = length (ft_stash s) + n
            \<and> (n = 0 \<longrightarrow> ft_stash s = concat (map record_bytes rs))
         | Ready (Inl k) \<Rightarrow> RErr k \<in> set (ft_in s) \<and> ft_stash s' = ft_stash s
         | Pending \<Rightarrow> ft_stash s' = ft_stash s"
    using cases assms(1) sc(2) by (auto simp: carries_def)
qed

lemma carries_header:
  assumes "carries s rs" and "5 \<le> length (ft_stash s)"
  obtains r rs' where "rs = r # rs'" "data_record r" "list_all data_record rs'"
    "ft_stash s ! 0 = record_code (rec_type r)" "ft_stash s ! 1 = 3" "ft_stash s ! 2 \<in> {1, 3}"
    "be16 (ft_stash s ! 3) (ft_stash s ! 4) = length (rec_payload r)"
    "ft_stash s @ script_data (ft_in s) = record_bytes r @ concat (map record_bytes rs')"
proof -
  let ?D = "script_data (ft_in s)"
  obtain r rs' where rs: "rs = r # rs'"
    using assms by (cases rs) (auto simp: carries_def)
  have whole: "ft_stash s @ ?D = record_bytes r @ concat (map record_bytes rs')" and dr: "data_record r" "list_all data_record rs'"
    using assms(1) by (simp_all add: rs carries_def)
  obtain v1 v2 where v: "rec_version r = (v1, v2)" by fastforce
  have small: "length (rec_payload r) < 65536" using dr(1) by (simp add: data_record_def max_tls_payload_def)
  have hd: "record_bytes r @ q = [record_code (rec_type r), v1, v2, u8_of (length (rec_payload r) div 256),
      u8_of (length (rec_payload r))] @ rec_payload r @ q" for q
    by (simp add: record_bytes_def v u16_be_def)
  have nth: "ft_stash s ! i = (ft_stash s @ ?D) ! i" if "i < 5" for i
    using that assms(2) by (simp add: nth_append)
  have "v1 = 3" "v2 \<in> {1, 3}" using dr(1) v by (auto simp: data_record_def)
  then show thesis
    using rs dr whole small
    by (intro that [of r rs']) (simp_all add: nth whole hd be16_u8_of)
qed

lemma carries_drop:
  assumes "carries s (r # rs')" and "5 + length (rec_payload r) \<le> length (ft_stash s)"
  shows "carries (s\<lparr>ft_stash := drop (5 + length (rec_payload r)) (ft_stash s)\<rparr>) rs'"
    and "slice (ft_stash s) 5 (length (rec_payload r)) = rec_payload r"
proof -
  have whole: "ft_stash s @ script_data (ft_in s) = record_bytes r @ concat (map record_bytes rs')"
    using assms(1) by (simp add: carries_def)
  have len: "length (record_bytes r) \<le> length (ft_stash s)" using assms(2) by (simp add: length_record_bytes)
  then have st: "ft_stash s = record_bytes r @ drop (length (record_bytes r)) (ft_stash s)"
    using whole by (metis append_eq_append_conv_if append_take_drop_id)
  have "drop (length (record_bytes r)) (ft_stash s) @ script_data (ft_in s) = concat (map record_bytes rs')"
    using whole len by (metis drop_append append_eq_conv_conj diff_is_0_eq drop0)
  then show "carries (s\<lparr>ft_stash := drop (5 + length (rec_payload r)) (ft_stash s)\<rparr>) rs'"
    using assms(1) by (simp add: carries_def length_record_bytes)
  have "drop 5 (ft_stash s) = rec_payload r @ drop (length (record_bytes r)) (ft_stash s)"
    by (subst st) (simp add: record_bytes_def u16_be_def)
  then show "slice (ft_stash s) 5 (length (rec_payload r)) = rec_payload r" by (simp add: slice_def)
qed

lemma app_data_Cons: "app_data (r # rs) = (if rec_type r = ApplicationData then rec_payload r else []) @ app_data rs"
  by (simp add: app_data_def)

lemma code_app: "record_code t = tls_application_data \<longleftrightarrow> t = ApplicationData"
  by (cases t) (simp_all add: tls_application_data_def)

definition exit_ok :: "loop_exit \<Rightarrow> fake_tls \<Rightarrow> bool" where
  "exit_ok x s = (case x of Leave \<Rightarrow> True | Return Pending \<Rightarrow> True
     | Return (Ready (Inl k)) \<Rightarrow> RErr k \<in> set (ft_in s) | Return (Ready (Inr _)) \<Rightarrow> False)"

lemma exit_ok_cong: "ft_in a = ft_in b \<Longrightarrow> exit_ok x a = exit_ok x b"
  by (auto simp: exit_ok_def split: loop_exit.splits poll.splits sum.splits)

lemma stash_loop_carries:
  "carries s rs \<Longrightarrow> ft_read_buf s = [] \<Longrightarrow> stash_loop s = (x, s1) \<Longrightarrow>
   exit_ok x s \<and> (\<forall>k. RErr k \<in> set (ft_in s1) \<longrightarrow> RErr k \<in> set (ft_in s))
   \<and> (x \<noteq> Leave \<longrightarrow> ft_read_buf s1 = [])
   \<and> (\<exists>rs1. carries s1 rs1 \<and> content s1 rs1 = content s rs)"
proof (induction s arbitrary: rs rule: stash_loop.induct)
  case (1 s)
  show ?case
  proof (cases "length (ft_stash s) < 5")
    case True
    with "1.prems" show ?thesis by (auto simp: stash_loop.simps exit_ok_def)
  next
    case long: False
    then obtain r rs' where r: "rs = r # rs'" "data_record r"
        "ft_stash s ! 0 = record_code (rec_type r)"
        "be16 (ft_stash s ! 3) (ft_stash s ! 4) = length (rec_payload r)"
        "ft_stash s @ script_data (ft_in s) = record_bytes r @ concat (map record_bytes rs')"
      using carries_header [OF "1.prems"(1)] by (metis linorder_not_less)
    let ?pl = "length (rec_payload r)"
    have small: "\<not> max_tls_payload + 2048 < ?pl" using r(2) by (simp add: data_record_def)
    have hs: "ft_stash s ! 0 \<noteq> tls_handshake"
      using r(2,3) by (auto simp: data_record_def tls_handshake_def)
    have app: "ft_stash s ! 0 = tls_application_data \<longleftrightarrow> rec_type r = ApplicationData"
      by (simp add: r(3) code_app)
    note unf = stash_loop.simps [of s] Let_def r(4) app
    show ?thesis
    proof (cases "5 + ?pl \<le> length (ft_stash s)")
      case full: True
      let ?s1 = "s\<lparr>ft_stash := drop (5 + ?pl) (ft_stash s)\<rparr>"
      note dr = carries_drop [OF "1.prems"(1) [unfolded r(1)] full]
      show ?thesis
      proof (cases "rec_type r = ApplicationData")
        case True
        with "1.prems" long small full have "x = Leave" "s1 = ?s1\<lparr>ft_read_buf := rec_payload r\<rparr>"
          by (auto simp: unf dr(2))
        then show ?thesis
          using dr(1) True "1.prems"(2) by (auto simp: exit_ok_def content_def app_data_Cons r(1) carries_def)
      next
        case False
        then have rec: "stash_loop ?s1 = (x, s1)"
          using "1.prems" long small full by (simp add: unf)
        have "content ?s1 rs' = content s rs" using False by (simp add: content_def app_data_Cons r(1))
        moreover have "ft_stash s ! 0 \<noteq> tls_application_data" using False by (simp add: app)
        note "1.IH"(1) [OF long r(4) [symmetric] refl small full refl this dr(1) _ rec]
        moreover have "exit_ok x ?s1 = exit_ok x s" by (rule exit_ok_cong) simp
        ultimately show ?thesis using "1.prems"(2) by simp
      qed
    next
      case part: False
      obtain fr s2 where f: "poll_fill_tls_stash s = (fr, s2)" by fastforce
      note fc = poll_fill_carries [OF "1.prems"(1) f]
      have ct: "content s2 rs = content s rs" using fc(2) by (simp add: content_def)
      have notall: "ft_stash s \<noteq> concat (map record_bytes rs)"
        using part by (auto simp: r(1) length_record_bytes)
      consider "fr = Pending" | k where "fr = Ready (Inl k)" | n where "fr = Ready (Inr n)"
        by (cases fr) (auto, metis sum.exhaust)
      then show ?thesis
      proof cases
        case 1
        with "1.prems" long small part f have "x = Return Pending" "s1 = s2" by (auto simp: unf)
        then show ?thesis using fc(1,2,3) ct "1.prems"(2) by (auto simp: exit_ok_def)
      next
        case (2 k)
        with "1.prems" long small part f have "x = Return (Ready (Inl k))" "s1 = s2" by (auto simp: unf)
        then show ?thesis using fc ct 2 "1.prems"(2) by (auto simp: exit_ok_def)
      next
        case (3 n)
        have n: "n \<noteq> 0" using fc(4) notall 3 by auto
        have len: "length (ft_stash s2) = length (ft_stash s) + n" using fc(4) 3 by simp
        have "ft_stash s2 ! 0 = record_code (rec_type r)"
        proof -
          have "5 \<le> length (ft_stash s2)" using long len by simp
          from carries_header [OF fc(1) this] show ?thesis by (metis list.inject r(1))
        qed
        then have "ft_stash s2 ! 0 \<noteq> tls_handshake" using r(3) hs by simp
        then have ab: "abandon_incomplete_handshake (ft_stash s2) (length (ft_stash s)) = ft_stash s2"
          by (simp add: abandon_incomplete_handshake_def)
        have self: "s2\<lparr>ft_stash := ft_stash s2\<rparr> = s2" by simp
        have ne: "length (ft_stash (s2\<lparr>ft_stash := abandon_incomplete_handshake (ft_stash s2) (length (ft_stash s))\<rparr>))
            \<noteq> length (ft_stash s)" using n len by (simp add: ab)
        have rec: "stash_loop s2 = (x, s1)"
          using "1.prems"(3) long small part f 3 n len by (simp add: unf ab)
        have IH: "exit_ok x s2 \<and> (\<forall>k. RErr k \<in> set (ft_in s1) \<longrightarrow> RErr k \<in> set (ft_in s2))
            \<and> (x \<noteq> Leave \<longrightarrow> ft_read_buf s1 = []) \<and> (\<exists>rs1. carries s1 rs1 \<and> content s1 rs1 = content s2 rs)"
          using "1.IH"(2) [OF long r(4) [symmetric] refl small part f [symmetric] 3 refl n refl ne, of rs]
            fc(1,2) rec "1.prems"(2) by (simp add: ab)
        then show ?thesis
          using ct fc(3) by (auto simp: exit_ok_def split: loop_exit.splits poll.splits sum.splits)
      qed
    qed
  qed
qed

lemma be16_content_shape:
  assumes "carries s rs" and "5 \<le> length (ft_stash s)"
  shows "looks_like_tls_record_header (ft_stash s)"
proof -
  obtain r where "ft_stash s ! 0 = record_code (rec_type r)" "data_record r"
      "ft_stash s ! 1 = 3" "ft_stash s ! 2 \<in> {1, 3}"
    using carries_header [OF assms] by metis
  then show ?thesis
    using assms(2)
    by (auto simp: looks_like_tls_record_header_def data_record_def tls_application_data_def
        tls_change_cipher_spec_def)
qed

lemma resync_clean: "carries s rs \<Longrightarrow> resync s = s"
  using be16_content_shape by (auto simp: resync_def)

text \<open>One poll hands over the front of what is owed, and nothing is lost or invented.\<close>

definition read_ok :: "fake_tls \<Rightarrow> bytes \<Rightarrow> (io_kind + bytes) poll \<times> fake_tls \<Rightarrow> bool" where
  "read_ok s owed p = (case p of (r, s1) \<Rightarrow>
     (\<exists>rs1. carries s1 rs1
        \<and> owed = (case r of Ready (Inr out) \<Rightarrow> out | _ \<Rightarrow> []) @ content s1 rs1)
     \<and> (\<forall>k. RErr k \<in> set (ft_in s1) \<longrightarrow> RErr k \<in> set (ft_in s))
     \<and> (case r of Ready (Inr []) \<Rightarrow> owed = [] | Ready (Inl k) \<Rightarrow> RErr k \<in> set (ft_in s) | _ \<Rightarrow> True))"

lemma poll_read_ok:
  "carries s rs \<Longrightarrow> 0 < n \<Longrightarrow> read_ok s (content s rs) (poll_read n s)"
proof (induction n s arbitrary: rs rule: poll_read.induct)
  case (1 n s)
  note unf = poll_read.simps [of n s]
  show ?case
  proof (cases "ft_read_buf s = []")
    case False
    have "carries (s\<lparr>ft_read_buf := drop n (ft_read_buf s)\<rparr>) rs" using "1.prems"(1) by (simp add: carries_def)
    moreover have "content s rs = take n (ft_read_buf s) @ content (s\<lparr>ft_read_buf := drop n (ft_read_buf s)\<rparr>) rs"
      by (simp add: content_def)
    moreover have "take n (ft_read_buf s) \<noteq> []" using False "1.prems"(2) by simp
    ultimately show ?thesis using False by (auto simp: unf read_ok_def split: list.splits)
  next
    case empty: True
    obtain x s1 where l: "stash_loop s = (x, s1)" by fastforce
    obtain rs1 where ex: "exit_ok x s" "\<forall>k. RErr k \<in> set (ft_in s1) \<longrightarrow> RErr k \<in> set (ft_in s)"
        "x \<noteq> Leave \<longrightarrow> ft_read_buf s1 = []" "carries s1 rs1" "content s1 rs1 = content s rs"
      using stash_loop_carries [OF "1.prems"(1) empty l] by blast
    show ?thesis
    proof (cases x)
      case (Return q)
      then show ?thesis using ex l empty
        by (auto simp: unf read_ok_def exit_ok_def split: poll.splits sum.splits intro!: exI [of _ rs1])
    next
      case Leave
      show ?thesis
      proof (cases "ft_read_buf s1 = []")
        case False
        have "carries (s1\<lparr>ft_read_buf := drop n (ft_read_buf s1)\<rparr>) rs1" using ex(4) by (simp add: carries_def)
        moreover have "content s rs = take n (ft_read_buf s1) @ content (s1\<lparr>ft_read_buf := drop n (ft_read_buf s1)\<rparr>) rs1"
          unfolding ex(5) [symmetric] by (simp add: content_def flip: append_assoc)
        moreover have "take n (ft_read_buf s1) \<noteq> []" using False "1.prems"(2) by simp
        ultimately show ?thesis using ex(2) empty l Leave False
          by (auto simp: unf read_ok_def split: list.splits)
      next
        case none: True
        show ?thesis
        proof (cases "length (ft_stash s1) < 5")
          case False
          have "read_ok (resync s1) (content (resync s1) rs1) (poll_read n (resync s1))"
            using "1.IH"(2) [OF _ l [symmetric] Leave _ False, of rs1] empty none ex(4) "1.prems"(2)
            by (simp add: resync_clean [OF ex(4)])
          then show ?thesis using empty l Leave none False ex(2,5)
            by (auto simp: unf read_ok_def resync_clean [OF ex(4)] split: poll.splits sum.splits list.splits)
        next
          case short: True
          obtain fr s2 where f: "poll_fill_tls_stash s1 = (fr, s2)" by fastforce
          note fc = poll_fill_carries [OF ex(4) f]
          have ct: "content s2 rs1 = content s rs" using fc(2) ex(5) by (simp add: content_def)
          consider "fr = Pending" | k where "fr = Ready (Inl k)" | m where "fr = Ready (Inr m)"
            by (cases fr) (auto, metis sum.exhaust)
          then show ?thesis
          proof cases
            case 1
            with empty l Leave none short f have "poll_read n s = (Pending, s2)" by (simp add: unf)
            then show ?thesis using fc(1,3) ct ex(2) by (auto simp: read_ok_def)
          next
            case (2 k)
            with empty l Leave none short f have "poll_read n s = (Ready (Inl k), s2)" by (simp add: unf)
            then show ?thesis using fc ct ex(2) 2 by (auto simp: read_ok_def)
          next
            case (3 m)
            show ?thesis
            proof (cases "m = 0")
              case True
              with 3 empty l Leave none short f have p: "poll_read n s = (Ready (Inr []), s2)" by (simp add: unf)
              have "ft_stash s1 = concat (map record_bytes rs1)" using fc(4) 3 True by simp
              then have "rs1 = []" using short by (cases rs1) (auto simp: length_record_bytes)
              then have "content s rs = []" using ex(5) none by (simp add: content_def app_data_def)
              then show ?thesis using p fc(1,3) ct ex(2) by (auto simp: read_ok_def)
            next
              case False
              have "read_ok (resync s2) (content (resync s2) rs1) (poll_read n (resync s2))"
                using "1.IH"(1) [OF _ l [symmetric] Leave _ short f [symmetric] 3 refl False, of rs1]
                  empty none fc(1) "1.prems"(2) by (simp add: resync_clean [OF fc(1)])
              moreover have "poll_read n s = poll_read n s2"
                using 3 empty l Leave none short f False by (simp add: unf resync_clean [OF fc(1)])
              ultimately show ?thesis using ct fc(3) ex(2)
                by (auto simp: read_ok_def resync_clean [OF fc(1)] split: poll.splits sum.splits list.splits)
            qed
          qed
        qed
      qed
    qed
  qed
qed

lemma poll_read_carries:
  assumes "carries s rs" and "0 < n" and "poll_read n s = (r, s1)"
  obtains rs1 where "carries s1 rs1"
    "content s rs = (case r of Ready (Inr out) \<Rightarrow> out | _ \<Rightarrow> []) @ content s1 rs1"
    "r = Ready (Inr []) \<Longrightarrow> content s rs = []"
proof -
  have "read_ok s (content s rs) (r, s1)" using poll_read_ok [OF assms(1,2)] by (simp only: assms(3))
  then obtain rs1 where rs1: "carries s1 rs1"
      "content s rs = (case r of Ready (Inr out) \<Rightarrow> out | _ \<Rightarrow> []) @ content s1 rs1"
    and e: "case r of Ready (Inr []) \<Rightarrow> content s rs = [] | Ready (Inl k) \<Rightarrow> RErr k \<in> set (ft_in s) | _ \<Rightarrow> True"
    unfolding read_ok_def prod.case by blast
  show thesis by (rule that [OF rs1]) (use e in simp)
qed

lemma poll_read_length: "poll_read n s = (Ready (Inr bs), s1) \<Longrightarrow> length bs \<le> n"
proof (induction n s rule: poll_read.induct)
  case (1 n s)
  note unf = poll_read.simps [of n s]
  show ?case
  proof (cases "ft_read_buf s = []")
    case False
    with "1.prems" show ?thesis by (auto simp: unf)
  next
    case empty: True
    obtain x s2 where l: "stash_loop s = (x, s2)" by fastforce
    show ?thesis
    proof (cases x)
      case (Return q)
      with "1.prems" empty l show ?thesis by (auto simp: unf split: poll.splits sum.splits)
    next
      case Leave
      consider "ft_read_buf s2 \<noteq> []" | "ft_read_buf s2 = []" "length (ft_stash s2) < 5"
        | "ft_read_buf s2 = []" "\<not> length (ft_stash s2) < 5" by blast
      then show ?thesis
      proof cases
        case 1
        with "1.prems" empty l Leave show ?thesis by (auto simp: unf)
      next
        case 3
        with "1.prems" empty l Leave have "poll_read n (resync s2) = (Ready (Inr bs), s1)" by (simp add: unf)
        then show ?thesis using "1.IH"(2) [OF _ l [symmetric] Leave _ 3(2)] empty 3(1) by simp
      next
        case 2
        obtain fr s3 where f: "poll_fill_tls_stash s2 = (fr, s3)" by fastforce
        show ?thesis
        proof (cases "\<exists>m. fr = Ready (Inr m) \<and> m \<noteq> 0")
          case False
          with "1.prems" empty l Leave 2 f show ?thesis
            by (auto simp: unf split: poll.splits sum.splits if_splits)
        next
          case True
          then obtain m where m: "fr = Ready (Inr m)" "m \<noteq> 0" by blast
          with "1.prems" empty l Leave 2 f have "poll_read n (resync s3) = (Ready (Inr bs), s1)" by (simp add: unf)
          then show ?thesis using "1.IH"(1) [OF _ l [symmetric] Leave _ 2(2) f [symmetric] m(1) refl m(2)] empty 2(1)
            by simp
        qed
      qed
    qed
  qed
qed

text \<open>The fake TLS stream keeps the contract of a source.\<close>

definition owes_ft :: "fake_tls \<Rightarrow> bytes \<Rightarrow> bool" where
  "owes_ft s d \<longleftrightarrow> (\<exists>rs. carries s rs \<and> content s rs = d)"

interpretation ft_source: byte_source poll_read owes_ft
proof (unfold_locales, goal_cases)
  case (1 s d n r s1)
  obtain rs where rs: "carries s rs" "content s rs = d" using 1(1) by (auto simp: owes_ft_def)
  have pol: "(case r of Ready (Inr out) \<Rightarrow> out | _ \<Rightarrow> []) = polled r" by (cases r rule: polled.cases) auto
  have "length (polled r) \<le> n" using poll_read_length 1(3) by (cases r rule: polled.cases) auto
  then show ?case using poll_read_carries [OF rs(1) 1(2,3)] rs(2) pol
    by (metis owes_ft_def)
qed

interpretation prefixed_ft: byte_source "prefixed_poll_read poll_read" "owes_prefixed owes_ft"
  by unfold_locales (rule ft_source.prefixed_delivers)

lemma read_run_carries:
  "carries s rs \<Longrightarrow> list_all ((<) 0) ns \<Longrightarrow> read_run ns s = (out, s1) \<Longrightarrow>
   \<exists>rs1. carries s1 rs1 \<and> content s rs = out @ content s1 rs1"
proof (induction ns arbitrary: s rs out)
  case (Cons n ns)
  obtain r s2 where p: "poll_read n s = (r, s2)" by fastforce
  obtain out2 where q: "read_run ns s2 = (out2, s1)"
    and o: "out = (case r of Ready (Inr bs) \<Rightarrow> bs | _ \<Rightarrow> []) @ out2"
    using Cons.prems(3) p by (auto split: prod.splits)
  obtain rs2 where c: "carries s2 rs2" "content s rs = (case r of Ready (Inr bs) \<Rightarrow> bs | _ \<Rightarrow> []) @ content s2 rs2"
    using poll_read_carries [OF Cons.prems(1) _ p] Cons.prems(2) by auto
  show ?case using Cons.IH [OF c(1) _ q] Cons.prems(2) c(2) o by auto
qed auto

lemma fresh_carries:
  assumes "script_data inp = concat (map record_bytes rs)" and "list_all data_record rs" and "RData [] \<notin> set inp"
  shows "carries (fake_tls_new inp outp opts) rs" "content (fake_tls_new inp outp opts) rs = app_data rs"
  using assms by (simp_all add: carries_def content_def fake_tls_new_def)

lemma read_delivers:
  assumes "script_data inp = concat (map record_bytes rs)" and "list_all data_record rs"
    and "RData [] \<notin> set inp" and "list_all ((<) 0) ns"
    and "read_run ns (fake_tls_new inp outp opts) = (out, s1)"
  shows "(\<exists>rest. app_data rs = out @ rest)
    \<and> (\<forall>n. 0 < n \<longrightarrow> fst (poll_read n s1) = Ready (Inr []) \<longrightarrow> out = app_data rs)"
proof -
  obtain rs1 where c: "carries s1 rs1" "app_data rs = out @ content s1 rs1"
    using read_run_carries [OF fresh_carries(1) [OF assms(1-3)] assms(4,5)]
    by (auto simp: fresh_carries(2) [OF assms(1-3)])
  moreover have "content s1 rs1 = []" if "0 < n" "fst (poll_read n s1) = Ready (Inr [])" for n
  proof -
    have p: "poll_read n s1 = (Ready (Inr []), snd (poll_read n s1))" using that(2) by (metis prod.collapse)
    show ?thesis by (rule poll_read_carries [OF c(1) that(1) p]) simp
  qed
  ultimately show ?thesis by auto
qed

text \<open>
  Reading through \<^verbatim>\<open>FakeTlsStream\<close>: whatever the segmentation of the TCP stream below (data in
  pieces of any size, \<^verbatim>\<open>Pending\<close> and errors in between) and whatever the buffer sizes of the caller,
  the bytes delivered are always the front of the concatenated ApplicationData payloads, other record
  types are skipped, and once a poll answers end of file the whole of them has been delivered.
\<close>

theorem ft_read_delivers:
  assumes "script_data inp = concat (map record_bytes rs)" and "list_all data_record rs"
    and "RData [] \<notin> set inp" and "list_all ((<) 0) ns"
    and "read_run ns (fake_tls_new inp outp opts) = (out, s1)"
  shows "(\<exists>rest. app_data rs = out @ rest)
    \<and> (\<forall>n. 0 < n \<longrightarrow> fst (poll_read n s1) = Ready (Inr []) \<longrightarrow> out = app_data rs)"
  using assms by (rule read_delivers)

lemmas ft_read_eval = poll_read.simps stash_loop.simps fake_tls_new_def poll_fill_tls_stash_def
  tls_application_data_def tls_change_cipher_spec_def tls_handshake_def max_tls_payload_def be16_def
  abandon_incomplete_handshake_def resync_def looks_like_tls_record_header_def slice_def

lemma ft_read_delivers_witness:
  "(\<exists>rest. app_data
     [\<lparr>rec_type = ChangeCipherSpec, rec_version = (3, 3), rec_payload = [1]\<rparr>,
      \<lparr>rec_type = ApplicationData, rec_version = (3, 3), rec_payload = [7, 8, 9]\<rparr>] = [7, 8] @ rest)"
proof -
  let ?s = "fake_tls_new [RData [0x14, 3, 3, 0, 1, 1, 0x17, 3], RPending, RData [3, 0, 3, 7, 8, 9], REof] [] None"
  have run: "read_run [2, 2] ?s = ([7, 8], snd (read_run [2, 2] ?s))"
    by (simp add: ft_read_eval)
  have d: "script_data [RData [0x14, 3, 3, 0, 1, 1, 0x17, 3], RPending, RData [3, 0, 3, 7, 8, 9], REof]
      = concat (map record_bytes [\<lparr>rec_type = ChangeCipherSpec, rec_version = (3, 3), rec_payload = [1]\<rparr>,
      \<lparr>rec_type = ApplicationData, rec_version = (3, 3), rec_payload = [7, 8, 9]\<rparr>])"
    by code_simp
  have ok: "list_all data_record [\<lparr>rec_type = ChangeCipherSpec, rec_version = (3, 3), rec_payload = [1]\<rparr>,
      \<lparr>rec_type = ApplicationData, rec_version = (3, 3), rec_payload = [7, 8, 9]\<rparr>]"
    by (simp add: data_record_def max_tls_payload_def)
  have ne: "RData [] \<notin> set [RData [0x14, 3, 3, 0, 1, 1, 0x17, 3], RPending, RData [3, 0, 3, 7, 8, 9], REof]"
    by simp
  have pos: "list_all ((<) 0) [2, 2 :: nat]" by simp
  show ?thesis by (rule ft_read_delivers [OF d ok ne pos run, THEN conjunct1])
qed

section \<open>What writing sends\<close>

definition app_record :: "bytes \<Rightarrow> tls_record" where
  "app_record p = \<lparr>rec_type = ApplicationData, rec_version = (3, 3), rec_payload = p\<rparr>"

definition unpadded :: "fake_tls \<Rightarrow> bool" where
  "unpadded s = (case ft_write_opts s of None \<Rightarrow> True | Some opts \<Rightarrow> \<not> wo_padding opts)"

lemma app_record_bytes: "write_tls_record [] tls_application_data p = record_bytes (app_record p)"
  using write_tls_record_bytes [of "[]" ApplicationData p] by (simp add: app_record_def tls_application_data_def)

lemma inner_write_some: "inner_write xs es = (Ready (Inr n), bs, es') \<Longrightarrow> n \<le> length xs \<and> bs = take n xs"
  by (cases "(xs, es)" rule: inner_write.cases) auto

lemma send_record_sends:
  "send_record rec k s = (Sent, s1) \<Longrightarrow> k \<le> length rec \<Longrightarrow>
   ft_write_opts s1 = ft_write_opts s \<and> ft_sent s1 = ft_sent s @ drop k rec"
proof (induction rec k s rule: send_record.induct)
  case (1 rec k s)
  show ?case
  proof (cases "k < length rec")
    case False
    with "1.prems" show ?thesis by (auto simp: send_record.simps)
  next
    case True
    with "1.prems" obtain n bs es where w: "inner_write (drop k rec) (ft_out s) = (Ready (Inr n), bs, es)" "n \<noteq> 0"
      by (auto simp: send_record.simps [of rec k] split: prod.splits poll.splits sum.splits if_splits)
    let ?s = "s\<lparr>ft_out := es, ft_sent := ft_sent s @ bs\<rparr>"
    have b: "k + n \<le> length rec" "bs = take n (drop k rec)" using inner_write_some [OF w(1)] True by auto
    have rec: "send_record rec (k + n) ?s = (Sent, s1)"
      using "1.prems"(1) True w by (simp add: send_record.simps [of rec k])
    note IH = "1.IH" [OF True w(1) [symmetric] refl refl refl w(2) rec b(1)]
    have "take n (drop k rec) @ drop (k + n) rec = drop k rec" by (metis append_take_drop_id drop_drop add.commute)
    then show ?thesis using IH b(2) by simp
  qed
qed

lemma next_chunk_keeps:
  "next_chunk_size m s = (n, s1) \<Longrightarrow> ft_write_opts s1 = ft_write_opts s \<and> ft_sent s1 = ft_sent s"
  by (auto simp: next_chunk_size_def Let_def split: option.splits if_splits)

lemma unpadded_payload: "unpadded s \<Longrightarrow> maybe_pad_payload rng p s = (p, s)"
  by (auto simp: unpadded_def maybe_pad_payload_def split: option.splits)

lemma poll_write_loop_sends:
  "poll_write_loop rng buf k s = (Ready (Inr (length buf)), s1) \<Longrightarrow> unpadded s \<Longrightarrow> k \<le> length buf \<Longrightarrow>
   unpadded s1 \<and> (\<exists>ps. ft_sent s1 = ft_sent s @ concat (map (\<lambda>p. record_bytes (app_record p)) ps) \<and> concat ps = drop k buf
     \<and> list_all (\<lambda>p. p \<noteq> [] \<and> length p \<le> max_tls_payload) ps)"
proof (induction rng buf k s rule: poll_write_loop.induct)
  case (1 rng buf k s)
  show ?case
  proof (cases "k < length buf")
    case False
    with "1.prems" show ?thesis by (auto simp: poll_write_loop.simps intro!: exI [of _ "[]"])
  next
    case True
    obtain n s2 where c: "next_chunk_size (length buf - k) s = (n, s2)" by fastforce
    have u2: "unpadded s2" "ft_sent s2 = ft_sent s" using next_chunk_keeps [OF c] "1.prems"(2) by (simp_all add: unpadded_def)
    have bn: "0 < n" "k + n \<le> length buf" "n \<le> max_tls_payload"
      using next_chunk_size_bounds [OF _ c] True by auto
    let ?p = "slice buf k n"
    obtain x s3 where sr: "send_record (record_bytes (app_record ?p)) 0 s2 = (x, s3)" by fastforce
    have whole: "poll_write_loop rng buf k s = (case x of Failed e \<Rightarrow> (Ready (Inl e), s3)
        | Stalled w \<Rightarrow> if 0 < k \<or> 0 < w then (Ready (Inr k), s3) else (Pending, s3)
        | Sent \<Rightarrow> poll_write_loop rng buf (k + n) s3)"
      using True c by (simp add: poll_write_loop.simps [of rng buf k] unpadded_payload [OF u2(1)] app_record_bytes sr
          split: record_exit.splits)
    then have x: "x = Sent" using "1.prems"(1) True by (auto split: record_exit.splits if_splits)
    note sd = send_record_sends [OF sr [unfolded x], simplified]
    have u3: "unpadded s3" using sd u2(1) by (simp add: unpadded_def)
    have rest: "poll_write_loop rng buf (k + n) s3 = (Ready (Inr (length buf)), s1)"
      using whole "1.prems"(1) x by simp
    have sr': "send_record (write_tls_record [] tls_application_data ?p) 0 s2 = (Sent, s3)"
      using sr x by (simp add: app_record_bytes)
    obtain ps where ps: "unpadded s1" "ft_sent s1 = ft_sent s3 @ concat (map (\<lambda>p. record_bytes (app_record p)) ps)"
        "concat ps = drop (k + n) buf" "list_all (\<lambda>p. p \<noteq> [] \<and> length p \<le> max_tls_payload) ps"
      using "1.IH" [OF True refl c [symmetric] refl refl refl unpadded_payload [OF u2(1), symmetric] refl
          sr' [symmetric] refl rest u3 bn(2)] by blast
    have lp: "length ?p = n" using bn by (simp add: slice_def)
    have "?p @ drop (k + n) buf = drop k buf"
      unfolding slice_def by (metis append_take_drop_id drop_drop add.commute)
    then show ?thesis
      using ps sd u2(2) lp bn by (auto intro!: exI [of _ "?p # ps"])
  qed
qed

lemmas ft_write_eval = poll_write_def poll_write_loop.simps send_record.simps next_chunk_size_def
  maybe_pad_payload_def write_tls_record_def u16_be_def u8_of_def fake_tls_new_def max_tls_payload_def
  tls_application_data_def slice_def Let_def

text \<open>
  A complete write: when \<^verbatim>\<open>poll_write\<close> reports the whole buffer written and padding is off, the
  bytes put on the wire are ApplicationData records of version 3.3, none empty and none above 16384
  bytes, whose payloads are the buffer, whatever record sizes are configured and however the lower
  stream splits its writes.
\<close>

theorem ft_write_frames:
  assumes "poll_write rng buf s = (Ready (Inr (length buf)), s1)" and "unpadded s"
  shows "unpadded s1 \<and> (\<exists>ps. ft_sent s1 = ft_sent s @ concat (map (\<lambda>p. record_bytes (app_record p)) ps)
    \<and> concat ps = buf \<and> list_all (\<lambda>p. p \<noteq> [] \<and> length p \<le> max_tls_payload) ps)"
  using poll_write_loop_sends [of rng buf 0] assms by (simp add: poll_write_def)

lemma ft_write_frames_witness:
  "\<exists>ps. [0x17, 3, 3, 0, 2, 7, 8, 0x17, 3, 3, 0, 1, 9] = concat (map (\<lambda>p. record_bytes (app_record p)) ps)
     \<and> concat ps = [7, 8, 9]"
proof -
  let ?s = "fake_tls_new [] [WAccept 4, WAccept 9, WAccept 9] (Some \<lparr>wo_record_sizes = [2], wo_padding = False\<rparr>)"
  let ?w = "poll_write (\<lambda>_. (0, \<lambda>n. replicate n 0)) [7, 8, 9] ?s"
  have run: "?w = (Ready (Inr (length [7, 8, 9 :: u8])), snd ?w)" by (simp add: ft_write_eval)
  have s: "unpadded ?s" by code_simp
  have e: "ft_sent ?s = []" "ft_sent (snd ?w) = [0x17, 3, 3, 0, 2, 7, 8, 0x17, 3, 3, 0, 1, 9]"
    by (simp_all add: ft_write_eval)
  show ?thesis using ft_write_frames [OF run s] by (auto simp: e)
qed

text \<open>A sequence of complete writes, as \<^verbatim>\<open>write_all\<close> makes them.\<close>

fun write_run :: "pad_rng \<Rightarrow> bytes list \<Rightarrow> fake_tls \<Rightarrow> bool \<times> fake_tls" where
  "write_run rng [] s = (True, s)"
| "write_run rng (b # bs) s =
     (case poll_write rng b s of
        (Ready (Inr n), s1) \<Rightarrow> if n = length b then write_run rng bs s1 else (False, s1)
      | (_, s1) \<Rightarrow> (False, s1))"

lemma write_run_frames:
  "write_run rng bs s = (True, s1) \<Longrightarrow> unpadded s \<Longrightarrow>
   \<exists>ps. ft_sent s1 = ft_sent s @ concat (map (\<lambda>p. record_bytes (app_record p)) ps) \<and> concat ps = concat bs
     \<and> list_all (\<lambda>p. length p \<le> max_tls_payload) ps"
proof (induction bs arbitrary: s)
  case (Cons b bs)
  obtain s2 where w: "poll_write rng b s = (Ready (Inr (length b)), s2)" "write_run rng bs s2 = (True, s1)"
    using Cons.prems(1) by (auto split: prod.splits poll.splits sum.splits if_splits)
  obtain ps where ps: "unpadded s2" "ft_sent s2 = ft_sent s @ concat (map (\<lambda>p. record_bytes (app_record p)) ps)"
      "concat ps = b" "list_all (\<lambda>p. p \<noteq> [] \<and> length p \<le> max_tls_payload) ps"
    using poll_write_loop_sends [OF w(1) [unfolded poll_write_def] Cons.prems(2)] by auto
  obtain qs where qs: "ft_sent s1 = ft_sent s2 @ concat (map (\<lambda>p. record_bytes (app_record p)) qs)" "concat qs = concat bs"
      "list_all (\<lambda>p. length p \<le> max_tls_payload) qs"
    using Cons.IH [OF w(2) ps(1)] by auto
  have "list_all (\<lambda>p. length p \<le> max_tls_payload) ps" using ps(4) by (auto simp: list_all_iff)
  then show ?case using ps(2,3) qs by (intro exI [of _ "ps @ qs"]) simp
qed (auto intro: exI [of _ "[]"])

lemma app_records: "list_all (\<lambda>p. length p \<le> max_tls_payload) ps \<Longrightarrow>
   list_all data_record (map app_record ps) \<and> app_data (map app_record ps) = concat ps"
  by (induction ps) (auto simp: data_record_def app_record_def app_data_def)

text \<open>
  C25. Fake TLS end to end: what one side writes with complete unpadded writes, the other side reads
  back in order and unchanged, through any segmentation of the TCP stream between them; end of file
  comes only after the last byte written.
\<close>

theorem ft_link_roundtrip:
  assumes "write_run rng bufs (fake_tls_new inp1 outp1 opts) = (True, a)"
    and "unpadded (fake_tls_new inp1 outp1 opts)"
    and "script_data inp = ft_sent a" and "RData [] \<notin> set inp" and "list_all ((<) 0) ns"
    and "read_run ns (fake_tls_new inp outp2 opts2) = (out, b)"
  shows "(\<exists>rest. concat bufs = out @ rest)
    \<and> (\<forall>n. 0 < n \<longrightarrow> fst (poll_read n b) = Ready (Inr []) \<longrightarrow> out = concat bufs)"
proof -
  obtain ps where ps: "ft_sent a = concat (map (\<lambda>p. record_bytes (app_record p)) ps)" "concat ps = concat bufs"
      "list_all (\<lambda>p. length p \<le> max_tls_payload) ps"
    using write_run_frames [OF assms(1,2)] by (auto simp: fake_tls_new_def)
  note ar = app_records [OF ps(3)]
  have d: "script_data inp = concat (map record_bytes (map app_record ps))" using assms(3) ps(1) by (simp add: comp_def)
  show ?thesis
    using read_delivers [OF d conjunct1 [OF ar] assms(4-6)] ar ps(2) by simp
qed

lemma ft_link_roundtrip_witness:
  "\<exists>rest. concat [[7, 8], [9 :: u8]] = [7, 8] @ rest"
proof -
  let ?o = "Some \<lparr>wo_record_sizes = [2], wo_padding = False\<rparr>"
  let ?a = "fake_tls_new [] [WAccept 4, WAccept 9, WAccept 9] ?o"
  let ?w = "write_run (\<lambda>_. (0, \<lambda>n. replicate n 0)) [[7, 8], [9]] ?a"
  let ?inp = "[RData [0x17, 3], RPending, RData [3, 0, 2, 7, 8, 0x17, 3, 3, 0, 1, 9], REof]"
  let ?b = "fake_tls_new ?inp [] None"
  have w: "?w = (True, snd ?w)" by (simp add: ft_write_eval)
  have u: "unpadded ?a" by code_simp
  have d: "script_data ?inp = ft_sent (snd ?w)" by (simp add: ft_write_eval)
  have run: "read_run [2, 2] ?b = ([7, 8], snd (read_run [2, 2] ?b))" by (simp add: ft_read_eval)
  show ?thesis by (rule ft_link_roundtrip [OF w u d _ _ run, THEN conjunct1]) simp_all
qed

text \<open>
  A lower stream that stalls inside a record: \<^verbatim>\<open>poll_write\<close> reports only the complete records, although
  three bytes of the next record are already sent. The retry frames the remaining data anew, and the
  receiver decodes something else than what was written.
\<close>

definition stalling :: fake_tls where
  "stalling = fake_tls_new [] [WAccept 7, WAccept 3, WPending, WAccept 9] (Some \<lparr>wo_record_sizes = [2], wo_padding = False\<rparr>)"

definition stalled_wire :: "fake_tls \<Rightarrow> bytes" where
  "stalled_wire s = (let rng = \<lambda>_. (0, \<lambda>n. replicate n 0); r1 = poll_write rng [7, 8, 9, 10] s in
     case fst r1 of Ready (Inr n) \<Rightarrow> ft_sent (snd (poll_write rng (drop n [7, 8, 9, 10]) (snd r1))) | _ \<Rightarrow> [])"

lemma stalled_write_corrupts_stream:
  "fst (poll_write (\<lambda>_. (0, \<lambda>n. replicate n 0)) [7, 8, 9, 10] stalling) = Ready (Inr 2)"
  "stalled_wire stalling = [0x17, 3, 3, 0, 2, 7, 8, 0x17, 3, 3, 0x17, 3, 3, 0, 2, 9, 10]"
  "fst (read_run [9, 9] (fake_tls_new [RData (stalled_wire stalling), REof] [] None)) \<noteq> [7, 8, 9, 10]"
proof -
  show "fst (poll_write (\<lambda>_. (0, \<lambda>n. replicate n 0)) [7, 8, 9, 10] stalling) = Ready (Inr 2)"
    by (simp add: stalling_def ft_write_eval)
  show w: "stalled_wire stalling = [0x17, 3, 3, 0, 2, 7, 8, 0x17, 3, 3, 0x17, 3, 3, 0, 2, 9, 10]"
    by (simp add: stalled_wire_def stalling_def ft_write_eval)
  show "fst (read_run [9, 9] (fake_tls_new [RData (stalled_wire stalling), REof] [] None)) \<noteq> [7, 8, 9, 10]"
    by (simp add: w ft_read_eval)
qed

end
