(* ===== verification/Decoy_Tls.thy ===== *)
theory Decoy_Tls
  imports Fake_Tls
begin

text \<open>
  \<^verbatim>\<open>src/decoy_tls.rs\<close>: the answer to a ClientHello that is not ours, a plausible ServerHello
  followed by a \<^verbatim>\<open>handshake_failure\<close> alert, without any keyed material.
\<close>

definition decoy_session_id :: "bytes \<Rightarrow> bytes" where
  "decoy_session_id client_hello =
     (let session_id_len = (if 43 < length client_hello then unat (client_hello ! 43) else 0) in
      if 44 + session_id_len < length client_hello then slice client_hello 44 session_id_len else [])"

definition build_decoy_response :: "bytes \<Rightarrow> bytes \<Rightarrow> bytes" where
  "build_decoy_response server_random client_hello =
     (let session_id = decoy_session_id client_hello;
          extensions = [0x00, 0x2b, 0x00, 0x02, 0x03, 0x04];
          body = [0x03, 0x03] @ server_random @ [u8_of (length session_id)] @ session_id @ [0x13, 0x01]
            @ [0x00] @ u16_be (length extensions) @ extensions;
          server_hello = [0x02] @ u24_be (length body) @ body
      in write_tls_record (write_tls_record [] 0x16 server_hello) 0x15 [0x02, 0x28])"

definition serve_decoy ::
    "('w \<Rightarrow> bytes \<Rightarrow> (io_kind + unit) \<times> 'w) \<Rightarrow> ('w \<Rightarrow> (io_kind + unit) \<times> 'w) \<Rightarrow> bytes \<Rightarrow> bytes \<Rightarrow> 'w
     \<Rightarrow> unit result \<times> 'w" where
  "serve_decoy wr flush server_random initial_data w =
     (if \<not> looks_like_tls_client_hello initial_data then (Inr (), w)
      else (case wr w (build_decoy_response server_random initial_data) of
              (Inl _, w1) \<Rightarrow> (Inl (Proxy ''decoy TLS write''), w1)
            | (Inr _, w1) \<Rightarrow>
                (case flush w1 of
                   (Inl _, w2) \<Rightarrow> (Inl (Proxy ''decoy TLS flush''), w2)
                 | (Inr _, w2) \<Rightarrow> (Inr (), w2))))"

lemma length_decoy_session_id: "length (decoy_session_id d) < 256"
  by (auto simp: decoy_session_id_def slice_def Let_def)

lemma decoy_session_id_hello:
  assumes "hello_wf h" and "length (hello_message h) < 65536"
  shows "decoy_session_id (record_bytes \<lparr>rec_type = Handshake, rec_version = v, rec_payload = hello_message h\<rparr>)
    = ch_session_id h"
proof -
  note wf = assms(1) [unfolded hello_wf_def]
  define post where "post = u16_be (length (ch_ciphers h)) @ ch_ciphers h
     @ [u8_of (length (ch_compression h))] @ ch_compression h @ u16_be (length (ch_extensions h)) @ ch_extensions h"
  let ?body = "hello_front h @ u16_be (length (ch_extensions h)) @ ch_extensions h"
  let ?pre = "[22, fst v, snd v] @ u16_be (length (hello_message h)) @ [1] @ u24_be (length ?body)
     @ [fst (ch_version h), snd (ch_version h)] @ ch_random h"
  let ?d = "record_bytes \<lparr>rec_type = Handshake, rec_version = v, rec_payload = hello_message h\<rparr>"
  have d: "?d = ?pre @ u8_of (length (ch_session_id h)) # ch_session_id h @ post"
    by (simp add: record_bytes_def hello_message_def Let_def hello_front_def post_def)
  have pre: "length ?pre = 43" using wf by simp
  have n43: "unat (?d ! 43) = length (ch_session_id h)"
    using wf pre unfolding d by (metis mod_less nth_append_length unat_u8_of)
  have dr: "drop 44 ?d = ch_session_id h @ post"
    using pre unfolding d by simp
  have "length ?d = 44 + length (ch_session_id h) + length post" using pre unfolding d by simp
  moreover have "0 < length post" by (simp add: post_def)
  ultimately show ?thesis using dr n43 by (simp add: decoy_session_id_def slice_def)
qed

text \<open>
  The decoy answer is a well-formed TLS flight of exactly a Handshake and an Alert record
  (level fatal, \<^verbatim>\<open>handshake_failure\<close>), shorter than 512 bytes whatever the probe sent, and it
  echoes the session id of every well-formed ClientHello.
\<close>

theorem decoy_wellformed:
  assumes "length server_random = 32"
  shows "\<exists>sh. decode_stream record_dec 2 (build_decoy_response server_random d) = Some
        ([\<lparr>rec_type = Handshake, rec_version = (3, 3), rec_payload = sh\<rparr>,
          \<lparr>rec_type = Alert, rec_version = (3, 3), rec_payload = [2, 40]\<rparr>], [])
      \<and> length (build_decoy_response server_random d) < 512
      \<and> slice sh 39 (length (decoy_session_id d)) = decoy_session_id d
      \<and> (\<not> (hello_wf h \<and> length (hello_message h) < 65536
             \<and> d = record_bytes \<lparr>rec_type = Handshake, rec_version = v, rec_payload = hello_message h\<rparr>)
         \<or> decoy_session_id d = ch_session_id h)"
proof -
  let ?sid = "decoy_session_id d"
  define ext :: bytes where "ext = [0x00, 0x2b, 0x00, 0x02, 0x03, 0x04]"
  define post where "post = ?sid @ [0x13, 0x01] @ [0x00] @ u16_be (length ext) @ ext"
  define body where "body = [0x03, 0x03] @ server_random @ [u8_of (length ?sid)] @ post"
  define sh where "sh = [0x02] @ u24_be (length body) @ body"
  have lpost: "length post < 267" using length_decoy_session_id [of d] by (simp add: post_def ext_def)
  have lsh: "length sh < 306" using lpost assms by (simp add: sh_def body_def)
  let ?rs = "[\<lparr>rec_type = Handshake, rec_version = (3, 3), rec_payload = sh\<rparr>,
      \<lparr>rec_type = Alert, rec_version = (3, 3), rec_payload = [2, 40]\<rparr>]"
  have out: "build_decoy_response server_random d = concat (map record_bytes ?rs)"
  proof -
    have "build_decoy_response server_random d = write_tls_record (write_tls_record [] 0x16 sh) 0x15 [0x02, 0x28]"
      unfolding build_decoy_response_def Let_def sh_def body_def post_def ext_def by (rule refl)
    then show ?thesis
      using write_tls_record_bytes [of _ Handshake] write_tls_record_bytes [of _ Alert] by simp
  qed
  have dec: "decode_stream record_dec 2 (build_decoy_response server_random d) = Some (?rs, [])"
    using tls_records.decode_concat [of ?rs "[]"] lsh unfolding out
    by (simp add: numeral_2_eq_2 del: decode_stream.simps)
  have "length (build_decoy_response server_random d) < 512"
    using lsh unfolding out by (simp add: length_record_bytes)
  moreover have "slice sh 39 (length ?sid) = ?sid"
  proof -
    have "sh = ([2] @ u24_be (length body) @ [3, 3] @ server_random @ [u8_of (length ?sid)]) @ post"
      by (simp add: sh_def body_def)
    moreover have "length ([2] @ u24_be (length body) @ [3, 3] @ server_random @ [u8_of (length ?sid)]) = 39"
      using assms by simp
    ultimately have "drop 39 sh = post" by (metis append_eq_conv_conj)
    then show ?thesis by (simp add: slice_def post_def)
  qed
  ultimately show ?thesis using dec decoy_session_id_hello [of h v] by blast
qed

theorem decoy_wellformed_witness:
  "length (build_decoy_response (replicate 32 7) [22, 3, 1]) < 512"
  using decoy_wellformed [of "replicate 32 7" "[22, 3, 1]"] by auto

end
