(* ===== verification/Obfuscated2.thy ===== *)
theory Obfuscated2
  imports Io_Streams
begin

text \<open>
  The obfuscated2 transport of \<^verbatim>\<open>src/mtproto_obfuscate.rs\<close>: the 64-byte handshake of a client, the
  relay handshake to a data centre, and \<^verbatim>\<open>ObfuscatedStream\<close>. SHA-256 is a parameter \<open>sha\<close>, and AES-256
  in counter mode is a parameter \<open>ks\<close>: the keystream byte at a position for a key and an IV.
\<close>

section \<open>Counter mode\<close>

type_synonym keystream = "bytes \<Rightarrow> bytes \<Rightarrow> nat \<Rightarrow> u8"
type_synonym hash_fun = "bytes \<Rightarrow> bytes"

text \<open>\<^verbatim>\<open>AesCtr256\<close>: the key, the IV and how much of the keystream is used.\<close>

record cipher =
  ci_key :: bytes
  ci_iv :: bytes
  ci_pos :: nat

definition make_cipher :: "bytes \<Rightarrow> bytes \<Rightarrow> cipher" where
  "make_cipher key iv = \<lparr>ci_key = key, ci_iv = iv, ci_pos = 0\<rparr>"

definition advance :: "nat \<Rightarrow> cipher \<Rightarrow> cipher" where
  "advance n c = c\<lparr>ci_pos := ci_pos c + n\<rparr>"

definition key_bytes :: "keystream \<Rightarrow> cipher \<Rightarrow> nat \<Rightarrow> bytes" where
  "key_bytes ks c n = map (\<lambda>i. ks (ci_key c) (ci_iv c) (ci_pos c + i)) [0..<n]"

definition crypt :: "keystream \<Rightarrow> cipher \<Rightarrow> bytes \<Rightarrow> bytes" where
  "crypt ks c data = xor_bytes data (key_bytes ks c (length data))"

definition apply_keystream :: "keystream \<Rightarrow> cipher \<Rightarrow> bytes \<Rightarrow> bytes \<times> cipher" where
  "apply_keystream ks c data = (crypt ks c data, advance (length data) c)"

section \<open>The client handshake\<close>

definition handshake_len :: nat where "handshake_len = 64"
definition skip_len :: nat where "skip_len = 8"
definition prekey_len :: nat where "prekey_len = 32"
definition iv_len :: nat where "iv_len = 16"
definition proto_tag_pos :: nat where "proto_tag_pos = 56"
definition dc_idx_pos :: nat where "dc_idx_pos = 60"

definition proto_tag_abridged :: bytes where "proto_tag_abridged = [0xef, 0xef, 0xef, 0xef]"
definition proto_tag_intermediate :: bytes where "proto_tag_intermediate = [0xee, 0xee, 0xee, 0xee]"
definition proto_tag_secure :: bytes where "proto_tag_secure = [0xdd, 0xdd, 0xdd, 0xdd]"

lemmas ob_consts = handshake_len_def skip_len_def prekey_len_def iv_len_def proto_tag_pos_def dc_idx_pos_def

text \<open>An \<^verbatim>\<open>i16\<close> is a 16-bit word read with \<^const>\<open>sint\<close>.\<close>

definition i16_from_le :: "u8 \<Rightarrow> u8 \<Rightarrow> u16" where
  "i16_from_le a b = word_of_nat (unat a + 256 * unat b)"

definition i16_to_le :: "u16 \<Rightarrow> bytes" where
  "i16_to_le w = [u8_of (unat w), u8_of (unat w div 256)]"

definition unsigned_abs :: "u16 \<Rightarrow> u16" where
  "unsigned_abs w = (if sint w < 0 then - w else w)"

record handshake_info =
  hi_dc_id :: u16
  hi_is_media :: bool
  hi_proto_tag :: bytes

definition is_valid_proto_tag :: "bytes \<Rightarrow> bool" where
  "is_valid_proto_tag tag \<longleftrightarrow> tag = proto_tag_abridged \<or> tag = proto_tag_intermediate \<or> tag = proto_tag_secure"

definition derive_key_with_secret :: "hash_fun \<Rightarrow> bytes \<Rightarrow> bytes \<Rightarrow> bytes" where
  "derive_key_with_secret sha prekey secret = sha (prekey @ secret)"

definition parse_handshake :: "hash_fun \<Rightarrow> keystream \<Rightarrow> bytes \<Rightarrow> bytes \<Rightarrow> handshake_info option" where
  "parse_handshake sha ks handshake secret =
     (if length secret \<noteq> 16 then None
      else let prekey = slice handshake skip_len prekey_len;
               iv = slice handshake (skip_len + prekey_len) iv_len;
               key = sha (prekey @ secret);
               buf = fst (apply_keystream ks (make_cipher key iv) handshake)
           in if \<not> is_valid_proto_tag (slice buf proto_tag_pos 4) then None
              else let dc_idx = i16_from_le (buf ! dc_idx_pos) (buf ! (dc_idx_pos + 1))
                   in Some \<lparr>hi_dc_id = unsigned_abs dc_idx, hi_is_media = (sint dc_idx < 0),
                            hi_proto_tag = slice buf proto_tag_pos 4\<rparr>)"

definition matches_obfuscated2 :: "hash_fun \<Rightarrow> keystream \<Rightarrow> bytes \<Rightarrow> bytes \<Rightarrow> bool" where
  "matches_obfuscated2 sha ks data secret =
     (if length data < handshake_len \<or> length secret \<noteq> 16 then False
      else parse_handshake sha ks (take handshake_len data) secret \<noteq> None)"

definition handshake_dc_index :: "hash_fun \<Rightarrow> keystream \<Rightarrow> bytes \<Rightarrow> bytes \<Rightarrow> u16 option" where
  "handshake_dc_index sha ks handshake secret =
     (if length secret \<noteq> 16 then None
      else let prekey = slice handshake skip_len prekey_len;
               iv = slice handshake (skip_len + prekey_len) iv_len;
               key = sha (prekey @ secret);
               buf = fst (apply_keystream ks (make_cipher key iv) handshake)
           in if \<not> is_valid_proto_tag (slice buf proto_tag_pos 4) then None
              else Some (i16_from_le (buf ! dc_idx_pos) (buf ! (dc_idx_pos + 1))))"

definition handshake_proto_tag :: "hash_fun \<Rightarrow> keystream \<Rightarrow> bytes \<Rightarrow> bytes \<Rightarrow> bytes option" where
  "handshake_proto_tag sha ks handshake secret = map_option hi_proto_tag (parse_handshake sha ks handshake secret)"

section \<open>The stream\<close>

record 's obf_stream =
  ob_inner :: 's
  ob_enc :: cipher
  ob_dec :: cipher
  ob_pending :: bytes

record 's accepted =
  ac_stream :: "'s obf_stream"
  ac_dc_id :: u16
  ac_proto_tag :: bytes

text \<open>\<open>poll\<close> and \<open>fuel\<close> are the reader below and the number of polls the task is given.\<close>

definition accept_handshake ::
  "hash_fun \<Rightarrow> keystream \<Rightarrow> nat \<Rightarrow> 's poll_read_fun \<Rightarrow> 's \<Rightarrow> bytes \<Rightarrow> 's accepted result option" where
  "accept_handshake sha ks fuel poll reader secret =
     (case read_exact fuel poll handshake_len reader of
        (None, _) \<Rightarrow> None
      | (Some (Inl k), _) \<Rightarrow> Some (Inl (Proxy ''obfuscated2 header''))
      | (Some (Inr header), reader1) \<Rightarrow>
          (case parse_handshake sha ks header secret of
             None \<Rightarrow> Some (Inl (Proxy ''invalid obfuscated2 handshake from the client''))
           | Some info \<Rightarrow>
               let reversed = map (\<lambda>i. header ! (handshake_len - 1 - i)) [0..<handshake_len];
                   dec_key = derive_key_with_secret sha (slice header skip_len prekey_len) secret;
                   dec_iv = slice header (skip_len + prekey_len) iv_len;
                   (sink, dec) = apply_keystream ks (make_cipher dec_key dec_iv) header;
                   dc_idx = i16_from_le (sink ! dc_idx_pos) (sink ! (dc_idx_pos + 1));
                   proto_tag = slice sink proto_tag_pos 4;
                   enc_key = derive_key_with_secret sha (slice reversed skip_len prekey_len) secret;
                   enc_iv = slice reversed (skip_len + prekey_len) iv_len;
                   enc = make_cipher enc_key enc_iv
               in Some (Inr \<lparr>ac_stream = \<lparr>ob_inner = reader1, ob_enc = enc, ob_dec = dec, ob_pending = []\<rparr>,
                             ac_dc_id = dc_idx, ac_proto_tag = proto_tag\<rparr>)))"

definition obf_poll_read :: "keystream \<Rightarrow> 's poll_read_fun \<Rightarrow> 's obf_stream poll_read_fun" where
  "obf_poll_read ks poll n s =
     (case poll n (ob_inner s) of
        (Ready (Inr bs), i) \<Rightarrow>
          (case (if bs = [] then (bs, ob_dec s) else apply_keystream ks (ob_dec s) bs) of
             (out, dec) \<Rightarrow> (Ready (Inr out), s\<lparr>ob_inner := i, ob_dec := dec\<rparr>))
      | (other, i) \<Rightarrow> (other, s\<lparr>ob_inner := i\<rparr>))"

text \<open>The first half of \<^verbatim>\<open>poll_write\<close>: one try to send what is left over; \<^term>\<open>None\<close> goes on.\<close>

definition drain_pending :: "'s poll_write_fun \<Rightarrow> 's obf_stream \<Rightarrow> (io_kind + nat) poll option \<times> 's obf_stream" where
  "drain_pending wr s =
     (if ob_pending s = [] then (None, s)
      else (case wr (ob_pending s) (ob_inner s) of
          (Ready (Inr n), i) \<Rightarrow>
            if n = 0 then (Some (Ready (Inl WriteZero)), s\<lparr>ob_inner := i\<rparr>)
            else if n < length (ob_pending s)
              then (Some Pending, s\<lparr>ob_inner := i, ob_pending := drop n (ob_pending s)\<rparr>)
            else (None, s\<lparr>ob_inner := i, ob_pending := []\<rparr>)
        | (Ready (Inl k), i) \<Rightarrow> (Some (Ready (Inl k)), s\<lparr>ob_inner := i\<rparr>)
        | (Pending, i) \<Rightarrow> (Some Pending, s\<lparr>ob_inner := i\<rparr>)))"

definition obf_poll_write :: "keystream \<Rightarrow> 's poll_write_fun \<Rightarrow> 's obf_stream poll_write_fun" where
  "obf_poll_write ks wr buf s =
     (case drain_pending wr s of
        (Some r, s1) \<Rightarrow> (r, s1)
      | (None, s1) \<Rightarrow>
          if buf = [] then (Ready (Inr 0), s1)
          else (case apply_keystream ks (ob_enc s1) buf of (out, enc) \<Rightarrow>
            (case wr out (ob_inner s1) of
               (Ready (Inr n), i) \<Rightarrow>
                 if n = 0 then (Ready (Inl WriteZero), s1\<lparr>ob_inner := i, ob_enc := enc\<rparr>)
                 else if n < length out
                   then (Ready (Inr (length buf)), s1\<lparr>ob_inner := i, ob_enc := enc, ob_pending := drop n out\<rparr>)
                 else (Ready (Inr (length buf)), s1\<lparr>ob_inner := i, ob_enc := enc\<rparr>)
             | (Ready (Inl k), i) \<Rightarrow> (Ready (Inl k), s1\<lparr>ob_inner := i, ob_enc := enc\<rparr>)
             | (Pending, i) \<Rightarrow> (Pending, s1\<lparr>ob_inner := i, ob_enc := enc, ob_pending := out\<rparr>))))"

definition obf_poll_flush :: "keystream \<Rightarrow> 's poll_write_fun \<Rightarrow> ('s \<Rightarrow> (io_kind + unit) poll \<times> 's) \<Rightarrow>
    's obf_stream \<Rightarrow> (io_kind + unit) poll \<times> 's obf_stream" where
  "obf_poll_flush ks wr flush s =
     (let inner_flush = (\<lambda>t. case flush (ob_inner t) of (r, i) \<Rightarrow> (r, t\<lparr>ob_inner := i\<rparr>)) in
      if ob_pending s \<noteq> [] then
        (case obf_poll_write ks wr [] s of
           (Ready (Inr _), s1) \<Rightarrow> inner_flush s1
         | (Ready (Inl k), s1) \<Rightarrow> (Ready (Inl k), s1)
         | (Pending, s1) \<Rightarrow> (Pending, s1))
      else inner_flush s)"

section \<open>The relay handshake\<close>

definition reserved_first_bytes :: "u8 list" where "reserved_first_bytes = [0xef]"

definition reserved_starts :: "bytes list" where
  "reserved_starts = [[0x48, 0x45, 0x41, 0x44], [0x50, 0x4f, 0x53, 0x54], [0x47, 0x45, 0x54, 0x20],
     [0xee, 0xee, 0xee, 0xee], [0xdd, 0xdd, 0xdd, 0xdd], [0x16, 0x03, 0x01, 0x02]]"

definition reserved_continue :: bytes where "reserved_continue = [0x00, 0x00, 0x00, 0x00]"

text \<open>The loop draws until a draw passes; over a list of draws it may still be drawing.\<close>

fun draw_nonce :: "bytes list \<Rightarrow> bytes option" where
  "draw_nonce [] = None"
| "draw_nonce (raw # draws) =
     (if raw ! 0 \<in> set reserved_first_bytes then draw_nonce draws
      else if take 4 raw \<in> set reserved_starts then draw_nonce draws
      else if slice raw 4 4 = reserved_continue then draw_nonce draws
      else Some raw)"

record relay_keys =
  rk_enc :: cipher
  rk_dec :: cipher

definition generate_relay_init ::
  "keystream \<Rightarrow> bytes list \<Rightarrow> u16 \<Rightarrow> bytes \<Rightarrow> (bytes \<times> relay_keys) result option" where
  "generate_relay_init ks draws dc_id proto_tag =
     (if \<not> is_valid_proto_tag proto_tag then Some (Inl (Proxy ''invalid proto tag for relay init''))
      else (case draw_nonce draws of
          None \<Rightarrow> None
        | Some raw \<Rightarrow>
            let enc_key = slice raw skip_len prekey_len;
                enc_iv = slice raw (skip_len + prekey_len) iv_len;
                reversed = map (\<lambda>i. raw ! (handshake_len - 1 - i)) [0..<handshake_len];
                dec_key = slice reversed skip_len prekey_len;
                dec_iv = slice reversed (skip_len + prekey_len) iv_len;
                plaintext = splice (splice raw proto_tag_pos proto_tag) dc_idx_pos (i16_to_le dc_id);
                (encrypted, enc) = apply_keystream ks (make_cipher enc_key enc_iv) plaintext;
                header = splice raw proto_tag_pos (drop proto_tag_pos encrypted)
            in Some (Inr (header, \<lparr>rk_enc = enc, rk_dec = make_cipher dec_key dec_iv\<rparr>))))"

definition from_relay_keys :: "'s \<Rightarrow> relay_keys \<Rightarrow> 's obf_stream" where
  "from_relay_keys inner keys = \<lparr>ob_inner = inner, ob_enc = rk_enc keys, ob_dec = rk_dec keys, ob_pending = []\<rparr>"

definition dc_id_from_backend :: "string \<Rightarrow> u16" where
  "dc_id_from_backend backend =
     (let host = takeWhile (\<lambda>c. c \<noteq> CHR '':'') backend in
      if host = ''149.154.175.50'' then 4
      else if host = ''149.154.167.51'' then 3
      else if host = ''149.154.175.100'' then 1
      else if host = ''149.154.167.99'' \<or> host = ''149.154.167.40'' then 2
      else if host = ''91.108.56.100'' then 5
      else 2)"

definition generate_test_handshake :: "hash_fun \<Rightarrow> keystream \<Rightarrow> bytes list \<Rightarrow> bytes \<Rightarrow> u16 \<Rightarrow> bytes \<Rightarrow> bytes option" where
  "generate_test_handshake sha ks draws secret dc_idx proto_tag =
     map_option (\<lambda>raw.
       let key = derive_key_with_secret sha (slice raw skip_len prekey_len) secret;
           iv = slice raw (skip_len + prekey_len) iv_len;
           stream = fst (apply_keystream ks (make_cipher key iv) (replicate handshake_len 0));
           h1 = splice raw proto_tag_pos (xor_bytes proto_tag (slice stream proto_tag_pos 4))
       in splice h1 dc_idx_pos (xor_bytes (i16_to_le dc_idx) (slice stream dc_idx_pos 2))) (draw_nonce draws)"

section \<open>Laws of counter mode\<close>

lemma length_key_bytes [simp]: "length (key_bytes ks c n) = n"
  by (simp add: key_bytes_def)

lemma length_crypt [simp]: "length (crypt ks c d) = length d"
  by (simp add: crypt_def)

lemma crypt_Nil [simp]: "crypt ks c [] = []"
  by (simp add: crypt_def xor_bytes_def)

lemma advance_simps [simp]:
  "advance 0 c = c" "advance m (advance n c) = advance (n + m) c"
  "ci_key (advance n c) = ci_key c" "ci_iv (advance n c) = ci_iv c" "ci_pos (advance n c) = ci_pos c + n"
  by (simp_all add: advance_def)

lemma key_bytes_add: "key_bytes ks c (m + n) = key_bytes ks c m @ key_bytes ks (advance m c) n"
  by (rule nth_equalityI) (auto simp: key_bytes_def nth_append)

lemma crypt_append: "crypt ks c (a @ b) = crypt ks c a @ crypt ks (advance (length a) c) b"
  by (simp add: crypt_def key_bytes_add xor_bytes_append)

lemma crypt_crypt [simp]: "crypt ks c (crypt ks c d) = d"
  by (simp add: crypt_def xor_bytes_cancel)

lemma crypt_concat_Cons: "crypt ks c (concat (b # bs)) = crypt ks c b @ crypt ks (advance (length b) c) (concat bs)"
  by (simp add: crypt_append)

lemma slice_crypt:
  assumes "i + n \<le> length d"
  shows "slice (crypt ks c d) i n = crypt ks (advance i c) (slice d i n)"
proof -
  have d: "d = take i d @ slice d i n @ drop (i + n) d" by (simp add: take_slice_drop)
  have l: "length (take i d) = i" "length (slice d i n) = n" using assms by (simp_all add: length_slice)
  have "crypt ks c d = crypt ks c (take i d) @ crypt ks (advance i c) (slice d i n)
      @ crypt ks (advance n (advance i c)) (drop (i + n) d)"
    by (subst d) (simp only: crypt_append l)
  then show ?thesis using l slice_append_exact [of "crypt ks c (take i d)" "crypt ks (advance i c) (slice d i n)"]
    by (metis length_crypt)
qed

lemma i16_le_roundtrip: "i16_from_le (u8_of (unat w)) (u8_of (unat w div 256)) = w"
proof -
  have "unat w < 65536" using unsigned_less [where 'a = nat, of w] by simp
  then have "unat w mod 256 + 256 * ((unat w div 256) mod 256) = unat w" by (simp add: div_less_dividend less_mult_imp_div_less)
  then show ?thesis by (simp add: i16_from_le_def)
qed

lemma reversed_eq: "length xs = n \<Longrightarrow> map (\<lambda>i. xs ! (n - 1 - i)) [0..<n] = rev xs"
  by (auto intro!: nth_equalityI simp: rev_nth)

section \<open>The handshake\<close>

lemma nonce_drawn:
  "draw_nonce draws = Some raw \<Longrightarrow> raw \<in> set draws \<and> raw ! 0 \<notin> set reserved_first_bytes
     \<and> take 4 raw \<notin> set reserved_starts \<and> slice raw 4 4 \<noteq> reserved_continue"
  by (induction draws) (auto split: if_splits)

text \<open>A draw that passes the reserved starts ends the loop.\<close>

lemma nonce_terminates:
  "raw \<in> set draws \<Longrightarrow> raw ! 0 \<notin> set reserved_first_bytes \<Longrightarrow> take 4 raw \<notin> set reserved_starts \<Longrightarrow>
   slice raw 4 4 \<noteq> reserved_continue \<Longrightarrow> draw_nonce draws \<noteq> None"
  by (induction draws) auto

text \<open>The cipher a handshake selects, and what it says once decrypted.\<close>

definition client_cipher :: "hash_fun \<Rightarrow> bytes \<Rightarrow> bytes \<Rightarrow> cipher" where
  "client_cipher sha h secret = make_cipher (sha (slice h 8 32 @ secret)) (slice h 40 16)"

lemma parse_handshake_alt:
  assumes "length h = 64"
  shows "parse_handshake sha ks h secret =
    (let tag = crypt ks (advance 56 (client_cipher sha h secret)) (slice h 56 4);
         dc = crypt ks (advance 60 (client_cipher sha h secret)) (slice h 60 2);
         w = i16_from_le (dc ! 0) (dc ! 1)
     in if length secret = 16 \<and> is_valid_proto_tag tag
        then Some \<lparr>hi_dc_id = unsigned_abs w, hi_is_media = sint w < 0, hi_proto_tag = tag\<rparr> else None)"
    "handshake_dc_index sha ks h secret =
    (let tag = crypt ks (advance 56 (client_cipher sha h secret)) (slice h 56 4);
         dc = crypt ks (advance 60 (client_cipher sha h secret)) (slice h 60 2)
     in if length secret = 16 \<and> is_valid_proto_tag tag then Some (i16_from_le (dc ! 0) (dc ! 1)) else None)"
proof -
  let ?c = "client_cipher sha h secret"
  have tag: "slice (crypt ks ?c h) 56 4 = crypt ks (advance 56 ?c) (slice h 56 4)"
    using assms by (simp add: slice_crypt)
  have dc: "slice (crypt ks ?c h) 60 2 = crypt ks (advance 60 ?c) (slice h 60 2)"
    using assms by (simp add: slice_crypt)
  have nth: "crypt ks ?c h ! 60 = slice (crypt ks ?c h) 60 2 ! 0" "crypt ks ?c h ! 61 = slice (crypt ks ?c h) 60 2 ! 1"
    using assms by (simp_all add: slice_def)
  show "parse_handshake sha ks h secret =
    (let tag = crypt ks (advance 56 ?c) (slice h 56 4); dc = crypt ks (advance 60 ?c) (slice h 60 2);
         w = i16_from_le (dc ! 0) (dc ! 1)
     in if length secret = 16 \<and> is_valid_proto_tag tag
        then Some \<lparr>hi_dc_id = unsigned_abs w, hi_is_media = sint w < 0, hi_proto_tag = tag\<rparr> else None)"
    using nth by (simp add: parse_handshake_def ob_consts apply_keystream_def Let_def tag dc flip: client_cipher_def)
  show "handshake_dc_index sha ks h secret =
    (let tag = crypt ks (advance 56 ?c) (slice h 56 4); dc = crypt ks (advance 60 ?c) (slice h 60 2)
     in if length secret = 16 \<and> is_valid_proto_tag tag then Some (i16_from_le (dc ! 0) (dc ! 1)) else None)"
    using nth by (simp add: handshake_dc_index_def ob_consts apply_keystream_def Let_def tag dc flip: client_cipher_def)
qed

lemma handshake_layout:
  assumes "length raw = 64" and "length tag = 4" and "length dc = 2"
  defines "h \<equiv> splice (splice raw 56 tag) 60 dc"
  shows "length h = 64" "take 56 h = take 56 raw" "slice h 8 32 = slice raw 8 32" "slice h 40 16 = slice raw 40 16"
    "slice h 56 4 = tag" "slice h 60 2 = dc" "drop 62 h = drop 62 raw"
proof -
  have h: "h = take 56 raw @ tag @ dc @ drop 62 raw"
    using assms(1-3) by (simp add: h_def splice_def)
  show "length h = 64" "take 56 h = take 56 raw" "slice h 56 4 = tag" "slice h 60 2 = dc" "drop 62 h = drop 62 raw"
    using assms(1-3) by (simp_all add: h slice_def)
  show "slice h 8 32 = slice raw 8 32" "slice h 40 16 = slice raw 40 16"
    using assms(1-3) by (simp_all add: h slice_def drop_take)
qed

lemma valid_tag_length: "is_valid_proto_tag tag \<Longrightarrow> length tag = 4"
  by (auto simp: is_valid_proto_tag_def proto_tag_abridged_def proto_tag_intermediate_def proto_tag_secure_def)

lemma crypt_zeros: "crypt ks c (replicate n 0) = key_bytes ks c n"
  by (simp add: crypt_def xor_bytes_def list_eq_iff_nth_eq)

lemma crypt_xor_key: "length d = n \<Longrightarrow> crypt ks c (xor_bytes d (key_bytes ks c n)) = d"
  using crypt_crypt [of ks c d] by (simp add: crypt_def)

lemma test_handshake_says:
  assumes "generate_test_handshake sha ks draws secret dc tag = Some h"
    and "list_all (\<lambda>d. length d = 64) draws" and "is_valid_proto_tag tag"
  shows "length h = 64" "crypt ks (advance 56 (client_cipher sha h secret)) (slice h 56 4) = tag"
    "crypt ks (advance 60 (client_cipher sha h secret)) (slice h 60 2) = i16_to_le dc"
proof -
  obtain raw where raw: "draw_nonce draws = Some raw" using assms(1) by (auto simp: generate_test_handshake_def)
  have l: "length raw = 64" "length tag = 4" "length (i16_to_le dc) = 2"
    using nonce_drawn [OF raw] assms(2) valid_tag_length [OF assms(3)] by (auto simp: list_all_iff i16_to_le_def)
  let ?c = "client_cipher sha raw secret"
  have ks: "slice (key_bytes ks ?c 64) i n = key_bytes ks (advance i ?c) n" if "i + n \<le> 64" for i n
    using slice_crypt [of i n "replicate 64 0" ks ?c] that by (simp add: crypt_zeros slice_def)
  have h: "h = splice (splice raw 56 (xor_bytes tag (key_bytes ks (advance 56 ?c) 4))) 60
      (xor_bytes (i16_to_le dc) (key_bytes ks (advance 60 ?c) 2))"
    using assms(1) by (simp add: generate_test_handshake_def raw Let_def ob_consts derive_key_with_secret_def
        apply_keystream_def crypt_zeros ks flip: client_cipher_def)
  note lay = handshake_layout [of raw "xor_bytes tag (key_bytes ks (advance 56 ?c) 4)"
      "xor_bytes (i16_to_le dc) (key_bytes ks (advance 60 ?c) 2)", folded h]
  have c: "client_cipher sha h secret = ?c" using lay l by (simp add: client_cipher_def)
  show "length h = 64" using lay l by simp
  show "crypt ks (advance 56 (client_cipher sha h secret)) (slice h 56 4) = tag"
    using lay l by (simp add: c crypt_xor_key)
  show "crypt ks (advance 60 (client_cipher sha h secret)) (slice h 60 2) = i16_to_le dc"
    using lay l by (simp add: c crypt_xor_key)
qed

lemma draw_lengths: "draw_nonce draws = Some raw \<Longrightarrow> list_all (\<lambda>d. length d = 64) draws \<Longrightarrow> length raw = 64"
  using nonce_drawn by (auto simp: list_all_iff)

text \<open>A toy hash and keystream for the concrete instances.\<close>

definition toy_sha :: hash_fun where "toy_sha bs = take 32 (bs @ replicate 32 0)"
definition toy_ks :: keystream where "toy_ks key iv n = key ! (n mod 32) + u8_of n"
definition toy_nonce :: bytes where "toy_nonce = map u8_of [1..<65]"
definition toy_secret :: bytes where "toy_secret = replicate 16 7"

text \<open>
  C26. A client handshake made with the secret is recognised: the parser reads back the protocol tag,
  the data centre number and the media flag the client put in, the index function the signed number,
  and the detector accepts it whatever bytes follow.
\<close>

theorem handshake_roundtrip:
  assumes "generate_test_handshake sha ks draws secret dc tag = Some h"
    and "list_all (\<lambda>d. length d = 64) draws" and "length secret = 16" and "is_valid_proto_tag tag"
  shows "parse_handshake sha ks h secret = Some \<lparr>hi_dc_id = unsigned_abs dc, hi_is_media = sint dc < 0, hi_proto_tag = tag\<rparr>
    \<and> handshake_dc_index sha ks h secret = Some dc \<and> handshake_proto_tag sha ks h secret = Some tag
    \<and> matches_obfuscated2 sha ks (h @ rest) secret"
proof -
  note s = test_handshake_says [OF assms(1,2,4)]
  have dc: "i16_from_le (i16_to_le dc ! 0) (i16_to_le dc ! 1) = dc" by (simp add: i16_to_le_def i16_le_roundtrip)
  have p: "parse_handshake sha ks h secret = Some \<lparr>hi_dc_id = unsigned_abs dc, hi_is_media = sint dc < 0, hi_proto_tag = tag\<rparr>"
    using assms(3,4) s dc by (simp add: parse_handshake_alt [OF s(1)])
  moreover have "handshake_dc_index sha ks h secret = Some dc"
    using assms(3,4) s dc by (simp add: parse_handshake_alt [OF s(1)])
  moreover have "handshake_proto_tag sha ks h secret = Some tag" using p by (simp add: handshake_proto_tag_def)
  moreover have "matches_obfuscated2 sha ks (h @ rest) secret"
    using assms(3) s(1) p by (simp add: matches_obfuscated2_def handshake_len_def)
  ultimately show ?thesis by blast
qed

lemma handshake_roundtrip_witness:
  "handshake_dc_index toy_sha toy_ks (the (generate_test_handshake toy_sha toy_ks [toy_nonce] toy_secret (- 4) proto_tag_secure))
     toy_secret = Some (- 4)"
proof -
  let ?g = "generate_test_handshake toy_sha toy_ks [toy_nonce] toy_secret (- 4) proto_tag_secure"
  have "draw_nonce [toy_nonce] = Some toy_nonce" by code_simp
  then have "?g \<noteq> None" by (simp add: generate_test_handshake_def)
  then have g: "?g = Some (the ?g)" by simp
  show ?thesis
    by (rule handshake_roundtrip [OF g, THEN conjunct2, THEN conjunct1])
      (simp_all add: toy_nonce_def toy_secret_def is_valid_proto_tag_def)
qed

section \<open>Reading through the stream\<close>

text \<open>What an obfuscated stream owes is the decryption of what the stream below owes.\<close>

definition owes_obf :: "keystream \<Rightarrow> ('s \<Rightarrow> bytes \<Rightarrow> bool) \<Rightarrow> 's obf_stream \<Rightarrow> bytes \<Rightarrow> bool" where
  "owes_obf ks owed s d \<longleftrightarrow> owed (ob_inner s) (crypt ks (ob_dec s) d)"

context byte_source
begin

lemma obf_delivers:
  assumes "owes_obf ks owes s d" and "0 < n" and "obf_poll_read ks poll_rd n s = (r, s1)"
  shows "(\<exists>d1. owes_obf ks owes s1 d1 \<and> d = polled r @ d1) \<and> (r = Ready (Inr []) \<longrightarrow> d = []) \<and> length (polled r) \<le> n"
proof -
  obtain p i where p: "poll_rd n (ob_inner s) = (p, i)" by fastforce
  let ?c = "crypt ks (ob_dec s) d"
  obtain c1 where c1: "owes i c1" "?c = polled p @ c1" "p = Ready (Inr []) \<longrightarrow> ?c = []" "length (polled p) \<le> n"
    using poll_delivers [OF _ assms(2) p, of ?c] assms(1) by (auto simp: owes_obf_def)
  show ?thesis
  proof (cases "\<exists>bs. p = Ready (Inr bs)")
    case False
    then have "r = p" "s1 = s\<lparr>ob_inner := i\<rparr>" "polled p = []"
      using assms(3) p by (auto simp: obf_poll_read_def split: poll.splits sum.splits)
    then show ?thesis using c1 False by (auto simp: owes_obf_def)
  next
    case True
    then obtain bs where bs: "p = Ready (Inr bs)" by blast
    have r: "r = Ready (Inr (crypt ks (ob_dec s) bs))" "s1 = s\<lparr>ob_inner := i, ob_dec := advance (length bs) (ob_dec s)\<rparr>"
      using assms(3) p bs by (auto simp: obf_poll_read_def apply_keystream_def split: if_splits)
    have "d = crypt ks (ob_dec s) (bs @ c1)" using c1(2) bs by (metis crypt_crypt polled.simps(1))
    then have d: "d = crypt ks (ob_dec s) bs @ crypt ks (advance (length bs) (ob_dec s)) c1" by (simp add: crypt_append)
    have nil: "crypt ks (ob_dec s) bs = [] \<longleftrightarrow> bs = []" by (metis length_0_conv length_crypt)
    have "owes_obf ks owes s1 (crypt ks (advance (length bs) (ob_dec s)) c1)" using c1(1) by (simp add: owes_obf_def r(2))
    moreover have "r = Ready (Inr []) \<longrightarrow> d = []" using c1(3) bs nil by (metis length_0_conv length_crypt poll.inject r(1) sum.inject(2))
    ultimately show ?thesis using d c1(4) bs unfolding r(1) by auto
  qed
qed

end

interpretation obf_socket: byte_source "obf_poll_read ks inner_read" "owes_obf ks owes_script" for ks
  by unfold_locales (rule socket.obf_delivers)

lemma accept_handshake_eq:
  assumes "read_exact fuel poll 64 s = (Some (Inr h), s1)" and "length h = 64"
  shows "accept_handshake sha ks fuel poll s secret =
    (case parse_handshake sha ks h secret of None \<Rightarrow> Some (Inl (Proxy ''invalid obfuscated2 handshake from the client''))
     | Some info \<Rightarrow> Some (Inr \<lparr>ac_stream = \<lparr>ob_inner = s1, ob_enc = client_cipher sha (rev h) secret,
         ob_dec = advance 64 (client_cipher sha h secret), ob_pending = []\<rparr>,
         ac_dc_id = the (handshake_dc_index sha ks h secret), ac_proto_tag = hi_proto_tag info\<rparr>))"
proof (cases "parse_handshake sha ks h secret")
  case None
  then show ?thesis using assms(1) by (simp add: accept_handshake_def handshake_len_def)
next
  case (Some info)
  have rev: "map (\<lambda>i. h ! (63 - i)) [0..<64] = rev h" using reversed_eq [OF assms(2)] by simp
  have secret: "length secret = 16" and tag: "is_valid_proto_tag (slice (crypt ks (client_cipher sha h secret) h) 56 4)"
      "hi_proto_tag info = slice (crypt ks (client_cipher sha h secret) h) 56 4"
    using Some by (auto simp: parse_handshake_def ob_consts apply_keystream_def client_cipher_def Let_def split: if_splits)
  have dc: "handshake_dc_index sha ks h secret =
      Some (i16_from_le (crypt ks (client_cipher sha h secret) h ! 60) (crypt ks (client_cipher sha h secret) h ! 61))"
    using secret tag(1) by (simp add: handshake_dc_index_def ob_consts apply_keystream_def client_cipher_def Let_def)
  show ?thesis
    using assms Some by (simp add: accept_handshake_def ob_consts rev derive_key_with_secret_def apply_keystream_def
        Let_def dc tag(2) flip: client_cipher_def)
qed

text \<open>
  Accepting a client: when 64 bytes arrive and they are a handshake for the secret, the call returns
  a stream, the signed data centre number and the tag of the handshake, and a reader of the stream gets
  the plaintext of what the client sends after it, encrypted with its own cipher, in order and
  completely; what the proxy writes is encrypted with the key and IV of the reversed handshake. Bytes
  that are no such handshake, or a connection closed before 64 bytes, give an error.
\<close>

theorem accept_handshake_opens:
  assumes "clean_script es" and "script_size es < fuel"
  shows "case accept_handshake sha ks fuel inner_read es secret of
      None \<Rightarrow> False
    | Some (Inl e) \<Rightarrow> length (script_data es) < 64 \<or> parse_handshake sha ks (take 64 (script_data es)) secret = None
    | Some (Inr a) \<Rightarrow> 64 \<le> length (script_data es)
        \<and> (let h = take 64 (script_data es); plain = crypt ks (advance 64 (client_cipher sha h secret)) (drop 64 (script_data es)) in
            handshake_dc_index sha ks h secret = Some (ac_dc_id a)
            \<and> handshake_proto_tag sha ks h secret = Some (ac_proto_tag a)
            \<and> ob_enc (ac_stream a) = client_cipher sha (rev h) secret
            \<and> (\<forall>k n ps e s1. 0 < n \<longrightarrow> copy_to_end k (obf_poll_read ks inner_read) n (ac_stream a) = (ps, e, s1) \<longrightarrow>
                 (\<exists>rest. plain = concat ps @ rest \<and> (e = Some (Inr ()) \<longrightarrow> rest = []))))"
proof -
  let ?D = "script_data es" let ?h = "take 64 ?D"
  obtain es1 where r: "read_exact fuel inner_read 64 es = (Some (if 64 \<le> length ?D then Inr ?h else Inl UnexpectedEof), es1)"
      "clean_script es1" "64 \<le> length ?D \<Longrightarrow> script_data es1 = drop 64 ?D"
    using read_exact_script [OF assms, of 64] by auto
  show ?thesis
  proof (cases "64 \<le> length ?D")
    case False
    then show ?thesis using r(1) by (simp add: accept_handshake_def handshake_len_def)
  next
    case long: True
    then have h: "read_exact fuel inner_read 64 es = (Some (Inr ?h), es1)" "length ?h = 64" using r(1) by simp_all
    note acc = accept_handshake_eq [OF h, of sha ks secret]
    show ?thesis
    proof (cases "parse_handshake sha ks ?h secret")
      case None
      then show ?thesis by (simp add: acc)
    next
      case (Some info)
      then have dc: "\<exists>dc. handshake_dc_index sha ks ?h secret = Some dc"
        by (auto simp: parse_handshake_alt [OF h(2)] Let_def split: if_splits)
      have pt: "handshake_proto_tag sha ks ?h secret = Some (hi_proto_tag info)" by (simp add: handshake_proto_tag_def Some)
      let ?a = "\<lparr>ob_inner = es1, ob_enc = client_cipher sha (rev ?h) secret,
         ob_dec = advance 64 (client_cipher sha ?h secret), ob_pending = []\<rparr>"
      have o: "owes_obf ks owes_script ?a (crypt ks (advance 64 (client_cipher sha ?h secret)) (drop 64 ?D))"
        using clean_script_owes [OF r(2)] r(3) [OF long] by (simp add: owes_obf_def)
      have cp: "\<exists>rest. crypt ks (advance 64 (client_cipher sha ?h secret)) (drop 64 ?D) = concat ps @ rest \<and> (e = Some (Inr ()) \<longrightarrow> rest = [])"
        if "0 < n" "copy_to_end k (obf_poll_read ks inner_read) n ?a = (ps, e, s1)" for k n ps e s1
        using obf_socket.copy_delivers [OF o that] by blast
      show ?thesis using long dc pt cp by (auto simp: acc Some Let_def)
    qed
  qed
qed

lemma accept_handshake_opens_witness:
  "\<exists>a. accept_handshake toy_sha toy_ks 200 inner_read
     [RData (the (generate_test_handshake toy_sha toy_ks [toy_nonce] toy_secret 2 proto_tag_abridged)), RPending, RData [9, 9], REof]
     toy_secret = Some (Inr a) \<and> handshake_dc_index toy_sha toy_ks
       (the (generate_test_handshake toy_sha toy_ks [toy_nonce] toy_secret 2 proto_tag_abridged)) toy_secret = Some (ac_dc_id a)"
proof -
  let ?g = "generate_test_handshake toy_sha toy_ks [toy_nonce] toy_secret 2 proto_tag_abridged"
  let ?es = "[RData (the ?g), RPending, RData [9, 9], REof]"
  have l: "length (the ?g) = 64" by code_simp
  then have ne: "the ?g \<noteq> []" by auto
  have p: "parse_handshake toy_sha toy_ks (the ?g) toy_secret \<noteq> None" by code_simp
  have c: "clean_script ?es" "script_size ?es < 200" using ne by (simp_all add: clean_script_def l)
  show ?thesis using accept_handshake_opens [OF c, of toy_sha toy_ks toy_secret] l p
    by (auto split: option.splits sum.splits simp: Let_def)
qed

section \<open>Writing through the stream\<close>

text \<open>A socket that always takes something when it is asked.\<close>

definition accepting :: "wire \<Rightarrow> bool" where
  "accepting w \<longleftrightarrow> list_all (\<lambda>e. case e of WAccept n \<Rightarrow> 0 < n | _ \<Rightarrow> False) (wi_out w)"

definition obf_sent :: "wire obf_stream \<Rightarrow> bytes" where
  "obf_sent s = wi_sent (ob_inner s) @ ob_pending s"

lemma wire_write_accepting:
  assumes "accepting w" and "wi_out w \<noteq> []" and "bs \<noteq> []"
  obtains n w1 where "wire_write bs w = (Ready (Inr n), w1)" "0 < n" "n \<le> length bs"
    "wi_sent w1 = wi_sent w @ take n bs" "accepting w1" "wi_out w1 = tl (wi_out w)"
proof -
  obtain m es where m: "wi_out w = WAccept m # es" "0 < m"
    using assms(1,2) by (cases "wi_out w") (auto simp: accepting_def split: wr_event.splits)
  show thesis
    using assms m by (intro that [of "min m (length bs)" "w\<lparr>wi_out := es, wi_sent := wi_sent w @ take (min m (length bs)) bs\<rparr>"])
      (auto simp: wire_write_def accepting_def)
qed

definition write_outcome :: "keystream \<Rightarrow> bytes \<Rightarrow> wire obf_stream \<Rightarrow> (io_kind + nat) poll \<Rightarrow> wire obf_stream \<Rightarrow> bool" where
  "write_outcome ks b s r s1 \<longleftrightarrow> (r = Ready (Inr (length b)) \<and> obf_sent s1 = obf_sent s @ crypt ks (ob_enc s) b
       \<and> ob_enc s1 = advance (length b) (ob_enc s)
     \<or> r = Pending \<and> obf_sent s1 = obf_sent s \<and> ob_enc s1 = ob_enc s)"

lemma obf_write_fresh:
  assumes "accepting (ob_inner s)" and "wi_out (ob_inner s) \<noteq> []" and "ob_pending s = []"
    and "obf_poll_write ks wire_write b s = (r, s1)"
  shows "accepting (ob_inner s1) \<and> length (wi_out (ob_inner s)) - 1 \<le> length (wi_out (ob_inner s1)) \<and> write_outcome ks b s r s1"
proof (cases "b = []")
  case True
  then show ?thesis using assms
    by (auto simp: obf_poll_write_def drain_pending_def write_outcome_def)
next
  case False
  then have "crypt ks (ob_enc s) b \<noteq> []" by (metis length_0_conv length_crypt)
  then obtain n w1 where w: "wire_write (crypt ks (ob_enc s) b) (ob_inner s) = (Ready (Inr n), w1)" "0 < n"
      "n \<le> length b" "wi_sent w1 = wi_sent (ob_inner s) @ take n (crypt ks (ob_enc s) b)" "accepting w1"
      "wi_out w1 = tl (wi_out (ob_inner s))"
    using wire_write_accepting [OF assms(1,2)] by (metis length_crypt)
  have r: "r = Ready (Inr (length b))"
    "s1 = (if n < length b then s\<lparr>ob_inner := w1, ob_enc := advance (length b) (ob_enc s), ob_pending := drop n (crypt ks (ob_enc s) b)\<rparr>
      else s\<lparr>ob_inner := w1, ob_enc := advance (length b) (ob_enc s)\<rparr>)"
    using assms(3,4) False w by (auto simp: obf_poll_write_def drain_pending_def apply_keystream_def split: if_splits)
  show ?thesis using r w assms(3) by (auto simp: write_outcome_def obf_sent_def)
qed

lemma obf_write_step:
  assumes "accepting (ob_inner s)" and "2 \<le> length (wi_out (ob_inner s))" and "obf_poll_write ks wire_write b s = (r, s1)"
  shows "accepting (ob_inner s1) \<and> length (wi_out (ob_inner s)) - 2 \<le> length (wi_out (ob_inner s1)) \<and> write_outcome ks b s r s1"
proof (cases "ob_pending s = []")
  case True
  have "wi_out (ob_inner s) \<noteq> []" using assms(2) by auto
  from obf_write_fresh [OF assms(1) this True assms(3)] show ?thesis by auto
next
  case False
  have "wi_out (ob_inner s) \<noteq> []" using assms(2) by auto
  then obtain n w1 where w: "wire_write (ob_pending s) (ob_inner s) = (Ready (Inr n), w1)" "0 < n"
      "n \<le> length (ob_pending s)" "wi_sent w1 = wi_sent (ob_inner s) @ take n (ob_pending s)" "accepting w1"
      "wi_out w1 = tl (wi_out (ob_inner s))"
    using wire_write_accepting [OF assms(1) _ False] by blast
  show ?thesis
  proof (cases "n < length (ob_pending s)")
    case True
    then have "r = Pending" "s1 = s\<lparr>ob_inner := w1, ob_pending := drop n (ob_pending s)\<rparr>"
      using assms(3) False w by (auto simp: obf_poll_write_def drain_pending_def)
    then show ?thesis using w by (simp add: write_outcome_def obf_sent_def)
  next
    case all: False
    let ?s = "s\<lparr>ob_inner := w1, ob_pending := []\<rparr>"
    have d: "drain_pending wire_write s = (None, ?s)" using False w all by (simp add: drain_pending_def)
    have "obf_poll_write ks wire_write b ?s = (r, s1)"
      using assms(3) d by (simp add: obf_poll_write_def drain_pending_def [of _ ?s])
    moreover have "accepting (ob_inner ?s)" "wi_out (ob_inner ?s) \<noteq> []" "ob_pending ?s = []"
      using w assms(2) by (cases "wi_out (ob_inner s)"; auto)+
    moreover have "obf_sent ?s = obf_sent s" "ob_enc ?s = ob_enc s" using w all by (simp_all add: obf_sent_def)
    ultimately show ?thesis using obf_write_fresh [of ?s ks b r s1] w(6)
      by (auto simp: write_outcome_def)
  qed
qed

lemma obf_writes_send:
  "accepting (ob_inner s) \<Longrightarrow> 2 * length bufs \<le> length (wi_out (ob_inner s)) \<Longrightarrow>
   poll_writes (obf_poll_write ks wire_write) bufs s = (acc, s1) \<Longrightarrow>
   obf_sent s1 = obf_sent s @ crypt ks (ob_enc s) acc \<and> ob_enc s1 = advance (length acc) (ob_enc s)"
proof (induction bufs arbitrary: s acc)
  case (Cons b bufs)
  obtain r s2 where p: "obf_poll_write ks wire_write b s = (r, s2)" by fastforce
  obtain acc2 where q: "poll_writes (obf_poll_write ks wire_write) bufs s2 = (acc2, s1)"
    and acc: "acc = (case r of Ready (Inr n) \<Rightarrow> take n b | _ \<Rightarrow> []) @ acc2"
    using Cons.prems(3) p by (auto split: prod.splits)
  have "2 \<le> length (wi_out (ob_inner s))" using Cons.prems(2) by simp
  note st = obf_write_step [OF Cons.prems(1) this p]
  have "2 * length bufs \<le> length (wi_out (ob_inner s2))" using st Cons.prems(2) by auto
  note IH = Cons.IH [OF _ this q]
  show ?case using st IH acc by (auto simp: write_outcome_def crypt_append)
qed simp

text \<open>
  Writing through the stream: as long as the socket takes at least a byte whenever it is asked, the
  bytes on the wire followed by the bytes kept back are exactly the encryption of what the callers were
  told is written, with one continuous keystream, whatever the sizes of the buffers and of the partial
  writes; so decrypting the wire with the same cipher gives the front of what was written.
\<close>

theorem obf_write_continuous:
  assumes "accepting w" and "2 * length bufs \<le> length (wi_out w)" and "wi_sent w = []"
    and "poll_writes (obf_poll_write ks wire_write) bufs (from_relay_keys w keys) = (acc, s1)"
  shows "wi_sent (ob_inner s1) @ ob_pending s1 = crypt ks (rk_enc keys) acc
    \<and> (\<exists>rest. acc = crypt ks (rk_enc keys) (wi_sent (ob_inner s1)) @ rest)"
proof -
  have e: "wi_sent (ob_inner s1) @ ob_pending s1 = crypt ks (rk_enc keys) acc"
    using obf_writes_send [of "from_relay_keys w keys" bufs ks acc s1] assms
    by (simp add: from_relay_keys_def obf_sent_def)
  then have "acc = crypt ks (rk_enc keys) (wi_sent (ob_inner s1) @ ob_pending s1)" by (metis crypt_crypt)
  then show ?thesis using e by (metis crypt_append)
qed

lemma obf_write_continuous_witness:
  "let s = snd (poll_writes (obf_poll_write toy_ks wire_write) [[1, 2, 3, 4], [], [5]] (from_relay_keys
       \<lparr>wi_in = [], wi_out = [WAccept 2, WAccept 1, WAccept 9, WAccept 9, WAccept 9, WAccept 9], wi_sent = []\<rparr>
       \<lparr>rk_enc = make_cipher toy_nonce [], rk_dec = make_cipher toy_nonce []\<rparr>))
   in wi_sent (ob_inner s) @ ob_pending s = crypt toy_ks (make_cipher toy_nonce []) [1, 2, 3, 4, 5]"
proof -
  let ?w = "\<lparr>wi_in = [], wi_out = [WAccept 2, WAccept 1, WAccept 9, WAccept 9, WAccept 9, WAccept 9], wi_sent = []\<rparr>"
  let ?k = "\<lparr>rk_enc = make_cipher toy_nonce [], rk_dec = make_cipher toy_nonce []\<rparr>"
  let ?r = "poll_writes (obf_poll_write toy_ks wire_write) [[1, 2, 3, 4], [], [5]] (from_relay_keys ?w ?k)"
  have "fst ?r = [1, 2, 3, 4, 5]" by code_simp
  then have r: "?r = ([1, 2, 3, 4, 5], snd ?r)" by (metis prod.collapse)
  have a: "accepting ?w" by (simp add: accepting_def)
  show ?thesis using obf_write_continuous [OF a _ _ r] by (simp add: Let_def)
qed

text \<open>
  A socket that answers \<^verbatim>\<open>Pending\<close> to fresh data: the encrypted buffer is kept and will be sent, but the
  caller is told nothing was written and offers the same buffer again, which is then encrypted and sent
  a second time.
\<close>

lemma obf_write_pending_duplicates:
  "let s = snd (poll_writes (obf_poll_write toy_ks wire_write) [[1, 2], [1, 2]] (from_relay_keys
       \<lparr>wi_in = [], wi_out = [WPending, WAccept 9, WAccept 9], wi_sent = []\<rparr>
       \<lparr>rk_enc = make_cipher toy_nonce [], rk_dec = make_cipher toy_nonce []\<rparr>))
   in crypt toy_ks (make_cipher toy_nonce []) (wi_sent (ob_inner s)) = [1, 2, 1, 2]"
  by code_simp

section \<open>The relay handshake\<close>

lemma relay_splice: "length raw = 64 \<Longrightarrow> length x = 8 \<Longrightarrow> splice raw 56 x = take 56 raw @ x"
  by (simp add: splice_def)

lemma relay_header_slices:
  assumes "length raw = 64" and "length x = 8"
  defines "h \<equiv> take 56 raw @ x"
  shows "length h = 64" "h ! 0 = raw ! 0" "take 4 h = take 4 raw" "slice h 4 4 = slice raw 4 4"
    "slice h 8 32 = slice raw 8 32" "slice h 40 16 = slice raw 40 16"
    "slice (rev h) 8 32 = slice (rev raw) 8 32" "slice (rev h) 40 16 = slice (rev raw) 40 16"
proof -
  have "rev raw = rev (drop 56 raw) @ rev (take 56 raw)" by (metis append_take_drop_id rev_append)
  then have "drop 8 (rev raw) = rev (take 56 raw)" using assms(1) by simp
  then have d: "drop 8 (rev h) = drop 8 (rev raw)" using assms(2) by (simp add: h_def)
  have "drop 40 (rev h) = drop 32 (drop 8 (rev h))" by simp
  also have "\<dots> = drop 32 (drop 8 (rev raw))" by (simp only: d)
  also have "\<dots> = drop 40 (rev raw)" by simp
  finally show "slice (rev h) 8 32 = slice (rev raw) 8 32" "slice (rev h) 40 16 = slice (rev raw) 40 16"
    using d by (simp_all add: slice_def)
  show "length h = 64" "h ! 0 = raw ! 0" using assms(1,2) by (simp_all add: h_def nth_append)
  show "take 4 h = take 4 raw" "slice h 4 4 = slice raw 4 4" "slice h 8 32 = slice raw 8 32" "slice h 40 16 = slice raw 40 16"
    using assms(1) by (simp_all add: h_def slice_def drop_take)
qed

text \<open>
  The handshake towards a data centre: a valid tag and an unreserved draw give a 64-byte header that
  starts like the draw (so with none of the reserved starts), from which the peer decrypts the tag and the
  data centre number with the key in the header itself; the proxy's ciphers are the ones the peer derives
  from the header and its reversal, the sending one 64 bytes in. An invalid tag is the only error.
\<close>

theorem relay_init_correct:
  assumes "generate_relay_init ks draws dc tag = Some r" and "list_all (\<lambda>d. length d = 64) draws"
  shows "case r of
      Inl e \<Rightarrow> \<not> is_valid_proto_tag tag
    | Inr (h, keys) \<Rightarrow> length h = 64
        \<and> h ! 0 \<notin> set reserved_first_bytes \<and> take 4 h \<notin> set reserved_starts \<and> slice h 4 4 \<noteq> reserved_continue
        \<and> slice (crypt ks (make_cipher (slice h 8 32) (slice h 40 16)) h) 56 4 = tag
        \<and> slice (crypt ks (make_cipher (slice h 8 32) (slice h 40 16)) h) 60 2 = i16_to_le dc
        \<and> rk_enc keys = advance 64 (make_cipher (slice h 8 32) (slice h 40 16))
        \<and> rk_dec keys = make_cipher (slice (rev h) 8 32) (slice (rev h) 40 16)"
proof (cases r)
  case (Inl e)
  then show ?thesis using assms(1) by (auto simp: generate_relay_init_def Let_def split: if_splits option.splits prod.splits)
next
  case (Inr p)
  have tag: "is_valid_proto_tag tag" using assms(1) Inr by (auto simp: generate_relay_init_def split: if_splits)
  then obtain raw where raw: "draw_nonce draws = Some raw"
    using assms(1) by (auto simp: generate_relay_init_def split: option.splits)
  note l = draw_lengths [OF raw assms(2)] valid_tag_length [OF tag]
  have ldc: "length (i16_to_le dc) = 2" by (simp add: i16_to_le_def)
  define c where "c = make_cipher (slice raw 8 32) (slice raw 40 16)"
  define plain where "plain = splice (splice raw 56 tag) 60 (i16_to_le dc)"
  define x where "x = crypt ks (advance 56 c) (drop 56 plain)"
  note lay = handshake_layout [OF l ldc, folded plain_def]
  have pl: "plain = take 56 raw @ drop 56 plain" using lay(2) by (metis append_take_drop_id)
  have c56: "length (crypt ks c (take 56 raw)) = 56" using l by simp
  have enc: "crypt ks c plain = crypt ks c (take 56 raw) @ x"
    unfolding x_def using l by (subst pl) (simp add: crypt_append)
  have lx: "length x = 8" using lay(1) by (simp add: x_def)
  define h where "h = take 56 raw @ x"
  note hs = relay_header_slices [OF l(1) lx, folded h_def]
  have "drop 56 (crypt ks c plain) = x" using c56 by (simp add: enc)
  then have sp: "splice raw 56 (drop 56 (crypt ks c plain)) = h" using relay_splice [OF l(1) lx] by (simp add: h_def)
  have rev: "map (\<lambda>i. raw ! (63 - i)) [0..<64] = rev raw" using reversed_eq [OF l(1)] by simp
  have p: "p = (h, \<lparr>rk_enc = advance 64 c, rk_dec = make_cipher (slice (rev raw) 8 32) (slice (rev raw) 40 16)\<rparr>)"
    using assms(1) Inr tag lay(1) sp rev
    by (simp add: generate_relay_init_def raw ob_consts Let_def apply_keystream_def flip: c_def plain_def)
  have ch: "crypt ks c h = crypt ks c (take 56 raw) @ drop 56 plain" using l by (simp add: h_def x_def crypt_append)
  have sl: "slice (crypt ks c h) (56 + j) n = slice plain (56 + j) n" for j n
    unfolding ch using slice_append_right [of "crypt ks c (take 56 raw)" "drop 56 plain" j n, unfolded c56]
    by (simp add: slice_def add.commute)
  have dec: "slice (crypt ks c h) 56 4 = tag" "slice (crypt ks c h) 60 2 = i16_to_le dc"
    using sl [of 0 4] sl [of 4 2] lay(5,6) by simp_all
  show ?thesis unfolding Inr p sum.case prod.case relay_keys.simps hs c_def [symmetric]
    using nonce_drawn [OF raw] dec by blast
qed

lemma relay_init_correct_witness:
  "case the (generate_relay_init toy_ks [toy_nonce] 2 proto_tag_secure) of
      Inl e \<Rightarrow> False | Inr (h, keys) \<Rightarrow> length h = 64"
proof -
  let ?g = "generate_relay_init toy_ks [toy_nonce] 2 proto_tag_secure"
  have "draw_nonce [toy_nonce] = Some toy_nonce" by code_simp
  then have "?g \<noteq> None" by (simp add: generate_relay_init_def Let_def split: prod.splits)
  then have g: "?g = Some (the ?g)" by simp
  have l: "list_all (\<lambda>d. length d = 64) [toy_nonce]" by (simp add: toy_nonce_def)
  have v: "is_valid_proto_tag proto_tag_secure" by (simp add: is_valid_proto_tag_def)
  define r where "r = the ?g"
  note th = relay_init_correct [OF g l, folded r_def]
  have "case r of Inl e \<Rightarrow> False | Inr (h, keys) \<Rightarrow> length h = 64"
    by (cases r) (use th v in \<open>auto split: prod.splits\<close>)
  then show ?thesis by (simp only: r_def)
qed

end
