(* ===== verification/Traffic_Detector.thy ===== *)
theory Traffic_Detector
  imports Config_Model Fake_Tls Obfuscated2
begin

text \<open>
  The detector of \<^verbatim>\<open>src/detector.rs\<close>: it tells an MTProto client from other traffic by the first
  bytes of a connection. The external code it uses (hex, SHA-256, AES-CTR, HMAC) is one record of
  parameters; the clock is an argument. Secrets decoded by \<^verbatim>\<open>decode_secret\<close> are not empty, so that
  \<^verbatim>\<open>windows\<close> does not panic.
\<close>

record crypto_env =
  ce_hex :: hex_lib
  ce_sha :: hash_fun
  ce_ks :: keystream
  ce_hmac :: hmac_fun

datatype traffic_hint = TlsClientHello | TlsOther | Http | ObfuscatedMtproto | UnknownTraffic

datatype traffic_type = Mtproto | Fallback

record detection_result =
  dt_type :: traffic_type
  dt_sni :: "string option"
  dt_label :: "string option"
  dt_mode :: "secret_kind option"
  dt_backend :: "string option"
  dt_max :: u32

definition detected_mtproto :: "string option \<Rightarrow> string \<Rightarrow> secret_kind \<Rightarrow> string \<Rightarrow> u32 \<Rightarrow> detection_result" where
  "detected_mtproto sni label mode backend maxc =
     \<lparr>dt_type = Mtproto, dt_sni = sni, dt_label = Some label, dt_mode = Some mode, dt_backend = Some backend, dt_max = maxc\<rparr>"

definition detected_fallback :: "string option \<Rightarrow> detection_result" where
  "detected_fallback sni =
     \<lparr>dt_type = Fallback, dt_sni = sni, dt_label = None, dt_mode = None, dt_backend = None, dt_max = 0\<rparr>"

record route_bytes =
  rb_label :: string
  rb_secret :: bytes
  rb_secret_hex :: string
  rb_mode :: secret_kind
  rb_backend :: string
  rb_max :: u32

record detector =
  de_routes :: "route_bytes list"
  de_fake_domains :: "string list"

definition parse_route :: "hex_lib \<Rightarrow> secret_route \<Rightarrow> route_bytes result" where
  "parse_route hx route =
     bindR (decode_secret hx (sr_secret route)) (\<lambda>bs.
       Inr \<lparr>rb_label = sr_label route, rb_secret = bs, rb_secret_hex = sr_secret route, rb_mode = sr_mode route,
            rb_backend = sr_backend route, rb_max = sr_max_connections route\<rparr>)"

definition from_routes :: "hex_lib \<Rightarrow> secret_route list \<Rightarrow> string list \<Rightarrow> detector result" where
  "from_routes hx routes domains =
     (if domains = [] then Inl (Config ''the detector needs at least one SNI domain'')
      else bindR (try_map (parse_route hx) routes) (\<lambda>parsed.
        Inr \<lparr>de_routes = parsed, de_fake_domains = domains\<rparr>))"

definition detector_new :: "hex_lib \<Rightarrow> string \<Rightarrow> string \<Rightarrow> detector result" where
  "detector_new hx secret_hex domain =
     from_routes hx [\<lparr>sr_label = ''default'', sr_secret = secret_hex, sr_mode = secret_mode secret_hex,
       sr_backend = '''', sr_max_connections = 0\<rparr>] [domain]"

definition contains_secret :: "bytes \<Rightarrow> bytes \<Rightarrow> bool" where
  "contains_secret data secret =
     (if length data < length secret then False
      else list_ex (\<lambda>i. slice data i (length secret) = secret) [0..<length data - length secret + 1])"

definition matches_fake_domain :: "detector \<Rightarrow> string \<Rightarrow> bool" where
  "matches_fake_domain d domain = list_ex (\<lambda>candidate. eq_ignore_ascii_case candidate domain) (de_fake_domains d)"

definition match_probable_ee_client_hello :: "hex_lib \<Rightarrow> detector \<Rightarrow> bytes \<Rightarrow> route_bytes option" where
  "match_probable_ee_client_hello hx d data =
     (case tls_record_total_len data of
        None \<Rightarrow> None
      | Some needed \<Rightarrow>
          if needed \<le> length data \<or> needed < 1200 then None
          else (case find (\<lambda>route. rb_mode route = Ee) (de_routes d) of
              None \<Rightarrow> None
            | Some route \<Rightarrow>
                (case secret_embedded_domain hx (rb_secret_hex route) of
                   Some domain \<Rightarrow> if matches_fake_domain d domain then Some route else None
                 | None \<Rightarrow> if de_fake_domains d \<noteq> [] then Some route else None)))"

definition route_result :: "string option \<Rightarrow> route_bytes \<Rightarrow> detection_result" where
  "route_result sni route = detected_mtproto sni (rb_label route) (rb_mode route) (rb_backend route) (rb_max route)"

definition detect_ee :: "crypto_env \<Rightarrow> u64 \<Rightarrow> detector \<Rightarrow> string option \<Rightarrow> bytes \<Rightarrow> detection_result option" where
  "detect_ee env now d sni data =
     (case parse_client_hello_record data of
        Inl _ \<Rightarrow> None
      | Inr ch \<Rightarrow>
          map_option (route_result (case pc_sni ch of Some s \<Rightarrow> Some s | None \<Rightarrow> sni))
            (find (\<lambda>route. rb_mode route = Ee \<and> is_ok (validate_client_hello (ce_hmac env) now ch (rb_secret route)))
              (de_routes d)))"

definition detect :: "crypto_env \<Rightarrow> u64 \<Rightarrow> detector \<Rightarrow> bytes \<Rightarrow> detection_result" where
  "detect env now d data =
     (let sni = try_client_hello_sni data in
      case find (\<lambda>route. contains_secret data (rb_secret route)) (de_routes d) of
        Some route \<Rightarrow> route_result sni route
      | None \<Rightarrow>
          (case (if handshake_len \<le> length data
                 then find (\<lambda>route. matches_obfuscated2 (ce_sha env) (ce_ks env) data (rb_secret route)) (de_routes d)
                 else None) of
             Some route \<Rightarrow> route_result sni route
           | None \<Rightarrow>
               if looks_like_tls_client_hello data then
                 (case detect_ee env now d sni data of
                    Some res \<Rightarrow> res
                  | None \<Rightarrow>
                      (case match_probable_ee_client_hello (ce_hex env) d data of
                         Some route \<Rightarrow> route_result sni route
                       | None \<Rightarrow> detected_fallback sni))
               else detected_fallback sni))"

definition classify_peek :: "bytes \<Rightarrow> traffic_hint" where
  "classify_peek data =
     (if data = [] then UnknownTraffic
      else if list_ex (\<lambda>p. take (length p) data = p)
          (map as_bytes [''GET '', ''HEAD '', ''POST '', ''PUT '', ''OPTIONS '']) then Http
      else if looks_like_tls_client_hello data then TlsClientHello
      else if 3 \<le> length data \<and> data ! 0 = 0x16 \<and> data ! 1 = 0x03 then TlsOther
      else if 64 \<le> length data then ObfuscatedMtproto
      else UnknownTraffic)"

definition fallback_diagnostic_message :: "traffic_hint \<Rightarrow> bool \<Rightarrow> string option" where
  "fallback_diagnostic_message hint has_ee_route =
     (if hint = ObfuscatedMtproto \<and> has_ee_route
        then Some ''obfuscated MTProto, but no secret matches''
      else if hint = TlsClientHello \<and> has_ee_route
        then Some ''TLS ClientHello whose SNI matches no fake domain''
      else if hint = TlsOther \<and> has_ee_route
        then Some ''a TLS record that is no ClientHello''
      else None)"

section \<open>What is recognised\<close>

lemma contains_secret_iff: "contains_secret data secret \<longleftrightarrow> sublist secret data"
proof
  assume "contains_secret data secret"
  then obtain i where "slice data i (length secret) = secret" by (auto simp: contains_secret_def list_ex_iff split: if_splits)
  then have "data = take i data @ secret @ drop (i + length secret) data" using take_slice_drop [of i data "length secret"] by simp
  then show "sublist secret data" unfolding sublist_def by blast
next
  assume "sublist secret data"
  then obtain p q where d: "data = p @ secret @ q" by (auto simp: sublist_def)
  have "slice data (length p) (length secret) = secret" by (simp add: d slice_def)
  then show "contains_secret data secret" by (auto simp: contains_secret_def list_ex_iff d intro!: bexI [of _ "length p"])
qed

text \<open>The four grounds on which a route is chosen, apart from their order in the code.\<close>

definition by_bytes :: "bytes \<Rightarrow> route_bytes \<Rightarrow> bool" where
  "by_bytes data route \<longleftrightarrow> sublist (rb_secret route) data"

text \<open>An obfuscated2 handshake for the secret: the four bytes at 56 decrypt to one of the three tags.\<close>

definition by_obfuscated2 :: "crypto_env \<Rightarrow> bytes \<Rightarrow> route_bytes \<Rightarrow> bool" where
  "by_obfuscated2 env data route \<longleftrightarrow> length (rb_secret route) = 16 \<and> 64 \<le> length data
     \<and> (\<exists>tag \<in> {0xef, 0xee, 0xdd}. \<forall>i \<in> {56, 57, 58, 59}.
          Bit_Operations.xor (data ! i) (ce_ks env (ce_sha env (slice data 8 32 @ rb_secret route)) (slice data 40 16) i) = tag)"

text \<open>
  \<open>raw\<close> is a TLS record whose 32 bytes at 11, the random of the ClientHello, are the HMAC of the record with these
  bytes zeroed: the first 28 as they are, the other four combined with a time at most 120 seconds away.
\<close>

definition hello_signed :: "(bytes \<Rightarrow> bytes) \<Rightarrow> u64 \<Rightarrow> bytes \<Rightarrow> bool" where
  "hello_signed mac now raw \<longleftrightarrow>
     (let tag = mac (take 11 raw @ replicate 32 0 @ drop 43 raw); random = slice raw 11 32 in
      43 \<le> length raw \<and> (\<forall>(a, b) \<in> set (take 28 (zip tag random)). a = b)
      \<and> \<bar>int (le32 (xor_bytes (drop 28 tag) (drop 28 random))) - sint now\<bar> \<le> 120)"

text \<open>A whole Handshake record with a ClientHello (\<open>parse_client_hello_correct\<close>) that is signed for an ee route.\<close>

definition by_ee_hello :: "crypto_env \<Rightarrow> u64 \<Rightarrow> bytes \<Rightarrow> route_bytes \<Rightarrow> bool" where
  "by_ee_hello env now data route \<longleftrightarrow> rb_mode route = Ee
     \<and> (\<exists>version message rest hello mac.
          data = 22 # fst version # snd version # u16_be (length message) @ message @ rest \<and> length message < 65536
        \<and> parse_client_hello message = Inr hello \<and> ce_hmac env (rb_secret route) = Some mac
        \<and> hello_signed mac now (take (5 + length message) data))"

text \<open>
  A Handshake record with a ClientHello of at least 1200 bytes, of which a part is there; the route is the first ee
  route, and the domain in its secret, if there is one, is one of the configured domains.
\<close>

definition by_partial_hello :: "crypto_env \<Rightarrow> detector \<Rightarrow> bytes \<Rightarrow> route_bytes \<Rightarrow> bool" where
  "by_partial_hello env d data route \<longleftrightarrow> 6 \<le> length data \<and> data ! 0 = 22 \<and> data ! 5 = 1
     \<and> length data < 5 + be16 (data ! 3) (data ! 4) \<and> 1200 \<le> 5 + be16 (data ! 3) (data ! 4)
     \<and> (\<exists>before behind. de_routes d = before @ route # behind \<and> rb_mode route = Ee \<and> (\<forall>r \<in> set before. rb_mode r \<noteq> Ee))
     \<and> (case secret_embedded_domain (ce_hex env) (rb_secret_hex route) of
          None \<Rightarrow> de_fake_domains d \<noteq> []
        | Some domain \<Rightarrow> \<exists>c \<in> set (de_fake_domains d). to_ascii_lowercase c = to_ascii_lowercase domain)"

definition recognises :: "crypto_env \<Rightarrow> u64 \<Rightarrow> detector \<Rightarrow> bytes \<Rightarrow> route_bytes \<Rightarrow> bool" where
  "recognises env now d data route \<longleftrightarrow> by_bytes data route \<or> by_obfuscated2 env data route
     \<or> by_ee_hello env now data route \<or> by_partial_hello env d data route"

lemma crypt_nth: "i < length data \<Longrightarrow> crypt ks c data ! i = Bit_Operations.xor (data ! i) (ks (ci_key c) (ci_iv c) (ci_pos c + i))"
  by (simp add: crypt_def xor_bytes_def key_bytes_def)

lemma four_same:
  "length b = 64 \<Longrightarrow> slice b 56 4 = [t, t, t, t] \<longleftrightarrow> (\<forall>i \<in> {56, 57, 58, 59}. b ! i = t)"
proof -
  assume l: "length b = 64"
  have d: "drop 56 b = b ! 56 # drop 57 b" "drop 57 b = b ! 57 # drop 58 b" "drop 58 b = b ! 58 # drop 59 b" "drop 59 b = b ! 59 # drop 60 b"
    using Cons_nth_drop_Suc [of 56 b] Cons_nth_drop_Suc [of 57 b] Cons_nth_drop_Suc [of 58 b] Cons_nth_drop_Suc [of 59 b] l by simp_all
  have "slice b 56 4 = [b ! 56, b ! 57, b ! 58, b ! 59]"
    by (simp add: slice_def d)
  then show ?thesis by auto
qed

lemma obfuscated2_iff: "by_obfuscated2 env data route \<longleftrightarrow> matches_obfuscated2 (ce_sha env) (ce_ks env) data (rb_secret route)"
proof (cases "64 \<le> length data \<and> length (rb_secret route) = 16")
  case False
  then show ?thesis by (auto simp: matches_obfuscated2_def by_obfuscated2_def handshake_len_def)
next
  case True
  let ?h = "take 64 data"
  let ?c = "make_cipher (ce_sha env (slice ?h 8 32 @ rb_secret route)) (slice ?h 40 16)"
  let ?b = "crypt (ce_ks env) ?c ?h"
  have l: "length ?b = 64" using True by simp
  have s: "slice ?h 8 32 = slice data 8 32" "slice ?h 40 16 = slice data 40 16" by (simp_all add: slice_def take_drop)
  have n: "?b ! i = Bit_Operations.xor (data ! i) (ce_ks env (ce_sha env (slice data 8 32 @ rb_secret route)) (slice data 40 16) i)" if "i \<in> {56, 57, 58, 59}" for i
  proof -
    have "i < 64" using that by auto
    then show ?thesis using True by (simp add: crypt_nth s make_cipher_def)
  qed
  have "matches_obfuscated2 (ce_sha env) (ce_ks env) data (rb_secret route) \<longleftrightarrow> is_valid_proto_tag (slice ?b 56 4)"
    using True by (simp add: matches_obfuscated2_def parse_handshake_def ob_consts apply_keystream_def Let_def)
  also have "\<dots> \<longleftrightarrow> (\<exists>t \<in> {0xef, 0xee, 0xdd}. \<forall>i \<in> {56, 57, 58, 59}. ?b ! i = t)"
    unfolding is_valid_proto_tag_def proto_tag_abridged_def proto_tag_intermediate_def proto_tag_secure_def four_same [OF l]
    by (simp only: bex_simps HOL.simp_thms)
  also have "\<dots> \<longleftrightarrow> by_obfuscated2 env data route"
    unfolding by_obfuscated2_def using True n by (simp cong: ball_cong_simp)
  finally show ?thesis by simp
qed

lemma xor_zero_pairs: "(\<forall>x \<in> set (xor_bytes a b). x = 0) \<longleftrightarrow> (\<forall>(x, y) \<in> set (zip a b). x = y)"
  by (auto simp: xor_bytes_def xor_zero_iff)

lemma validate_signed:
  assumes "slice (pc_raw ch) 11 32 = pc_random ch"
  shows "validate_client_hello hmac now ch secret = Inr () \<longleftrightarrow> (\<exists>mac. hmac secret = Some mac \<and> hello_signed mac now (pc_raw ch))"
proof (cases "43 \<le> length (pc_raw ch)")
  case False
  then show ?thesis by (auto simp: validate_client_hello_def hello_signed_def server_hello_random_offset_def Let_def)
next
  case True
  show ?thesis
  proof (cases "hmac secret")
    case None
    then show ?thesis using True by (simp add: validate_client_hello_def server_hello_random_offset_def)
  next
    case (Some mac)
    let ?t = "mac (take 11 (pc_raw ch) @ replicate 32 0 @ drop 43 (pc_raw ch))"
    have z: "zero_random (pc_raw ch) = take 11 (pc_raw ch) @ replicate 32 0 @ drop 43 (pc_raw ch)"
      by (simp add: zero_random_def splice_def server_hello_random_offset_def)
    have "list_ex (\<lambda>b. b \<noteq> 0) (take 28 (xor_bytes ?t (pc_random ch))) \<longleftrightarrow> \<not> (\<forall>(a, b) \<in> set (take 28 (zip ?t (pc_random ch))). a = b)"
      unfolding list_ex_iff take_xor_bytes take_zip xor_zero_pairs [symmetric] by blast
    moreover have "timestamp_ok ts now \<longleftrightarrow> \<bar>int ts - sint now\<bar> \<le> 120" for ts
      by (simp add: timestamp_ok_def hello_timestamp_skew_secs_def nat_le_iff)
    ultimately show ?thesis using True Some assms
      by (simp add: validate_client_hello_def server_hello_random_offset_def z Let_def hello_signed_def drop_xor_bytes)
  qed
qed

lemma ee_hello_iff:
  "by_ee_hello env now data route \<longleftrightarrow> looks_like_tls_client_hello data \<and> rb_mode route = Ee
     \<and> (\<exists>ch. parse_client_hello_record data = Inr ch \<and> validate_client_hello (ce_hmac env) now ch (rb_secret route) = Inr ())"
  (is "?l \<longleftrightarrow> ?r")
proof
  assume ?l
  then obtain v m rest g mac where p: "rb_mode route = Ee" "data = 22 # fst v # snd v # u16_be (length m) @ m @ rest" "length m < 65536"
      "parse_client_hello m = Inr g" "ce_hmac env (rb_secret route) = Some mac" "hello_signed mac now (take (5 + length m) data)"
    by (auto simp: by_ee_hello_def)
  let ?rec = "\<lparr>rec_type = Handshake, rec_version = v, rec_payload = m\<rparr>"
  have d: "data = record_bytes ?rec @ rest" by (simp add: p(2) record_bytes_def)
  then have r: "parse_record data = Inr ?rec" using parse_record_bytes [of ?rec rest] p(3) by simp
  have m: "m ! 0 = 1" "4 \<le> length m" using parse_hello_sound [OF p(4)] by simp_all
  then obtain ms where ms: "m = 1 # ms" by (cases m) auto
  have looks: "looks_like_tls_client_hello data"
  proof -
    have "6 \<le> length data" "data ! 0 = 22" "data ! 5 = 1" using m(2) by (simp_all add: p(2) ms u16_be_def)
    then show ?thesis by (simp add: looks_like_tls_client_hello_def handshake_of_def r ms)
  qed
  let ?ch = "\<lparr>pc_raw = take (5 + length m) data, pc_random = ch_random g, pc_session_id = ch_session_id g,
     pc_cipher_suite = first_suite (ch_ciphers g), pc_sni = ch_sni g\<rparr>"
  have "hello_wf g" by (rule parse_hello_sound(1) [OF p(4)])
  then have "length (ch_random g) = 32" by (simp add: hello_wf_def)
  then have ch: "parse_client_hello_record data = Inr ?ch"
    using r p(4) by (simp add: parse_client_hello_record_def Let_def d length_record_bytes)
  then have "slice (pc_raw ?ch) 11 32 = pc_random ?ch" using raw_layout(2) [OF ch] by (simp add: server_hello_random_offset_def)
  then have "validate_client_hello (ce_hmac env) now ?ch (rb_secret route) = Inr ()"
    using validate_signed [of ?ch "ce_hmac env" now "rb_secret route"] p(5,6) by simp
  then show ?r using looks p(1) ch by blast
next
  assume ?r
  then obtain ch where c: "rb_mode route = Ee" "parse_client_hello_record data = Inr ch"
      "validate_client_hello (ce_hmac env) now ch (rb_secret route) = Inr ()" by blast
  obtain r where r: "parse_record data = Inr r" "rec_type r = Handshake" "pc_raw ch = take (5 + length (rec_payload r)) data"
      "\<exists>g. parse_client_hello (rec_payload r) = Inr g"
    using c(2) by (auto simp: parse_client_hello_record_def Let_def bindR_Inr_iff split: if_splits)
  obtain rest where d: "data = record_bytes r @ rest" "length (rec_payload r) < 65536" using parse_record_sound [OF r(1)] by blast
  have "slice (pc_raw ch) 11 32 = pc_random ch" using raw_layout(2) [OF c(2)] by (simp add: server_hello_random_offset_def)
  then obtain mac where "ce_hmac env (rb_secret route) = Some mac" "hello_signed mac now (pc_raw ch)" using validate_signed c(3) by blast
  then show ?l unfolding by_ee_hello_def using c(1) r d
    by (intro conjI exI [of _ "rec_version r"] exI [of _ "rec_payload r"] exI [of _ rest]) (auto simp: record_bytes_def)
qed

lemma first_of: "find P xs = Some x \<longleftrightarrow> (\<exists>ys zs. xs = ys @ x # zs \<and> P x \<and> (\<forall>y \<in> set ys. \<not> P y))"
proof (induction xs)
  case (Cons a xs)
  show ?case
  proof (cases "P a")
    case True
    then show ?thesis by (auto simp: Cons_eq_append_conv)
  next
    case False
    show ?thesis
    proof
      assume "find P (a # xs) = Some x"
      then obtain ys zs where "xs = ys @ x # zs" "P x" "\<forall>y \<in> set ys. \<not> P y" using Cons False by auto
      then show "\<exists>ys zs. a # xs = ys @ x # zs \<and> P x \<and> (\<forall>y \<in> set ys. \<not> P y)"
        using False by (intro exI [of _ "a # ys"] exI [of _ zs]) simp
    next
      assume "\<exists>ys zs. a # xs = ys @ x # zs \<and> P x \<and> (\<forall>y \<in> set ys. \<not> P y)"
      then obtain ys zs where y: "a # xs = ys @ x # zs" "P x" "\<forall>y \<in> set ys. \<not> P y" by blast
      then obtain ys' where "ys = a # ys'" using False by (cases ys) auto
      then show "find P (a # xs) = Some x" using y Cons False by auto
    qed
  qed
qed simp

lemma partial_hello_iff:
  "by_partial_hello env d data route \<longleftrightarrow> looks_like_tls_client_hello data
     \<and> match_probable_ee_client_hello (ce_hex env) d data = Some route"
proof (cases "6 \<le> length data \<and> data ! 0 = 22 \<and> data ! 5 = 1")
  case False
  then show ?thesis by (auto simp: by_partial_hello_def looks_like_tls_client_hello_def handshake_of_def)
next
  case True
  then obtain v1 v2 l1 l2 rest where d: "data = 22 # v1 # v2 # l1 # l2 # 1 # rest"
    by (auto simp: numeral_eq_Suc Suc_le_length_iff)
  let ?n = "5 + be16 l1 l2"
  have t: "tls_record_total_len data = Some ?n"
    by (simp add: tls_record_total_len_def d record_type_of_def usize_checked_add_def less_trans [OF be16_less])
  let ?f = "find (\<lambda>route. rb_mode route = Ee) (de_routes d)"
  show ?thesis
  proof (cases "length data < ?n \<and> 1200 \<le> ?n")
    case False
    then show ?thesis using t by (auto simp: by_partial_hello_def match_probable_ee_client_hello_def d)
  next
    case long: True
    have "looks_like_tls_client_hello data"
      using True long by (auto simp: looks_like_tls_client_hello_def handshake_of_def d split: sum.splits)
    then show ?thesis
      using True long t
      unfolding by_partial_hello_def first_of [of "\<lambda>route. rb_mode route = Ee", symmetric]
      by (auto simp: match_probable_ee_client_hello_def matches_fake_domain_def list_ex_iff eq_ignore_ascii_case_def d
          split: option.splits if_splits)
  qed
qed

lemma find_Some_D: "find P xs = Some x \<Longrightarrow> x \<in> set xs \<and> P x"
  by (auto simp: find_Some_iff)

lemma probable_route: "match_probable_ee_client_hello hx d data = Some route \<Longrightarrow>
    route \<in> set (de_routes d) \<and> rb_mode route = Ee"
  by (auto simp: match_probable_ee_client_hello_def dest!: find_Some_D split: option.splits if_splits)

lemma obf2_long: "matches_obfuscated2 sha ks data s \<Longrightarrow> handshake_len \<le> length data"
  by (auto simp: matches_obfuscated2_def split: if_splits)

lemma detect_verdict:
  "(dt_type (detect env now d data) = Mtproto \<longleftrightarrow> (\<exists>route \<in> set (de_routes d). recognises env now d data route))
   \<and> (if dt_type (detect env now d data) = Mtproto
      then \<exists>route \<in> set (de_routes d). recognises env now d data route
         \<and> (\<exists>sni. detect env now d data = route_result sni route)
      else detect env now d data = detected_fallback (try_client_hello_sni data))"
proof -
  let ?r = "detect env now d data"
  have mt: "dt_type (route_result sni route) = Mtproto" for sni route by (simp add: route_result_def detected_mtproto_def)
  have fb: "dt_type (detected_fallback sni) = Fallback" for sni by (simp add: detected_fallback_def)
  have sound: "(\<exists>route \<in> set (de_routes d). recognises env now d data route \<and> (\<exists>sni. ?r = route_result sni route))
      \<or> ?r = detected_fallback (try_client_hello_sni data)
        \<and> (\<forall>route \<in> set (de_routes d). \<not> recognises env now d data route)"
  proof (cases "find (\<lambda>route. contains_secret data (rb_secret route)) (de_routes d)")
    case (Some route)
    then show ?thesis using find_Some_D [OF Some]
      by (auto simp: detect_def Let_def recognises_def by_bytes_def contains_secret_iff)
  next
    case 1: None
    let ?o = "find (\<lambda>route. matches_obfuscated2 (ce_sha env) (ce_ks env) data (rb_secret route)) (de_routes d)"
    show ?thesis
    proof (cases "if handshake_len \<le> length data then ?o else None")
      case (Some route)
      then show ?thesis using find_Some_D [of _ "de_routes d" route] 1
        by (auto simp: detect_def Let_def recognises_def obfuscated2_iff split: if_splits)
    next
      case 2: None
      then have no2: "\<forall>route \<in> set (de_routes d). \<not> by_bytes data route \<and> \<not> by_obfuscated2 env data route"
        using 1 obf2_long by (fastforce simp: by_bytes_def obfuscated2_iff find_None_iff contains_secret_iff split: if_splits)
      show ?thesis
      proof (cases "looks_like_tls_client_hello data")
        case False
        then show ?thesis using 1 2 no2
          by (auto simp: detect_def Let_def recognises_def ee_hello_iff partial_hello_iff)
      next
        case tls: True
        have rest: "?r = (case detect_ee env now d (try_client_hello_sni data) data of Some res \<Rightarrow> res
            | None \<Rightarrow> (case match_probable_ee_client_hello (ce_hex env) d data of
                 Some route \<Rightarrow> route_result (try_client_hello_sni data) route
               | None \<Rightarrow> detected_fallback (try_client_hello_sni data)))"
          using 1 2 tls by (simp add: detect_def Let_def)
        show ?thesis
        proof (cases "detect_ee env now d (try_client_hello_sni data) data")
          case (Some res)
          then obtain ch route sni where "parse_client_hello_record data = Inr ch" "res = route_result sni route"
              "route \<in> set (de_routes d)" "rb_mode route = Ee"
              "validate_client_hello (ce_hmac env) now ch (rb_secret route) = Inr ()"
            by (auto simp: detect_ee_def is_ok_iff dest!: find_Some_D split: sum.splits)
          then show ?thesis using rest Some tls by (auto simp: recognises_def ee_hello_iff)
        next
          case 3: None
          then have no3: "\<forall>route \<in> set (de_routes d). \<not> by_ee_hello env now data route"
            by (auto simp: detect_ee_def ee_hello_iff find_None_iff split: sum.splits)
          show ?thesis
            using rest 3 no2 no3 tls probable_route [of "ce_hex env" d data]
            by (cases "match_probable_ee_client_hello (ce_hex env) d data")
              (auto simp: recognises_def partial_hello_iff)
        qed
      qed
    qed
  qed
  then show ?thesis using mt fb by (metis traffic_type.distinct(1))
qed

text \<open>
  C17. The verdict, exactly, in terms of the bytes: a connection is taken for MTProto if and only if some configured
  route recognises its first bytes: the secret occurs in them; or the four bytes at 56, under the key stream
  of the secret and of the bytes 8 to 55, are one of the three tags; or they begin with a Handshake record with a
  ClientHello whose random is the HMAC, for an ee route, of the record with the random zeroed and a time at most
  120 seconds away; or they are a part of a ClientHello record of at least 1200 bytes while the first ee
  route has one of the domains (which the documentation excludes, \<open>partial_hello_is_mtproto\<close>). The label, mode, backend and limit it reports are then those
  of one configured route that recognises the bytes, and a fallback verdict carries none.
\<close>

theorem detect_exact:
  "(dt_type (detect env now d data) = Mtproto \<longleftrightarrow> (\<exists>route \<in> set (de_routes d). recognises env now d data route))
   \<and> (if dt_type (detect env now d data) = Mtproto
      then \<exists>route \<in> set (de_routes d). recognises env now d data route
         \<and> (\<exists>sni. detect env now d data = route_result sni route)
      else detect env now d data = detected_fallback (try_client_hello_sni data))"
  by (rule detect_verdict)

lemma from_routes_member:
  assumes "from_routes hx routes domains = Inr d" and "r \<in> set routes"
  obtains rb where "rb \<in> set (de_routes d)" "parse_route hx r = Inr rb"
proof -
  from assms(1) have "list_all2 (\<lambda>x y. parse_route hx x = Inr y) routes (de_routes d)"
    by (auto simp: from_routes_def try_map_Inr_iff split: if_splits)
  moreover obtain i where "i < length routes" "r = routes ! i" using assms(2) by (auto simp: in_set_conv_nth)
  ultimately show thesis using that [of "de_routes d ! i"] by (auto simp: list_all2_conv_all_nth)
qed

lemma decoded_length:
  assumes "hex_laws hx" and "decode_secret hx s = Inr key"
  shows "length key = 16"
proof -
  obtain c where "secret_core_hex s = Inr c" using assms(2) by (auto simp: decode_secret_def)
  from decode_core [OF assms(1) this] show ?thesis using assms(2) by auto
qed

text \<open>A handshake made with the key of a route is recognised, whatever follows it.\<close>

lemma handshake_detected:
  assumes "hex_laws (ce_hex env)" and "from_routes (ce_hex env) routes domains = Inr d" and "r \<in> set routes"
    and "decode_secret (ce_hex env) (sr_secret r) = Inr key"
    and "list_all (\<lambda>x. length x = 64) draws" and "is_valid_proto_tag tag"
    and "generate_test_handshake (ce_sha env) (ce_ks env) draws key dc tag = Some h"
  shows "dt_type (detect env now d (h @ rest)) = Mtproto"
proof -
  obtain rb where rb: "rb \<in> set (de_routes d)" "parse_route (ce_hex env) r = Inr rb"
    using from_routes_member [OF assms(2,3)] .
  have key: "rb_secret rb = key" using rb(2) assms(4) by (auto simp: parse_route_def)
  have l: "length key = 16" by (rule decoded_length [OF assms(1,4)])
  note s = test_handshake_says [OF assms(7,5,6)]
  have "parse_handshake (ce_sha env) (ce_ks env) h key \<noteq> None"
    using assms(6) s l by (simp add: parse_handshake_alt [OF s(1)] Let_def)
  then have "matches_obfuscated2 (ce_sha env) (ce_ks env) (h @ rest) key"
    using s(1) l by (simp add: matches_obfuscated2_def handshake_len_def)
  then have "recognises env now d (h @ rest) rb" by (simp add: recognises_def obfuscated2_iff key)
  then show ?thesis using detect_verdict rb(1) by blast
qed

text \<open>
  C16. Clients of a configured secret are recognised, end to end: for every route the detector was built
  from, an obfuscated2 handshake made with its decoded key (any data centre, any valid tag, any bytes
  after it) is MTProto, and if the route is an ee route so is a ClientHello signed with the key, for any
  SNI, while the clocks differ by at most 120 seconds.
\<close>

theorem configured_client_detected:
  assumes "hex_laws (ce_hex env)" and "hmac_law (ce_hmac env)"
    and "from_routes (ce_hex env) routes domains = Inr d" and "r \<in> set routes"
    and "decode_secret (ce_hex env) (sr_secret r) = Inr key"
    and "list_all (\<lambda>x. length x = 64) draws" and "is_valid_proto_tag tag"
    and "generate_test_handshake (ce_sha env) (ce_ks env) draws key dc tag = Some h"
    and "is_rust_str sni" and "length sni \<le> 65000" and "unat t < 2 ^ 32" and "unat now < 2 ^ 63"
    and "\<bar>int (unat t) - int (unat now)\<bar> \<le> 120"
  shows "dt_type (detect env now d (h @ rest)) = Mtproto
    \<and> (sr_mode r = Ee \<longrightarrow> (\<exists>data. build_signed_client_hello (ce_hmac env) t sni key = Some data
         \<and> dt_type (detect env now d data) = Mtproto))"
proof -
  obtain rb where rb: "rb \<in> set (de_routes d)" "parse_route (ce_hex env) r = Inr rb"
    using from_routes_member [OF assms(3,4)] .
  have key: "rb_secret rb = key" "rb_mode rb = sr_mode r" using rb(2) assms(5) by (auto simp: parse_route_def)
  have 1: "dt_type (detect env now d (h @ rest)) = Mtproto" by (rule handshake_detected [OF assms(1,3-8)])
  moreover have "\<exists>data. build_signed_client_hello (ce_hmac env) t sni key = Some data
         \<and> dt_type (detect env now d data) = Mtproto" if "sr_mode r = Ee"
  proof -
    obtain data ch where d: "build_signed_client_hello (ce_hmac env) t sni key = Some data"
        "parse_client_hello_record data = Inr ch" "looks_like_tls_client_hello data"
        "validate_client_hello (ce_hmac env) now ch key = Inr ()"
      using signed_hello_checks [OF assms(2,9-12), of key] assms(13) by blast
    then have "recognises env now d data rb" using that by (simp add: recognises_def ee_hello_iff key)
    then show ?thesis using d(1) detect_verdict rb(1) by blast
  qed
  ultimately show ?thesis by blast
qed

definition toy_env :: crypto_env where
  "toy_env = \<lparr>ce_hex = base16, ce_sha = toy_sha, ce_ks = toy_ks, ce_hmac = toy_hmac\<rparr>"

definition toy_route :: secret_route where
  "toy_route = \<lparr>sr_label = ''default'', sr_secret = ''ee0123456789abcdef0123456789abcdef'', sr_mode = Ee,
     sr_backend = ''10.0.0.1:443'', sr_max_connections = 0\<rparr>"

lemma configured_client_detected_witness:
  "\<exists>d key data. from_routes base16 [toy_route] [''a.io''] = Inr d
     \<and> build_signed_client_hello toy_hmac 1000 ''a.io'' key = Some data \<and> dt_type (detect toy_env 1100 d data) = Mtproto"
proof -
  have "secret_core_hex (sr_secret toy_route) \<noteq> Inl e" for e by code_simp
  then obtain c where "secret_core_hex (sr_secret toy_route) = Inr c" by (metis sum.exhaust)
  from decode_core [OF hex_laws_base16 this]
  obtain key where key: "decode_secret base16 (sr_secret toy_route) = Inr key" "length key = 16" by blast
  then obtain d where d: "from_routes base16 [toy_route] [''a.io''] = Inr d"
    by (simp add: from_routes_def parse_route_def)
  have n: "draw_nonce [toy_nonce] = Some toy_nonce" by code_simp
  then obtain h where h: "generate_test_handshake toy_sha toy_ks [toy_nonce] key 2 proto_tag_secure = Some h"
    by (simp add: generate_test_handshake_def)
  have u: "is_rust_str ''a.io''" by code_simp
  have v: "is_valid_proto_tag proto_tag_secure" by (simp add: is_valid_proto_tag_def)
  have ln: "list_all (\<lambda>x. length x = 64) [toy_nonce]" by (simp add: toy_nonce_def)
  have "sr_mode toy_route = Ee \<longrightarrow> (\<exists>data. build_signed_client_hello (ce_hmac toy_env) 1000 ''a.io'' key = Some data
         \<and> dt_type (detect toy_env 1100 d data) = Mtproto)"
    by (rule configured_client_detected [of toy_env "[toy_route]" "[''a.io'']" d toy_route key "[toy_nonce]" proto_tag_secure 2 h
          "''a.io''" 1000 1100, THEN conjunct2])
      (use key d h u v ln hex_laws_base16 hmac_law_toy in \<open>simp_all add: toy_env_def\<close>)
  then show ?thesis using d by (auto simp: toy_env_def toy_route_def)
qed

text \<open>
  The documentation says that a ClientHello without a valid ee HMAC never reaches MTProto; a client that
  has sent the first bytes of a large record does.
\<close>

lemma partial_hello_is_mtproto:
  "\<exists>d. from_routes base16 [toy_route] [''a.io''] = Inr d
     \<and> dt_type (detect toy_env 0 d [0x16, 3, 1, 0x06, 0, 1]) = Mtproto"
proof -
  have "secret_core_hex (sr_secret toy_route) \<noteq> Inl e" for e by code_simp
  then obtain c where "secret_core_hex (sr_secret toy_route) = Inr c" by (metis sum.exhaust)
  from decode_core [OF hex_laws_base16 this]
  obtain key where key: "decode_secret base16 (sr_secret toy_route) = Inr key" by blast
  let ?rb = "\<lparr>rb_label = ''default'', rb_secret = key, rb_secret_hex = sr_secret toy_route, rb_mode = Ee,
     rb_backend = ''10.0.0.1:443'', rb_max = 0\<rparr>"
  let ?d = "\<lparr>de_routes = [?rb], de_fake_domains = [''a.io'']\<rparr>"
  have d: "from_routes base16 [toy_route] [''a.io''] = Inr ?d"
    using key by (simp add: from_routes_def parse_route_def toy_route_def)
  have dom: "secret_embedded_domain base16 (sr_secret toy_route) = None" by code_simp
  have len: "tls_record_total_len [0x16, 3, 1, 0x06, 0, 1] = Some 1541"
    by (simp add: tls_record_total_len_def record_type_of_def usize_checked_add_def be16_def)
  have "match_probable_ee_client_hello base16 ?d [0x16, 3, 1, 0x06, 0, 1] = Some ?rb"
    using dom len by (simp add: match_probable_ee_client_hello_def)
  moreover have "looks_like_tls_client_hello [0x16, 3, 1, 0x06, 0, 1]"
    by (simp add: looks_like_tls_client_hello_def record_type_of_def be16_def)
  ultimately have "recognises toy_env 0 ?d [0x16, 3, 1, 0x06, 0, 1] ?rb"
    by (simp add: recognises_def partial_hello_iff toy_env_def)
  then show ?thesis using d detect_verdict [of toy_env 0 ?d "[0x16, 3, 1, 0x06, 0, 1]"] by auto
qed

end
