(* ===== verification/Sgfb_Crypto.thy ===== *)
theory Sgfb_Crypto
  imports Io_Streams
begin

text \<open>
  The encrypted relay between a front and a back server, \<^verbatim>\<open>src/sgfb_crypto.rs\<close>: key derivation, the
  sealing and opening of frames with counter nonces, and \<^verbatim>\<open>EncryptedStream\<close> over a socket. SHA-256
  and ChaCha20-Poly1305 are parameters; \<open>aead_laws\<close> states what the code relies on. \<^verbatim>\<open>header_buf\<close> with
  \<^verbatim>\<open>header_filled\<close> and \<^verbatim>\<open>frame_buf\<close> with \<^verbatim>\<open>frame_filled\<close> are the lists of the bytes filled so far.
\<close>

section \<open>Keys and nonces\<close>

record aead =
  ae_seal :: "bytes \<Rightarrow> bytes \<Rightarrow> bytes \<Rightarrow> bytes option"
  ae_open :: "bytes \<Rightarrow> bytes \<Rightarrow> bytes \<Rightarrow> bytes option"

definition aead_laws :: "aead \<Rightarrow> bool" where
  "aead_laws A \<longleftrightarrow> (\<forall>k n p. length p \<le> 65536 \<longrightarrow>
     (\<exists>c. ae_seal A k n p = Some c \<and> length c = length p + 16 \<and> ae_open A k n c = Some p))"

definition protocol_version_plain :: u8 where "protocol_version_plain = 1"
definition protocol_version_encrypted :: u8 where "protocol_version_encrypted = 2"
definition max_frame_plain :: nat where "max_frame_plain = 16384"
definition max_frame_cipher :: nat where "max_frame_cipher = max_frame_plain + 16"

record session_keys =
  client_to_server :: bytes
  server_to_client :: bytes

definition derive_session_keys :: "(bytes \<Rightarrow> bytes) \<Rightarrow> string \<Rightarrow> bytes \<Rightarrow> session_keys" where
  "derive_session_keys sha auth_token opening_frame =
     (let frame_hash = sha opening_frame in
      \<lparr>client_to_server = sha (as_bytes ''SGFB-v2-c2s'' @ as_bytes auth_token @ frame_hash),
       server_to_client = sha (as_bytes ''SGFB-v2-s2c'' @ as_bytes auth_token @ frame_hash)\<rparr>)"

record dir_cipher =
  dc_key :: bytes
  dc_nonce :: u64

definition dir_cipher_new :: "bytes \<Rightarrow> dir_cipher" where
  "dir_cipher_new key = \<lparr>dc_key = key, dc_nonce = 0\<rparr>"

definition build_nonce :: "u64 \<Rightarrow> bytes" where
  "build_nonce counter = replicate 4 0 @ u64_be counter"

definition saturating_succ :: "u64 \<Rightarrow> u64" where
  "saturating_succ w = (if w = - 1 then w else w + 1)"

definition seal :: "aead \<Rightarrow> dir_cipher \<Rightarrow> bytes \<Rightarrow> bytes result \<times> dir_cipher" where
  "seal A c plaintext =
     (ok_or (Proxy ''SGFB encrypt'') (ae_seal A (dc_key c) (build_nonce (dc_nonce c)) plaintext),
      c\<lparr>dc_nonce := saturating_succ (dc_nonce c)\<rparr>)"

definition open_frame :: "aead \<Rightarrow> dir_cipher \<Rightarrow> bytes \<Rightarrow> bytes result \<times> dir_cipher" where
  "open_frame A c ciphertext =
     (ok_or (Proxy ''SGFB decrypt'') (ae_open A (dc_key c) (build_nonce (dc_nonce c)) ciphertext),
      c\<lparr>dc_nonce := saturating_succ (dc_nonce c)\<rparr>)"

section \<open>The stream\<close>

record enc_stream =
  es_inner :: wire
  es_enc :: dir_cipher
  es_dec :: dir_cipher
  es_read_buf :: bytes
  es_pending_plain :: bytes
  es_header :: bytes
  es_frame_len :: "nat option"
  es_frame :: bytes
  es_write_pending :: bytes

definition enc_stream_new :: "wire \<Rightarrow> dir_cipher \<Rightarrow> dir_cipher \<Rightarrow> enc_stream" where
  "enc_stream_new inner enc dec = \<lparr>es_inner = inner, es_enc = enc, es_dec = dec, es_read_buf = [],
     es_pending_plain = [], es_header = [], es_frame_len = None, es_frame = [], es_write_pending = []\<rparr>"

definition client_side :: "wire \<Rightarrow> session_keys \<Rightarrow> enc_stream" where
  "client_side inner keys =
     enc_stream_new inner (dir_cipher_new (client_to_server keys)) (dir_cipher_new (server_to_client keys))"

definition server_side :: "wire \<Rightarrow> session_keys \<Rightarrow> enc_stream" where
  "server_side inner keys =
     enc_stream_new inner (dir_cipher_new (server_to_client keys)) (dir_cipher_new (client_to_server keys))"

text \<open>How one part of \<^verbatim>\<open>poll_read\<close> ends: with an answer, or going on.\<close>

type_synonym enc_answer = "(io_kind + bytes) poll option"

text \<open>The header, a byte at a time.\<close>

function read_header :: "enc_stream \<Rightarrow> enc_answer \<times> enc_stream" where
  "read_header s =
     (if length (es_header s) < 2 then
        (case wire_read 1 (es_inner s) of
           (Ready (Inr bs), i) \<Rightarrow>
             if bs = [] then
               (if es_header s \<noteq> [] then (Some (Ready (Inl UnexpectedEof)), s\<lparr>es_inner := i\<rparr>)
                else (Some (Ready (Inr [])), s\<lparr>es_inner := i\<rparr>))
             else read_header (s\<lparr>es_inner := i, es_header := es_header s @ [bs ! 0]\<rparr>)
         | (Ready (Inl k), i) \<Rightarrow> (Some (Ready (Inl k)), s\<lparr>es_inner := i\<rparr>)
         | (Pending, i) \<Rightarrow> (Some Pending, s\<lparr>es_inner := i\<rparr>))
      else (None, s))"
  by pat_completeness auto
termination by (relation "measure (\<lambda>s. 2 - length (es_header s))") auto

declare read_header.simps [simp del]

definition start_frame :: "enc_stream \<Rightarrow> enc_answer \<times> enc_stream" where
  "start_frame s =
     (case es_frame_len s of
        Some _ \<Rightarrow> (None, s)
      | None \<Rightarrow>
          (case read_header s of
             (Some r, s1) \<Rightarrow> (Some r, s1)
           | (None, s1) \<Rightarrow>
               let len = be16 (es_header s1 ! 0) (es_header s1 ! 1); s2 = s1\<lparr>es_header := []\<rparr> in
               if len = 0 \<or> max_frame_cipher < len then (Some (Ready (Inl InvalidData)), s2)
               else (None, s2\<lparr>es_frame_len := Some len, es_frame := []\<rparr>)))"

definition read_body :: "enc_stream \<Rightarrow> enc_answer \<times> enc_stream" where
  "read_body s =
     (let needed = the (es_frame_len s) in
      if length (es_frame s) < needed then
        (case wire_read (min (needed - length (es_frame s)) 1024) (es_inner s) of
           (Ready (Inr bs), i) \<Rightarrow>
             if bs = [] then
               (if es_frame s \<noteq> [] then (Some (Ready (Inl UnexpectedEof)), s\<lparr>es_inner := i\<rparr>)
                else (Some (Ready (Inr [])), s\<lparr>es_inner := i\<rparr>))
             else let s1 = s\<lparr>es_inner := i, es_frame := es_frame s @ bs\<rparr> in
               if length (es_frame s1) < needed then (Some Pending, s1) else (None, s1)
         | (Ready (Inl k), i) \<Rightarrow> (Some (Ready (Inl k)), s\<lparr>es_inner := i\<rparr>)
         | (Pending, i) \<Rightarrow> (Some Pending, s\<lparr>es_inner := i\<rparr>))
      else (None, s))"

lemma read_body_shape:
  assumes "read_body s = (x, s1)"
  shows "length (es_frame s) \<ge> the (es_frame_len s) \<and> x = None \<and> s1 = s
    \<or> (\<exists>r i. length (es_frame s) < the (es_frame_len s)
        \<and> wire_read (min (the (es_frame_len s) - length (es_frame s)) 1024) (es_inner s) = (r, i)
        \<and> (polled r = [] \<and> s1 = s\<lparr>es_inner := i\<rparr> \<and> (\<exists>q. x = Some q \<and> polled q = [] \<and> (q = Pending \<longrightarrow> r = Pending))
           \<or> polled r \<noteq> [] \<and> s1 = s\<lparr>es_inner := i, es_frame := es_frame s @ polled r\<rparr> \<and> (x = None \<or> x = Some Pending)))"
proof (cases "length (es_frame s) < the (es_frame_len s)")
  case False
  then show ?thesis using assms by (simp add: read_body_def)
next
  case True
  obtain r i where w: "wire_read (min (the (es_frame_len s) - length (es_frame s)) 1024) (es_inner s) = (r, i)" by fastforce
  show ?thesis
  proof (cases "polled r = []")
    case none: True
    then have "s1 = s\<lparr>es_inner := i\<rparr> \<and> (\<exists>q. x = Some q \<and> polled q = [] \<and> (q = Pending \<longrightarrow> r = Pending))"
      using assms True w by (cases r rule: polled.cases; cases "es_frame s = []") (auto simp: read_body_def Let_def)
    then show ?thesis using True w none by blast
  next
    case False
    then obtain bs where bs: "r = Ready (Inr bs)" "bs \<noteq> []" by (cases r rule: polled.cases) auto
    then have "s1 = s\<lparr>es_inner := i, es_frame := es_frame s @ polled r\<rparr> \<and> (x = None \<or> x = Some Pending)"
      using assms True w by (auto simp: read_body_def Let_def split: if_splits)
    then show ?thesis using True w False by blast
  qed
qed

text \<open>The branch for an empty \<^verbatim>\<open>read_buf\<close>.\<close>

definition next_frame :: "aead \<Rightarrow> enc_stream \<Rightarrow> enc_answer \<times> enc_stream" where
  "next_frame A s =
     (case start_frame s of
        (Some r, s1) \<Rightarrow> (Some r, s1)
      | (None, s1) \<Rightarrow>
          (case read_body s1 of
             (Some r, s2) \<Rightarrow> (Some r, s2)
           | (None, s2) \<Rightarrow>
               (case open_frame A (es_dec s2) (es_frame s2) of (res, dec) \<Rightarrow>
                  let s3 = s2\<lparr>es_frame := [], es_frame_len := None, es_dec := dec\<rparr> in
                  (case res of
                     Inr plain \<Rightarrow> (None, s3\<lparr>es_read_buf := plain\<rparr>)
                   | Inl _ \<Rightarrow> (Some (Ready (Inl InvalidData)), s3)))))"

definition enc_size :: "enc_stream \<Rightarrow> nat" where
  "enc_size s = script_size (wi_in (es_inner s))"

lemma wire_read_size:
  "wire_read n w = (r, w1) \<Longrightarrow> script_size (wi_in w1) \<le> script_size (wi_in w)
     \<and> (\<forall>bs. r = Ready (Inr bs) \<longrightarrow> bs \<noteq> [] \<longrightarrow> script_size (wi_in w1) < script_size (wi_in w))"
  by (cases "wi_in w" rule: script_size.cases) (auto simp: wire_read_def split: if_splits)

lemma read_header_size: "read_header s = (x, s1) \<Longrightarrow> enc_size s1 \<le> enc_size s \<and> es_frame_len s1 = es_frame_len s"
proof (induction s rule: read_header.induct)
  case (1 s)
  obtain r i where w: "wire_read 1 (es_inner s) = (r, i)" by fastforce
  note ws = wire_read_size [OF w]
  show ?case
  proof (cases "length (es_header s) < 2 \<and> (\<exists>bs. r = Ready (Inr bs) \<and> bs \<noteq> [])")
    case True
    then obtain bs where bs: "r = Ready (Inr bs)" "bs \<noteq> []" by blast
    have "read_header (s\<lparr>es_inner := i, es_header := es_header s @ [bs ! 0]\<rparr>) = (x, s1)"
      using "1.prems" True w bs by (simp add: read_header.simps [of s])
    from "1.IH" [OF _ w [symmetric] bs(1) refl bs(2) this] True ws bs show ?thesis by (auto simp: enc_size_def)
  next
    case False
    with "1.prems" w ws show ?thesis
      by (auto simp: read_header.simps [of s] enc_size_def split: if_splits poll.splits sum.splits)
  qed
qed

lemma next_frame_size:
  assumes "next_frame A s = (None, s1)"
  shows "es_frame_len s1 = None \<and> (enc_size s1 < enc_size s \<or> enc_size s1 = enc_size s \<and> es_frame_len s \<noteq> None)"
proof -
  obtain x s2 where st: "start_frame s = (x, s2)" by fastforce
  with assms have x: "x = None" by (auto simp: next_frame_def split: option.splits)
  obtain y s3 where bd: "read_body s2 = (y, s3)" by fastforce
  with assms st x have y: "y = None" by (auto simp: next_frame_def split: option.splits)
  have e: "es_frame_len s1 = None" "enc_size s1 = enc_size s3"
    using assms st bd x y by (auto simp: next_frame_def Let_def enc_size_def split: prod.splits sum.splits)
  have s2: "enc_size s2 \<le> enc_size s" "es_frame_len s = None \<Longrightarrow> \<exists>len. es_frame_len s2 = Some len \<and> 0 < len \<and> es_frame s2 = []"
    using st x read_header_size [of s]
    by (auto simp: start_frame_def Let_def enc_size_def split: option.splits prod.splits if_splits)
  obtain r i where w: "wire_read (min (the (es_frame_len s2) - length (es_frame s2)) 1024) (es_inner s2) = (r, i)" by fastforce
  note ws = wire_read_size [OF w]
  have "enc_size s3 \<le> enc_size s2" "length (es_frame s2) < the (es_frame_len s2) \<Longrightarrow> enc_size s3 < enc_size s2"
    using bd y w ws by (auto simp: read_body_def Let_def enc_size_def split: if_splits poll.splits sum.splits)
  then show ?thesis using e s2 by fastforce
qed

text \<open>\<^verbatim>\<open>poll_read\<close> with room for \<open>n\<close> bytes.\<close>

function enc_poll_read :: "aead \<Rightarrow> nat \<Rightarrow> enc_stream \<Rightarrow> (io_kind + bytes) poll \<times> enc_stream" where
  "enc_poll_read A n s =
     (if es_pending_plain s \<noteq> [] then
        (if n = 0 then (Pending, s)
         else (Ready (Inr (take n (es_pending_plain s))), s\<lparr>es_pending_plain := drop n (es_pending_plain s)\<rparr>))
      else if es_read_buf s = [] then
        (case next_frame A s of (Some r, s1) \<Rightarrow> (r, s1) | (None, s1) \<Rightarrow> enc_poll_read A n s1)
      else if n = 0 then (Pending, s)
      else (Ready (Inr (take n (es_read_buf s))), s\<lparr>es_read_buf := drop n (es_read_buf s)\<rparr>))"
  by pat_completeness auto
termination
proof (relation "inv_image (measures [enc_size, \<lambda>s. if es_frame_len s = None then 0 else 1]) (\<lambda>(A, n, s). s)", goal_cases)
  case 1
  show ?case by simp
next
  case (2 A n s x s1)
  then show ?case using next_frame_size [of A s s1] by (auto simp: measures_def)
qed

declare enc_poll_read.simps [simp del]

text \<open>
  The loop of \<^verbatim>\<open>drain_write_pending\<close>: each round either returns or leaves nothing pending, so it is
  one round.
\<close>

definition drain_write_pending :: "enc_stream \<Rightarrow> (io_kind + unit) poll \<times> enc_stream" where
  "drain_write_pending s =
     (if es_write_pending s = [] then (Ready (Inr ()), s)
      else (case wire_write (es_write_pending s) (es_inner s) of
          (Ready (Inr n), i) \<Rightarrow>
            if n = 0 then (Ready (Inl WriteZero), s\<lparr>es_inner := i\<rparr>)
            else if n < length (es_write_pending s)
              then (Pending, s\<lparr>es_inner := i, es_write_pending := drop n (es_write_pending s)\<rparr>)
            else (Ready (Inr ()), s\<lparr>es_inner := i, es_write_pending := []\<rparr>)
        | (Ready (Inl k), i) \<Rightarrow> (Ready (Inl k), s\<lparr>es_inner := i\<rparr>)
        | (Pending, i) \<Rightarrow> (Pending, s\<lparr>es_inner := i\<rparr>)))"

definition enc_poll_write :: "aead \<Rightarrow> enc_stream poll_write_fun" where
  "enc_poll_write A buf s =
     (case drain_write_pending s of
        (Pending, s1) \<Rightarrow> (Pending, s1)
      | (Ready (Inl k), s1) \<Rightarrow> (Ready (Inl k), s1)
      | (Ready (Inr _), s1) \<Rightarrow>
          if buf = [] then (Ready (Inr 0), s1)
          else let chunk_end = min (length buf) max_frame_plain; chunk = take chunk_end buf in
            (case seal A (es_enc s1) chunk of
               (Inl _, enc) \<Rightarrow> (Ready (Inl InvalidData), s1\<lparr>es_enc := enc\<rparr>)
             | (Inr ciphertext, enc) \<Rightarrow>
                 let frame = u16_be (length ciphertext) @ ciphertext;
                     s2 = s1\<lparr>es_enc := enc, es_write_pending := frame\<rparr>
                 in (case drain_write_pending s2 of
                       (Ready (Inr _), s3) \<Rightarrow> (Ready (Inr chunk_end), s3)
                     | (Ready (Inl k), s3) \<Rightarrow> (Ready (Inl k), s3)
                     | (Pending, s3) \<Rightarrow> (Pending, s3))))"

section \<open>What the reader delivers\<close>

text \<open>The frames a peer sends for a sequence of plaintexts.\<close>

definition frame_of :: "bytes \<Rightarrow> bytes" where
  "frame_of x = u16_be (length x) @ x"

fun sealed :: "aead \<Rightarrow> dir_cipher \<Rightarrow> bytes list \<Rightarrow> bytes" where
  "sealed A c [] = []"
| "sealed A c (p # ps) = (case seal A c p of (Inr x, c1) \<Rightarrow> frame_of x @ sealed A c1 ps | (Inl _, c1) \<Rightarrow> [])"

definition plain_ok :: "bytes \<Rightarrow> bool" where
  "plain_ok p \<longleftrightarrow> length p \<le> max_frame_plain"

lemma seal_open:
  assumes "aead_laws A" and "plain_ok p"
  obtains x where "seal A c p = (Inr x, c\<lparr>dc_nonce := saturating_succ (dc_nonce c)\<rparr>)" "length x = length p + 16"
    "open_frame A c x = (Inr p, c\<lparr>dc_nonce := saturating_succ (dc_nonce c)\<rparr>)"
proof -
  have "length p \<le> 65536" using assms(2) by (simp add: plain_ok_def max_frame_plain_def)
  then obtain x where "ae_seal A (dc_key c) (build_nonce (dc_nonce c)) p = Some x" "length x = length p + 16"
      "ae_open A (dc_key c) (build_nonce (dc_nonce c)) x = Some p"
    using assms(1) unfolding aead_laws_def by blast
  then show thesis by (intro that [of x]) (simp_all add: seal_def open_frame_def)
qed

lemma sealed_Cons:
  assumes "aead_laws A" and "plain_ok p"
  obtains x where "sealed A c (p # ps) = frame_of x @ sealed A (c\<lparr>dc_nonce := saturating_succ (dc_nonce c)\<rparr>) ps"
    "length x = length p + 16" "open_frame A c x = (Inr p, c\<lparr>dc_nonce := saturating_succ (dc_nonce c)\<rparr>)"
proof -
  obtain x where "seal A c p = (Inr x, c\<lparr>dc_nonce := saturating_succ (dc_nonce c)\<rparr>)" "length x = length p + 16"
    "open_frame A c x = (Inr p, c\<lparr>dc_nonce := saturating_succ (dc_nonce c)\<rparr>)"
    using seal_open [OF assms] by metis
  then show thesis using that by simp
qed

text \<open>
  \<open>owes_enc A s d\<close>: the socket still brings frames whose plaintexts, after what is decrypted already,
  are \<open>d\<close>; the header or the body of the first frame may be partly read.
\<close>

definition between_frames :: "aead \<Rightarrow> enc_stream \<Rightarrow> bytes \<Rightarrow> bytes list \<Rightarrow> bool" where
  "between_frames A s data ps \<longleftrightarrow> es_frame_len s = None \<and> length (es_header s) < 2
     \<and> es_header s @ data = sealed A (es_dec s) ps"

definition inside_frame :: "aead \<Rightarrow> enc_stream \<Rightarrow> bytes \<Rightarrow> bytes list \<Rightarrow> bool" where
  "inside_frame A s data ps \<longleftrightarrow> es_header s = [] \<and> (\<exists>p qs x c. ps = p # qs \<and> es_frame_len s = Some (length x)
     \<and> length (es_frame s) < length x \<and> open_frame A (es_dec s) x = (Inr p, c)
     \<and> es_frame s @ data = x @ sealed A c qs)"

definition owes_enc :: "aead \<Rightarrow> enc_stream \<Rightarrow> bytes \<Rightarrow> bool" where
  "owes_enc A s d \<longleftrightarrow> es_pending_plain s = [] \<and> (\<exists>data ps. owes_wire (es_inner s) data \<and> list_all plain_ok ps
     \<and> d = es_read_buf s @ concat ps \<and> (between_frames A s data ps \<or> inside_frame A s data ps))"

lemma read_header_owes:
  "owes_wire (es_inner s) data \<Longrightarrow> length (es_header s) \<le> 2 \<Longrightarrow>
   read_header s = (x, s1) \<Longrightarrow>
   \<exists>data1 i h. s1 = s\<lparr>es_inner := i, es_header := h\<rparr> \<and> owes_wire i data1 \<and> h @ data1 = es_header s @ data
     \<and> (case x of None \<Rightarrow> length h = 2
        | Some r \<Rightarrow> length h < 2 \<and> polled r = [] \<and> (r = Ready (Inr []) \<longrightarrow> es_header s @ data = []))"
proof (induction s arbitrary: data rule: read_header.induct)
  case (1 s)
  obtain r i where w: "wire_read 1 (es_inner s) = (r, i)" by fastforce
  obtain d1 where d1: "owes_wire i d1" "data = polled r @ d1" "r = Ready (Inr []) \<longrightarrow> data = []" "length (polled r) \<le> 1"
    using wire_source.poll_delivers [OF "1.prems"(1) _ w] by auto
  show ?case
  proof (cases "length (es_header s) < 2")
    case False
    with "1.prems" show ?thesis
      by (intro exI [of _ data] exI [of _ "es_inner s"] exI [of _ "es_header s"]) (auto simp: read_header.simps [of s])
  next
    case short: True
    show ?thesis
    proof (cases "\<exists>b bs. r = Ready (Inr (b # bs))")
      case False
      have pr: "polled r = []" using False by (cases r rule: polled.cases) (auto, metis list.exhaust)
      have "x = (if r = Ready (Inr []) then Some (if es_header s \<noteq> [] then Ready (Inl UnexpectedEof) else r) else Some r)"
          "s1 = s\<lparr>es_inner := i\<rparr>"
        using "1.prems"(3) w short False
        by (auto simp: read_header.simps [of s] neq_Nil_conv split: poll.splits sum.splits if_splits)
      moreover have "d1 = data" using d1(2) pr by simp
      ultimately show ?thesis using d1 pr short
        by (intro exI [of _ d1] exI [of _ i] exI [of _ "es_header s"]) (cases "r = Ready (Inr [])"; simp)
    next
      case True
      then obtain b where b: "r = Ready (Inr [b])" using d1(4) by (auto simp: neq_Nil_conv)
      let ?s = "s\<lparr>es_inner := i, es_header := es_header s @ [b]\<rparr>"
      have rec: "read_header ?s = (x, s1)" using "1.prems"(3) w short b by (simp add: read_header.simps [of s])
      have eq: "es_header ?s @ d1 = es_header s @ data" using d1(2) b by simp
      have l2: "length (es_header ?s) \<le> 2" using short by simp
      have o: "owes_wire (es_inner ?s) d1" using d1(1) by simp
      have ne: "[b] \<noteq> []" by simp
      have "\<exists>data1 i h. s1 = ?s\<lparr>es_inner := i, es_header := h\<rparr> \<and> owes_wire i data1 \<and> h @ data1 = es_header ?s @ d1
         \<and> (case x of None \<Rightarrow> length h = 2
            | Some r \<Rightarrow> length h < 2 \<and> polled r = [] \<and> (r = Ready (Inr []) \<longrightarrow> es_header ?s @ d1 = []))"
        by (rule "1.IH" [OF short w [symmetric] b refl ne, unfolded nth_Cons_0, OF o l2 rec])
      then show ?thesis unfolding eq by simp
    qed
  qed
qed

lemma short_prefix:
  assumes "a @ b = x @ y" and "length a < length x"
  shows "b \<noteq> []" "\<exists>z. x = a @ z \<and> b = z @ y \<and> z \<noteq> []"
  using assms by (auto simp: append_eq_append_conv2)

lemma start_frame_owes:
  assumes "aead_laws A" and "list_all plain_ok ps" and "owes_wire (es_inner s) data" and "between_frames A s data ps"
    and "start_frame s = (x, s1)"
  shows "\<exists>data1. owes_wire (es_inner s1) data1 \<and> es_read_buf s1 = es_read_buf s \<and> es_pending_plain s1 = es_pending_plain s
    \<and> (case x of None \<Rightarrow> inside_frame A s1 data1 ps
       | Some r \<Rightarrow> between_frames A s1 data1 ps \<and> polled r = [] \<and> (r = Ready (Inr []) \<longrightarrow> ps = []))"
proof -
  have b: "es_frame_len s = None" "length (es_header s) < 2" "es_header s @ data = sealed A (es_dec s) ps"
    using assms(4) by (auto simp: between_frames_def)
  obtain y s2 where rh: "read_header s = (y, s2)" by fastforce
  have shape: "sealed A (es_dec s) ps = [] \<and> ps = [] \<or> 2 \<le> length (sealed A (es_dec s) ps) \<and> ps \<noteq> []"
  proof (cases ps)
    case (Cons p qs)
    then obtain z where "sealed A (es_dec s) ps = frame_of z @ sealed A (es_dec s\<lparr>dc_nonce := saturating_succ (dc_nonce (es_dec s))\<rparr>) qs"
      using sealed_Cons [OF assms(1), of p "es_dec s" qs] assms(2) by auto
    then show ?thesis using Cons by (simp add: frame_of_def)
  qed simp
  from read_header_owes [OF assms(3) _ rh] b(2)
  obtain data1 i h where h: "s2 = s\<lparr>es_inner := i, es_header := h\<rparr>" "owes_wire i data1" "h @ data1 = es_header s @ data"
      "case y of None \<Rightarrow> length h = 2
        | Some r \<Rightarrow> length h < 2 \<and> polled r = [] \<and> (r = Ready (Inr []) \<longrightarrow> es_header s @ data = [])"
    by auto
  show ?thesis
  proof (cases y)
    case (Some r)
    then have "x = Some r" "s1 = s2" using assms(5) rh b(1) by (auto simp: start_frame_def)
    then show ?thesis using h Some b shape by (auto simp: between_frames_def intro!: exI [of _ data1])
  next
    case None
    then obtain p qs where ps: "ps = p # qs" using h shape b(3) by (cases ps) auto
    obtain z where z: "sealed A (es_dec s) ps = frame_of z @ sealed A (es_dec s\<lparr>dc_nonce := saturating_succ (dc_nonce (es_dec s))\<rparr>) qs"
        "length z = length p + 16" "open_frame A (es_dec s) z = (Inr p, es_dec s\<lparr>dc_nonce := saturating_succ (dc_nonce (es_dec s))\<rparr>)"
      using sealed_Cons [OF assms(1), of p "es_dec s" qs] assms(2) ps by auto
    have lz: "length z \<le> max_frame_cipher" "0 < length z" "length z < 65536"
      using z(2) assms(2) ps by (auto simp: plain_ok_def max_frame_cipher_def max_frame_plain_def)
    have "h @ data1 = u16_be (length z) @ z @ sealed A (es_dec s\<lparr>dc_nonce := saturating_succ (dc_nonce (es_dec s))\<rparr>) qs"
      using h(3) b(3) z(1) by (simp add: frame_of_def)
    then have hz: "h = u16_be (length z)" "data1 = z @ sealed A (es_dec s\<lparr>dc_nonce := saturating_succ (dc_nonce (es_dec s))\<rparr>) qs"
      using h(4) None by (auto simp: append_eq_append_conv)
    have "be16 (h ! 0) (h ! 1) = length z" using lz(3) by (simp add: hz u16_be_def be16_u8_of)
    then have "x = None" "s1 = s2\<lparr>es_header := [], es_frame_len := Some (length z), es_frame := []\<rparr>"
      using assms(5) rh b(1) None h(1) lz by (auto simp: start_frame_def Let_def)
    moreover have "inside_frame A (s2\<lparr>es_header := [], es_frame_len := Some (length z), es_frame := []\<rparr>) data1 ps"
      unfolding inside_frame_def
      by (intro conjI exI [of _ p] exI [of _ qs] exI [of _ z] exI [of _ "es_dec s\<lparr>dc_nonce := saturating_succ (dc_nonce (es_dec s))\<rparr>"])
        (use hz z(3) ps lz h(1) in simp_all)
    ultimately show ?thesis using h by (intro exI [of _ data1]) simp
  qed
qed

lemma read_body_owes:
  assumes "list_all plain_ok ps" and "owes_wire (es_inner s) data" and "inside_frame A s data ps"
    and "read_body s = (x, s1)"
  shows "\<exists>data1. owes_wire (es_inner s1) data1 \<and> es_read_buf s1 = es_read_buf s \<and> es_pending_plain s1 = es_pending_plain s
    \<and> (case x of None \<Rightarrow> \<exists>p qs c. ps = p # qs \<and> open_frame A (es_dec s1) (es_frame s1) = (Inr p, c)
          \<and> data1 = sealed A c qs \<and> es_header s1 = []
       | Some r \<Rightarrow> inside_frame A s1 data1 ps \<and> polled r = [] \<and> r \<noteq> Ready (Inr []))"
proof -
  obtain p qs z c where f: "es_header s = []" "ps = p # qs" "es_frame_len s = Some (length z)"
      "length (es_frame s) < length z" "open_frame A (es_dec s) z = (Inr p, c)" "es_frame s @ data = z @ sealed A c qs"
    using assms(3) by (auto simp: inside_frame_def)
  obtain v where v: "z = es_frame s @ v" "data = v @ sealed A c qs" "v \<noteq> []" using short_prefix [OF f(6,4)] by blast
  let ?k = "min (length z - length (es_frame s)) 1024"
  obtain r i where w: "wire_read ?k (es_inner s) = (r, i)" by fastforce
  have "0 < ?k" using f(4) by simp
  then obtain d1 where d1: "owes_wire i d1" "data = polled r @ d1" "r = Ready (Inr []) \<longrightarrow> data = []" "length (polled r) \<le> ?k"
    using wire_source.poll_delivers [OF assms(2) _ w] by auto
  have nd: "data \<noteq> []" using v by simp
  show ?thesis
  proof (cases "polled r = []")
    case True
    then have "r \<noteq> Ready (Inr bs)" for bs using d1(3) nd by auto
    then have "x = Some r" "s1 = s\<lparr>es_inner := i\<rparr>"
      using assms(4) w f(3,4) by (auto simp: read_body_def Let_def split: poll.splits sum.splits)
    then show ?thesis using d1 True f nd by (intro exI [of _ d1]) (auto simp: inside_frame_def)
  next
    case False
    then obtain bs where bs: "r = Ready (Inr bs)" "bs \<noteq> []" by (cases r rule: polled.cases) auto
    have le: "length bs \<le> length v" using d1(4) bs(1) v(1) by simp
    have "bs @ d1 = v @ sealed A c qs" using d1(2) bs(1) v(2) by simp
    then obtain u where u: "v = bs @ u" "d1 = u @ sealed A c qs" using le by (auto simp: append_eq_append_conv2)
    have x: "x = (if length (es_frame s @ bs) < length z then Some Pending else None)"
        "s1 = s\<lparr>es_inner := i, es_frame := es_frame s @ bs\<rparr>"
      using assms(4) w f(3,4) bs by (auto simp: read_body_def Let_def split: if_splits)
    show ?thesis
    proof (cases "length (es_frame s @ bs) < length z")
      case True
      have "inside_frame A s1 d1 ps" unfolding inside_frame_def x
        by (intro conjI exI [of _ p] exI [of _ qs] exI [of _ z] exI [of _ c]) (use f u v True in simp_all)
      then show ?thesis using x d1(1) True by (intro exI [of _ d1]) auto
    next
      case False
      then have "u = []" using v(1) u(1) by simp
      then show ?thesis using x False d1(1) f v u by (intro exI [of _ d1]) auto
    qed
  qed
qed

lemma next_frame_owes:
  assumes "aead_laws A" and "owes_enc A s d" and "es_read_buf s = []" and "next_frame A s = (x, s1)"
  shows "owes_enc A s1 d \<and> (case x of None \<Rightarrow> True | Some r \<Rightarrow> polled r = [] \<and> (r = Ready (Inr []) \<longrightarrow> d = []))"
proof -
  obtain data ps where ps: "es_pending_plain s = []" "owes_wire (es_inner s) data" "list_all plain_ok ps" "d = concat ps"
      "between_frames A s data ps \<or> inside_frame A s data ps"
    using assms(2,3) by (auto simp: owes_enc_def)
  obtain y s2 where st: "start_frame s = (y, s2)" by fastforce
  obtain data2 where d2: "owes_wire (es_inner s2) data2" "es_read_buf s2 = []" "es_pending_plain s2 = []"
      "case y of None \<Rightarrow> inside_frame A s2 data2 ps
       | Some r \<Rightarrow> between_frames A s2 data2 ps \<and> polled r = [] \<and> (r = Ready (Inr []) \<longrightarrow> ps = [])"
  proof (cases "inside_frame A s data ps")
    case True
    then have "y = None" "s2 = s" using st by (auto simp: start_frame_def inside_frame_def)
    then show thesis using that [of data] True ps assms(3) by simp
  next
    case False
    then show thesis using start_frame_owes [OF assms(1) ps(3,2) _ st] ps(1,5) assms(3) that by auto
  qed
  show ?thesis
  proof (cases y)
    case (Some r)
    then have "x = Some r" "s1 = s2" using assms(4) st by (simp_all add: next_frame_def)
    then show ?thesis using d2 Some ps(3,4) by (auto simp: owes_enc_def)
  next
    case None
    obtain z s3 where bd: "read_body s2 = (z, s3)" by fastforce
    have ins: "inside_frame A s2 data2 ps" using d2(4) None by simp
    obtain data3 where d3: "owes_wire (es_inner s3) data3" "es_read_buf s3 = []" "es_pending_plain s3 = []"
        "case z of None \<Rightarrow> \<exists>p qs c. ps = p # qs \<and> open_frame A (es_dec s3) (es_frame s3) = (Inr p, c)
            \<and> data3 = sealed A c qs \<and> es_header s3 = []
         | Some r \<Rightarrow> inside_frame A s3 data3 ps \<and> polled r = [] \<and> r \<noteq> Ready (Inr [])"
      using read_body_owes [OF ps(3) d2(1) ins bd] d2(2,3) by auto
    show ?thesis
    proof (cases z)
      case (Some r)
      then have "x = Some r" "s1 = s3" using assms(4) st None bd by (simp_all add: next_frame_def)
      then show ?thesis using d3 Some ps(3,4) by (auto simp: owes_enc_def)
    next
      case none: None
      then obtain p qs c where f: "ps = p # qs" "open_frame A (es_dec s3) (es_frame s3) = (Inr p, c)"
          "data3 = sealed A c qs" "es_header s3 = []"
        using d3(4) by auto
      have x: "x = None" "s1 = s3\<lparr>es_frame := [], es_frame_len := None, es_dec := c, es_read_buf := p\<rparr>"
        using assms(4) st None bd none f(2) by (simp_all add: next_frame_def Let_def)
      have "between_frames A s1 data3 qs" by (simp add: between_frames_def x f)
      then show ?thesis using x d3 f ps(3,4) by (auto simp: owes_enc_def)
    qed
  qed
qed

lemma enc_poll_read_owes:
  "aead_laws A \<Longrightarrow> owes_enc A s d \<Longrightarrow> 0 < n \<Longrightarrow> enc_poll_read A n s = (r, s1) \<Longrightarrow>
   (\<exists>d1. owes_enc A s1 d1 \<and> d = polled r @ d1) \<and> (r = Ready (Inr []) \<longrightarrow> d = []) \<and> length (polled r) \<le> n"
proof (induction A n s rule: enc_poll_read.induct)
  case (1 A n s)
  have np: "es_pending_plain s = []" using "1.prems"(2) by (simp add: owes_enc_def)
  show ?case
  proof (cases "es_read_buf s = []")
    case True
    obtain x s2 where nf: "next_frame A s = (x, s2)" by fastforce
    note ow = next_frame_owes [OF "1.prems"(1,2) True nf]
    show ?thesis
    proof (cases x)
      case None
      then have "enc_poll_read A n s2 = (r, s1)" using "1.prems"(4) np True nf by (simp add: enc_poll_read.simps [of A n s])
      moreover have "owes_enc A s2 d" using ow by simp
      ultimately show ?thesis using "1.IH" [OF _ True nf [symmetric] None "1.prems"(1)] np "1.prems"(3) by simp
    next
      case (Some q)
      then have "r = q" "s1 = s2" using "1.prems"(4) np True nf by (simp_all add: enc_poll_read.simps [of A n s])
      then show ?thesis using ow Some by simp
    qed
  next
    case False
    then have r: "r = Ready (Inr (take n (es_read_buf s)))" "s1 = s\<lparr>es_read_buf := drop n (es_read_buf s)\<rparr>"
      using "1.prems"(3,4) np by (simp_all add: enc_poll_read.simps [of A n s])
    obtain data ps where ps: "owes_wire (es_inner s) data" "list_all plain_ok ps" "d = es_read_buf s @ concat ps"
        "between_frames A s data ps \<or> inside_frame A s data ps"
      using "1.prems"(2) by (auto simp: owes_enc_def)
    have "owes_enc A s1 (drop n (es_read_buf s) @ concat ps)"
      unfolding owes_enc_def r(2) using ps(1,2,4) np
      by (intro conjI exI [of _ data] exI [of _ ps]) (auto simp: between_frames_def inside_frame_def)
    moreover have "d = take n (es_read_buf s) @ drop n (es_read_buf s) @ concat ps" using ps(3) by simp
    moreover have "take n (es_read_buf s) \<noteq> []" using False "1.prems"(3) by simp
    ultimately show ?thesis unfolding r(1) polled.simps by auto
  qed
qed

text \<open>The encrypted stream keeps the contract of a source for every cipher that satisfies the laws.\<close>

definition owes_lawful :: "aead \<Rightarrow> enc_stream \<Rightarrow> bytes \<Rightarrow> bool" where
  "owes_lawful A s d \<longleftrightarrow> aead_laws A \<and> owes_enc A s d"

interpretation enc_source: byte_source "enc_poll_read A" "owes_lawful A" for A
  by unfold_locales (use enc_poll_read_owes in \<open>fastforce simp: owes_lawful_def\<close>)

section \<open>What the writer sends\<close>

text \<open>A socket that takes a whole frame at once.\<close>

definition roomy :: "wire \<Rightarrow> bool" where
  "roomy w \<longleftrightarrow> list_all (\<lambda>e. case e of WAccept n \<Rightarrow> max_frame_cipher + 2 \<le> n | _ \<Rightarrow> False) (wi_out w)"

lemma roomy_write:
  assumes "roomy w" and "wi_out w \<noteq> []" and "length bs \<le> max_frame_cipher + 2"
  shows "wire_write bs w = (Ready (Inr (length bs)), w\<lparr>wi_out := tl (wi_out w), wi_sent := wi_sent w @ bs\<rparr>)"
    "roomy (w\<lparr>wi_out := tl (wi_out w), wi_sent := wi_sent w @ bs\<rparr>)"
  using assms by (cases "wi_out w"; auto simp: roomy_def wire_write_def split: wr_event.splits)+

lemma drain_roomy:
  assumes "roomy (es_inner s)" and "wi_out (es_inner s) \<noteq> []" and "length (es_write_pending s) \<le> max_frame_cipher + 2"
    and "es_write_pending s \<noteq> []"
  shows "drain_write_pending s = (Ready (Inr ()), s\<lparr>es_inner := (es_inner s)\<lparr>wi_out := tl (wi_out (es_inner s)),
      wi_sent := wi_sent (es_inner s) @ es_write_pending s\<rparr>, es_write_pending := []\<rparr>)"
  using assms(4) by (simp add: drain_write_pending_def roomy_write(1) [OF assms(1-3)])

lemma enc_write_step:
  assumes "aead_laws A" and "roomy (es_inner s)" and "wi_out (es_inner s) \<noteq> []" and "es_write_pending s = []"
    and "enc_poll_write A b s = (r, s1)"
  shows "\<exists>ps. list_all plain_ok ps \<and> r = Ready (Inr (length (concat ps))) \<and> concat ps = take (length (concat ps)) b
    \<and> (b \<noteq> [] \<longrightarrow> ps \<noteq> [] \<and> concat ps \<noteq> [])
    \<and> wi_sent (es_inner s1) = wi_sent (es_inner s) @ sealed A (es_enc s) ps
    \<and> (\<forall>qs. sealed A (es_enc s) (ps @ qs) = sealed A (es_enc s) ps @ sealed A (es_enc s1) qs)
    \<and> roomy (es_inner s1) \<and> es_write_pending s1 = [] \<and> length (wi_out (es_inner s)) - 1 \<le> length (wi_out (es_inner s1))"
proof (cases "b = []")
  case True
  then show ?thesis using assms by (auto simp: enc_poll_write_def drain_write_pending_def intro!: exI [of _ "[]"])
next
  case False
  let ?p = "take (min (length b) max_frame_plain) b"
  have ok: "plain_ok ?p" by (simp add: plain_ok_def)
  obtain x where x: "seal A (es_enc s) ?p = (Inr x, es_enc s\<lparr>dc_nonce := saturating_succ (dc_nonce (es_enc s))\<rparr>)"
      "length x = length ?p + 16"
    using seal_open [OF assms(1) ok, of "es_enc s"] by metis
  have lx: "length (frame_of x) \<le> max_frame_cipher + 2" "frame_of x \<noteq> []"
    using x(2) by (simp_all add: max_frame_cipher_def frame_of_def u16_be_def)
  note w = roomy_write [OF assms(2,3) lx(1)]
  let ?c = "es_enc s\<lparr>dc_nonce := saturating_succ (dc_nonce (es_enc s))\<rparr>"
  let ?i = "(es_inner s)\<lparr>wi_out := tl (wi_out (es_inner s)), wi_sent := wi_sent (es_inner s) @ frame_of x\<rparr>"
  have "drain_write_pending s = (Ready (Inr ()), s)" using assms(4) by (simp add: drain_write_pending_def)
  moreover have "drain_write_pending (s\<lparr>es_enc := ?c, es_write_pending := frame_of x\<rparr>)
      = (Ready (Inr ()), s\<lparr>es_enc := ?c, es_inner := ?i, es_write_pending := []\<rparr>)"
    using drain_roomy [of "s\<lparr>es_enc := ?c, es_write_pending := frame_of x\<rparr>"] assms(2,3) lx by simp
  ultimately have r: "r = Ready (Inr (length ?p))" "s1 = s\<lparr>es_enc := ?c, es_inner := ?i, es_write_pending := []\<rparr>"
    using assms(5) False x(1) by (simp_all add: enc_poll_write_def Let_def flip: frame_of_def)
  show ?thesis
    using ok x r w(2) False by (intro exI [of _ "[?p]"]) (auto simp: frame_of_def max_frame_plain_def)
qed

lemma enc_writes_send:
  "aead_laws A \<Longrightarrow> roomy (es_inner s) \<Longrightarrow> length bufs \<le> length (wi_out (es_inner s)) \<Longrightarrow> es_write_pending s = [] \<Longrightarrow>
   poll_writes (enc_poll_write A) bufs s = (acc, s1) \<Longrightarrow>
   \<exists>ps. list_all plain_ok ps \<and> concat ps = acc \<and> wi_sent (es_inner s1) = wi_sent (es_inner s) @ sealed A (es_enc s) ps"
proof (induction bufs arbitrary: s acc)
  case (Cons b bufs)
  obtain r s2 where p: "enc_poll_write A b s = (r, s2)" by fastforce
  obtain acc2 where q: "poll_writes (enc_poll_write A) bufs s2 = (acc2, s1)"
    and acc: "acc = (case r of Ready (Inr n) \<Rightarrow> take n b | _ \<Rightarrow> []) @ acc2"
    using Cons.prems(5) p by (auto split: prod.splits)
  have "wi_out (es_inner s) \<noteq> []" using Cons.prems(3) by auto
  then obtain ps where ps: "list_all plain_ok ps" "r = Ready (Inr (length (concat ps)))" "concat ps = take (length (concat ps)) b"
      "wi_sent (es_inner s2) = wi_sent (es_inner s) @ sealed A (es_enc s) ps"
      "\<And>qs. sealed A (es_enc s) (ps @ qs) = sealed A (es_enc s) ps @ sealed A (es_enc s2) qs"
      "roomy (es_inner s2)" "es_write_pending s2 = []" "length (wi_out (es_inner s)) - 1 \<le> length (wi_out (es_inner s2))"
    using enc_write_step [OF Cons.prems(1,2) _ Cons.prems(4) p] by blast
  have "length bufs \<le> length (wi_out (es_inner s2))" using ps(8) Cons.prems(3) by simp
  from Cons.IH [OF Cons.prems(1) ps(6) this ps(7) q]
  obtain qs where qs: "list_all plain_ok qs" "concat qs = acc2"
      "wi_sent (es_inner s1) = wi_sent (es_inner s2) @ sealed A (es_enc s2) qs" by blast
  have "acc = concat ps @ acc2" using acc ps(2,3) by simp
  then show ?case using ps qs by (intro exI [of _ "ps @ qs"]) auto
qed (auto intro!: exI [of _ "[]"])

section \<open>Progress of the reader\<close>

definition live :: "enc_stream \<Rightarrow> enc_stream \<Rightarrow> enc_answer \<Rightarrow> bool" where
  "live s s1 x \<longleftrightarrow> REof \<in> set (wi_in (es_inner s1)) \<and> enc_size s1 \<le> enc_size s \<and> (x = Some Pending \<longrightarrow> enc_size s1 < enc_size s)"

lemma live_trans: "live s s1 None \<Longrightarrow> live s1 s2 x \<Longrightarrow> live s s2 x"
  by (auto simp: live_def)

lemma wire_read_live:
  "wire_read n w = (r, w1) \<Longrightarrow> REof \<in> set (wi_in w) \<Longrightarrow> REof \<in> set (wi_in w1) \<and> script_size (wi_in w1) \<le> script_size (wi_in w)
     \<and> (r = Pending \<or> (\<exists>bs. r = Ready (Inr bs) \<and> bs \<noteq> []) \<longrightarrow> script_size (wi_in w1) < script_size (wi_in w))"
  by (cases "wi_in w" rule: script_size.cases) (auto simp: wire_read_def split: if_splits)

lemma read_header_live:
  "read_header s = (x, s1) \<Longrightarrow> REof \<in> set (wi_in (es_inner s)) \<Longrightarrow> live s s1 x"
proof (induction s rule: read_header.induct)
  case (1 s)
  obtain r i where w: "wire_read 1 (es_inner s) = (r, i)" by fastforce
  note wl = wire_read_live [OF w "1.prems"(2)]
  show ?case
  proof (cases "length (es_header s) < 2 \<and> (\<exists>bs. r = Ready (Inr bs) \<and> bs \<noteq> [])")
    case True
    then obtain bs where bs: "r = Ready (Inr bs)" "bs \<noteq> []" by blast
    have rec: "read_header (s\<lparr>es_inner := i, es_header := es_header s @ [bs ! 0]\<rparr>) = (x, s1)"
      using "1.prems"(1) True w bs by (simp add: read_header.simps [of s])
    have "live s (s\<lparr>es_inner := i, es_header := es_header s @ [bs ! 0]\<rparr>) None" using wl by (simp add: live_def enc_size_def)
    moreover have "live (s\<lparr>es_inner := i, es_header := es_header s @ [bs ! 0]\<rparr>) s1 x"
      using "1.IH" [OF _ w [symmetric] bs(1) refl bs(2) rec] True wl by simp
    ultimately show ?thesis by (rule live_trans)
  next
    case False
    with "1.prems" w wl show ?thesis
      by (auto simp: read_header.simps [of s] live_def enc_size_def split: if_splits poll.splits sum.splits)
  qed
qed

lemma next_frame_live:
  assumes "next_frame A s = (x, s1)" and "REof \<in> set (wi_in (es_inner s))"
  shows "live s s1 x"
proof -
  obtain y s2 where st: "start_frame s = (y, s2)" by fastforce
  have 2: "live s s2 y"
    using st read_header_live [of s] assms(2)
    by (auto simp: start_frame_def Let_def live_def enc_size_def split: option.splits prod.splits if_splits)
  show ?thesis
  proof (cases y)
    case (Some r)
    then show ?thesis using assms(1) st 2 by (simp add: next_frame_def)
  next
    case None
    obtain z s3 where bd: "read_body s2 = (z, s3)" by fastforce
    have r2: "REof \<in> set (wi_in (es_inner s2))" using 2 by (simp add: live_def)
    from read_body_shape [OF bd] have 3: "live s2 s3 z"
    proof (elim disjE exE conjE, goal_cases)
      case 1
      then show ?case using r2 by (simp add: live_def)
    next
      case (2 r i q)
      then show ?case using wire_read_live [OF 2(2) r2] by (auto simp: live_def enc_size_def)
    next
      case (3 r i)
      then have "\<exists>bs. r = Ready (Inr bs) \<and> bs \<noteq> []" by (cases r rule: polled.cases) auto
      then show ?case using 3 wire_read_live [OF 3(2) r2] by (auto simp: live_def enc_size_def)
    next
      case (4 r i)
      then have "\<exists>bs. r = Ready (Inr bs) \<and> bs \<noteq> []" by (cases r rule: polled.cases) auto
      then show ?case using 4 wire_read_live [OF 4(2) r2] by (auto simp: live_def enc_size_def)
    qed
    have "z = None \<longrightarrow> live s3 s1 x" "z \<noteq> None \<longrightarrow> x = z \<and> s1 = s3"
      using assms(1) st None bd 3
      by (auto simp: next_frame_def Let_def live_def enc_size_def split: prod.splits sum.splits)
    show ?thesis
    proof (cases z)
      case (Some q)
      then show ?thesis using \<open>z \<noteq> None \<longrightarrow> x = z \<and> s1 = s3\<close> 3 live_trans [OF 2 [unfolded None]] by simp
    next
      case none: None
      have "live s2 s1 x" using live_trans [OF 3 [unfolded none]] \<open>z = None \<longrightarrow> live s3 s1 x\<close> none by simp
      then show ?thesis by (rule live_trans [OF 2 [unfolded None]])
    qed
  qed
qed

lemma enc_poll_read_live:
  "enc_poll_read A n s = (r, s1) \<Longrightarrow> REof \<in> set (wi_in (es_inner s)) \<Longrightarrow> 0 < n \<Longrightarrow> live s s1 (Some r)"
proof (induction A n s rule: enc_poll_read.induct)
  case (1 A n s)
  show ?case
  proof (cases "es_pending_plain s = [] \<and> es_read_buf s = []")
    case True
    obtain x s2 where nf: "next_frame A s = (x, s2)" by fastforce
    note l = next_frame_live [OF nf "1.prems"(2)]
    show ?thesis
    proof (cases x)
      case None
      then have "enc_poll_read A n s2 = (r, s1)" using "1.prems"(1) True nf by (simp add: enc_poll_read.simps [of A n s])
      moreover have "REof \<in> set (wi_in (es_inner s2))" using l by (simp add: live_def)
      ultimately have "live s2 s1 (Some r)" using "1.IH" [OF _ _ nf [symmetric] None] True "1.prems"(3) by simp
      then show ?thesis using l None live_trans by blast
    next
      case (Some q)
      then show ?thesis using "1.prems"(1) True nf l by (simp add: enc_poll_read.simps [of A n s])
    qed
  next
    case False
    then show ?thesis using "1.prems" by (auto simp: enc_poll_read.simps [of A n s] live_def enc_size_def split: if_splits)
  qed
qed

lemma enc_copy_ends:
  assumes "owes_lawful A s d" and "REof \<in> set (wi_in (es_inner s))" and "0 < n" and "enc_size s + length d < fuel"
  shows "fst (snd (copy_to_end fuel (enc_poll_read A) n s)) \<noteq> None"
proof (rule copy_ends [where P = "\<lambda>s m. \<exists>d. owes_lawful A s d \<and> REof \<in> set (wi_in (es_inner s)) \<and> m = enc_size s + length d"])
  fix s m r s1
  assume "\<exists>d. owes_lawful A s d \<and> REof \<in> set (wi_in (es_inner s)) \<and> m = enc_size s + length d"
    and p: "enc_poll_read A n s = (r, s1)"
  then obtain d where d: "owes_lawful A s d" "REof \<in> set (wi_in (es_inner s))" "m = enc_size s + length d" by blast
  obtain d1 where d1: "owes_lawful A s1 d1" "d = polled r @ d1"
    using enc_source.poll_delivers [OF d(1) assms(3) p] by blast
  note l = enc_poll_read_live [OF p d(2) assms(3)]
  have "polled r \<noteq> [] \<or> r = Pending \<or> (\<exists>k. r = Ready (Inl k)) \<or> r = Ready (Inr [])" by (cases r rule: polled.cases) auto
  then have "(\<exists>k. r = Ready (Inl k)) \<or> r = Ready (Inr []) \<or> enc_size s1 + length d1 < m"
  proof (cases "polled r = []")
    case True
    then show ?thesis using \<open>polled r \<noteq> [] \<or> _\<close> d(3) d1(2) l by (auto simp: live_def)
  next
    case False
    then have "0 < length (polled r)" by simp
    moreover have "enc_size s1 \<le> enc_size s" using l by (simp add: live_def)
    ultimately have "enc_size s1 + length d1 < m" unfolding d(3) d1(2) length_append by linarith
    then show ?thesis by blast
  qed
  moreover have "REof \<in> set (wi_in (es_inner s1))" using l by (simp add: live_def)
  ultimately show "(\<exists>k. r = Ready (Inl k)) \<or> r = Ready (Inr []) \<or>
      (\<exists>m1. (\<exists>d. owes_lawful A s1 d \<and> REof \<in> set (wi_in (es_inner s1)) \<and> m1 = enc_size s1 + length d) \<and> m1 < m)"
    using d1(1) by blast
qed (use assms in auto)

section \<open>The link\<close>

text \<open>
  C27. The encrypted relay, in both directions: with the session keys both servers derive from the token
  and the opening frame, what one side's callers are told is written is what the other side's reader
  gets, in order and unchanged, for any sizes of the writes, any segmentation of the network and any
  buffer of the reader; the reader comes to the end when the connection is closed, and then it has
  everything. (The socket takes a frame at once; a socket that does not is the subject of the next
  lemmas.)
\<close>

theorem sgfb_link_roundtrip:
  assumes "aead_laws A" and "(writer, reader) \<in> {(client_side, server_side), (server_side, client_side)}"
    and "roomy w" and "length bufs \<le> length (wi_out w)" and "wi_sent w = []"
    and "poll_writes (enc_poll_write A) bufs (writer w (derive_session_keys sha token opening_frame)) = (acc, a)"
    and "script_data (wi_in v) = wi_sent (es_inner a)" and "RData [] \<notin> set (wi_in v)" and "REof \<in> set (wi_in v)"
    and "0 < n" and "script_size (wi_in v) + length acc < fuel"
    and "copy_to_end fuel (enc_poll_read A) n (reader v (derive_session_keys sha token opening_frame)) = (ps, e, b)"
  shows "\<exists>rest. acc = concat ps @ rest \<and> (e = Some (Inr ()) \<longrightarrow> rest = []) \<and> e \<noteq> None"
proof -
  let ?k = "derive_session_keys sha token opening_frame"
  have k: "es_enc (writer w ?k) = es_dec (reader v ?k)" "es_inner (writer w ?k) = w" "es_inner (reader v ?k) = v"
      "es_write_pending (writer w ?k) = []" "es_pending_plain (reader v ?k) = []" "es_read_buf (reader v ?k) = []"
      "es_frame_len (reader v ?k) = None" "es_header (reader v ?k) = []"
    using assms(2) by (auto simp: client_side_def server_side_def enc_stream_new_def)
  obtain qs where qs: "list_all plain_ok qs" "concat qs = acc" "wi_sent (es_inner a) = sealed A (es_enc (writer w ?k)) qs"
    using enc_writes_send [OF assms(1) _ _ k(4) assms(6)] assms(3-5) by (auto simp: k)
  have o: "owes_lawful A (reader v ?k) acc"
    unfolding owes_lawful_def owes_enc_def between_frames_def using assms(1,7,8) qs k
    by (auto simp: owes_wire_def owes_script_def)
  have "e \<noteq> None" using enc_copy_ends [OF o _ assms(10), of fuel] assms(9,11,12) by (simp add: k enc_size_def)
  then show ?thesis using enc_source.copy_delivers [OF o assms(10,12)] by blast
qed

definition toy_tag :: "bytes \<Rightarrow> bytes \<Rightarrow> bytes" where
  "toy_tag k n = take 16 (n @ k @ replicate 16 0)"

definition toy_aead :: aead where
  "toy_aead = \<lparr>ae_seal = (\<lambda>k n p. Some (p @ toy_tag k n)),
     ae_open = (\<lambda>k n c. if 16 \<le> length c \<and> drop (length c - 16) c = toy_tag k n
                then Some (take (length c - 16) c) else None)\<rparr>"

lemma length_toy_tag: "length (toy_tag k n) = 16"
  by (simp add: toy_tag_def)

lemma toy_aead_laws: "aead_laws toy_aead"
  by (simp add: aead_laws_def toy_aead_def length_toy_tag)

lemmas enc_eval = enc_poll_write_def drain_write_pending_def client_side_def server_side_def enc_stream_new_def
  seal_def wire_write_def wire_read_def Let_def max_frame_plain_def dir_cipher_new_def open_frame_def
  enc_poll_read.simps next_frame_def start_frame_def read_body_def read_header.simps derive_session_keys_def

lemma toy_replicate:
  "replicate 4 (0 :: u8) = [0, 0, 0, 0]" "replicate 16 (0 :: u8) = [0, 0, 0, 0, 0, 0, 0, 0, 0, 0, 0, 0, 0, 0, 0, 0]"
  by code_simp+

lemma toy_nonces: "build_nonce 0 = [0, 0, 0, 0, 0, 0, 0, 0, 0, 0, 0, 0]" "build_nonce 1 = [0, 0, 0, 0, 0, 0, 0, 0, 0, 0, 0, 1]"
  by (simp_all add: build_nonce_def u64_be_def u8_of_def toy_replicate)

lemma sgfb_link_roundtrip_witness:
  "let w = \<lparr>wi_in = [], wi_out = [WAccept 20000, WAccept 20000], wi_sent = []\<rparr>;
       keys = derive_session_keys (take 32) ''token'' [9];
       a = snd (poll_writes (enc_poll_write toy_aead) [[1, 2], [3]] (client_side w keys));
       v = \<lparr>wi_in = [RData (take 7 (wi_sent (es_inner a))), RPending, RData (drop 7 (wi_sent (es_inner a))), REof],
            wi_out = [], wi_sent = []\<rparr>;
       c = copy_to_end 60 (enc_poll_read toy_aead) 2 (server_side v keys)
   in \<exists>rest. [1, 2, 3] = concat (fst c) @ rest \<and> (fst (snd c) = Some (Inr ()) \<longrightarrow> rest = []) \<and> fst (snd c) \<noteq> None"
proof -
  define w where "w = \<lparr>wi_in = [], wi_out = [WAccept 20000, WAccept 20000], wi_sent = []\<rparr>"
  let ?k = "derive_session_keys (take 32) ''token'' [9]"
  define r where "r = poll_writes (enc_poll_write toy_aead) [[1, 2], [3]] (client_side w ?k)"
  have "fst r = [1, 2, 3] \<and> length (wi_sent (es_inner (snd r))) = 39" unfolding r_def w_def
    by (simp add: enc_eval toy_aead_def length_toy_tag)
  then have r: "r = ([1, 2, 3], snd r)" and len: "length (wi_sent (es_inner (snd r))) = 39" by (metis prod.collapse)+
  define v where "v = \<lparr>wi_in = [RData (take 7 (wi_sent (es_inner (snd r)))), RPending, RData (drop 7 (wi_sent (es_inner (snd r)))), REof],
      wi_out = [], wi_sent = []\<rparr>"
  define c where "c = copy_to_end 60 (enc_poll_read toy_aead) 2 (server_side v ?k)"
  have ne: "wi_sent (es_inner (snd r)) \<noteq> []" using len by auto
  have c3: "c = (fst c, fst (snd c), snd (snd c))" by simp
  have "\<exists>rest. [1, 2, 3] = concat (fst c) @ rest \<and> (fst (snd c) = Some (Inr ()) \<longrightarrow> rest = []) \<and> fst (snd c) \<noteq> None"
  proof (rule sgfb_link_roundtrip [where A = toy_aead and writer = client_side and reader = server_side
        and w = w and sha = "take 32" and token = "''token''" and opening_frame = "[9]" and bufs = "[[1, 2], [3]]" and a = "snd r"
        and v = v and n = 2 and fuel = 60, OF toy_aead_laws])
    show "copy_to_end 60 (enc_poll_read toy_aead) 2 (server_side v ?k) = (fst c, fst (snd c), snd (snd c))"
      using c3 by (simp only: c_def)
    show "poll_writes (enc_poll_write toy_aead) [[1, 2], [3]] (client_side w ?k) = ([1, 2, 3], snd r)"
      using r by (simp only: r_def)
  qed (use ne len in \<open>simp_all add: w_def v_def roomy_def max_frame_cipher_def max_frame_plain_def\<close>)
  then show ?thesis unfolding Let_def c_def v_def r_def w_def by simp
qed

text \<open>
  A socket that takes only a part of a frame, or asks to wait: the frame is sealed and kept, the caller
  is told to try again and offers the same bytes, which are sealed a second time. The peer decrypts
  them twice.
\<close>

definition stalled_link :: "bytes \<times> (io_kind + nat) poll list" where
  "stalled_link =
     (let r1 = enc_poll_write toy_aead [1, 2] (client_side \<lparr>wi_in = [], wi_out = [WAccept 5, WAccept 99, WAccept 99], wi_sent = []\<rparr>
              \<lparr>client_to_server = [5], server_to_client = [6]\<rparr>);
          r2 = enc_poll_write toy_aead [1, 2] (snd r1)
      in (wi_sent (es_inner (snd r2)), [fst r1, fst r2]))"

lemma sgfb_retry_duplicates:
  "snd stalled_link = [Pending, Ready (Inr 2)]"
  "fst (copy_to_end 9 (enc_poll_read toy_aead) 9 (server_side \<lparr>wi_in = [RData (fst stalled_link), REof], wi_out = [], wi_sent = []\<rparr>
      \<lparr>client_to_server = [5], server_to_client = [6]\<rparr>)) = [[1, 2], [1, 2]]"
proof -
  have e: "stalled_link = (frame_of ([1, 2] @ toy_tag [5] (build_nonce 0)) @ frame_of ([1, 2] @ toy_tag [5] (build_nonce 1)),
      [Pending, Ready (Inr 2)])"
    by (simp add: stalled_link_def enc_eval toy_aead_def length_toy_tag frame_of_def u16_be_def saturating_succ_def)
  show "snd stalled_link = [Pending, Ready (Inr 2)]" by (simp add: e)
  show "fst (copy_to_end 9 (enc_poll_read toy_aead) 9 (server_side \<lparr>wi_in = [RData (fst stalled_link), REof], wi_out = [], wi_sent = []\<rparr>
      \<lparr>client_to_server = [5], server_to_client = [6]\<rparr>)) = [[1, 2], [1, 2]]"
    unfolding e fst_conv
    by (simp add: enc_eval copy_to_end_numeral toy_aead_def toy_tag_def toy_nonces toy_replicate frame_of_def u16_be_def
        be16_def max_frame_cipher_def saturating_succ_def)
qed

section \<open>Nonces\<close>

lemma bytes_determine:
  "\<forall>k < n. (a div 256 ^ k) mod 256 = (b div 256 ^ k) mod (256 :: nat) \<Longrightarrow> a mod 256 ^ n = b mod 256 ^ n"
proof (induction n)
  case (Suc n)
  have "x mod 256 ^ Suc n = 256 ^ n * ((x div 256 ^ n) mod 256) + x mod 256 ^ n" for x :: nat
    using mod_mult2_eq [of x "256 ^ n" 256] by (simp add: mult.commute)
  then show ?case using Suc by simp
qed simp

lemma u64_be_inject:
  assumes "u64_be a = u64_be b"
  shows "a = b"
proof -
  have r: "[7, 6, 5, 4, 3, 2, 1, 0] = rev [0..<8]" by code_simp
  have ball: "\<forall>k \<in> set (rev [0..<8]). u8_of (unat a div 256 ^ k) = u8_of (unat b div 256 ^ k)"
    using assms unfolding u64_be_def r map_eq_conv .
  have "(unat a div 256 ^ k) mod 256 = (unat b div 256 ^ k) mod 256" if "k < 8" for k
  proof -
    have "k \<in> set (rev [0..<8])" using that by (simp only: set_rev set_upt atLeastLessThan_iff le0 simp_thms)
    with ball have "u8_of (unat a div 256 ^ k) = u8_of (unat b div 256 ^ k)" by blast
    then show ?thesis unfolding u8_of_eq_iff .
  qed
  then have m: "unat a mod 256 ^ 8 = unat b mod 256 ^ 8" by (intro bytes_determine) blast
  have "unat w mod 256 ^ 8 = unat w" for w :: u64
    using unsigned_less [where 'a = nat, of w] by (intro mod_less) simp
  then show ?thesis using m unfolding word_unat_eq_iff by metis
qed

lemma build_nonce_inject: "build_nonce a = build_nonce b \<longleftrightarrow> a = b"
  using u64_be_inject by (auto simp: build_nonce_def)

definition last_nonce :: nat where "last_nonce = 2 ^ 64 - 1"

lemma last_nonce_word: "(word_of_nat last_nonce :: u64) = - 1" "last_nonce < 2 ^ 64"
  by (simp_all add: last_nonce_def)

lemma word_of_small:
  assumes "m \<le> last_nonce" and "n \<le> last_nonce"
  shows "(word_of_nat m :: u64) = word_of_nat n \<longleftrightarrow> m = n"
proof
  assume "(word_of_nat m :: u64) = word_of_nat n"
  then have "unat (word_of_nat m :: u64) = unat (word_of_nat n :: u64)" by simp
  moreover have "m < 2 ^ 64" "n < 2 ^ 64" using assms last_nonce_word(2) by linarith+
  ultimately show "m = n" by (simp add: unsigned_of_nat take_bit_nat_eq_self)
qed simp

lemma saturating_iterate: "(saturating_succ ^^ n) 0 = word_of_nat (min n last_nonce)"
proof (induction n)
  case (Suc n)
  show ?case
  proof (cases "n < last_nonce")
    case True
    then have "(word_of_nat n :: u64) \<noteq> word_of_nat last_nonce" using word_of_small [of n last_nonce] by simp
    then show ?thesis using True Suc by (simp add: saturating_succ_def min_def last_nonce_word(1) add.commute)
  next
    case False
    then have "min n last_nonce = last_nonce" "min (Suc n) last_nonce = last_nonce" by simp_all
    then show ?thesis using Suc by (simp add: saturating_succ_def last_nonce_word(1))
  qed
qed simp

definition sealed_so_far :: "aead \<Rightarrow> bytes \<Rightarrow> bytes list \<Rightarrow> dir_cipher" where
  "sealed_so_far A key ps = foldl (\<lambda>c p. snd (seal A c p)) (dir_cipher_new key) ps"

lemma sealed_so_far_nonce: "dc_nonce (sealed_so_far A key ps) = word_of_nat (min (length ps) last_nonce)"
proof -
  have "dc_nonce (foldl (\<lambda>c p. snd (seal A c p)) c ps) = (saturating_succ ^^ length ps) (dc_nonce c)" for c
    by (induction ps arbitrary: c) (simp_all add: seal_def funpow_swap1)
  then show ?thesis unfolding sealed_so_far_def by (simp add: dir_cipher_new_def saturating_iterate)
qed

text \<open>
  C29. Nonces of one direction: two different frames get the same nonce only if the first of them comes
  after 2^64 - 1 sealed frames, where the counter saturates; there every later frame reuses the nonce.
\<close>

theorem seal_nonces_unique:
  assumes "i < j" and "j < length ps"
  shows "build_nonce (dc_nonce (sealed_so_far A key (take i ps))) = build_nonce (dc_nonce (sealed_so_far A key (take j ps)))
    \<longleftrightarrow> 2 ^ 64 - 1 \<le> i"
proof -
  have "min i last_nonce = min j last_nonce \<longleftrightarrow> last_nonce \<le> i" using assms(1) by linarith
  moreover have "length (take i ps) = i" "length (take j ps) = j" using assms by simp_all
  ultimately show ?thesis
    using word_of_small [of "min i last_nonce" "min j last_nonce"]
    unfolding build_nonce_inject sealed_so_far_nonce last_nonce_def [symmetric] by (simp del: min_less_iff_disj)
qed

lemma seal_nonces_unique_witness:
  "build_nonce (dc_nonce (sealed_so_far toy_aead [5] [])) \<noteq> build_nonce (dc_nonce (sealed_so_far toy_aead [5] [[1]]))"
  using seal_nonces_unique [of 0 1 "[[1], [2]]" toy_aead "[5]"] by simp

section \<open>Only authenticated plaintext\<close>

text \<open>The nonce counter of the \<open>i\<close>-th frame of a direction.\<close>

definition nonce_at :: "nat \<Rightarrow> u64" where
  "nonce_at i = word_of_nat (min i last_nonce)"

lemma nonce_at_0: "nonce_at 0 = 0"
  by (simp add: nonce_at_def)

lemma nonce_at_Suc: "saturating_succ (nonce_at i) = nonce_at (Suc i)"
  using saturating_iterate [of i] saturating_iterate [of "Suc i"] by (simp add: nonce_at_def)

text \<open>The frames \<open>xs\<close> hold the plaintexts \<open>qs\<close>: the \<open>i\<close>-th opens under the \<open>i\<close>-th nonce and under no other place.\<close>

definition opens_in_order :: "aead \<Rightarrow> bytes \<Rightarrow> bytes list \<Rightarrow> bytes list \<Rightarrow> bool" where
  "opens_in_order A key xs qs \<longleftrightarrow> length qs = length xs
     \<and> (\<forall>i < length xs. ae_open A key (build_nonce (nonce_at i)) (xs ! i) = Some (qs ! i))"

lemma opens_snoc:
  "opens_in_order A key xs qs \<Longrightarrow> ae_open A key (build_nonce (nonce_at (length xs))) x = Some q \<Longrightarrow>
   opens_in_order A key (xs @ [x]) (qs @ [q])"
  by (auto simp: opens_in_order_def nth_append less_Suc_eq)

definition frame_ok :: "bytes \<Rightarrow> bool" where
  "frame_ok x \<longleftrightarrow> x \<noteq> [] \<and> length x \<le> max_frame_cipher"

text \<open>What has been read of the next frame.\<close>

definition partial :: "enc_stream \<Rightarrow> bytes" where
  "partial s = (case es_frame_len s of None \<Rightarrow> es_header s | Some n \<Rightarrow> u16_be n @ es_frame s)"

definition partial_ok :: "enc_stream \<Rightarrow> bool" where
  "partial_ok s \<longleftrightarrow> (case es_frame_len s of None \<Rightarrow> length (es_header s) < 2
     | Some n \<Rightarrow> es_header s = [] \<and> length (es_frame s) < n \<and> n \<le> max_frame_cipher)"

definition same_plain :: "enc_stream \<Rightarrow> enc_stream \<Rightarrow> bool" where
  "same_plain s s1 \<longleftrightarrow> es_pending_plain s1 = es_pending_plain s \<and> es_dec s1 = es_dec s \<and> es_read_buf s1 = es_read_buf s"

definition still_owes :: "enc_stream \<Rightarrow> bytes \<Rightarrow> bool" where
  "still_owes s R \<longleftrightarrow> partial_ok s \<and> (\<exists>data. owes_wire (es_inner s) data \<and> partial s @ data = R)"

lemma start_frame_rest:
  assumes "start_frame s = (x, s1)" and "still_owes s R"
  shows "same_plain s s1 \<and> (case x of
      None \<Rightarrow> still_owes s1 R \<and> es_frame_len s1 \<noteq> None
    | Some r \<Rightarrow> polled r = [] \<and> ((\<exists>k. r = Ready (Inl k)) \<or> still_owes s1 R \<and> (r = Ready (Inr []) \<longrightarrow> R = [])))"
proof (cases "es_frame_len s")
  case (Some n)
  then show ?thesis using assms by (auto simp: start_frame_def same_plain_def)
next
  case None
  obtain data where d: "owes_wire (es_inner s) data" "es_header s @ data = R" "length (es_header s) < 2"
    using assms(2) None by (auto simp: still_owes_def partial_ok_def partial_def)
  obtain y s2 where rh: "read_header s = (y, s2)" by fastforce
  have l: "length (es_header s) \<le> 2" using d(3) by simp
  obtain data1 i h where h: "s2 = s\<lparr>es_inner := i, es_header := h\<rparr>" "owes_wire i data1" "h @ data1 = R"
      "case y of None \<Rightarrow> length h = 2
        | Some r \<Rightarrow> length h < 2 \<and> polled r = [] \<and> (r = Ready (Inr []) \<longrightarrow> R = [])"
    using read_header_owes [OF d(1) l rh] unfolding d(2) by blast
  show ?thesis
  proof (cases y)
    case (Some r)
    then have "x = Some r" "s1 = s2" using assms(1) rh None by (simp_all add: start_frame_def)
    then show ?thesis using h Some None by (auto simp: same_plain_def still_owes_def partial_ok_def partial_def)
  next
    case none: None
    obtain a b where ab: "h = [a, b]" using h(4) none by (auto simp: numeral_2_eq_2 length_Suc_conv)
    let ?n = "be16 a b"
    show ?thesis
    proof (cases "?n = 0 \<or> max_frame_cipher < ?n")
      case True
      then have "x = Some (Ready (Inl InvalidData))" "s1 = s2\<lparr>es_header := []\<rparr>"
        using assms(1) rh None none h(1) ab by (auto simp: start_frame_def Let_def)
      then show ?thesis using h(1) by (simp add: same_plain_def)
    next
      case False
      then have x: "x = None" "s1 = s2\<lparr>es_header := [], es_frame_len := Some ?n, es_frame := []\<rparr>"
        using assms(1) rh None none h(1) ab by (auto simp: start_frame_def Let_def)
      then have "still_owes s1 R" using h ab False
        by (auto simp: still_owes_def partial_ok_def partial_def intro!: exI [of _ data1])
      then show ?thesis using x h(1) by (simp add: same_plain_def)
    qed
  qed
qed

lemma read_body_rest:
  assumes "read_body s = (x, s1)" and "still_owes s R" and "es_frame_len s = Some n"
  shows "same_plain s s1 \<and> (case x of
      None \<Rightarrow> es_header s1 = [] \<and> frame_ok (es_frame s1) \<and> (\<exists>data. owes_wire (es_inner s1) data \<and> frame_of (es_frame s1) @ data = R)
    | Some r \<Rightarrow> polled r = [] \<and> ((\<exists>k. r = Ready (Inl k)) \<or> still_owes s1 R \<and> (r = Ready (Inr []) \<longrightarrow> R = u16_be n)))"
proof -
  obtain data where d: "owes_wire (es_inner s) data" "u16_be n @ es_frame s @ data = R"
      "es_header s = []" "length (es_frame s) < n" "n \<le> max_frame_cipher"
    using assms(2,3) by (auto simp: still_owes_def partial_ok_def partial_def)
  let ?k = "min (n - length (es_frame s)) 1024"
  obtain r i where w: "wire_read ?k (es_inner s) = (r, i)" by fastforce
  have "0 < ?k" using d(4) by simp
  then obtain d1 where d1: "owes_wire i d1" "data = polled r @ d1" "r = Ready (Inr []) \<longrightarrow> data = []" "length (polled r) \<le> ?k"
    using wire_source.poll_delivers [OF d(1) _ w] by auto
  show ?thesis
  proof (cases "\<exists>bs. r = Ready (Inr bs)")
    case False
    then have "x = Some r" "s1 = s\<lparr>es_inner := i\<rparr>" "polled r = []" "r \<noteq> Ready (Inr [])"
      using assms(1,3) w d(4) by (auto simp: read_body_def Let_def split: poll.splits sum.splits)
    then show ?thesis using d d1 assms(3)
      by (auto simp: same_plain_def still_owes_def partial_ok_def partial_def)
  next
    case True
    then obtain bs where bs: "r = Ready (Inr bs)" by blast
    show ?thesis
    proof (cases "bs = []")
      case True
      then have "x = Some (if es_frame s \<noteq> [] then Ready (Inl UnexpectedEof) else Ready (Inr []))" "s1 = s\<lparr>es_inner := i\<rparr>"
        using assms(1,3) w d(4) bs True by (auto simp: read_body_def Let_def split: if_splits)
      moreover have "data = []" "d1 = []" using d1(2,3) bs True by auto
      ultimately show ?thesis using d d1 assms(3)
        by (auto simp: same_plain_def still_owes_def partial_ok_def partial_def)
    next
      case False
      have x: "x = (if length (es_frame s @ bs) < n then Some Pending else None)" "s1 = s\<lparr>es_inner := i, es_frame := es_frame s @ bs\<rparr>"
        using assms(1,3) w d(4) bs False by (auto simp: read_body_def Let_def split: if_splits)
      show ?thesis
      proof (cases "length (es_frame s @ bs) < n")
        case True
        then show ?thesis using x d d1 bs assms(3)
          by (auto simp: same_plain_def still_owes_def partial_ok_def partial_def)
      next
        case False
        moreover have "length bs \<le> n - length (es_frame s)" using d1(4) bs by simp
        ultimately have "length (es_frame s @ bs) = n" using d(4) by simp
        then show ?thesis using x d d1 bs False
          by (auto simp: same_plain_def frame_ok_def frame_of_def intro!: exI [of _ d1])
      qed
    qed
  qed
qed

text \<open>The bytes of a connection begin with frames that open to at least \<open>out\<close>.\<close>

definition opened_to :: "aead \<Rightarrow> bytes \<Rightarrow> bytes \<Rightarrow> bytes \<Rightarrow> bool" where
  "opened_to A key D out \<longleftrightarrow> (\<exists>xs qs R. list_all frame_ok xs \<and> opens_in_order A key xs qs \<and> D = concat (map frame_of xs) @ R
     \<and> prefix out (concat qs))"

text \<open>
  \<open>traced A key D s out\<close>: of the bytes \<open>D\<close> of the connection some whole frames were opened in order, and their
  plaintexts are what was delivered and what is buffered.
\<close>

definition traced :: "aead \<Rightarrow> bytes \<Rightarrow> bytes \<Rightarrow> enc_stream \<Rightarrow> bytes \<Rightarrow> bool" where
  "traced A key D s out \<longleftrightarrow> es_pending_plain s = [] \<and> dc_key (es_dec s) = key
     \<and> (\<exists>xs qs R. list_all frame_ok xs \<and> opens_in_order A key xs qs \<and> dc_nonce (es_dec s) = nonce_at (length xs)
          \<and> concat qs = out @ es_read_buf s \<and> D = concat (map frame_of xs) @ R \<and> still_owes s R)"

lemma traced_opened: "traced A key D s out \<Longrightarrow> opened_to A key D out"
  unfolding traced_def opened_to_def by (metis prefixI)

lemma traced_more:
  assumes "traced A key D s (out)" and "es_read_buf s = a @ b"
  shows "traced A key D (s\<lparr>es_read_buf := b\<rparr>) (out @ a)"
proof -
  have "still_owes (s\<lparr>es_read_buf := b\<rparr>) R = still_owes s R" for R
    by (cases "es_frame_len s") (simp_all add: still_owes_def partial_ok_def partial_def)
  then show ?thesis using assms by (simp add: traced_def)
qed

definition read_out :: "aead \<Rightarrow> bytes \<Rightarrow> bytes \<Rightarrow> bytes \<Rightarrow> bool" where
  "read_out A key D out \<longleftrightarrow> (\<exists>xs qs R. list_all frame_ok xs \<and> opens_in_order A key xs qs \<and> concat qs = out
     \<and> D = concat (map frame_of xs) @ R \<and> (R = [] \<or> length R = 2))"

lemma next_frame_traced:
  assumes "traced A key D s out" and "es_read_buf s = []" and "next_frame A s = (x, s1)"
  shows "case x of None \<Rightarrow> traced A key D s1 out
    | Some r \<Rightarrow> polled r = [] \<and> ((\<exists>k. r = Ready (Inl k)) \<or> traced A key D s1 out \<and> (r = Ready (Inr []) \<longrightarrow> read_out A key D out))"
proof -
  obtain xs qs R where t: "es_pending_plain s = []" "dc_key (es_dec s) = key" "list_all frame_ok xs" "opens_in_order A key xs qs"
      "dc_nonce (es_dec s) = nonce_at (length xs)" "concat qs = out" "D = concat (map frame_of xs) @ R" "still_owes s R"
    using assms(1,2) by (auto simp: traced_def)
  have keep: "traced A key D s2 out" if "same_plain s s2" "still_owes s2 R" for s2
    using that t assms(2) by (auto simp: traced_def same_plain_def)
  have out: "read_out A key D out" if "R = [] \<or> length R = 2" using that t unfolding read_out_def by blast
  obtain y s2 where st: "start_frame s = (y, s2)" by fastforce
  note a = start_frame_rest [OF st t(8)]
  show ?thesis
  proof (cases y)
    case (Some r)
    then have "x = Some r" "s1 = s2" using assms(3) st by (simp_all add: next_frame_def)
    then show ?thesis using a Some keep out by auto
  next
    case None
    then obtain n where n: "es_frame_len s2 = Some n" "still_owes s2 R" "same_plain s s2" using a by auto
    obtain z s3 where bd: "read_body s2 = (z, s3)" by fastforce
    note b = read_body_rest [OF bd n(2,1)]
    have same: "same_plain s s3" using n(3) b by (auto simp: same_plain_def)
    show ?thesis
    proof (cases z)
      case (Some r)
      then have "x = Some r" "s1 = s3" using assms(3) st None bd by (simp_all add: next_frame_def)
      then show ?thesis using b Some keep [OF same] out by auto
    next
      case none: None
      then obtain data where f: "es_header s3 = []" "frame_ok (es_frame s3)" "owes_wire (es_inner s3) data" "frame_of (es_frame s3) @ data = R"
        using b by auto
      have dec: "es_dec s3 = es_dec s" using same by (simp add: same_plain_def)
      show ?thesis
      proof (cases "ae_open A key (build_nonce (nonce_at (length xs))) (es_frame s3)")
        case None
        then have "x = Some (Ready (Inl InvalidData))"
          using assms(3) st \<open>y = None\<close> bd none t(2,5) by (simp add: next_frame_def open_frame_def dec Let_def)
        then show ?thesis by simp
      next
        case (Some p)
        then have x: "x = None" "s1 = s3\<lparr>es_frame := [], es_frame_len := None,
            es_dec := (es_dec s)\<lparr>dc_nonce := nonce_at (length (xs @ [es_frame s3]))\<rparr>, es_read_buf := p\<rparr>"
          using assms(3) st \<open>y = None\<close> bd none t(2,5) by (simp_all add: next_frame_def open_frame_def dec Let_def nonce_at_Suc)
        have "still_owes s1 data" using f by (simp add: still_owes_def partial_ok_def partial_def x)
        moreover have "opens_in_order A key (xs @ [es_frame s3]) (qs @ [p])" by (rule opens_snoc [OF t(4) Some])
        moreover have "es_pending_plain s1 = []" using same t(1) by (simp add: x same_plain_def)
        ultimately have "traced A key D s1 out"
          unfolding traced_def using t f
          by (intro conjI exI [of _ "xs @ [es_frame s3]"] exI [of _ "qs @ [p]"] exI [of _ data]) (simp_all add: x)
        then show ?thesis using x by simp
      qed
    qed
  qed
qed

lemma enc_poll_read_traced:
  "traced A key D s out \<Longrightarrow> enc_poll_read A n s = (r, s1) \<Longrightarrow>
   (\<exists>k. r = Ready (Inl k)) \<or> traced A key D s1 (out @ polled r) \<and> (r = Ready (Inr []) \<longrightarrow> read_out A key D out)"
proof (induction A n s rule: enc_poll_read.induct)
  case (1 A n s)
  have np: "es_pending_plain s = []" using "1.prems"(1) by (simp add: traced_def)
  show ?case
  proof (cases "es_read_buf s = []")
    case True
    obtain x s2 where nf: "next_frame A s = (x, s2)" by fastforce
    note a = next_frame_traced [OF "1.prems"(1) True nf]
    show ?thesis
    proof (cases x)
      case None
      then have "enc_poll_read A n s2 = (r, s1)" using "1.prems"(2) np True nf by (simp add: enc_poll_read.simps [of A n s])
      then show ?thesis using "1.IH" [OF _ True nf [symmetric] None] a np None by simp
    next
      case (Some q)
      then have "r = q" "s1 = s2" using "1.prems"(2) np True nf by (simp_all add: enc_poll_read.simps [of A n s])
      then show ?thesis using a Some by auto
    qed
  next
    case False
    have "r = Pending \<and> s1 = s \<or> r = Ready (Inr (take n (es_read_buf s))) \<and> n \<noteq> 0 \<and> s1 = s\<lparr>es_read_buf := drop n (es_read_buf s)\<rparr>"
      using "1.prems"(2) False np by (auto simp: enc_poll_read.simps [of A n s] split: if_splits)
    then show ?thesis
    proof
      assume "r = Pending \<and> s1 = s"
      then show ?thesis using "1.prems"(1) by simp
    next
      assume r: "r = Ready (Inr (take n (es_read_buf s))) \<and> n \<noteq> 0 \<and> s1 = s\<lparr>es_read_buf := drop n (es_read_buf s)\<rparr>"
      then show ?thesis using traced_more [OF "1.prems"(1), of "take n (es_read_buf s)" "drop n (es_read_buf s)"] False by auto
    qed
  qed
qed

lemma enc_copy_traced:
  "traced A key D s out \<Longrightarrow> copy_to_end fuel (enc_poll_read A) n s = (ps, e, s1) \<Longrightarrow>
   opened_to A key D (out @ concat ps) \<and> (e = Some (Inr ()) \<longrightarrow> read_out A key D (out @ concat ps))"
proof (induction fuel arbitrary: s out ps e s1)
  case 0
  then show ?case using traced_opened by auto
next
  case (Suc fuel)
  obtain r s2 where p: "enc_poll_read A n s = (r, s2)" by fastforce
  note a = enc_poll_read_traced [OF Suc.prems(1) p]
  have here: "opened_to A key D out" by (rule traced_opened [OF Suc.prems(1)])
  consider "r = Pending" | k where "r = Ready (Inl k)" | bs where "r = Ready (Inr bs)"
    by (cases r) (auto, metis sum.exhaust)
  then show ?case
  proof cases
    case 1
    then show ?thesis using Suc.IH [of s2 out ps e s1] Suc.prems(2) p a by simp
  next
    case (2 k)
    then have "ps = []" "e = Some (Inl k)" using Suc.prems(2) p by auto
    then show ?thesis using here by simp
  next
    case (3 bs)
    show ?thesis
    proof (cases "bs = []")
      case True
      then show ?thesis using Suc.prems(2) p 3 here a by auto
    next
      case False
      obtain qs e2 s3 where q: "copy_to_end fuel (enc_poll_read A) n s2 = (qs, e2, s3)" using prod_cases3 by blast
      have "ps = bs # qs" "e = e2" using Suc.prems(2) p 3 False q by auto
      then show ?thesis using Suc.IH [OF _ q, of "out @ bs"] a 3 by simp
    qed
  qed
qed

text \<open>Frames on the wire are read in one way only.\<close>

lemma frame_split:
  assumes "frame_of x @ r = frame_of y @ q" and "frame_ok x" and "frame_ok y"
  shows "x = y \<and> r = q"
proof -
  have l: "length x < 65536" "length y < 65536" using assms(2,3) by (auto simp: frame_ok_def max_frame_cipher_def max_frame_plain_def)
  have "u16_be (length x) @ x @ r = u16_be (length y) @ y @ q" using assms(1) by (simp add: frame_of_def)
  then have "u16_be (length x) = u16_be (length y)" "x @ r = y @ q" by (metis append_eq_append_conv length_u16_be)+
  then have "length x mod 65536 = length y mod 65536"
    unfolding u16_be_def be16_u8_of [symmetric] by (simp only: list.inject)
  then have "length x = length y" using l by simp
  then show ?thesis using \<open>x @ r = y @ q\<close> by (simp add: append_eq_append_conv)
qed

lemma frames_split:
  "concat (map frame_of xs) @ r = concat (map frame_of ys) @ q \<Longrightarrow> list_all frame_ok xs \<Longrightarrow> list_all frame_ok ys \<Longrightarrow>
   prefix xs ys \<or> prefix ys xs"
proof (induction xs arbitrary: ys)
  case (Cons x xs)
  show ?case
  proof (cases ys)
    case (Cons y ys')
    have "x = y \<and> concat (map frame_of xs) @ r = concat (map frame_of ys') @ q"
      by (rule frame_split) (use Cons.prems Cons in \<open>simp_all\<close>)
    then show ?thesis using Cons.IH [of ys'] Cons.prems Cons by simp
  qed simp
qed simp

lemma opens_prefix:
  assumes "prefix xs ys" and "opens_in_order A key xs qs" and "opens_in_order A key ys rs"
  shows "prefix (concat qs) (concat rs)"
proof -
  obtain zs where zs: "ys = xs @ zs" using assms(1) by (auto simp: prefix_def)
  have "qs ! i = rs ! i" if "i < length xs" for i
  proof -
    have "ae_open A key (build_nonce (nonce_at i)) (xs ! i) = Some (qs ! i)" using assms(2) that by (simp add: opens_in_order_def)
    moreover have "ae_open A key (build_nonce (nonce_at i)) (ys ! i) = Some (rs ! i)" using assms(3) that zs by (simp add: opens_in_order_def)
    ultimately show ?thesis using zs that by (simp add: nth_append)
  qed
  then have "qs = take (length xs) rs"
    by (intro nth_equalityI) (use assms(2,3) zs in \<open>simp_all add: opens_in_order_def\<close>)
  then have "rs = qs @ drop (length xs) rs" by simp
  then show ?thesis by (metis concat_append prefixI)
qed

lemma bad_frame_stops:
  assumes "opens_in_order A key xs qs" and "opens_in_order A key ys rs" and "ae_open A key (build_nonce (nonce_at (length ys))) x = None"
    and "list_all frame_ok xs" and "list_all frame_ok ys" and "frame_ok x"
    and "concat (map frame_of xs) @ R = concat (map frame_of ys) @ frame_of x @ behind"
  shows "prefix (concat qs) (concat rs) \<and> 2 < length R"
proof -
  have "prefix xs (ys @ [x]) \<or> prefix (ys @ [x]) xs"
    by (rule frames_split [where r = R and q = behind]) (use assms(4-7) in simp_all)
  moreover have "\<not> prefix (ys @ [x]) xs"
  proof
    assume "prefix (ys @ [x]) xs"
    then obtain zs where "xs = ys @ x # zs" by (auto simp: prefix_def)
    then show False using assms(1,3) by (auto simp: opens_in_order_def dest: spec [of _ "length ys"])
  qed
  ultimately have p: "prefix xs ys" by (auto simp: prefix_snoc)
  then obtain zs where "ys = xs @ zs" by (auto simp: prefix_def)
  then have "R = concat (map frame_of zs) @ frame_of x @ behind" using assms(7) by simp
  then have "2 < length R" using assms(6) by (cases x) (simp_all add: frame_ok_def frame_of_def)
  then show ?thesis using opens_prefix [OF p assms(1,2)] by blast
qed

text \<open>
  C28. Integrity, on both sides and whatever bytes arrive on the connection, truncated, reordered, replayed or
  forged: the bytes begin with frames of which the first opens under the key of the direction and the nonce of 0, the
  second under that of 1, and so on, and what the reader is given is a front of their plaintexts in this order; if the
  reader comes to a good end, it is all of them, and nothing was left on the connection but at most the
  two bytes of a length. A frame that does not open at its place stops the reader: nothing of it or behind it is
  delivered, and the reader does not come to a good end.
\<close>

theorem sgfb_only_authentic:
  assumes "(s, key) \<in> {(server_side w keys, client_to_server keys), (client_side w keys, server_to_client keys)}"
    and "RData [] \<notin> set (wi_in w)" and "copy_to_end fuel (enc_poll_read A) n s = (ps, e, s1)"
  shows "(\<exists>xs qs rest. script_data (wi_in w) = concat (map frame_of xs) @ rest \<and> list_all frame_ok xs \<and> opens_in_order A key xs qs
        \<and> prefix (concat ps) (concat qs))
    \<and> (e = Some (Inr ()) \<longrightarrow> (\<exists>xs qs rest. script_data (wi_in w) = concat (map frame_of xs) @ rest \<and> list_all frame_ok xs
        \<and> opens_in_order A key xs qs \<and> concat ps = concat qs \<and> (rest = [] \<or> length rest = 2)))
    \<and> (\<forall>ys rs x behind. script_data (wi_in w) = concat (map frame_of ys) @ frame_of x @ behind \<longrightarrow> list_all frame_ok (x # ys) \<longrightarrow>
        opens_in_order A key ys rs \<longrightarrow> ae_open A key (build_nonce (nonce_at (length ys))) x = None \<longrightarrow>
        prefix (concat ps) (concat rs) \<and> e \<noteq> Some (Inr ()))"
proof -
  let ?D = "script_data (wi_in w)"
  have s: "still_owes s ?D" "es_pending_plain s = []" "dc_key (es_dec s) = key" "dc_nonce (es_dec s) = 0" "es_read_buf s = []"
    using assms(1,2) by (auto simp: still_owes_def partial_ok_def partial_def server_side_def client_side_def enc_stream_new_def
        dir_cipher_new_def owes_wire_def owes_script_def)
  have "traced A key ?D s []"
    unfolding traced_def
    by (intro conjI exI [of _ "[]"] exI [of _ ?D]) (simp_all add: s opens_in_order_def nonce_at_0)
  from enc_copy_traced [OF this assms(3)]
  obtain xs qs R where x: "list_all frame_ok xs" "opens_in_order A key xs qs" "?D = concat (map frame_of xs) @ R" "prefix (concat ps) (concat qs)"
    and ended: "e = Some (Inr ()) \<longrightarrow> read_out A key ?D (concat ps)" by (auto simp: opened_to_def)
  have bad: "prefix (concat ps) (concat rs) \<and> e \<noteq> Some (Inr ())"
    if b: "?D = concat (map frame_of ys) @ frame_of x @ behind" "list_all frame_ok (x # ys)" "opens_in_order A key ys rs"
      "ae_open A key (build_nonce (nonce_at (length ys))) x = None" for ys rs x behind
  proof
    show "prefix (concat ps) (concat rs)"
      using bad_frame_stops [OF x(2) b(3,4) x(1), of R behind] x(3,4) b(1,2) by (auto intro: prefix_order.order_trans)
    show "e \<noteq> Some (Inr ())"
    proof
      assume "e = Some (Inr ())"
      then obtain xs qs R where "list_all frame_ok xs" "opens_in_order A key xs qs" "?D = concat (map frame_of xs) @ R" "R = [] \<or> length R = 2"
        using ended by (auto simp: read_out_def)
      then show False using bad_frame_stops [of A key xs qs ys rs x R behind] b by auto
    qed
  qed
  then show ?thesis
  proof (intro conjI)
    show "\<exists>xs qs rest. ?D = concat (map frame_of xs) @ rest \<and> list_all frame_ok xs \<and> opens_in_order A key xs qs
        \<and> prefix (concat ps) (concat qs)" using x by blast
    show "e = Some (Inr ()) \<longrightarrow> (\<exists>xs qs rest. ?D = concat (map frame_of xs) @ rest \<and> list_all frame_ok xs
        \<and> opens_in_order A key xs qs \<and> concat ps = concat qs \<and> (rest = [] \<or> length rest = 2))"
      using ended unfolding read_out_def by metis
  qed blast
qed

text \<open>A frame and its replay: the reader is given the first and stops at the second.\<close>

definition toy_frame :: bytes where
  "toy_frame = [1, 2] @ toy_tag [5] (build_nonce 0)"

definition toy_replay :: wire where
  "toy_replay = \<lparr>wi_in = [RData (frame_of toy_frame @ frame_of toy_frame), REof], wi_out = [], wi_sent = []\<rparr>"

lemma toy_replay_facts:
  "RData [] \<notin> set (wi_in toy_replay)" "script_data (wi_in toy_replay) = concat (map frame_of [toy_frame]) @ frame_of toy_frame @ []"
  by (simp_all add: toy_replay_def frame_of_def u16_be_def)

lemma toy_frame_opens_once:
  "opens_in_order toy_aead [5] [toy_frame] [[1, 2]]"
  "ae_open toy_aead [5] (build_nonce (nonce_at (length [toy_frame]))) toy_frame = None"
  "list_all frame_ok (toy_frame # [toy_frame])"
proof -
  have t: "toy_tag [5] (build_nonce 0) \<noteq> toy_tag [5] (build_nonce 1)" by (simp add: toy_tag_def toy_nonces)
  have n1: "nonce_at (Suc 0) = 1" by (simp add: nonce_at_def last_nonce_def)
  have l: "length toy_frame = 18" "toy_frame \<noteq> []" by (simp_all add: toy_frame_def length_toy_tag)
  have d: "drop 2 toy_frame = toy_tag [5] (build_nonce 0)" "take 2 toy_frame = [1, 2]" by (simp_all add: toy_frame_def)
  show "opens_in_order toy_aead [5] [toy_frame] [[1, 2]]" by (simp add: opens_in_order_def nonce_at_0 toy_aead_def l d)
  show "ae_open toy_aead [5] (build_nonce (nonce_at (length [toy_frame]))) toy_frame = None"
    using t by (simp add: toy_aead_def l d n1)
  show "list_all frame_ok (toy_frame # [toy_frame])" by (simp add: frame_ok_def l max_frame_cipher_def max_frame_plain_def)
qed

lemma sgfb_only_authentic_witness:
  "\<exists>ps e s1. copy_to_end 9 (enc_poll_read toy_aead) 9 (server_side toy_replay \<lparr>client_to_server = [5], server_to_client = [6]\<rparr>) = (ps, e, s1)
    \<and> prefix (concat ps) [1, 2] \<and> e \<noteq> Some (Inr ())"
proof -
  define k where "k = \<lparr>client_to_server = [5 :: u8], server_to_client = [6]\<rparr>"
  define s where "s = server_side toy_replay k"
  obtain ps e s1 where run: "copy_to_end 9 (enc_poll_read toy_aead) 9 s = (ps, e, s1)" using prod_cases3 by blast
  have "client_to_server k = [5]" by (simp add: k_def)
  then have side: "(s, [5]) \<in> {(server_side toy_replay k, client_to_server k), (client_side toy_replay k, server_to_client k)}"
    unfolding s_def by (simp only: insertI1)
  note all = conjunct2 [OF conjunct2 [OF sgfb_only_authentic [OF side toy_replay_facts(1) run]]]
  have "prefix (concat ps) (concat [[1, 2]]) \<and> e \<noteq> Some (Inr ())"
    by (rule all [rule_format, OF toy_replay_facts(2) toy_frame_opens_once(3,1,2)])
  then show ?thesis using run unfolding s_def k_def by simp
qed

end
