(* ===== verification/Async_Io.thy ===== *)
theory Async_Io
  imports Io_Streams
begin

text \<open>
  The asynchronous operations the sessions are made of. A task over a state (the sockets) ends with
  an error, ends with a value, or (\<^term>\<open>None\<close>) is still waiting when its fuel, a number of polls
  for each operation, is spent; \<open>timed\<close> is \<^verbatim>\<open>tokio::time::timeout\<close>, where the fuel is what happens
  before the timer fires. \<open>write_all\<close> and \<open>read_some\<close> are tokio's \<^verbatim>\<open>write_all\<close> and \<^verbatim>\<open>read\<close>. The locale
  \<open>byte_sink\<close> is the contract of a writer, as \<open>byte_source\<close> is that of a reader; \<open>duplex\<close> joins
  them for a stream that has both directions.
\<close>

section \<open>Tasks\<close>

type_synonym ('s, 'a) io_task = "'s \<Rightarrow> (io_kind + 'a) option \<times> 's"
type_synonym ('s, 'a) task = "'s \<Rightarrow> 'a result option \<times> 's"

definition retT :: "'a \<Rightarrow> ('s, 'a) task" where
  "retT a s = (Some (Inr a), s)"

definition failT :: "sg_error \<Rightarrow> ('s, 'a) task" where
  "failT e s = (Some (Inl e), s)"

definition liftT :: "'a result \<Rightarrow> ('s, 'a) task" where
  "liftT r s = (Some r, s)"

text \<open>\<^verbatim>\<open>t.await?\<close> and then the rest.\<close>

definition bindT :: "('s, 'a) task \<Rightarrow> ('a \<Rightarrow> ('s, 'b) task) \<Rightarrow> ('s, 'b) task" where
  "bindT t f s = (case t s of
     (None, s1) \<Rightarrow> (None, s1)
   | (Some (Inl e), s1) \<Rightarrow> (Some (Inl e), s1)
   | (Some (Inr a), s1) \<Rightarrow> f a s1)"

text \<open>\<^verbatim>\<open>map_err(|err| StealthGateError::Proxy(..))\<close>\<close>

definition proxy_err :: "string \<Rightarrow> ('s, 'a) io_task \<Rightarrow> ('s, 'a) task" where
  "proxy_err msg t s = (case t s of
     (None, s1) \<Rightarrow> (None, s1)
   | (Some (Inl _), s1) \<Rightarrow> (Some (Inl (Proxy msg)), s1)
   | (Some (Inr a), s1) \<Rightarrow> (Some (Inr a), s1))"

definition timed :: "string \<Rightarrow> ('s, 'a) task \<Rightarrow> ('s, 'a) task" where
  "timed msg t s = (case t s of
     (None, s1) \<Rightarrow> (Some (Inl (Proxy msg)), s1)
   | (Some r, s1) \<Rightarrow> (Some r, s1))"

named_theorems task_defs
declare retT_def [task_defs] failT_def [task_defs] liftT_def [task_defs] bindT_def [task_defs]
  proxy_err_def [task_defs] timed_def [task_defs]

lemma timed_returns: "fst (timed msg t s) \<noteq> None"
  by (auto simp: timed_def split: prod.splits option.splits)

section \<open>Writing and reading\<close>

fun write_all :: "nat \<Rightarrow> 's poll_write_fun \<Rightarrow> bytes \<Rightarrow> ('s, unit) io_task" where
  "write_all 0 wr bs s = (if bs = [] then Some (Inr ()) else None, s)"
| "write_all (Suc fuel) wr bs s =
     (if bs = [] then (Some (Inr ()), s)
      else (case wr bs s of
          (Pending, s1) \<Rightarrow> write_all fuel wr bs s1
        | (Ready (Inl k), s1) \<Rightarrow> (Some (Inl k), s1)
        | (Ready (Inr n), s1) \<Rightarrow> if n = 0 then (Some (Inl WriteZero), s1) else write_all fuel wr (drop n bs) s1))"

fun read_some :: "nat \<Rightarrow> 's poll_read_fun \<Rightarrow> nat \<Rightarrow> ('s, bytes) io_task" where
  "read_some 0 poll n s = (None, s)"
| "read_some (Suc fuel) poll n s =
     (case poll n s of
        (Pending, s1) \<Rightarrow> read_some fuel poll n s1
      | (Ready r, s1) \<Rightarrow> (Some r, s1))"

context byte_source
begin

lemma read_some_delivers:
  "owes s d \<Longrightarrow> 0 < n \<Longrightarrow> read_some fuel poll_rd n s = (r, s1) \<Longrightarrow>
   \<exists>d1. owes s1 d1 \<and> (case r of Some (Inr bs) \<Rightarrow> d = bs @ d1 \<and> (bs = [] \<longrightarrow> d = []) \<and> length bs \<le> n | _ \<Rightarrow> d = d1)"
proof (induction fuel arbitrary: s d)
  case (Suc fuel)
  obtain p s2 where p: "poll_rd n s = (p, s2)" by fastforce
  from poll_delivers [OF Suc.prems(1,2) p] obtain d2 where d2: "owes s2 d2" "d = polled p @ d2" by blast
  show ?case
  proof (cases p rule: polled.cases)
    case (1 bs)
    then show ?thesis using d2 p Suc.prems(3) poll_delivers [OF Suc.prems(1,2) p] by auto
  qed (use d2 p Suc.prems Suc.IH [of s2 d2] in auto)
qed auto

end

section \<open>The contract of a writer\<close>

text \<open>\<open>took s d\<close>: what the stream in state \<open>s\<close> has accepted so far, in full, is \<open>d\<close>.\<close>

fun accepted_of :: "bytes \<Rightarrow> (io_kind + nat) poll \<Rightarrow> bytes" where
  "accepted_of bs (Ready (Inr n)) = take n bs"
| "accepted_of bs _ = []"

locale byte_sink =
  fixes poll_wr :: "bytes \<Rightarrow> 's \<Rightarrow> (io_kind + nat) poll \<times> 's" and took :: "'s \<Rightarrow> bytes \<Rightarrow> bool"
  assumes poll_accepts: "took s d \<Longrightarrow> bs \<noteq> [] \<Longrightarrow> poll_wr bs s = (r, s1) \<Longrightarrow>
    took s1 (d @ accepted_of bs r) \<and> (\<forall>n. r = Ready (Inr n) \<longrightarrow> n \<le> length bs)"
begin

lemma write_all_accepts:
  "took s d \<Longrightarrow> write_all fuel poll_wr bs s = (r, s1) \<Longrightarrow>
   \<exists>sent left. bs = sent @ left \<and> took s1 (d @ sent) \<and> (r = Some (Inr ()) \<longrightarrow> left = [])"
proof (induction fuel arbitrary: bs s d r s1)
  case 0
  then have "r = (if bs = [] then Some (Inr ()) else None)" "s1 = s" by simp_all
  then show ?case using 0(1) by (intro exI [of _ "[]"] exI [of _ bs]) simp
next
  case (Suc fuel)
  show ?case
  proof (cases "bs = []")
    case True
    then show ?thesis using Suc.prems by auto
  next
    case ne: False
    obtain p s2 where p: "poll_wr bs s = (p, s2)" by fastforce
    note acc = poll_accepts [OF Suc.prems(1) ne p]
    consider "p = Pending" | k where "p = Ready (Inl k)" | n where "p = Ready (Inr n)"
      by (cases p) (auto, metis sum.exhaust)
    then show ?thesis
    proof cases
      case 1
      then show ?thesis using Suc.IH [of s2 d bs r s1] acc Suc.prems(2) p ne by simp
    next
      case (2 k)
      then have "r = Some (Inl k)" "s1 = s2" "took s2 d" using acc Suc.prems(2) p ne by simp_all
      then show ?thesis by (intro exI [of _ "[]"] exI [of _ bs]) simp
    next
      case (3 n)
      show ?thesis
      proof (cases "n = 0")
        case True
        then have "r = Some (Inl WriteZero)" "s1 = s2" "took s2 d" using 3 acc Suc.prems(2) p ne by simp_all
        then show ?thesis by (intro exI [of _ "[]"] exI [of _ bs]) simp
      next
        case False
        then have w: "write_all fuel poll_wr (drop n bs) s2 = (r, s1)" using Suc.prems(2) p ne 3 by simp
        have t: "took s2 (d @ take n bs)" using acc 3 by simp
        obtain sent left where "drop n bs = sent @ left" "took s1 ((d @ take n bs) @ sent)" "r = Some (Inr ()) \<longrightarrow> left = []"
          using Suc.IH [OF t w] by blast
        moreover from this have "bs = (take n bs @ sent) @ left" by (metis append_assoc append_take_drop_id)
        ultimately show ?thesis by (intro exI [of _ "take n bs @ sent"] exI [of _ left]) simp
      qed
    qed
  qed
qed

end

definition took_wire :: "wire \<Rightarrow> bytes \<Rightarrow> bool" where
  "took_wire w d \<longleftrightarrow> wi_sent w = d"

lemma inner_write_shape:
  "inner_write bs es = (r, acc, es') \<Longrightarrow> acc = accepted_of bs r \<and> (\<forall>n. r = Ready (Inr n) \<longrightarrow> n \<le> length bs)"
  by (cases "(bs, es)" rule: inner_write.cases) auto

interpretation wire_sink: byte_sink wire_write took_wire
  by unfold_locales (auto simp: wire_write_def took_wire_def split: prod.splits dest: inner_write_shape)

text \<open>A socket that goes on accepting: at least \<open>k\<close> more writes succeed, and none fails.\<close>

definition willing :: "nat \<Rightarrow> wire \<Rightarrow> bool" where
  "willing k w \<longleftrightarrow> k \<le> length (filter (\<lambda>e. e \<noteq> WPending) (wi_out w))
     \<and> list_all (\<lambda>e. case e of WAccept n \<Rightarrow> 0 < n | WErr _ \<Rightarrow> False | WPending \<Rightarrow> True) (wi_out w)"

lemma write_all_willing:
  "willing (length bs + k) w \<Longrightarrow> length (wi_out w) < fuel \<Longrightarrow>
   \<exists>es. write_all fuel wire_write bs w = (Some (Inr ()), w\<lparr>wi_out := es, wi_sent := wi_sent w @ bs\<rparr>)
     \<and> length es \<le> length (wi_out w) \<and> willing k (w\<lparr>wi_out := es, wi_sent := wi_sent w @ bs\<rparr>)"
proof (induction fuel arbitrary: bs w)
  case (Suc fuel)
  show ?case
  proof (cases "bs = []")
    case True
    then show ?thesis using Suc.prems by (intro exI [of _ "wi_out w"]) simp
  next
    case False
    then obtain e es where es: "wi_out w = e # es" using Suc.prems(1) by (cases "wi_out w") (auto simp: willing_def)
    show ?thesis
    proof (cases e)
      case WPending
      then have "willing (length bs + k) (w\<lparr>wi_out := es\<rparr>)" using Suc.prems(1) es by (simp add: willing_def)
      from Suc.IH [OF this] Suc.prems(2) es WPending False show ?thesis
        by (auto simp: wire_write_def)
    next
      case (WErr k')
      then show ?thesis using Suc.prems(1) es by (simp add: willing_def)
    next
      case (WAccept n)
      define m where m_def: "m = min n (length bs)"
      have n: "0 < n" using Suc.prems(1) es WAccept by (simp add: willing_def)
      then have m: "m \<noteq> 0" "m \<le> length bs" using False by (auto simp: m_def)
      let ?w = "w\<lparr>wi_out := es, wi_sent := wi_sent w @ take m bs\<rparr>"
      have "willing (length (drop m bs) + k) ?w" using Suc.prems(1) es WAccept m by (auto simp: willing_def)
      from Suc.IH [OF this] Suc.prems(2) es obtain es1 where
        "write_all fuel wire_write (drop m bs) ?w = (Some (Inr ()), ?w\<lparr>wi_out := es1, wi_sent := wi_sent ?w @ drop m bs\<rparr>)"
        "length es1 \<le> length es" "willing k (?w\<lparr>wi_out := es1, wi_sent := wi_sent ?w @ drop m bs\<rparr>)" by auto
      moreover have "wire_write bs w = (Ready (Inr m), ?w)" by (simp add: wire_write_def es WAccept m_def)
      ultimately show ?thesis using False m(1) es by (intro exI [of _ es1]) simp
    qed
  qed
qed simp

text \<open>Reading from a socket whose peer sends and closes; the bytes not asked for stay.\<close>

lemma wire_read_exact:
  assumes "clean_script (wi_in w)" and "script_size (wi_in w) < fuel" and "n \<le> length (script_data (wi_in w))"
  shows "\<exists>es. read_exact fuel wire_read n w = (Some (Inr (take n (script_data (wi_in w)))), w\<lparr>wi_in := es\<rparr>)
    \<and> clean_script es \<and> script_data es = drop n (script_data (wi_in w)) \<and> script_size es \<le> script_size (wi_in w)"
proof -
  have lift: "read_exact fuel wire_read n w = (case read_exact fuel inner_read n (wi_in w) of (r, es) \<Rightarrow> (r, w\<lparr>wi_in := es\<rparr>))" for w
  proof (induction fuel arbitrary: n w)
    case (Suc fuel)
    obtain r es where r: "inner_read n (wi_in w) = (r, es)" by fastforce
    then have r': "wire_read n w = (r, w\<lparr>wi_in := es\<rparr>)" by (simp add: wire_read_def)
    show ?case
      by (cases r rule: polled.cases) (simp_all add: r r' Suc split: prod.splits option.splits sum.splits)
  qed simp
  show ?thesis using read_exact_script [OF assms(1,2), of n] assms(3) by (auto simp: lift)
qed

section \<open>A conversation with a well-behaved peer\<close>

text \<open>
  The peer will send \<open>d\<close> and close, accepts at least \<open>k\<close> more bytes, and the fuel of one operation
  outlasts its pauses.
\<close>

definition talk :: "nat \<Rightarrow> nat \<Rightarrow> bytes \<Rightarrow> wire \<Rightarrow> bool" where
  "talk fuel k d w \<longleftrightarrow> willing k w \<and> clean_script (wi_in w) \<and> script_data (wi_in w) = d
     \<and> length (wi_out w) < fuel \<and> script_size (wi_in w) < fuel"

lemma talk_write:
  assumes "talk fuel (length bs + k) d w"
  shows "\<exists>w1. write_all fuel wire_write bs w = (Some (Inr ()), w1) \<and> talk fuel k d w1 \<and> wi_sent w1 = wi_sent w @ bs"
  using write_all_willing [of bs k w fuel] assms by (fastforce simp: talk_def)

lemma talk_read:
  assumes "talk fuel k (xs @ d) w" and "length xs = n"
  shows "\<exists>w1. read_exact fuel wire_read n w = (Some (Inr xs), w1) \<and> talk fuel k d w1 \<and> wi_sent w1 = wi_sent w"
  using wire_read_exact [of w fuel n] assms by (fastforce simp: talk_def willing_def)

lemma talk_weaken: "talk fuel k d w \<Longrightarrow> j \<le> k \<Longrightarrow> talk fuel j d w"
  by (auto simp: talk_def willing_def)

end
