(* ===== verification/Socks_Network.thy ===== *)
theory Socks_Network
  imports Async_Io Config_Model
begin

text \<open>
  \<^verbatim>\<open>src/network.rs\<close>: dialling a backend, directly or through a SOCKS5 proxy. Dialling itself is the
  operating system's: \<open>net_env\<close> says what \<^verbatim>\<open>TcpStream::connect\<close> gives for an address within a number
  of seconds (\<^term>\<open>None\<close>: nothing within the time). The dialog runs on the \<^typ>\<open>wire\<close> it returned.
\<close>

section \<open>Addresses\<close>

definition parse_host_port :: "string \<Rightarrow> (string \<times> u16) result" where
  "parse_host_port value =
     bindR (ok_or (Config (''bad host:port: '' @ value)) (rsplit_once (CHR '':'') value)) (\<lambda>(host, port).
     bindR (ok_or (Config (''bad port '' @ port)) (parse_unsigned 65536 port)) (\<lambda>p.
     Inr (host, word_of_nat p)))"

definition parse_socks5_url :: "string \<Rightarrow> (string \<times> u16 \<times> string option \<times> string option) result" where
  "parse_socks5_url url =
     bindR (ok_or (Config ''a SOCKS5 URL starts with socks5://'') (strip_prefix url ''socks5://'')) (\<lambda>stripped.
     let (auth, host_port) = (case rsplit_once (CHR ''@'') stripped of
           Some (auth, host_port) \<Rightarrow>
             if CHR ''@'' \<in> set stripped \<and> CHR ''@'' \<notin> set host_port then (Some auth, host_port) else (None, stripped)
         | None \<Rightarrow> (None, stripped)) in
     bindR (case auth of
              Some a \<Rightarrow> bindR (ok_or (Config ''SOCKS5 auth must be user:pass@host:port'') (split_once (CHR '':'') a))
                         (\<lambda>(user, pass). Inr (Some user, Some pass))
            | None \<Rightarrow> Inr (None, None)) (\<lambda>(username, password).
     bindR (parse_host_port host_port) (\<lambda>(host, port).
     Inr (host, port, username, password))))"

section \<open>The SOCKS5 dialog\<close>

record net_env =
  ne_dial :: "u64 \<Rightarrow> string \<Rightarrow> (io_kind + wire) option"
  ne_dial_pair :: "u64 \<Rightarrow> string \<Rightarrow> u16 \<Rightarrow> (io_kind + wire) option"

definition socks_read :: "nat \<Rightarrow> nat \<Rightarrow> (wire, bytes) task" where
  "socks_read fuel n = proxy_err ''SOCKS5 read'' (read_exact fuel wire_read n)"

definition socks_write :: "nat \<Rightarrow> bytes \<Rightarrow> (wire, unit) task" where
  "socks_write fuel bs = proxy_err ''SOCKS5 write'' (write_all fuel wire_write bs)"

definition socks_greeting :: "string option \<Rightarrow> bytes" where
  "socks_greeting username = (if username \<noteq> None then [5, 2, 0, 2] else [5, 1, 0])"

definition socks_auth :: "string \<Rightarrow> string \<Rightarrow> bytes" where
  "socks_auth user pass = [1, u8_of (length (as_bytes user))] @ as_bytes user
     @ [u8_of (length (as_bytes pass))] @ as_bytes pass"

definition socks_request :: "string \<Rightarrow> u16 \<Rightarrow> bytes" where
  "socks_request host port = [5, 1, 0, 3, u8_of (length (as_bytes host))] @ as_bytes host
     @ [u8_of (unat (drop_bit 8 port)), u8_of (unat (Bit_Operations.and port 255))]"

text \<open>The answer to the greeting: the method the proxy has chosen, with the login if it wants one.\<close>

definition socks_method :: "nat \<Rightarrow> string option \<Rightarrow> string option \<Rightarrow> (wire, unit) task" where
  "socks_method fuel username password =
     bindT (socks_read fuel 2) (\<lambda>response.
     if response ! 0 \<noteq> 5 then failT (Proxy ''bad SOCKS5 greeting'')
     else if response ! 1 = 2 then
       bindT (liftT (ok_or (Proxy ''SOCKS5 wants a login'') username)) (\<lambda>user.
       bindT (socks_write fuel (socks_auth user (case password of Some p \<Rightarrow> p | None \<Rightarrow> []))) (\<lambda>_.
       bindT (socks_read fuel 2) (\<lambda>auth_resp.
       if auth_resp ! 1 \<noteq> 0 then failT (Proxy ''SOCKS5 auth failed'') else retT ())))
     else if response ! 1 \<noteq> 0 then failT (Proxy ''SOCKS5 method rejected'')
     else retT ())"

text \<open>The answer to the request: its header and the bound address, of a length that depends on its type.\<close>

definition socks_reply :: "nat \<Rightarrow> (wire, unit) task" where
  "socks_reply fuel =
     bindT (socks_read fuel 4) (\<lambda>header.
     if header ! 1 \<noteq> 0 then failT (Proxy ''SOCKS5 CONNECT failed'')
     else if header ! 3 = 1 then bindT (socks_read fuel 6) (\<lambda>_. retT ())
     else if header ! 3 = 3 then
       bindT (socks_read fuel 1) (\<lambda>len. bindT (socks_read fuel (unat (len ! 0) + 2)) (\<lambda>_. retT ()))
     else if header ! 3 = 4 then bindT (socks_read fuel 18) (\<lambda>_. retT ())
     else failT (Proxy ''unsupported SOCKS5 ATYP''))"

definition socks5_dialog :: "nat \<Rightarrow> string option \<Rightarrow> string option \<Rightarrow> string \<Rightarrow> u16 \<Rightarrow> (wire, unit) task" where
  "socks5_dialog fuel username password host port =
     bindT (socks_write fuel (socks_greeting username)) (\<lambda>_.
     bindT (socks_method fuel username password) (\<lambda>_.
     bindT (socks_write fuel (socks_request host port)) (\<lambda>_.
     socks_reply fuel)))"

definition socks5_connect :: "net_env \<Rightarrow> nat \<Rightarrow> string \<Rightarrow> string \<Rightarrow> u64 \<Rightarrow> wire result option" where
  "socks5_connect env fuel proxy_url target timeout_secs =
     (case parse_socks5_url proxy_url of
        Inl e \<Rightarrow> Some (Inl e)
      | Inr (proxy_host, proxy_port, username, password) \<Rightarrow>
          (case parse_host_port target of
             Inl e \<Rightarrow> Some (Inl e)
           | Inr (target_host, target_port) \<Rightarrow>
               (case ne_dial_pair env timeout_secs proxy_host proxy_port of
                  None \<Rightarrow> Some (Inl (Proxy ''SOCKS5 timeout''))
                | Some (Inl _) \<Rightarrow> Some (Inl (Proxy ''SOCKS5 connect''))
                | Some (Inr stream) \<Rightarrow>
                    (case socks5_dialog fuel username password target_host target_port stream of
                       (None, _) \<Rightarrow> None
                     | (Some (Inl e), _) \<Rightarrow> Some (Inl e)
                     | (Some (Inr _), stream1) \<Rightarrow> Some (Inr stream1)))))"

definition connect_backend :: "net_env \<Rightarrow> nat \<Rightarrow> string \<Rightarrow> network_config \<Rightarrow> wire result option" where
  "connect_backend env fuel backend cfg =
     (let timeout_secs = max (backend_timeout_secs cfg) 1 in
      case socks5_proxy cfg of
        Some proxy \<Rightarrow> socks5_connect env fuel proxy backend timeout_secs
      | None \<Rightarrow>
          (case ne_dial env timeout_secs backend of
             None \<Rightarrow> Some (Inl (Proxy ''timeout connecting to backend''))
           | Some (Inl _) \<Rightarrow> Some (Inl (Proxy ''connecting to backend''))
           | Some (Inr stream) \<Rightarrow> Some (Inr stream)))"

text \<open>Waiting for the first bytes after the split acknowledgement; they are put back by the caller.\<close>

definition peek_raw_after_ack :: "nat \<Rightarrow> 's poll_read_fun \<Rightarrow> ('s, bytes) task" where
  "peek_raw_after_ack fuel poll =
     bindT (timed ''split back ee: timeout waiting for SGFB from front''
              (proxy_err ''split back ee: peek raw SGFB'' (read_some fuel poll 8192))) (\<lambda>buf.
     if buf = [] then failT (Proxy ''split back ee: front closed before SGFB data'') else retT buf)"

section \<open>What a SOCKS5 server understands\<close>

text \<open>
  RFC 1928 and RFC 1929 from the server's side, for the method it has chosen: the greeting with
  the methods offered, the login when the method asks for it, and a CONNECT to a domain name.
\<close>

definition take_counted :: "bytes \<Rightarrow> (bytes \<times> bytes) option" where
  "take_counted bs = (case bs of
     n # rest \<Rightarrow> if unat n \<le> length rest then Some (take (unat n) rest, drop (unat n) rest) else None
   | [] \<Rightarrow> None)"

definition rfc1929_login :: "bytes \<Rightarrow> ((bytes \<times> bytes) \<times> bytes) option" where
  "rfc1929_login bs = (case bs of
     v # rest \<Rightarrow> if v \<noteq> 1 then None else
       Option.bind (take_counted rest) (\<lambda>(user, rest1).
       Option.bind (take_counted rest1) (\<lambda>(pass, rest2). Some ((user, pass), rest2)))
   | [] \<Rightarrow> None)"

definition rfc1928_connect :: "bytes \<Rightarrow> (bytes \<times> nat) option" where
  "rfc1928_connect bs = (case bs of
     v # cmd # rsv # atyp # rest \<Rightarrow> if (v, cmd, rsv, atyp) \<noteq> (5, 1, 0, 3) then None else
       Option.bind (take_counted rest) (\<lambda>(host, rest1).
       (case rest1 of [a, b] \<Rightarrow> Some (host, be16 a b) | _ \<Rightarrow> None))
   | _ \<Rightarrow> None)"

definition rfc1928_server :: "u8 \<Rightarrow> bytes \<Rightarrow> ((bytes \<times> bytes) option \<times> bytes \<times> nat) option" where
  "rfc1928_server m bs = (case bs of
     v # rest \<Rightarrow> if v \<noteq> 5 then None else
       Option.bind (take_counted rest) (\<lambda>(methods, rest1).
       if m \<notin> set methods then None
       else Option.bind (if m = 2 then map_option (\<lambda>(l, r). (Some l, r)) (rfc1929_login rest1) else Some (None, rest1))
         (\<lambda>(login, rest2). map_option (\<lambda>(h, p). (login, h, p)) (rfc1928_connect rest2)))
   | [] \<Rightarrow> None)"

text \<open>What such a server sends: the method, the verdict on the login and the bound address.\<close>

definition bound_addr :: "u8 \<Rightarrow> bytes \<Rightarrow> bool" where
  "bound_addr atyp bs \<longleftrightarrow> (atyp = 1 \<and> length bs = 6) \<or> (atyp = 4 \<and> length bs = 18)
     \<or> (atyp = 3 \<and> bs \<noteq> [] \<and> length bs = unat (hd bs) + 3)"

definition server_says :: "u8 \<Rightarrow> u8 \<Rightarrow> bytes \<Rightarrow> bytes" where
  "server_says m atyp bound = [5, m] @ (if m = 2 then [1, 0] else []) @ [5, 0, 0, atyp] @ bound"

section \<open>Lemmas\<close>

lemma take_counted_u8:
  "length bs < 256 \<Longrightarrow> take_counted (u8_of (length bs) # bs @ rest) = Some (bs, rest)"
  by (simp add: take_counted_def u8_of_def unat_of_nat)

lemma rfc1929_login_socks_auth:
  "length user < 256 \<Longrightarrow> length pass < 256 \<Longrightarrow>
   rfc1929_login (socks_auth user pass @ rest) = Some ((as_bytes user, as_bytes pass), rest)"
  using take_counted_u8 [of "as_bytes user" "u8_of (length pass) # as_bytes pass @ rest"] take_counted_u8 [of "as_bytes pass" rest]
  by (simp add: rfc1929_login_def socks_auth_def)

lemma port_bytes:
  "be16 (u8_of (unat (drop_bit 8 port))) (u8_of (unat (Bit_Operations.and port 255))) = unat (port :: u16)"
proof -
  have "unat (drop_bit 8 port) = unat port div 256"
    by (subst unat_drop_bit_eq) (simp add: drop_bit_eq_div)
  moreover have "(255 :: u16) = mask 8" by (simp add: mask_eq_exp_minus_1)
  then have "unat (Bit_Operations.and port 255) = unat port mod 256"
    by (simp only: unsigned_take_bit_eq flip: take_bit_eq_mask) (simp add: take_bit_eq_mod)
  moreover have "unat port < 65536" using unsigned_less [of port] by simp
  ultimately show ?thesis by (simp add: be16_def u8_of_def unat_of_nat)
qed

lemma rfc1928_connect_socks_request:
  "length host < 256 \<Longrightarrow> rfc1928_connect (socks_request host port) = Some (as_bytes host, unat port)"
  using take_counted_u8 [of "as_bytes host" "[u8_of (unat (drop_bit 8 port)), u8_of (unat (Bit_Operations.and port 255))]"]
  by (simp add: rfc1928_connect_def socks_request_def port_bytes)

text \<open>One exchange each way, in the task of the dialog.\<close>

lemma socks_write_talk:
  assumes "talk fuel (length bs + k) d w"
  obtains w1 where "socks_write fuel bs w = (Some (Inr ()), w1)" "talk fuel k d w1" "wi_sent w1 = wi_sent w @ bs"
  using talk_write [OF assms] that by (auto simp: socks_write_def task_defs)

lemma socks_read_talk:
  assumes "talk fuel k (xs @ d) w" and "length xs = n"
  obtains w1 where "socks_read fuel n w = (Some (Inr xs), w1)" "talk fuel k d w1" "wi_sent w1 = wi_sent w"
  using talk_read [OF assms] that by (auto simp: socks_read_def task_defs)

definition login_bytes :: "u8 \<Rightarrow> string option \<Rightarrow> string option \<Rightarrow> bytes" where
  "login_bytes m username password =
     (if m = 2 then socks_auth (the username) (case password of Some p \<Rightarrow> p | None \<Rightarrow> []) else [])"

lemma socks_method_talk:
  assumes "talk fuel (length (login_bytes m username password) + k) ([5, m] @ (if m = 2 then [1, 0] else []) @ d) w"
    and "m = 0 \<or> m = 2 \<and> username \<noteq> None"
  obtains w1 where "socks_method fuel username password w = (Some (Inr ()), w1)" "talk fuel k d w1"
    "wi_sent w1 = wi_sent w @ login_bytes m username password"
proof -
  obtain w1 where w1: "socks_read fuel 2 w = (Some (Inr [5, m]), w1)" "wi_sent w1 = wi_sent w"
    "talk fuel (length (login_bytes m username password) + k) ((if m = 2 then [1, 0] else []) @ d) w1"
    by (rule socks_read_talk [OF assms(1), of 2]) simp_all
  show ?thesis
  proof (cases "m = 2")
    case True
    then obtain user where user: "username = Some user" using assms(2) by auto
    obtain w2 where w2: "socks_write fuel (login_bytes m username password) w1 = (Some (Inr ()), w2)"
      "talk fuel k ([1, 0] @ d) w2" "wi_sent w2 = wi_sent w1 @ login_bytes m username password"
      by (rule socks_write_talk [OF w1(3)]) (simp add: True)
    obtain w3 where w3: "socks_read fuel 2 w2 = (Some (Inr [1, 0]), w3)" "talk fuel k d w3" "wi_sent w3 = wi_sent w2"
      by (rule socks_read_talk [OF w2(2), of 2]) simp_all
    have "socks_method fuel username password w = (Some (Inr ()), w3)"
      using w1(1) w2(1) w3(1) by (simp add: socks_method_def task_defs True user login_bytes_def)
    then show ?thesis using that w1(2) w2(3) w3(2,3) by simp
  next
    case False
    then have m: "m = 0" "login_bytes m username password = []" using assms(2) by (auto simp: login_bytes_def)
    then have "socks_method fuel username password w = (Some (Inr ()), w1)"
      using w1(1) by (simp add: socks_method_def task_defs)
    then show ?thesis using that w1(2,3) m by simp
  qed
qed

lemma socks_reply_talk:
  assumes "talk fuel k ([5, 0, 0, atyp] @ bound @ d) w" and "bound_addr atyp bound"
  obtains w1 where "socks_reply fuel w = (Some (Inr ()), w1)" "talk fuel k d w1" "wi_sent w1 = wi_sent w"
proof -
  obtain w1 where w1: "socks_read fuel 4 w = (Some (Inr [5, 0, 0, atyp]), w1)" "talk fuel k (bound @ d) w1" "wi_sent w1 = wi_sent w"
    by (rule socks_read_talk [OF assms(1), of 4]) simp_all
  show ?thesis
  proof (cases "atyp = 3")
    case True
    then obtain n rest where b: "bound = n # rest" "length rest = unat n + 2"
      using assms(2) by (cases bound) (auto simp: bound_addr_def)
    have "talk fuel k ([n] @ rest @ d) w1" using w1(2) b by simp
    then obtain w2 where w2: "socks_read fuel 1 w1 = (Some (Inr [n]), w2)" "talk fuel k (rest @ d) w2" "wi_sent w2 = wi_sent w1"
      by (rule socks_read_talk [where n = 1]) simp_all
    obtain w3 where w3: "socks_read fuel (unat n + 2) w2 = (Some (Inr rest), w3)" "talk fuel k d w3" "wi_sent w3 = wi_sent w2"
      by (rule socks_read_talk [OF w2(2) b(2)])
    have "socks_reply fuel w = (Some (Inr ()), w3)"
      using w1(1) w2(1) w3(1) by (simp add: socks_reply_def task_defs True)
    then show ?thesis using that w1 w2 w3 by simp
  next
    case False
    then have len: "atyp = 1 \<and> length bound = 6 \<or> atyp = 4 \<and> length bound = 18" using assms(2) by (auto simp: bound_addr_def)
    obtain w2 where w2: "socks_read fuel (length bound) w1 = (Some (Inr bound), w2)" "talk fuel k d w2" "wi_sent w2 = wi_sent w1"
      by (rule socks_read_talk [OF w1(2) refl])
    have "socks_reply fuel w = (Some (Inr ()), w2)"
      using w1(1) w2(1) len by (auto simp: socks_reply_def task_defs)
    then show ?thesis using that w1 w2 by simp
  qed
qed

lemma socks5_dialog_talk:
  assumes "talk fuel (length (socks_greeting username) + length (login_bytes m username password)
      + length (socks_request host port)) (server_says m atyp bound @ d) w"
    and "m = 0 \<or> m = 2 \<and> username \<noteq> None" and "bound_addr atyp bound"
  obtains w1 where "socks5_dialog fuel username password host port w = (Some (Inr ()), w1)" "talk fuel 0 d w1"
    "wi_sent w1 = wi_sent w @ socks_greeting username @ login_bytes m username password @ socks_request host port"
proof -
  let ?k = "length (login_bytes m username password) + (length (socks_request host port) + 0)"
  obtain w1 where w1: "socks_write fuel (socks_greeting username) w = (Some (Inr ()), w1)"
    "talk fuel ?k (server_says m atyp bound @ d) w1" "wi_sent w1 = wi_sent w @ socks_greeting username"
    by (rule socks_write_talk [of fuel "socks_greeting username" ?k]) (use assms(1) in \<open>simp_all add: add.assoc\<close>)
  obtain w2 where w2: "socks_method fuel username password w1 = (Some (Inr ()), w2)"
    "talk fuel (length (socks_request host port) + 0) ([5, 0, 0, atyp] @ bound @ d) w2"
    "wi_sent w2 = wi_sent w1 @ login_bytes m username password"
    by (rule socks_method_talk [of fuel m username password _ "[5, 0, 0, atyp] @ bound @ d" w1])
      (use w1(2) assms(2) in \<open>simp_all add: server_says_def\<close>)
  obtain w3 where w3: "socks_write fuel (socks_request host port) w2 = (Some (Inr ()), w3)"
    "talk fuel 0 ([5, 0, 0, atyp] @ bound @ d) w3" "wi_sent w3 = wi_sent w2 @ socks_request host port"
    by (rule socks_write_talk [OF w2(2)])
  obtain w4 where w4: "socks_reply fuel w3 = (Some (Inr ()), w4)" "talk fuel 0 d w4" "wi_sent w4 = wi_sent w3"
    by (rule socks_reply_talk [OF w3(2) assms(3)])
  have "socks5_dialog fuel username password host port w = (Some (Inr ()), w4)"
    using w1(1) w2(1) w3(1) w4(1) by (simp add: socks5_dialog_def task_defs)
  then show ?thesis using that w1(3) w2(3) w3(3) w4(2,3) by simp
qed

lemma dec_string_chars: "c \<in> set (dec_string n) \<Longrightarrow> c \<noteq> CHR '':'' \<and> c \<noteq> CHR ''@''"
  using dec_string_digits [of n] by (auto simp: list_all_iff is_digit_def)

lemma parse_host_port_print:
  "parse_host_port (host @ '':'' @ dec_string (unat port)) = Inr (host, port)"
proof -
  have "rsplit_once (CHR '':'') (host @ '':'' @ dec_string (unat port)) = Some (host, dec_string (unat port))"
    using dec_string_chars by (auto simp: rsplit_once_Some_iff)
  moreover have "unat port < 65536" using unsigned_less [of port] by simp
  ultimately show ?thesis by (simp add: parse_host_port_def parse_dec_string)
qed

lemma socks5_url_parse:
  assumes "CHR '':'' \<notin> set user" and "CHR ''@'' \<notin> set host"
  shows "parse_socks5_url (''socks5://'' @ user @ '':'' @ pass @ ''@'' @ host @ '':'' @ dec_string (unat port))
     = Inr (host, port, Some user, Some pass)"
proof -
  let ?hp = "host @ '':'' @ dec_string (unat port)" let ?up = "user @ '':'' @ pass"
  have "CHR ''@'' \<notin> set ?hp" using dec_string_chars assms(2) by auto
  moreover from this have "rsplit_once (CHR ''@'') (?up @ ''@'' @ ?hp) = Some (?up, ?hp)"
    by (auto simp: rsplit_once_Some_iff)
  moreover have "split_once (CHR '':'') ?up = Some (user, pass)" using assms(1) by (simp add: split_once_Some_iff)
  ultimately show ?thesis
    using parse_host_port_print [of host port]
      strip_prefix_Some_iff [of "''socks5://'' @ ?up @ ''@'' @ ?hp" "''socks5://''"]
    by (simp add: parse_socks5_url_def Let_def)
qed

section \<open>Properties\<close>

text \<open>
  A connection through SOCKS5: with a proxy that follows the RFCs, whatever the segmentation of its
  answers, the dialog succeeds; what was sent is read by such a server as exactly the configured login
  and the wanted target; and nothing behind the proxy's last byte is consumed, so that the stream handed
  over starts with the backend's first byte.
\<close>

theorem socks5_connect_understood:
  assumes "parse_socks5_url url = Inr (proxy_host, proxy_port, username, password)"
    and "parse_host_port target = Inr (host, port)"
    and "ne_dial_pair env timeout proxy_host proxy_port = Some (Inr w)"
    and "talk fuel (length (socks_greeting username) + length (login_bytes m username password)
      + length (socks_request host port)) (server_says m atyp bound @ d) w"
    and "bound_addr atyp bound" and "length host < 256"
    and "m = 0 \<and> login = None \<or> m = 2 \<and> username = Some user \<and> password = Some pass
      \<and> length user < 256 \<and> length pass < 256 \<and> login = Some (as_bytes user, as_bytes pass)"
  shows "\<exists>w1 sent. socks5_connect env fuel url target timeout = Some (Inr w1)
    \<and> script_data (wi_in w1) = d \<and> wi_sent w1 = wi_sent w @ sent
    \<and> rfc1928_server m sent = Some (login, as_bytes host, unat port)"
proof -
  have "m = 0 \<or> m = 2 \<and> username \<noteq> None" using assms(7) by auto
  from socks5_dialog_talk [OF assms(4) this assms(5)] obtain w1 where w1:
    "socks5_dialog fuel username password host port w = (Some (Inr ()), w1)" "talk fuel 0 d w1"
    "wi_sent w1 = wi_sent w @ socks_greeting username @ login_bytes m username password @ socks_request host port" .
  let ?sent = "socks_greeting username @ login_bytes m username password @ socks_request host port"
  note req = rfc1928_connect_socks_request [OF assms(6), of port]
  have "rfc1928_server m ?sent = Some (login, as_bytes host, unat port)"
    using assms(7)
  proof
    assume "m = 0 \<and> login = None"
    then show ?thesis using req
      by (auto simp: rfc1928_server_def socks_greeting_def login_bytes_def take_counted_def)
  next
    assume *: "m = 2 \<and> username = Some user \<and> password = Some pass
      \<and> length user < 256 \<and> length pass < 256 \<and> login = Some (as_bytes user, as_bytes pass)"
    then have "rfc1929_login (login_bytes m username password @ socks_request host port)
      = Some ((as_bytes user, as_bytes pass), socks_request host port)"
      by (simp add: login_bytes_def rfc1929_login_socks_auth)
    with * req show ?thesis
      by (simp add: rfc1928_server_def socks_greeting_def take_counted_def)
  qed
  moreover have "socks5_connect env fuel url target timeout = Some (Inr w1)"
    using w1(1) by (simp add: socks5_connect_def assms(1-3))
  ultimately show ?thesis using w1(2,3) by (auto simp: talk_def)
qed

text \<open>
  A SOCKS5 URL with a login reads back as the host, port, user and password it was written from; the
  password may hold any character and the host may be a bracketed IPv6 address.
\<close>

theorem socks5_url_roundtrip:
  assumes "CHR '':'' \<notin> set user" and "CHR ''@'' \<notin> set host"
  shows "parse_socks5_url (''socks5://'' @ user @ '':'' @ pass @ ''@'' @ host @ '':'' @ dec_string (unat port))
     = Inr (host, port, Some user, Some pass)"
  using assms by (rule socks5_url_parse)

lemma socks5_url_roundtrip_witness:
  "parse_socks5_url ''socks5://user:p@ss@[::1]:90'' = Inr (''[::1]'', 90, Some ''user'', Some ''p@ss'')"
proof -
  have "dec_string (unat (90 :: u16)) = ''90''" by code_simp
  then show ?thesis using socks5_url_roundtrip [of "''user''" "''[::1]''" "''p@ss''" 90] by simp
qed

text \<open>
  A host of 256 bytes or more: its length byte is truncated, and a server never reads the host that was
  meant.
\<close>

lemma socks_long_host_truncated:
  assumes "256 \<le> length host"
  shows "rfc1928_connect (socks_request host port) \<noteq> Some (as_bytes host, p)"
proof -
  have "length h < 256" if "take_counted r = Some (h, r')" for h r r'
  proof -
    from that have "length h \<le> unat (hd r)" by (auto simp: take_counted_def split: list.splits if_splits)
    also have "unat (hd r) < 2 ^ LENGTH(8)" by (rule unsigned_less)
    finally show ?thesis by simp
  qed
  note short = this
  show ?thesis
  proof
    assume "rfc1928_connect (socks_request host port) = Some (as_bytes host, p)"
    then obtain r h r' where tc: "take_counted r = Some (h, r')"
      and "(case r' of [a, b] \<Rightarrow> Some (h, be16 a b) | _ \<Rightarrow> None) = Some (as_bytes host, p)"
      by (auto simp: rfc1928_connect_def socks_request_def bind_eq_Some_conv)
    then have "take_counted r = Some (as_bytes host, r')" by (auto split: list.split_asm)
    from short [OF this] assms show False by simp
  qed
qed

text \<open>The dialog has no time limit: with a proxy that accepts the connection and stays silent it never ends.\<close>

lemma socks_silent_proxy_waits:
  assumes "parse_socks5_url url = Inr (proxy_host, proxy_port, username, password)"
    and "parse_host_port target = Inr (host, port)"
    and "ne_dial_pair env timeout proxy_host proxy_port = Some (Inr w)"
    and "wi_in w = []" and "willing (length (socks_greeting username) + 0) w" and "length (wi_out w) < fuel"
  shows "socks5_connect env fuel url target timeout = None"
proof -
  have silent: "read_exact f wire_read 2 v = (None, v)" if "wi_in v = []" for v f
  proof (induction f)
    case (Suc f)
    have "v\<lparr>wi_in := []\<rparr> = v" using that by (cases v) simp
    then have "wire_read 2 v = (Pending, v)" by (simp add: wire_read_def that)
    then show ?case using Suc by simp
  qed simp
  from write_all_willing [OF assms(5,6)] obtain es where
    "write_all fuel wire_write (socks_greeting username) w
       = (Some (Inr ()), w\<lparr>wi_out := es, wi_sent := wi_sent w @ socks_greeting username\<rparr>)" by blast
  then have "socks5_dialog fuel username password host port w
      = (None, w\<lparr>wi_out := es, wi_sent := wi_sent w @ socks_greeting username\<rparr>)"
    by (simp add: socks5_dialog_def socks_method_def socks_write_def socks_read_def task_defs silent assms(4))
  then show ?thesis by (simp add: socks5_connect_def assms(1-3))
qed

text \<open>A proxy that wants a login and answers in pieces.\<close>

definition toy_proxy :: wire where
  "toy_proxy = \<lparr>wi_in = [RData [5], RPending, RData [2, 1], RData [0, 5, 0, 0, 3, 2, 97], RData [98, 1, 187, 9], RData [8], REof],
     wi_out = map WAccept [2, 9, 9, 4, 9, 9, 9, 9, 9, 9, 9, 9, 9, 9, 9, 9, 9, 9, 9, 9, 9, 9, 9, 9, 9], wi_sent = []\<rparr>"

lemma socks5_connect_understood_witness:
  "\<exists>w1 sent. socks5_connect \<lparr>ne_dial = \<lambda>_ _. None, ne_dial_pair = \<lambda>_ _ _. Some (Inr toy_proxy)\<rparr> 40
       ''socks5://us:pw@h:9'' ''dc:80'' 5 = Some (Inr w1)
     \<and> script_data (wi_in w1) = [9, 8] \<and> wi_sent w1 = wi_sent toy_proxy @ sent
     \<and> rfc1928_server 2 sent = Some (Some (as_bytes ''us'', as_bytes ''pw''), as_bytes ''dc'', unat (80 :: u16))"
proof -
  have "dec_string (unat (9 :: u16)) = ''9''" "dec_string (unat (80 :: u16)) = ''80''" by code_simp+
  note printed = this
  have u: "parse_socks5_url ''socks5://us:pw@h:9'' = Inr (''h'', 9, Some ''us'', Some ''pw'')"
    using socks5_url_parse [of "''us''" "''h''" "''pw''" 9] printed by simp
  have t: "parse_host_port ''dc:80'' = Inr (''dc'', 80)"
    using parse_host_port_print [of "''dc''" 80] printed by simp
  have len: "length (socks_greeting (Some ''us'')) + length (login_bytes 2 (Some ''us'') (Some ''pw''))
      + length (socks_request ''dc'' 80) = 20"
    by (simp add: socks_greeting_def login_bytes_def socks_auth_def socks_request_def)
  have "willing 20 toy_proxy" by (simp add: willing_def toy_proxy_def)
  moreover have "clean_script (wi_in toy_proxy)" by (simp add: toy_proxy_def clean_script_def)
  moreover have "script_data (wi_in toy_proxy) = server_says 2 3 [2, 97, 98, 1, 187] @ [9, 8]"
    by (simp add: toy_proxy_def server_says_def)
  moreover have "length (wi_out toy_proxy) < 40" "script_size (wi_in toy_proxy) < 40" by (simp_all add: toy_proxy_def)
  ultimately have "talk 40 (length (socks_greeting (Some ''us'')) + length (login_bytes 2 (Some ''us'') (Some ''pw''))
      + length (socks_request ''dc'' 80)) (server_says 2 3 [2, 97, 98, 1, 187] @ [9, 8]) toy_proxy"
    unfolding talk_def len by blast
  from socks5_connect_understood [OF u t _ this, where env = "\<lparr>ne_dial = \<lambda>_ _. None, ne_dial_pair = \<lambda>_ _ _. Some (Inr toy_proxy)\<rparr>"
      and timeout = 5 and login = "Some (as_bytes ''us'', as_bytes ''pw'')" and user = "''us''" and pass = "''pw''"]
  show ?thesis by (simp only: net_env.simps bound_addr_def) simp
qed

end
