(* ===== verification/Split_Frame.thy ===== *)
theory Split_Frame
  imports Async_Io Config_Model Sgfb_Crypto
begin

text \<open>
  The front/back protocol of \<^verbatim>\<open>src/split.rs\<close>: the opening frame (encoding, decoding, reading it from
  the connection), the acknowledgement, the allowlist of front addresses, and the relay stream that is
  encrypted or plain. SHA-256 is a parameter of 32-byte results.
\<close>

definition magic :: bytes where "magic = as_bytes ''SGFB''"
definition version_plain :: u8 where "version_plain = protocol_version_plain"
definition version_encrypted :: u8 where "version_encrypted = protocol_version_encrypted"
definition max_backend_len :: nat where "max_backend_len = 256"
definition max_initial_len :: nat where "max_initial_len = 65536"
definition ack_ok :: u8 where "ack_ok = 0"
definition ack_err :: u8 where "ack_err = 1"

lemmas split_consts = magic_def version_plain_def version_encrypted_def protocol_version_plain_def
  protocol_version_encrypted_def max_backend_len_def max_initial_len_def ack_ok_def ack_err_def

record split_opening_frame =
  of_mode :: secret_kind
  of_backend :: string
  of_initial :: bytes

definition hash_auth_token :: "(bytes \<Rightarrow> bytes) \<Rightarrow> string \<Rightarrow> bytes" where
  "hash_auth_token sha256 token = sha256 (as_bytes token)"

fun secret_mode_to_byte :: "secret_kind \<Rightarrow> u8" where
  "secret_mode_to_byte Classic = 0"
| "secret_mode_to_byte Dd = 1"
| "secret_mode_to_byte Ee = 2"

definition byte_to_secret_mode :: "u8 \<Rightarrow> secret_kind result" where
  "byte_to_secret_mode b =
     (if b = 0 then Inr Classic else if b = 1 then Inr Dd else if b = 2 then Inr Ee
      else Inl (Proxy ''unknown secret_mode''))"

definition encode_opening_frame ::
    "(bytes \<Rightarrow> bytes) \<Rightarrow> string \<Rightarrow> secret_kind \<Rightarrow> string \<Rightarrow> bytes \<Rightarrow> bool \<Rightarrow> bytes result" where
  "encode_opening_frame sha256 token mode backend initial_data encrypt =
     (if max_backend_len < length (as_bytes backend) then Inl (Config ''split backend too long'')
      else if max_initial_len < length initial_data then Inl (Config ''split initial_data too big'')
      else Inr (magic @ [if encrypt then version_encrypted else version_plain] @ hash_auth_token sha256 token
        @ [secret_mode_to_byte mode] @ u16_be (length (as_bytes backend)) @ as_bytes backend
        @ u32_be (length initial_data) @ initial_data))"

definition decode_opening_frame :: "bytes \<Rightarrow> split_opening_frame result" where
  "decode_opening_frame data =
     (if length data < 44 then Inl (Proxy ''short split opening frame'')
      else if take 4 data \<noteq> magic then Inl (Proxy ''bad split magic'')
      else if data ! 4 \<noteq> version_plain \<and> data ! 4 \<noteq> version_encrypted then Inl (Proxy ''unsupported split version'')
      else bindR (byte_to_secret_mode (data ! 37)) (\<lambda>mode.
        let backend_len = be16 (data ! 38) (data ! 39) in
        bindR (ok_or (Proxy ''overflow backend_len'') (usize_checked_add 40 backend_len)) (\<lambda>backend_end.
        if length data < backend_end + 4 then Inl (Proxy ''truncated split opening frame'')
        else bindR (ok_or (Proxy ''backend utf8'') (from_utf8 (slice data 40 backend_len))) (\<lambda>backend.
        let initial_len = be32 (data ! backend_end) (data ! (backend_end + 1)) (data ! (backend_end + 2)) (data ! (backend_end + 3));
            initial_start = backend_end + 4 in
        bindR (ok_or (Proxy ''overflow initial_len'') (usize_checked_add initial_start initial_len)) (\<lambda>initial_end.
        if initial_end \<noteq> length data then Inl (Proxy ''bad length of initial_data'')
        else Inr \<lparr>of_mode = mode, of_backend = backend, of_initial = slice data initial_start initial_len\<rparr>)))))"

definition opening_frame_encrypted :: "bytes \<Rightarrow> bool" where
  "opening_frame_encrypted frame \<longleftrightarrow> 4 < length frame \<and> frame ! 4 = version_encrypted"

section \<open>On the connection\<close>

definition read_opening_frame :: "nat \<Rightarrow> 's poll_read_fun \<Rightarrow> nat \<Rightarrow> ('s, bytes) task" where
  "read_opening_frame fuel poll max_bytes =
     bindT (proxy_err ''split opening header'' (read_exact fuel poll 40)) (\<lambda>header.
     if take 4 header \<noteq> magic then failT (Proxy ''bad split magic'')
     else let backend_len = be16 (header ! 38) (header ! 39) in
       bindT (if 0 < backend_len then proxy_err ''split backend'' (read_exact fuel poll backend_len) else retT []) (\<lambda>backend.
       bindT (proxy_err ''split initial_len'' (read_exact fuel poll 4)) (\<lambda>len.
       let initial_len = be32 (len ! 0) (len ! 1) (len ! 2) (len ! 3) in
       if max_bytes < initial_len then failT (Proxy ''split initial_data too big'')
       else bindT (if 0 < initial_len then proxy_err ''split initial payload'' (read_exact fuel poll initial_len) else retT []) (\<lambda>initial.
       retT (header @ backend @ len @ initial)))))"

definition send_ack :: "nat \<Rightarrow> 's poll_write_fun \<Rightarrow> bool \<Rightarrow> string option \<Rightarrow> ('s, unit) task" where
  "send_ack fuel wr good message =
     (if good then proxy_err ''split ack write'' (write_all fuel wr [ack_ok])
      else let msg = as_bytes (case message of Some m \<Rightarrow> m | None \<Rightarrow> ''split relay error'') in
        if 65535 < length msg then failT (Proxy ''split message too long'')
        else proxy_err ''split err write'' (write_all fuel wr ([ack_err] @ u16_be (length msg) @ msg)))"

definition peer_allowed :: "ip_addr \<Rightarrow> string list \<Rightarrow> bool" where
  "peer_allowed peer_ip allowlist \<longleftrightarrow>
     allowlist = [] \<or> list_ex (\<lambda>entry. case parse_ip entry of Some allowed \<Rightarrow> allowed = peer_ip | None \<Rightarrow> False) allowlist"

section \<open>The relay stream\<close>

datatype relay_stream = PlainRelay wire | EncryptedRelay enc_stream

definition wrap_relay_stream :: "wire \<Rightarrow> session_keys \<Rightarrow> bool \<Rightarrow> bool \<Rightarrow> relay_stream" where
  "wrap_relay_stream stream keys encrypted as_client =
     (if encrypted then EncryptedRelay (if as_client then client_side stream keys else server_side stream keys)
      else PlainRelay stream)"

fun relay_poll_read :: "aead \<Rightarrow> relay_stream poll_read_fun" where
  "relay_poll_read A n (PlainRelay w) = map_prod id PlainRelay (wire_read n w)"
| "relay_poll_read A n (EncryptedRelay s) = map_prod id EncryptedRelay (enc_poll_read A n s)"

fun relay_poll_write :: "aead \<Rightarrow> relay_stream poll_write_fun" where
  "relay_poll_write A bs (PlainRelay w) = map_prod id PlainRelay (wire_write bs w)"
| "relay_poll_write A bs (EncryptedRelay s) = map_prod id EncryptedRelay (enc_poll_write A bs s)"

section \<open>The frame\<close>

text \<open>The layout every well-formed frame has.\<close>

definition frame_layout :: "u8 \<Rightarrow> bytes \<Rightarrow> split_opening_frame \<Rightarrow> bytes" where
  "frame_layout v h f = (magic @ [v] @ h @ [secret_mode_to_byte (of_mode f)] @ u16_be (length (of_backend f)))
     @ as_bytes (of_backend f) @ u32_be (length (of_initial f)) @ of_initial f"

lemma byte_to_secret_mode_iff: "byte_to_secret_mode b = Inr m \<longleftrightarrow> b = secret_mode_to_byte m"
  by (cases m) (auto simp: byte_to_secret_mode_def)

lemma layout_head_length: "length h = 32 \<Longrightarrow>
   length (magic @ [v] @ h @ [secret_mode_to_byte m] @ u16_be n) = 40"
  by (simp add: magic_def)

lemma layout_nth:
  assumes "length h = 32"
  shows "frame_layout v h f ! 4 = v" "frame_layout v h f ! 37 = secret_mode_to_byte (of_mode f)"
    "frame_layout v h f ! 38 = u8_of (length (of_backend f) div 256)" "frame_layout v h f ! 39 = u8_of (length (of_backend f))"
    "take 4 (frame_layout v h f) = magic" "slice (frame_layout v h f) 5 32 = h"
    "length (frame_layout v h f) = 44 + length (of_backend f) + length (of_initial f)"
  using assms by (simp_all add: frame_layout_def magic_def nth_append u16_be_def slice_def as_bytes_def u32_be_def)

lemma encode_layout:
  "encode_opening_frame sha256 token mode backend initial_data encrypt = Inr frame \<longleftrightarrow>
     length backend \<le> 256 \<and> length initial_data \<le> 65536
     \<and> frame = frame_layout (if encrypt then version_encrypted else version_plain) (hash_auth_token sha256 token)
         \<lparr>of_mode = mode, of_backend = backend, of_initial = initial_data\<rparr>"
  by (auto simp: encode_opening_frame_def frame_layout_def max_backend_len_def max_initial_len_def)

lemma split_at_40:
  assumes "40 \<le> length xs"
  shows "xs = take 4 xs @ [xs ! 4] @ slice xs 5 32 @ [xs ! 37] @ [xs ! 38, xs ! 39] @ drop 40 xs"
proof -
  have d: "drop k xs = xs ! k # drop (Suc k) xs" if "k < 40" for k using that assms by (simp add: Cons_nth_drop_Suc)
  have "drop 5 xs = slice xs 5 32 @ drop 37 xs" 
    using append_take_drop_id [of 32 "drop 5 xs"] by (simp add: slice_def)
  then show ?thesis using append_take_drop_id [of 4 xs] d [of 4] d [of 37] d [of 38] d [of 39] by simp
qed

lemma split_4:
  assumes "k + 4 \<le> length xs"
  shows "drop k xs = [xs ! k, xs ! (k + 1), xs ! (k + 2), xs ! (k + 3)] @ drop (k + 4) xs"
proof -
  have d: "drop j xs = xs ! j # drop (Suc j) xs" if "j < k + 4" for j using that assms by (simp add: Cons_nth_drop_Suc)
  show ?thesis using d [of k] d [of "k + 1"] d [of "k + 2"] d [of "k + 3"] by (simp add: numeral_eq_Suc)
qed

definition frame_fits :: "bytes \<Rightarrow> split_opening_frame \<Rightarrow> bool" where
  "frame_fits h f \<longleftrightarrow> length h = 32 \<and> length (of_backend f) < 65536 \<and> length (of_initial f) < 4294967296
     \<and> is_rust_str (of_backend f)"

lemma decode_layout:
  assumes "frame_fits h f" and "v = version_plain \<or> v = version_encrypted"
  shows "decode_opening_frame (frame_layout v h f) = Inr f"
proof -
  define bl il where "bl = length (of_backend f)" and "il = length (of_initial f)"
  define hd40 where "hd40 = magic @ [v] @ h @ [secret_mode_to_byte (of_mode f)] @ u16_be bl"
  let ?d = "frame_layout v h f"
  have h: "length h = 32" "bl < 65536" "il < 4294967296" "is_rust_str (of_backend f)"
    using assms(1) by (simp_all add: frame_fits_def bl_def il_def)
  have d: "?d = hd40 @ as_bytes (of_backend f) @ u32_be il @ of_initial f" and lh: "length hd40 = 40"
    by (simp_all add: hd40_def frame_layout_def bl_def il_def magic_def h(1))
  note nth = layout_nth [OF h(1), of v f]
  have len: "length ?d = 44 + bl + il" using nth(7) by (simp add: bl_def il_def)
  have be: "be16 (?d ! 38) (?d ! 39) = bl" using h(2) by (simp add: nth(3,4) be16_u8_of flip: bl_def)
  have mode: "byte_to_secret_mode (?d ! 37) = Inr (of_mode f)" by (simp add: byte_to_secret_mode_iff nth(2))
  have backend: "slice ?d 40 bl = as_bytes (of_backend f)"
    by (simp only: d slice_def) (simp add: lh bl_def)
  have at: "?d ! (40 + bl + k) = u32_be il ! k" if "k < 4" for k
    using that by (simp only: d) (simp add: nth_append lh bl_def)
  have il: "be32 (?d ! (40 + bl)) (?d ! (40 + bl + 1)) (?d ! (40 + bl + 2)) (?d ! (40 + bl + 3)) = il"
    using at [of 0] at [of 1] at [of 2] at [of 3] h(3) by (simp add: u32_be_def be32_u8_of)
  then have il': "be32 (?d ! (40 + bl)) (?d ! (41 + bl)) (?d ! (42 + bl)) (?d ! (43 + bl)) = il" by (simp add: ac_simps)
  have initial: "slice ?d (44 + bl) il = of_initial f"
    by (simp only: d slice_def) (simp add: lh bl_def il_def)
  have c: "usize_checked_add 40 bl = Some (40 + bl)" "usize_checked_add (44 + bl) il = Some (44 + bl + il)"
    using h(2,3) by (simp_all add: usize_checked_add_def)
  show ?thesis
    unfolding decode_opening_frame_def Let_def
    using assms(2) by (simp add: nth(1,5) len be mode backend from_utf8_as_bytes [OF h(4)] c il' initial
        add.commute [of _ 4] add.left_commute)
qed

lemma decode_layout_D:
  assumes "decode_opening_frame data = Inr f"
  shows "frame_fits (slice data 5 32) f \<and> (data ! 4 = version_plain \<or> data ! 4 = version_encrypted)
    \<and> data = frame_layout (data ! 4) (slice data 5 32) f"
proof -
  define bl where "bl = be16 (data ! 38) (data ! 39)"
  define il where "il = be32 (data ! (40 + bl)) (data ! (40 + bl + 1)) (data ! (40 + bl + 2)) (data ! (40 + bl + 3))"
  have il_sym: "be32 (data ! (40 + bl)) (data ! (41 + bl)) (data ! (42 + bl)) (data ! (43 + bl)) = il"
    by (simp add: il_def ac_simps)
  have long: "\<not> length data < 44" and magic: "take 4 data = magic"
    and version: "data ! 4 = version_plain \<or> data ! 4 = version_encrypted"
    using assms by (auto simp: decode_opening_frame_def split: if_splits)
  have bl: "usize_checked_add 40 bl = Some (40 + bl)" by (simp add: usize_checked_add_def bl_def less_trans [OF be16_less])
  have "il < 4294967296" "bl < 65536" by (simp_all add: il_def be32_less bl_def)
  then have il: "usize_checked_add (40 + bl + 4) il = Some (40 + bl + 4 + il)" by (simp add: usize_checked_add_def)
  from assms obtain mode backend where f: "byte_to_secret_mode (data ! 37) = Inr mode" "from_utf8 (slice data 40 bl) = Some backend"
    "40 + bl + 4 + il = length data" "f = \<lparr>of_mode = mode, of_backend = backend, of_initial = slice data (40 + bl + 4) il\<rparr>"
    unfolding decode_opening_frame_def Let_def bl_def [symmetric]
    using long magic version il by (auto simp: bl il_sym split: if_splits)
  have lb: "length backend = bl" and db: "slice data 40 bl = as_bytes backend" and ub: "is_rust_str backend"
    using f(2,3) length_slice [of 40 bl data] by (auto simp: from_utf8_Some_iff is_rust_str_def)
  have "drop (40 + bl) data = u32_be il @ drop (40 + bl + 4) data"
    using split_4 [of "40 + bl" data] f(3) by (simp add: il_def u32_be_be32)
  moreover have "drop (40 + bl + 4) data = slice data (40 + bl + 4) il" using f(3) by (simp add: slice_def)
  moreover have "drop 40 data = slice data 40 bl @ drop (40 + bl) data"
    using append_take_drop_id [of bl "drop 40 data"] by (simp add: slice_def add.commute)
  moreover have "u16_be bl = [data ! 38, data ! 39]" by (simp add: bl_def)
  moreover have "data = magic @ [data ! 4] @ slice data 5 32 @ [data ! 37] @ [data ! 38, data ! 39] @ drop 40 data"
    using split_at_40 [of data] long magic by simp
  moreover have "length (slice data (40 + bl + 4) il) = il" using f(3) by (simp add: length_slice)
  ultimately have "data = frame_layout (data ! 4) (slice data 5 32) f"
    using f(1) lb db by (simp add: frame_layout_def f(4) byte_to_secret_mode_iff)
  moreover have "length (slice data 5 32) = 32" using long by (simp add: length_slice)
  ultimately show ?thesis
    using version ub lb f(3) \<open>il < _\<close> \<open>bl < _\<close> by (simp add: frame_fits_def f(4) length_slice)
qed

text \<open>Reading: the frame is taken from the connection, and nothing after it.\<close>

lemma read_talk:
  assumes "talk fuel k (xs @ d) w" and "length xs = n"
  obtains w1 where "proxy_err msg (read_exact fuel wire_read n) w = (Some (Inr xs), w1)" "talk fuel k d w1" "wi_sent w1 = wi_sent w"
  using talk_read [OF assms] that by (auto simp: task_defs)

lemma maybe_read_talk:
  assumes "talk fuel k (xs @ d) w" and "length xs = n"
  obtains w1 where "(if 0 < n then proxy_err msg (read_exact fuel wire_read n) else retT []) w = (Some (Inr xs), w1)"
    "talk fuel k d w1" "wi_sent w1 = wi_sent w"
proof (cases "0 < n")
  case True
  obtain w1 where "proxy_err msg (read_exact fuel wire_read n) w = (Some (Inr xs), w1)" "talk fuel k d w1" "wi_sent w1 = wi_sent w"
    by (rule read_talk [OF assms])
  then show ?thesis using that True by simp
next
  case False
  then show ?thesis using assms that by (simp add: retT_def)
qed

lemma read_opening_frame_talk:
  assumes "talk fuel k (frame_layout v h f @ rest) w" and "frame_fits h f" and "length (of_initial f) \<le> max_bytes"
  shows "\<exists>w1. read_opening_frame fuel wire_read max_bytes w = (Some (Inr (frame_layout v h f)), w1)
    \<and> talk fuel k rest w1 \<and> wi_sent w1 = wi_sent w"
proof -
  define bl il where "bl = length (of_backend f)" and "il = length (of_initial f)"
  define hd40 where "hd40 = magic @ [v] @ h @ [secret_mode_to_byte (of_mode f)] @ u16_be bl"
  have h: "length h = 32" "bl < 65536" "il < 4294967296" "il \<le> max_bytes"
    using assms(2,3) by (simp_all add: frame_fits_def bl_def il_def)
  have d: "frame_layout v h f = hd40 @ as_bytes (of_backend f) @ u32_be il @ of_initial f" and lh: "length hd40 = 40"
    by (simp_all add: hd40_def frame_layout_def bl_def il_def magic_def h(1))
  have be: "be16 (hd40 ! 38) (hd40 ! 39) = bl" "take 4 hd40 = magic"
    using h(2) by (simp_all add: hd40_def magic_def nth_append h(1) u16_be_def be16_u8_of)
  have il: "be32 (u32_be il ! 0) (u32_be il ! 1) (u32_be il ! 2) (u32_be il ! 3) = il"
    using h(3) by (simp add: u32_be_def be32_u8_of)
  have "talk fuel k (hd40 @ as_bytes (of_backend f) @ u32_be il @ of_initial f @ rest) w" using assms(1) by (simp add: d)
  then obtain w1 where w1: "proxy_err ''split opening header'' (read_exact fuel wire_read 40) w = (Some (Inr hd40), w1)"
    "talk fuel k (as_bytes (of_backend f) @ u32_be il @ of_initial f @ rest) w1" "wi_sent w1 = wi_sent w"
    using lh by (rule read_talk)
  obtain w2 where w2: "(if 0 < bl then proxy_err ''split backend'' (read_exact fuel wire_read bl) else retT []) w1
      = (Some (Inr (as_bytes (of_backend f))), w2)" "talk fuel k (u32_be il @ of_initial f @ rest) w2" "wi_sent w2 = wi_sent w1"
    by (rule maybe_read_talk [OF w1(2), where n = bl]) (simp add: bl_def)
  obtain w3 where w3: "proxy_err ''split initial_len'' (read_exact fuel wire_read 4) w2 = (Some (Inr (u32_be il)), w3)"
    "talk fuel k (of_initial f @ rest) w3" "wi_sent w3 = wi_sent w2"
    by (rule read_talk [OF w2(2)]) simp_all
  obtain w4 where w4: "(if 0 < il then proxy_err ''split initial payload'' (read_exact fuel wire_read il) else retT []) w3
      = (Some (Inr (of_initial f)), w4)" "talk fuel k rest w4" "wi_sent w4 = wi_sent w3"
    by (rule maybe_read_talk [OF w3(2), where n = il]) (simp add: il_def)
  have "read_opening_frame fuel wire_read max_bytes w = (Some (Inr (frame_layout v h f)), w4)"
    unfolding read_opening_frame_def bindT_def
    using w2(1) w4(1) h(4) by (simp add: w1(1) be Let_def bindT_def w3(1) il [simplified] retT_def d)
  then show ?thesis using w1 w2 w3 w4 by auto
qed

lemma opening_frame_decodes:
  assumes "encode_opening_frame sha256 token mode backend initial_data encrypt = Inr frame"
    and "is_rust_str backend" and "length (sha256 (as_bytes token)) = 32"
  shows "decode_opening_frame frame = Inr \<lparr>of_mode = mode, of_backend = backend, of_initial = initial_data\<rparr>"
proof -
  let ?f = "\<lparr>of_mode = mode, of_backend = backend, of_initial = initial_data\<rparr>"
  let ?v = "if encrypt then version_encrypted else version_plain" let ?h = "hash_auth_token sha256 token"
  have fr: "frame = frame_layout ?v ?h ?f" "length backend \<le> 256" "length initial_data \<le> 65536"
    using assms(1) by (simp_all add: encode_layout)
  have "frame_fits ?h ?f" using assms(2,3) fr(2,3) by (simp add: frame_fits_def hash_auth_token_def)
  then show ?thesis unfolding fr(1) by (rule decode_layout) simp
qed

text \<open>
  C30. The opening frame crosses the connection: what the front encodes, the back reads from the socket
  byte for byte whatever the segmentation, leaving what follows it, and decodes to the same mode, backend
  and initial data, with the token's hash and the encryption mark where the checks look for them.
\<close>

theorem opening_frame_crosses:
  assumes "encode_opening_frame sha256 token mode backend initial_data encrypt = Inr frame"
    and "is_rust_str backend" and "length (sha256 (as_bytes token)) = 32"
    and "talk fuel k (frame @ rest) w"
  shows "\<exists>w1. read_opening_frame fuel wire_read max_initial_len w = (Some (Inr frame), w1) \<and> script_data (wi_in w1) = rest
    \<and> decode_opening_frame frame = Inr \<lparr>of_mode = mode, of_backend = backend, of_initial = initial_data\<rparr>
    \<and> slice frame 5 32 = hash_auth_token sha256 token \<and> opening_frame_encrypted frame = encrypt"
proof -
  let ?f = "\<lparr>of_mode = mode, of_backend = backend, of_initial = initial_data\<rparr>"
  let ?v = "if encrypt then version_encrypted else version_plain" let ?h = "hash_auth_token sha256 token"
  have fr: "frame = frame_layout ?v ?h ?f" "length backend \<le> 256" "length initial_data \<le> 65536"
    using assms(1) by (simp_all add: encode_layout)
  have fits: "frame_fits ?h ?f" using assms(2,3) fr(2,3) by (simp add: frame_fits_def hash_auth_token_def)
  then have "length ?h = 32" by (simp add: frame_fits_def)
  note nth = layout_nth [OF this, of ?v ?f, folded fr(1)]
  have "opening_frame_encrypted frame = encrypt"
    using nth(1,7) by (simp add: opening_frame_encrypted_def split_consts)
  moreover have "decode_opening_frame frame = Inr ?f" using opening_frame_decodes [OF assms(1-3)] .
  moreover have "\<exists>w1. read_opening_frame fuel wire_read max_initial_len w = (Some (Inr frame), w1)
      \<and> talk fuel k rest w1 \<and> wi_sent w1 = wi_sent w"
    using read_opening_frame_talk [OF assms(4) [unfolded fr(1)] fits, of max_initial_len] fr
    by (simp add: max_initial_len_def)
  ultimately show ?thesis using nth(6) by (auto simp: talk_def)
qed

definition toy_front :: wire where
  "toy_front = \<lparr>wi_in = [RData (take 9 (frame_layout 2 (replicate 32 7) \<lparr>of_mode = Ee, of_backend = ''dc:1'', of_initial = [4, 2]\<rparr>)),
       RPending, RData (drop 9 (frame_layout 2 (replicate 32 7) \<lparr>of_mode = Ee, of_backend = ''dc:1'', of_initial = [4, 2]\<rparr>) @ [8]), REof],
     wi_out = [], wi_sent = []\<rparr>"

lemma opening_frame_crosses_witness:
  "\<exists>frame w1. encode_opening_frame (\<lambda>_. replicate 32 7) ''token'' Ee ''dc:1'' [4, 2] True = Inr frame
     \<and> read_opening_frame 99 wire_read max_initial_len toy_front = (Some (Inr frame), w1) \<and> script_data (wi_in w1) = [8]
     \<and> decode_opening_frame frame = Inr \<lparr>of_mode = Ee, of_backend = ''dc:1'', of_initial = [4, 2]\<rparr>
     \<and> slice frame 5 32 = hash_auth_token (\<lambda>_. replicate 32 7) ''token'' \<and> opening_frame_encrypted frame = True"
proof -
  let ?f = "\<lparr>of_mode = Ee, of_backend = ''dc:1'', of_initial = [4, 2]\<rparr>"
  define frame where "frame = frame_layout 2 (replicate 32 7) ?f"
  have enc: "encode_opening_frame (\<lambda>_. replicate 32 7) ''token'' Ee ''dc:1'' [4, 2] True = Inr frame"
    by (simp add: encode_layout frame_def hash_auth_token_def split_consts)
  have len: "length frame = 50" by (simp add: frame_def frame_layout_def magic_def)
  then have "frame \<noteq> []" by auto
  then have "talk 99 0 (frame @ [8]) toy_front"
    using len by (simp add: talk_def toy_front_def willing_def clean_script_def flip: frame_def)
  moreover have "is_rust_str ''dc:1''" by code_simp
  ultimately have "\<exists>w1. read_opening_frame 99 wire_read max_initial_len toy_front = (Some (Inr frame), w1) \<and> script_data (wi_in w1) = [8]
     \<and> decode_opening_frame frame = Inr ?f
     \<and> slice frame 5 32 = hash_auth_token (\<lambda>_. replicate 32 7) ''token'' \<and> opening_frame_encrypted frame = True"
    by (intro opening_frame_crosses [OF enc]) simp_all
  then show ?thesis using enc by blast
qed

text \<open>
  Decoding accepts exactly the frames of the protocol's layout: the magic, one of the two versions,
  32 bytes for the token, a known mode, a UTF-8 backend and initial data, each with its length, and
  nothing after them.
\<close>

theorem decode_frame_exact:
  "decode_opening_frame data = Inr f \<longleftrightarrow>
     (\<exists>v h. (v = version_plain \<or> v = version_encrypted) \<and> frame_fits h f \<and> data = frame_layout v h f)"
  using decode_layout decode_layout_D [of data f] by blast

text \<open>The allowlist: empty it admits everyone, else the addresses that parse to the peer's.\<close>

lemma peer_allowed_iff:
  "peer_allowed ip allowlist \<longleftrightarrow> allowlist = [] \<or> (\<exists>entry \<in> set allowlist. parse_ip entry = Some ip)"
  by (auto simp: peer_allowed_def list_ex_iff split: option.splits intro: bexI)

text \<open>The acknowledgements on a socket that accepts them.\<close>

lemma send_ack_talk:
  assumes "talk fuel (3 + length (case message of Some m \<Rightarrow> m | None \<Rightarrow> ''split relay error'') + k) d w"
    and "length (case message of Some m \<Rightarrow> m | None \<Rightarrow> ''split relay error'') < 65536"
  shows "\<exists>w1. send_ack fuel wire_write good message w = (Some (Inr ()), w1) \<and> talk fuel k d w1
    \<and> wi_sent w1 = wi_sent w @ (if good then [ack_ok]
        else let m = (case message of Some m \<Rightarrow> m | None \<Rightarrow> ''split relay error'') in ack_err # u16_be (length m) @ as_bytes m)"
proof (cases good)
  case True
  have "talk fuel (length [ack_ok] + k) d w" using talk_weaken [OF assms(1), of "1 + k"] by simp
  from talk_write [OF this] True show ?thesis by (auto simp: send_ack_def task_defs)
next
  case False
  let ?m = "case message of Some m \<Rightarrow> m | None \<Rightarrow> ''split relay error''"
  have "talk fuel (length ([ack_err] @ u16_be (length ?m) @ as_bytes ?m) + k) d w"
    using assms(1) by (simp add: eval_nat_numeral)
  from talk_write [OF this] False assms(2) show ?thesis
    by (auto simp: send_ack_def proxy_err_def Let_def failT_def)
qed

section \<open>The relay stream is a source\<close>

fun owes_relay :: "aead \<Rightarrow> relay_stream \<Rightarrow> bytes \<Rightarrow> bool" where
  "owes_relay A (PlainRelay w) d = owes_wire w d"
| "owes_relay A (EncryptedRelay s) d = owes_lawful A s d"

interpretation relay_source: byte_source "relay_poll_read A" "owes_relay A" for A
proof (unfold_locales, goal_cases)
  case (1 s d n r s1)
  show ?case
  proof (cases s)
    case (PlainRelay w)
    then obtain w1 where "wire_read n w = (r, w1)" "s1 = PlainRelay w1" using 1(3) by (cases "wire_read n w") auto
    then show ?thesis using wire_source.poll_delivers [of w d n r w1] 1(1,2) PlainRelay by auto
  next
    case (EncryptedRelay e)
    then obtain e1 where "enc_poll_read A n e = (r, e1)" "s1 = EncryptedRelay e1" using 1(3) by (cases "enc_poll_read A n e") auto
    then show ?thesis using enc_source.poll_delivers [of A e d n r e1] 1(1,2) EncryptedRelay by auto
  qed
qed

text \<open>
  \<^verbatim>\<open>PrefixedStream::new(peeked, socket)\<close> below an encrypted stream behaves as the socket with the
  peeked bytes still to come.
\<close>

definition unread :: "bytes \<Rightarrow> wire \<Rightarrow> wire" where
  "unread peeked w = (if peeked = [] then w else w\<lparr>wi_in := RData peeked # wi_in w\<rparr>)"

definition prefixed_as_wire :: "wire prefixed \<Rightarrow> wire" where
  "prefixed_as_wire s = unread (drop (px_pos s) (px_data s)) (px_inner s)"

lemma prefixed_new_as_wire: "prefixed_as_wire (prefixed_new peeked w) = unread peeked w"
  by (simp add: prefixed_as_wire_def prefixed_new_def)

lemma prefixed_read_as_wire:
  assumes "0 < n"
  shows "wire_read n (prefixed_as_wire s) = map_prod id prefixed_as_wire (prefixed_poll_read wire_read n s)"
proof (cases "px_pos s < length (px_data s)")
  case True
  let ?rest = "drop (px_pos s) (px_data s)"
  have "take (min (length ?rest) n) ?rest = take n ?rest" by (simp add: min_def)
  moreover have "drop (px_pos s + min (length ?rest) n) (px_data s) = (if length ?rest \<le> n then [] else drop n ?rest)"
    using True by (auto simp: min_def add.commute)
  ultimately show ?thesis using True
    by (auto simp: prefixed_poll_read_def Let_def prefixed_as_wire_def unread_def wire_read_def)
next
  case False
  then show ?thesis
    by (auto simp: prefixed_poll_read_def prefixed_as_wire_def unread_def wire_read_def split: prod.splits)
qed

end
