(* ===== verification/Relay.thy ===== *)
theory Relay
  imports Async_Io
begin

text \<open>
  The relay of \<^verbatim>\<open>src/proxy.rs\<close>: \<^verbatim>\<open>relay_stream_flushed\<close> and \<^verbatim>\<open>copy_bidirectional_graceful\<close>. The two
  directions are tasks that share the two streams (\<^verbatim>\<open>tokio::io::split\<close>) and are polled in any order
  (\<^verbatim>\<open>tokio::try_join!\<close>); a schedule is the sequence of the directions that make a step, one inner poll
  each. The locales \<open>duplex\<close> and \<open>relay_pair\<close> are the contract of a stream with two directions and of
  the relay between two of them.
\<close>

definition is_benign_copy_error :: "io_kind \<Rightarrow> bool" where
  "is_benign_copy_error k \<longleftrightarrow> k = BrokenPipe \<or> k = ConnectionReset \<or> k = UnexpectedEof"

definition copy_buf :: nat where "copy_buf = 8192"

text \<open>
  Where one direction is: reading, in \<^verbatim>\<open>write_all\<close> with the rest of the buffer and its length, flushing
  after it, in the last flush with its result, or done.
\<close>

datatype copy_phase =
    Reading nat
  | Writing bytes nat nat
  | Flushing nat
  | LastFlush nat
  | CopyDone "io_kind + nat"

type_synonym 's poll_flush_fun = "'s \<Rightarrow> (io_kind + unit) poll \<times> 's"

text \<open>The end of \<^verbatim>\<open>relay_stream_flushed\<close> with an error, and what \<^verbatim>\<open>copy_bidirectional_graceful\<close> makes of it.\<close>

definition copy_failed :: "io_kind \<Rightarrow> copy_phase" where
  "copy_failed k = (if is_benign_copy_error k then LastFlush 0 else CopyDone (Inl k))"

text \<open>One poll of a direction: on the stream it reads or on the one it writes.\<close>

fun reading_step :: "'a poll_read_fun \<Rightarrow> nat \<Rightarrow> 'a \<Rightarrow> copy_phase \<times> 'a" where
  "reading_step rd cnt a =
     (case rd copy_buf a of
        (Pending, a1) \<Rightarrow> (Reading cnt, a1)
      | (Ready (Inl k), a1) \<Rightarrow> (copy_failed k, a1)
      | (Ready (Inr bs), a1) \<Rightarrow> (if bs = [] then LastFlush cnt else Writing bs (length bs) cnt, a1))"

fun writing_step :: "'b poll_write_fun \<Rightarrow> 'b poll_flush_fun \<Rightarrow> copy_phase \<Rightarrow> 'b \<Rightarrow> copy_phase \<times> 'b" where
  "writing_step wr fl (Writing rest n cnt) b =
     (case wr rest b of
        (Pending, b1) \<Rightarrow> (Writing rest n cnt, b1)
      | (Ready (Inl k), b1) \<Rightarrow> (copy_failed k, b1)
      | (Ready (Inr m), b1) \<Rightarrow>
          (if m = 0 then copy_failed WriteZero
           else if drop m rest = [] then Flushing (cnt + n) else Writing (drop m rest) n cnt, b1))"
| "writing_step wr fl (Flushing cnt) b =
     (case fl b of
        (Pending, b1) \<Rightarrow> (Flushing cnt, b1)
      | (Ready (Inl k), b1) \<Rightarrow> (copy_failed k, b1)
      | (Ready (Inr _), b1) \<Rightarrow> (Reading cnt, b1))"
| "writing_step wr fl (LastFlush n) b =
     (case fl b of
        (Pending, b1) \<Rightarrow> (LastFlush n, b1)
      | (Ready _, b1) \<Rightarrow> (CopyDone (Inr n), b1))"
| "writing_step wr fl ph b = (ph, b)"

definition copy_step ::
    "'a poll_read_fun \<Rightarrow> 'b poll_write_fun \<Rightarrow> 'b poll_flush_fun \<Rightarrow> copy_phase \<Rightarrow> 'a \<Rightarrow> 'b \<Rightarrow> copy_phase \<times> 'a \<times> 'b" where
  "copy_step rd wr fl ph a b =
     (case ph of
        Reading cnt \<Rightarrow> (case reading_step rd cnt a of (ph1, a1) \<Rightarrow> (ph1, a1, b))
      | _ \<Rightarrow> (case writing_step wr fl ph b of (ph1, b1) \<Rightarrow> (ph1, a, b1)))"

section \<open>Both directions\<close>

record 's end_point =
  ep_read :: "'s poll_read_fun"
  ep_write :: "'s poll_write_fun"
  ep_flush :: "'s poll_flush_fun"

record ('l, 'r) relay =
  rl_left :: 'l
  rl_right :: 'r
  rl_c2s :: copy_phase
  rl_s2c :: copy_phase

definition relay_start :: "'l \<Rightarrow> 'r \<Rightarrow> ('l, 'r) relay" where
  "relay_start l r = \<lparr>rl_left = l, rl_right = r, rl_c2s = Reading 0, rl_s2c = Reading 0\<rparr>"

text \<open>The first error ends the join and drops the other direction.\<close>

definition relay_result :: "('l, 'r) relay \<Rightarrow> (nat \<times> nat) result option" where
  "relay_result x =
     (case (rl_c2s x, rl_s2c x) of
        (CopyDone (Inl _), _) \<Rightarrow> Some (Inl (Proxy ''copy_bidirectional''))
      | (_, CopyDone (Inl _)) \<Rightarrow> Some (Inl (Proxy ''copy_bidirectional''))
      | (CopyDone (Inr a), CopyDone (Inr b)) \<Rightarrow> Some (Inr (a, b))
      | _ \<Rightarrow> None)"

definition relay_step :: "'l end_point \<Rightarrow> 'r end_point \<Rightarrow> bool \<Rightarrow> ('l, 'r) relay \<Rightarrow> ('l, 'r) relay" where
  "relay_step L R to_right x =
     (if relay_result x \<noteq> None then x
      else if to_right then
        (case copy_step (ep_read L) (ep_write R) (ep_flush R) (rl_c2s x) (rl_left x) (rl_right x) of
           (ph, l, r) \<Rightarrow> x\<lparr>rl_c2s := ph, rl_left := l, rl_right := r\<rparr>)
      else
        (case copy_step (ep_read R) (ep_write L) (ep_flush L) (rl_s2c x) (rl_right x) (rl_left x) of
           (ph, r, l) \<Rightarrow> x\<lparr>rl_s2c := ph, rl_right := r, rl_left := l\<rparr>))"

text \<open>\<^verbatim>\<open>copy_bidirectional_graceful\<close> under a schedule; \<^term>\<open>None\<close> is a relay that has not ended.\<close>

definition relay_run :: "'l end_point \<Rightarrow> 'r end_point \<Rightarrow> bool list \<Rightarrow> ('l, 'r) relay \<Rightarrow> ('l, 'r) relay" where
  "relay_run L R schedule x = foldl (\<lambda>x d. relay_step L R d x) x schedule"

definition copy_bidirectional_graceful ::
    "'l end_point \<Rightarrow> 'r end_point \<Rightarrow> bool list \<Rightarrow> 'l \<Rightarrow> 'r \<Rightarrow> (nat \<times> nat) result option \<times> 'l \<times> 'r" where
  "copy_bidirectional_graceful L R schedule l r =
     (let x = relay_run L R schedule (relay_start l r) in (relay_result x, rl_left x, rl_right x))"

section \<open>The contract of a stream with two directions\<close>

text \<open>\<open>io s d t\<close>: the stream still has to deliver \<open>d\<close> and has accepted \<open>t\<close>.\<close>

locale duplex =
  fixes rd :: "nat \<Rightarrow> 's \<Rightarrow> (io_kind + bytes) poll \<times> 's"
    and wr :: "bytes \<Rightarrow> 's \<Rightarrow> (io_kind + nat) poll \<times> 's"
    and fl :: "'s \<Rightarrow> (io_kind + unit) poll \<times> 's"
    and io :: "'s \<Rightarrow> bytes \<Rightarrow> bytes \<Rightarrow> bool"
  assumes rd_io: "io s d t \<Longrightarrow> 0 < n \<Longrightarrow> rd n s = (r, s1) \<Longrightarrow>
      (\<exists>d1. io s1 d1 t \<and> d = polled r @ d1) \<and> (r = Ready (Inr []) \<longrightarrow> d = []) \<and> length (polled r) \<le> n"
    and wr_io: "io s d t \<Longrightarrow> bs \<noteq> [] \<Longrightarrow> wr bs s = (q, s1) \<Longrightarrow>
      io s1 d (t @ accepted_of bs q) \<and> (\<forall>n. q = Ready (Inr n) \<longrightarrow> n \<le> length bs)"
    and fl_io: "io s d t \<Longrightarrow> fl s = (f, s1) \<Longrightarrow> io s1 d t"
begin

lemma source: "byte_source rd (\<lambda>s d. \<exists>t. io s d t)"
  by unfold_locales (use rd_io in blast)

lemma sink: "byte_sink wr (\<lambda>s t. \<exists>d. io s d t)"
  by unfold_locales (use wr_io in blast)

end

text \<open>
  What one direction has done with the bytes \<open>d0\<close> its reader owed at the start: \<open>moved\<close> have been
  accepted on the other side, \<open>d\<close> are still to be read.
\<close>

fun flow :: "copy_phase \<Rightarrow> bytes \<Rightarrow> bytes \<Rightarrow> bytes \<Rightarrow> bool" where
  "flow (Reading cnt) d0 moved d \<longleftrightarrow> d0 = moved @ d \<and> cnt = length moved"
| "flow (Writing rest n cnt) d0 moved d \<longleftrightarrow>
     d0 = moved @ rest @ d \<and> cnt + n = length moved + length rest \<and> rest \<noteq> []"
| "flow (Flushing cnt) d0 moved d \<longleftrightarrow> d0 = moved @ d \<and> cnt = length moved"
| "flow (LastFlush n) d0 moved d \<longleftrightarrow> prefix moved d0 \<and> (0 < n \<longrightarrow> moved = d0 \<and> n = length d0)"
| "flow (CopyDone (Inr n)) d0 moved d \<longleftrightarrow> prefix moved d0 \<and> (0 < n \<longrightarrow> moved = d0 \<and> n = length d0)"
| "flow (CopyDone (Inl k)) d0 moved d \<longleftrightarrow> prefix moved d0"

lemma flow_failed: "prefix moved d0 \<Longrightarrow> flow (copy_failed k) d0 moved d"
  by (simp add: copy_failed_def)

lemma flow_prefix: "flow ph d0 moved d \<Longrightarrow> prefix moved d0"
  by (cases "(ph, d0, moved, d)" rule: flow.cases) (auto simp: prefix_def)

locale relay_pair =
  a: duplex rda wra fla ioa + b: duplex rdb wrb flb iob
  for rda :: "nat \<Rightarrow> 'a \<Rightarrow> (io_kind + bytes) poll \<times> 'a" and wra fla ioa
    and rdb :: "nat \<Rightarrow> 'b \<Rightarrow> (io_kind + bytes) poll \<times> 'b" and wrb flb iob
begin

lemma copy_step_flow:
  assumes "ioa s d t" and "iob u e t'" and "flow ph d0 moved d" and "t' = t0 @ moved"
    and "copy_step rda wrb flb ph s u = (ph1, s1, u1)"
  shows "\<exists>d1 moved1. ioa s1 d1 t \<and> iob u1 e (t0 @ moved1) \<and> flow ph1 d0 moved1 d1"
proof (cases ph)
  case (Reading cnt)
  obtain r s2 where r: "rda copy_buf s = (r, s2)" by fastforce
  have eq: "(ph1, s1, u1) = (case reading_step rda cnt s of (p, x) \<Rightarrow> (p, x, u))"
    using assms(5) Reading by (simp add: copy_step_def)
  obtain d1 where d1: "ioa s2 d1 t" "d = polled r @ d1" "r = Ready (Inr []) \<longrightarrow> d = []"
    using a.rd_io [OF assms(1) _ r] by (auto simp: copy_buf_def)
  have pre: "prefix moved d0" by (rule flow_prefix [OF assms(3)])
  have "u1 = u" "s1 = s2" using eq r by (auto split: poll.splits sum.splits)
  moreover have "flow ph1 d0 moved d1"
    using eq r d1 assms(3) Reading flow_failed [OF pre]
    by (cases r rule: polled.cases) auto
  ultimately show ?thesis using d1(1) assms(2,4) by blast
next
  case (Writing rest n cnt)
  obtain q u2 where q: "wrb rest u = (q, u2)" by fastforce
  have eq: "(ph1, s1, u1) = (case writing_step wrb flb ph u of (p, x) \<Rightarrow> (p, s, x))"
    using assms(5) Writing by (simp add: copy_step_def)
  have fl: "d0 = moved @ rest @ d" "cnt + n = length moved + length rest" "rest \<noteq> []"
    using assms(3) Writing by simp_all
  have io: "iob u2 e (t0 @ moved @ accepted_of rest q)" "\<forall>n. q = Ready (Inr n) \<longrightarrow> n \<le> length rest"
    using b.wr_io [OF assms(2) fl(3) q] assms(4) by simp_all
  have pre: "prefix moved d0" by (rule flow_prefix [OF assms(3)])
  consider "q = Pending" | k where "q = Ready (Inl k)" | m where "q = Ready (Inr m)"
    by (cases q) (auto, metis sum.exhaust)
  then show ?thesis
  proof cases
    case (3 m)
    show ?thesis
    proof (cases "m = 0")
      case True
      then have "u1 = u2" "s1 = s" "ph1 = copy_failed WriteZero" using eq q 3 Writing by simp_all
      then show ?thesis using assms(1) io(1) 3 True pre by (intro exI [of _ d] exI [of _ moved]) (simp add: flow_failed)
    next
      case False
      have m: "m \<le> length rest" using io(2) 3 by simp
      have ph1: "u1 = u2" "s1 = s"
        "ph1 = (if drop m rest = [] then Flushing (cnt + n) else Writing (drop m rest) n cnt)"
        using eq q 3 Writing False by simp_all
      have "flow ph1 d0 (moved @ take m rest) d"
        using fl m by (auto simp: ph1(3))
      then show ?thesis using assms(1) io(1) 3 ph1(1,2) by (intro exI [of _ d] exI [of _ "moved @ take m rest"]) simp
    qed
  next
    case 1
    then have "u1 = u2" "s1 = s" "flow ph1 d0 moved d" using eq q Writing assms(3) by auto
    then show ?thesis using assms(1) io(1) 1 by (intro exI [of _ d] exI [of _ moved]) simp
  next
    case (2 k)
    then have "u1 = u2" "s1 = s" "flow ph1 d0 moved d" using eq q Writing flow_failed [OF pre] by auto
    then show ?thesis using assms(1) io(1) 2 by (intro exI [of _ d] exI [of _ moved]) simp
  qed
next
  case (Flushing cnt)
  obtain f u2 where f: "flb u = (f, u2)" by fastforce
  then have "iob u2 e t'" using b.fl_io [OF assms(2)] by simp
  moreover have "flow (copy_failed k) d0 moved d" for k by (rule flow_failed [OF flow_prefix [OF assms(3)]])
  then have "u1 = u2 \<and> s1 = s \<and> flow ph1 d0 moved d" using assms(3,5) Flushing f
    by (auto simp: copy_step_def split: poll.splits sum.splits)
  ultimately show ?thesis using assms(1,4) by blast
next
  case (LastFlush n)
  obtain f u2 where f: "flb u = (f, u2)" by fastforce
  then have "iob u2 e t'" using b.fl_io [OF assms(2)] by simp
  then show ?thesis using assms(1,3,4,5) LastFlush f
    by (auto simp: copy_step_def split: poll.splits)
qed (use assms in \<open>auto simp: copy_step_def\<close>)

lemma flipped: "relay_pair rdb wrb flb iob rda wra fla ioa"
  by unfold_locales

lemma relay_step_flow:
  assumes "ioa (rl_left x) dl (tl0 @ ms)" and "iob (rl_right x) dr (tr0 @ mc)"
    and "flow (rl_c2s x) dl0 mc dl" and "flow (rl_s2c x) dr0 ms dr"
    and "x1 = relay_step \<lparr>ep_read = rda, ep_write = wra, ep_flush = fla\<rparr> \<lparr>ep_read = rdb, ep_write = wrb, ep_flush = flb\<rparr> to_right x"
  shows "\<exists>dl1 dr1 ms1 mc1. ioa (rl_left x1) dl1 (tl0 @ ms1) \<and> iob (rl_right x1) dr1 (tr0 @ mc1)
    \<and> flow (rl_c2s x1) dl0 mc1 dl1 \<and> flow (rl_s2c x1) dr0 ms1 dr1"
proof (cases "relay_result x \<noteq> None")
  case True
  then show ?thesis using assms by (auto simp: relay_step_def)
next
  case False
  show ?thesis
  proof (cases to_right)
    case True
    obtain ph l r where c: "copy_step rda wrb flb (rl_c2s x) (rl_left x) (rl_right x) = (ph, l, r)" using prod_cases3 by blast
    from copy_step_flow [OF assms(1,2,3) refl c] True False assms(4,5) c show ?thesis
      by (auto simp: relay_step_def)
  next
    case left: False
    obtain ph r l where c: "copy_step rdb wra fla (rl_s2c x) (rl_right x) (rl_left x) = (ph, r, l)" using prod_cases3 by blast
    from relay_pair.copy_step_flow [OF flipped assms(2,1,4) refl c] left False assms(3,5) c show ?thesis
      by (auto simp: relay_step_def)
  qed
qed

lemma relay_run_flow:
  assumes "ioa (rl_left x) dl (tl0 @ ms)" and "iob (rl_right x) dr (tr0 @ mc)"
    and "flow (rl_c2s x) dl0 mc dl" and "flow (rl_s2c x) dr0 ms dr"
    and "x1 = relay_run \<lparr>ep_read = rda, ep_write = wra, ep_flush = fla\<rparr> \<lparr>ep_read = rdb, ep_write = wrb, ep_flush = flb\<rparr> schedule x"
  shows "\<exists>dl1 dr1 ms1 mc1. ioa (rl_left x1) dl1 (tl0 @ ms1) \<and> iob (rl_right x1) dr1 (tr0 @ mc1)
    \<and> flow (rl_c2s x1) dl0 mc1 dl1 \<and> flow (rl_s2c x1) dr0 ms1 dr1"
  using assms
proof (induction schedule arbitrary: x dl ms dr mc)
  case Nil
  then show ?case by (auto simp: relay_run_def)
next
  case (Cons d schedule)
  let ?L = "\<lparr>ep_read = rda, ep_write = wra, ep_flush = fla\<rparr>" let ?R = "\<lparr>ep_read = rdb, ep_write = wrb, ep_flush = flb\<rparr>"
  define x' where "x' = relay_step ?L ?R d x"
  have run: "x1 = relay_run ?L ?R schedule x'" using Cons.prems(5) by (simp add: relay_run_def x'_def)
  obtain dl1 dr1 ms1 mc1 where "ioa (rl_left x') dl1 (tl0 @ ms1)" "iob (rl_right x') dr1 (tr0 @ mc1)"
    "flow (rl_c2s x') dl0 mc1 dl1" "flow (rl_s2c x') dr0 ms1 dr1"
    using relay_step_flow [OF Cons.prems(1-4) x'_def] by blast
  from Cons.IH [OF this run] show ?case .
qed

lemma relay_flow:
  assumes "ioa l dl tl0" and "iob r dr tr0"
    and "copy_bidirectional_graceful \<lparr>ep_read = rda, ep_write = wra, ep_flush = fla\<rparr>
      \<lparr>ep_read = rdb, ep_write = wrb, ep_flush = flb\<rparr> schedule l r = (res, l1, r1)"
  shows "\<exists>dl1 dr1 mc ms. ioa l1 dl1 (tl0 @ ms) \<and> iob r1 dr1 (tr0 @ mc) \<and> prefix mc dl \<and> prefix ms dr
    \<and> (\<forall>m n. res = Some (Inr (m, n)) \<longrightarrow> (0 < m \<longrightarrow> mc = dl \<and> m = length dl) \<and> (0 < n \<longrightarrow> ms = dr \<and> n = length dr))"
proof -
  define x where "x = relay_run \<lparr>ep_read = rda, ep_write = wra, ep_flush = fla\<rparr>
      \<lparr>ep_read = rdb, ep_write = wrb, ep_flush = flb\<rparr> schedule (relay_start l r)"
  have "\<exists>dl1 dr1 ms mc. ioa (rl_left x) dl1 (tl0 @ ms) \<and> iob (rl_right x) dr1 (tr0 @ mc)
      \<and> flow (rl_c2s x) dl mc dl1 \<and> flow (rl_s2c x) dr ms dr1"
    by (rule relay_run_flow [OF _ _ _ _ x_def, where dl = dl and ms = "[]" and dr = dr and mc = "[]"])
      (simp_all add: relay_start_def assms(1,2))
  then obtain dl1 dr1 ms mc where fl: "ioa (rl_left x) dl1 (tl0 @ ms)" "iob (rl_right x) dr1 (tr0 @ mc)"
      "flow (rl_c2s x) dl mc dl1" "flow (rl_s2c x) dr ms dr1" by blast
  have res: "res = relay_result x" "l1 = rl_left x" "r1 = rl_right x"
    using assms(3) by (simp_all add: copy_bidirectional_graceful_def x_def Let_def)
  have fin: "rl_c2s x = CopyDone (Inr m) \<and> rl_s2c x = CopyDone (Inr n)" if "res = Some (Inr (m, n))" for m n
    using that by (auto simp: res(1) relay_result_def split: copy_phase.splits sum.splits)
  have "\<forall>m n. res = Some (Inr (m, n)) \<longrightarrow> (0 < m \<longrightarrow> mc = dl \<and> m = length dl) \<and> (0 < n \<longrightarrow> ms = dr \<and> n = length dr)"
    using fin fl(3,4) by fastforce
  moreover have "prefix mc dl" "prefix ms dr" by (rule flow_prefix [OF fl(3)], rule flow_prefix [OF fl(4)])
  ultimately show ?thesis using fl(1,2) res(2,3) by blast
qed

end

section \<open>Sockets and prefixed streams\<close>

text \<open>\<^verbatim>\<open>poll_flush\<close> of a TCP socket has nothing to do.\<close>

definition wire_flush :: "wire poll_flush_fun" where
  "wire_flush w = (Ready (Inr ()), w)"

definition tcp :: "wire end_point" where
  "tcp = \<lparr>ep_read = wire_read, ep_write = wire_write, ep_flush = wire_flush\<rparr>"

definition io_wire :: "wire \<Rightarrow> bytes \<Rightarrow> bytes \<Rightarrow> bool" where
  "io_wire w d t \<longleftrightarrow> owes_wire w d \<and> took_wire w t"

lemma wire_read_sent: "wire_read n w = (r, w1) \<Longrightarrow> wi_sent w1 = wi_sent w \<and> wi_out w1 = wi_out w"
  by (auto simp: wire_read_def split: prod.splits)

lemma wire_write_in: "wire_write bs w = (r, w1) \<Longrightarrow> wi_in w1 = wi_in w"
  by (auto simp: wire_write_def split: prod.splits)

interpretation wire_duplex: duplex wire_read wire_write wire_flush io_wire
proof (unfold_locales, goal_cases)
  case (1 s d t n r s1)
  then show ?case using wire_source.poll_delivers [of s d n r s1] wire_read_sent [of n s r s1]
    by (auto simp: io_wire_def took_wire_def)
next
  case (2 s d t bs q s1)
  then show ?case using wire_sink.poll_accepts [of s t bs q s1] wire_write_in [of bs s q s1]
    by (auto simp: io_wire_def owes_wire_def)
qed (simp add: wire_flush_def)

text \<open>A prefixed stream forwards its writes.\<close>

definition prefixed_poll_write :: "'s poll_write_fun \<Rightarrow> 's prefixed poll_write_fun" where
  "prefixed_poll_write wr bs s = (case wr bs (px_inner s) of (r, i) \<Rightarrow> (r, s\<lparr>px_inner := i\<rparr>))"

definition prefixed_poll_flush :: "'s poll_flush_fun \<Rightarrow> 's prefixed poll_flush_fun" where
  "prefixed_poll_flush fl s = (case fl (px_inner s) of (r, i) \<Rightarrow> (r, s\<lparr>px_inner := i\<rparr>))"

definition prefixed_end :: "'s end_point \<Rightarrow> 's prefixed end_point" where
  "prefixed_end e = \<lparr>ep_read = prefixed_poll_read (ep_read e), ep_write = prefixed_poll_write (ep_write e),
     ep_flush = prefixed_poll_flush (ep_flush e)\<rparr>"

definition io_prefixed :: "('s \<Rightarrow> bytes \<Rightarrow> bytes \<Rightarrow> bool) \<Rightarrow> 's prefixed \<Rightarrow> bytes \<Rightarrow> bytes \<Rightarrow> bool" where
  "io_prefixed io s d t \<longleftrightarrow> (\<exists>d1. io (px_inner s) d1 t \<and> d = drop (px_pos s) (px_data s) @ d1)"

context duplex
begin

lemma prefixed_duplex:
  "duplex (prefixed_poll_read rd) (prefixed_poll_write wr) (prefixed_poll_flush fl) (io_prefixed io)"
proof (unfold_locales, goal_cases)
  case (1 s d t n r s1)
  have "byte_source rd (\<lambda>s d. io s d t)" by unfold_locales (use rd_io in blast)
  from byte_source.prefixed_delivers [OF this _ 1(2,3), of d] 1(1) show ?case
    by (simp add: io_prefixed_def owes_prefixed_def)
next
  case (2 s d t bs q s1)
  then obtain d1 i where "io (px_inner s) d1 t" "d = drop (px_pos s) (px_data s) @ d1" "wr bs (px_inner s) = (q, i)"
    "s1 = s\<lparr>px_inner := i\<rparr>"
    by (auto simp: io_prefixed_def prefixed_poll_write_def split: prod.splits)
  then show ?case using wr_io [of "px_inner s" d1 t bs q i] 2(2) by (auto simp: io_prefixed_def)
next
  case (3 s d t f s1)
  then obtain d1 i where "io (px_inner s) d1 t" "d = drop (px_pos s) (px_data s) @ d1" "fl (px_inner s) = (f, i)"
    "s1 = s\<lparr>px_inner := i\<rparr>"
    by (auto simp: io_prefixed_def prefixed_poll_flush_def split: prod.splits)
  then show ?case using fl_io [of "px_inner s" d1 t f i] by (auto simp: io_prefixed_def)
qed

end

interpretation prefixed_wire: duplex "prefixed_poll_read wire_read" "prefixed_poll_write wire_write"
    "prefixed_poll_flush wire_flush" "io_prefixed io_wire"
  by (rule wire_duplex.prefixed_duplex)

interpretation prefixed_relay: relay_pair "prefixed_poll_read wire_read" "prefixed_poll_write wire_write"
    "prefixed_poll_flush wire_flush" "io_prefixed io_wire" wire_read wire_write wire_flush io_wire
  by unfold_locales

interpretation wire_relay: relay_pair wire_read wire_write wire_flush io_wire wire_read wire_write wire_flush io_wire
  by unfold_locales

section \<open>Progress on sockets\<close>

text \<open>One direction between two sockets touches the script of one and the output of the other.\<close>

fun in_flight :: "copy_phase \<Rightarrow> bytes" where
  "in_flight (Writing rest n cnt) = rest"
| "in_flight _ = []"

fun copy_measure :: "copy_phase \<Rightarrow> wire \<Rightarrow> wire \<Rightarrow> nat" where
  "copy_measure (CopyDone _) a b = 0"
| "copy_measure (LastFlush _) a b = 1"
| "copy_measure (Reading _) a b = 2 + 3 * script_size (wi_in a) + 3 * length (wi_out b)"
| "copy_measure _ a b = 3 + 3 * script_size (wi_in a) + 3 * length (wi_out b)"

text \<open>The bytes counted and those still to come are all the \<open>n\<close> bytes of the peer, and nothing has failed.\<close>

fun count_exact :: "nat \<Rightarrow> copy_phase \<Rightarrow> bytes \<Rightarrow> bool" where
  "count_exact n (Reading cnt) d \<longleftrightarrow> cnt + length d = n"
| "count_exact n (Writing rest k cnt) d \<longleftrightarrow> cnt + k + length d = n \<and> rest \<noteq> []"
| "count_exact n (Flushing cnt) d \<longleftrightarrow> cnt + length d = n"
| "count_exact n (LastFlush m) d \<longleftrightarrow> m = n"
| "count_exact n (CopyDone (Inr m)) d \<longleftrightarrow> m = n"
| "count_exact n (CopyDone (Inl k)) d \<longleftrightarrow> False"

definition copy_runs :: "nat \<Rightarrow> copy_phase \<Rightarrow> wire \<Rightarrow> wire \<Rightarrow> bool" where
  "copy_runs k0 ph a b \<longleftrightarrow> clean_script (wi_in a) \<and> willing (length (in_flight ph) + length (script_data (wi_in a))) b
     \<and> count_exact k0 ph (script_data (wi_in a))"

lemma clean_read:
  assumes "clean_script es" and "inner_read n es = (r, es')" and "0 < n"
  shows "clean_script es' \<and> (r = Pending \<and> script_data es' = script_data es \<and> script_size es' < script_size es
    \<or> r = Ready (Inr []) \<and> es' = es \<and> script_data es = []
    \<or> (\<exists>bs. r = Ready (Inr bs) \<and> bs \<noteq> [] \<and> script_data es = bs @ script_data es' \<and> script_size es' < script_size es))"
  using assms by (cases es rule: script_data.cases) (auto simp: clean_script_Cons split: if_splits)

lemma willing_write:
  assumes "willing (length bs + k) w" and "bs \<noteq> []" and "wire_write bs w = (r, w1)"
  shows "length (wi_out w1) < length (wi_out w) \<and> (r = Pending \<and> willing (length bs + k) w1
    \<or> (\<exists>m. r = Ready (Inr m) \<and> 0 < m \<and> m \<le> length bs \<and> willing (length bs - m + k) w1))"
proof (cases "wi_out w")
  case Nil
  then show ?thesis using assms by (simp add: willing_def)
next
  case (Cons e es)
  show ?thesis
  proof (cases e)
    case (WAccept n)
    define m where "m = min n (length bs)"
    have "0 < n" using assms(1) Cons WAccept by (simp add: willing_def)
    then have m: "0 < m" "m \<le> length bs" using assms(2) by (auto simp: m_def)
    have "r = Ready (Inr m)" "w1 = w\<lparr>wi_out := es, wi_sent := wi_sent w @ take m bs\<rparr>"
      using assms(3) Cons WAccept by (auto simp: wire_write_def m_def)
    then show ?thesis using assms(1) Cons WAccept m by (auto simp: willing_def)
  qed (use assms Cons in \<open>auto simp: willing_def wire_write_def\<close>)
qed

lemma willing_mono: "willing k w \<Longrightarrow> j \<le> k \<Longrightarrow> willing j w"
  by (auto simp: willing_def)

lemma copy_step_progress:
  assumes "copy_runs k0 ph a b" and "copy_step wire_read wire_write wire_flush ph a b = (ph1, a1, b1)"
  shows "copy_runs k0 ph1 a1 b1 \<and> wi_out a1 = wi_out a \<and> wi_in b1 = wi_in b
    \<and> (copy_measure ph1 a1 b1 < copy_measure ph a b \<or> (\<exists>n. ph = CopyDone (Inr n)) \<and> ph1 = ph \<and> a1 = a \<and> b1 = b)"
proof (cases ph)
  case (Reading cnt)
  obtain r es where r: "inner_read copy_buf (wi_in a) = (r, es)" by fastforce
  have cl: "clean_script (wi_in a)" and w: "willing (length (script_data (wi_in a))) b"
    using assms(1) Reading by (simp_all add: copy_runs_def)
  have st: "(ph1, a1, b1) = (case r of Pending \<Rightarrow> (Reading cnt, a\<lparr>wi_in := es\<rparr>, b)
      | Ready (Inl k) \<Rightarrow> (copy_failed k, a\<lparr>wi_in := es\<rparr>, b)
      | Ready (Inr bs) \<Rightarrow> (if bs = [] then LastFlush cnt else Writing bs (length bs) cnt, a\<lparr>wi_in := es\<rparr>, b))"
    using assms(2) Reading r by (auto simp: copy_step_def wire_read_def split: poll.splits sum.splits)
  from clean_read [OF cl r] have "0 < copy_buf \<Longrightarrow> ?thesis"
    using st w willing_mono [OF w] Reading assms(1)
    by (auto simp: copy_runs_def)
  then show ?thesis by (simp add: copy_buf_def)
next
  case (Writing rest n cnt)
  obtain q u where q: "wire_write rest b = (q, u)" by fastforce
  have wi: "willing (length rest + length (script_data (wi_in a))) b" "rest \<noteq> []" "clean_script (wi_in a)"
      and ce: "cnt + n + length (script_data (wi_in a)) = k0"
    using assms(1) Writing by (auto simp: copy_runs_def)
  from willing_write [OF wi(1,2) q] wire_write_in [OF q] wi(2,3) ce assms(2) Writing q show ?thesis
    by (auto simp: copy_step_def copy_runs_def split: if_splits)
next
  case (Flushing cnt)
  with assms show ?thesis
    by (auto simp: copy_step_def wire_flush_def copy_runs_def)
next
  case (LastFlush n)
  with assms show ?thesis
    by (auto simp: copy_step_def wire_flush_def copy_runs_def)
next
  case (CopyDone v)
  with assms show ?thesis by (cases v) (auto simp: copy_step_def copy_runs_def)
qed

lemma copy_runs_cong:
  "wi_in a = wi_in a' \<Longrightarrow> wi_out b = wi_out b' \<Longrightarrow> copy_runs k0 ph a b = copy_runs k0 ph a' b'
     \<and> copy_measure ph a b = copy_measure ph a' b'"
  by (cases ph) (simp_all add: copy_runs_def willing_def)

lemma relay_run_progress:
  assumes "copy_runs k0 (rl_c2s x) (rl_left x) (rl_right x)" and "copy_runs j0 (rl_s2c x) (rl_right x) (rl_left x)"
    and "copy_measure (rl_c2s x) (rl_left x) (rl_right x) \<le> count_list schedule True"
    and "copy_measure (rl_s2c x) (rl_right x) (rl_left x) \<le> count_list schedule False"
  shows "relay_result (relay_run tcp tcp schedule x) = Some (Inr (k0, j0))"
  using assms
proof (induction schedule arbitrary: x)
  case Nil
  have d: "ph = CopyDone (Inr k0)" if "copy_runs k0 ph a b" "copy_measure ph a b = 0" for k0 ph a b
    using that by (cases "(k0, ph, script_data (wi_in a))" rule: count_exact.cases) (auto simp: copy_runs_def)
  show ?case using d [OF Nil(1)] d [OF Nil(2)] Nil(3,4) by (auto simp: relay_run_def relay_result_def)
next
  case (Cons d schedule)
  define x' where "x' = relay_step tcp tcp d x"
  have ce: "count_exact k0 (rl_c2s x) (script_data (wi_in (rl_left x)))" "count_exact j0 (rl_s2c x) (script_data (wi_in (rl_right x)))"
    using Cons.prems(1,2) by (simp_all add: copy_runs_def)
  show ?case
  proof (cases "relay_result x = None")
    case False
    then have stuck: "relay_step tcp tcp e x = x" for e by (simp add: relay_step_def)
    have "relay_run tcp tcp ds x = x" for ds
      by (induction ds) (simp_all add: relay_run_def stuck)
    then show ?thesis using False ce by (auto simp: relay_result_def split: copy_phase.splits sum.splits)
  next
    case True
    show ?thesis
    proof (cases d)
      case d: True
      obtain ph l r where c: "copy_step wire_read wire_write wire_flush (rl_c2s x) (rl_left x) (rl_right x) = (ph, l, r)"
        using prod_cases3 by blast
      have x: "x' = x\<lparr>rl_c2s := ph, rl_left := l, rl_right := r\<rparr>" using True d c by (simp add: relay_step_def tcp_def x'_def)
      note p = copy_step_progress [OF Cons.prems(1) c]
      have "copy_runs k0 (rl_c2s x') (rl_left x') (rl_right x')" "copy_runs j0 (rl_s2c x') (rl_right x') (rl_left x')"
        "copy_measure (rl_c2s x') (rl_left x') (rl_right x') \<le> count_list schedule True"
        "copy_measure (rl_s2c x') (rl_right x') (rl_left x') \<le> count_list schedule False"
        using p Cons.prems(2-4) d copy_runs_cong [of "rl_right x" r "rl_left x" l j0 "rl_s2c x"] by (auto simp: x)
      from Cons.IH [OF this] show ?thesis by (simp add: relay_run_def x'_def)
    next
      case d: False
      obtain ph l r where c: "copy_step wire_read wire_write wire_flush (rl_s2c x) (rl_right x) (rl_left x) = (ph, r, l)"
        using prod_cases3 by blast
      have x: "x' = x\<lparr>rl_s2c := ph, rl_right := r, rl_left := l\<rparr>" using True d c by (simp add: relay_step_def tcp_def x'_def)
      note p = copy_step_progress [OF Cons.prems(2) c]
      have "copy_runs k0 (rl_c2s x') (rl_left x') (rl_right x')" "copy_runs j0 (rl_s2c x') (rl_right x') (rl_left x')"
        "copy_measure (rl_c2s x') (rl_left x') (rl_right x') \<le> count_list schedule True"
        "copy_measure (rl_s2c x') (rl_right x') (rl_left x') \<le> count_list schedule False"
        using p Cons.prems(1,3,4) d copy_runs_cong [of "rl_left x" l "rl_right x" r k0 "rl_c2s x"] by (auto simp: x)
      from Cons.IH [OF this] show ?thesis by (simp add: relay_run_def x'_def)
    qed
  qed
qed

lemma relay_ends:
  assumes "clean_script (wi_in client)" and "clean_script (wi_in server)"
    and "willing (length (script_data (wi_in client))) server" and "willing (length (script_data (wi_in server))) client"
    and "2 + 3 * script_size (wi_in client) + 3 * length (wi_out server) \<le> count_list schedule True"
    and "2 + 3 * script_size (wi_in server) + 3 * length (wi_out client) \<le> count_list schedule False"
  shows "\<exists>l r. copy_bidirectional_graceful tcp tcp schedule client server
      = (Some (Inr (length (script_data (wi_in client)), length (script_data (wi_in server)))), l, r)
    \<and> wi_sent r = wi_sent server @ script_data (wi_in client) \<and> wi_sent l = wi_sent client @ script_data (wi_in server)"
proof -
  let ?n = "length (script_data (wi_in client))" let ?m = "length (script_data (wi_in server))"
  obtain res l r where c: "copy_bidirectional_graceful tcp tcp schedule client server = (res, l, r)" using prod_cases3 by blast
  have "relay_result (relay_run tcp tcp schedule (relay_start client server)) = Some (Inr (?n, ?m))"
    by (rule relay_run_progress) (use assms in \<open>simp_all add: relay_start_def copy_runs_def\<close>)
  then have res: "res = Some (Inr (?n, ?m))" using c by (simp add: copy_bidirectional_graceful_def Let_def)
  have "io_wire client (script_data (wi_in client)) (wi_sent client)" "io_wire server (script_data (wi_in server)) (wi_sent server)"
    using assms(1,2) clean_script_owes by (simp_all add: io_wire_def owes_wire_def took_wire_def)
  from wire_relay.relay_flow [OF this c [unfolded tcp_def]] res
  obtain mc ms where "wi_sent l = wi_sent client @ ms" "wi_sent r = wi_sent server @ mc"
    "prefix mc (script_data (wi_in client))" "prefix ms (script_data (wi_in server))"
    "0 < ?n \<longrightarrow> mc = script_data (wi_in client)" "0 < ?m \<longrightarrow> ms = script_data (wi_in server)"
    by (auto simp: io_wire_def took_wire_def)
  then show ?thesis using c res by (cases "?n = 0"; cases "?m = 0") auto
qed

section \<open>Properties\<close>

text \<open>
  C18. The relay moves bytes, in both directions and under every interleaving: what a side has received is
  always a prefix of what the other side sent (after the bytes peeked before the relay), and a count
  greater than zero that is returned for a direction means that everything was delivered and is its length.
  (A count of zero says nothing: it is also what is left of the count after a benign error, lemma
  \<open>relay_benign_count_lost\<close>.)
\<close>

theorem relay_delivers:
  assumes "RData [] \<notin> set (wi_in client)" and "RData [] \<notin> set (wi_in server)"
    and "copy_bidirectional_graceful (prefixed_end tcp) tcp schedule (prefixed_new peeked client) server = (res, l, r)"
  shows "\<exists>to_server to_client. wi_sent r = wi_sent server @ to_server \<and> wi_sent (px_inner l) = wi_sent client @ to_client
    \<and> prefix to_server (peeked @ script_data (wi_in client)) \<and> prefix to_client (script_data (wi_in server))
    \<and> (\<forall>m n. res = Some (Inr (m, n)) \<longrightarrow>
        (0 < m \<longrightarrow> to_server = peeked @ script_data (wi_in client) \<and> m = length to_server)
      \<and> (0 < n \<longrightarrow> to_client = script_data (wi_in server) \<and> n = length to_client))"
proof -
  have L: "prefixed_end tcp = \<lparr>ep_read = prefixed_poll_read wire_read, ep_write = prefixed_poll_write wire_write,
      ep_flush = prefixed_poll_flush wire_flush\<rparr>" by (simp add: prefixed_end_def tcp_def)
  have "io_prefixed io_wire (prefixed_new peeked client) (peeked @ script_data (wi_in client)) (wi_sent client)"
    using assms(1) by (simp add: io_prefixed_def prefixed_new_def io_wire_def owes_wire_def owes_script_def took_wire_def)
  moreover have "io_wire server (script_data (wi_in server)) (wi_sent server)"
    using assms(2) by (simp add: io_wire_def owes_wire_def owes_script_def took_wire_def)
  moreover note assms(3) [unfolded L] note run = this [unfolded tcp_def]
  ultimately obtain dl1 dr1 mc ms where "io_prefixed io_wire l dl1 (wi_sent client @ ms)" "io_wire r dr1 (wi_sent server @ mc)"
    "prefix mc (peeked @ script_data (wi_in client))" "prefix ms (script_data (wi_in server))"
    "\<forall>m n. res = Some (Inr (m, n)) \<longrightarrow> (0 < m \<longrightarrow> mc = peeked @ script_data (wi_in client) \<and> m = length (peeked @ script_data (wi_in client)))
      \<and> (0 < n \<longrightarrow> ms = script_data (wi_in server) \<and> n = length (script_data (wi_in server)))"
    using prefixed_relay.relay_flow [OF _ _ run] by blast
  then show ?thesis by (intro exI [of _ mc] exI [of _ ms]) (auto simp: io_prefixed_def io_wire_def took_wire_def)
qed

definition toy_client :: wire where
  "toy_client = \<lparr>wi_in = [RData [3, 4], RPending, RData [5], REof], wi_out = [WAccept 1, WPending, WAccept 9, WAccept 9], wi_sent = []\<rparr>"

definition toy_server :: wire where
  "toy_server = \<lparr>wi_in = [RData [7, 8, 9], REof], wi_out = [WAccept 9, WAccept 1, WPending, WAccept 9, WAccept 9], wi_sent = []\<rparr>"

lemma toy_relay:
  "fst (copy_bidirectional_graceful (prefixed_end tcp) tcp (concat (replicate 16 [True, False])) (prefixed_new [1] toy_client) toy_server)
     = Some (Inr (4, 3))"
  by code_simp

lemma relay_delivers_witness:
  "\<exists>res l r to_server to_client. copy_bidirectional_graceful (prefixed_end tcp) tcp (concat (replicate 16 [True, False]))
       (prefixed_new [1] toy_client) toy_server = (res, l, r) \<and> res = Some (Inr (4, 3))
     \<and> wi_sent r = to_server \<and> wi_sent (px_inner l) = to_client \<and> to_server = [1, 3, 4, 5] \<and> to_client = [7, 8, 9]"
proof -
  obtain res l r where c: "copy_bidirectional_graceful (prefixed_end tcp) tcp (concat (replicate 16 [True, False]))
       (prefixed_new [1] toy_client) toy_server = (res, l, r)" using prod_cases3 by blast
  have res: "res = Some (Inr (4, 3))" using toy_relay by (simp add: c)
  from relay_delivers [OF _ _ c] res c show ?thesis by (auto simp: toy_client_def toy_server_def)
qed

text \<open>
  C19. The relay ends: between two peers that send something, close and go on accepting, every schedule
  that gives each direction enough turns ends the session with the exact number of bytes each way.
\<close>

theorem relay_completes:
  assumes "clean_script (wi_in client)" and "clean_script (wi_in server)"
    and "willing (length (script_data (wi_in client))) server" and "willing (length (script_data (wi_in server))) client"
    and "2 + 3 * script_size (wi_in client) + 3 * length (wi_out server) \<le> count_list schedule True"
    and "2 + 3 * script_size (wi_in server) + 3 * length (wi_out client) \<le> count_list schedule False"
  shows "\<exists>l r. copy_bidirectional_graceful tcp tcp schedule client server
      = (Some (Inr (length (script_data (wi_in client)), length (script_data (wi_in server)))), l, r)
    \<and> wi_sent r = wi_sent server @ script_data (wi_in client) \<and> wi_sent l = wi_sent client @ script_data (wi_in server)"
  using assms by (rule relay_ends)

lemma relay_completes_witness:
  "\<exists>l r. copy_bidirectional_graceful tcp tcp (replicate 99 True @ replicate 99 False) toy_client toy_server = (Some (Inr (3, 3)), l, r)
     \<and> wi_sent r = [3, 4, 5] \<and> wi_sent l = [7, 8, 9]"
proof -
  define sched where "sched = replicate 99 True @ replicate 99 False"
  have "count_list (replicate n b) b = n" for n and b :: bool by (induction n) simp_all
  from this [of 99 True] this [of 99 False]
  have c: "99 \<le> count_list sched True" "99 \<le> count_list sched False" by (simp_all only: sched_def count_list_append le_add1 le_add2)
  have d: "script_data (wi_in toy_client) = [3, 4, 5]" "script_data (wi_in toy_server) = [7, 8, 9]"
    by (simp_all add: toy_client_def toy_server_def)
  have "\<exists>l r. copy_bidirectional_graceful tcp tcp sched toy_client toy_server
      = (Some (Inr (length (script_data (wi_in toy_client)), length (script_data (wi_in toy_server)))), l, r)
    \<and> wi_sent r = wi_sent toy_server @ script_data (wi_in toy_client)
    \<and> wi_sent l = wi_sent toy_client @ script_data (wi_in toy_server)"
  proof (rule relay_completes)
    show "2 + 3 * script_size (wi_in toy_client) + 3 * length (wi_out toy_server) \<le> count_list sched True"
      by (rule le_trans [OF _ c(1)]) (simp add: toy_client_def toy_server_def)
    show "2 + 3 * script_size (wi_in toy_server) + 3 * length (wi_out toy_client) \<le> count_list sched False"
      by (rule le_trans [OF _ c(2)]) (simp add: toy_client_def toy_server_def)
  qed (simp_all add: d toy_client_def toy_server_def clean_script_def willing_def)
  moreover have "wi_sent toy_client = []" "wi_sent toy_server = []" by (simp_all add: toy_client_def toy_server_def)
  ultimately show ?thesis unfolding d by (simp add: numeral_3_eq_3 sched_def del: replicate.simps)
qed

text \<open>
  The end of one side is not passed on: there is no shutdown of the other side's writer, so a session whose
  client has closed stays open as long as the server neither sends nor closes, under every schedule.
\<close>

lemma relay_half_close_waits:
  assumes "wi_in server = []"
  shows "fst (copy_bidirectional_graceful tcp tcp schedule client server) \<noteq> Some (Inr (m, n))"
proof -
  have "rl_s2c (relay_run tcp tcp schedule x) = Reading 0 \<and> wi_in (rl_right (relay_run tcp tcp schedule x)) = []"
    if "rl_s2c x = Reading 0" "wi_in (rl_right x) = []" for x
    using that
  proof (induction schedule arbitrary: x)
    case (Cons d schedule)
    have "rl_s2c (relay_step tcp tcp d x) = Reading 0 \<and> wi_in (rl_right (relay_step tcp tcp d x)) = []"
    proof (cases d)
      case True
      obtain ph l r where c: "copy_step wire_read wire_write wire_flush (rl_c2s x) (rl_left x) (rl_right x) = (ph, l, r)"
        using prod_cases3 by blast
      then have "wi_in r = wi_in (rl_right x)"
        by (cases "rl_c2s x") (auto simp: copy_step_def wire_flush_def split: prod.splits poll.splits sum.splits if_splits
            dest: wire_write_in)
      then show ?thesis using True Cons.prems c by (simp add: relay_step_def tcp_def)
    next
      case False
      then show ?thesis using Cons.prems by (simp add: relay_step_def tcp_def copy_step_def wire_read_def)
    qed
    with Cons.IH show ?case by (simp add: relay_run_def)
  qed (simp add: relay_run_def)
  then show ?thesis using assms
    by (simp add: copy_bidirectional_graceful_def Let_def relay_start_def relay_result_def split: copy_phase.splits sum.splits)
qed

text \<open>An error that counts as benign is answered with the count 0, whatever had been delivered.\<close>

lemma relay_benign_count_lost:
  "fst (copy_bidirectional_graceful tcp tcp (concat (replicate 8 [True, False]))
     \<lparr>wi_in = [RData [1, 2], RErr ConnectionReset], wi_out = [], wi_sent = []\<rparr>
     \<lparr>wi_in = [REof], wi_out = [WAccept 9], wi_sent = []\<rparr>) = Some (Inr (0, 0))"
  by code_simp

end
