(* ===== verification/User_Store.thy ===== *)
theory User_Store
  imports Config_Model
begin

text \<open>
  \<^verbatim>\<open>src/users.rs\<close>: the users of the web interface, kept in memory and in a JSON file. The Argon2 and
  JSON crates are the parameter \<open>user_lib\<close> (\<open>us_hash salt\<close> is hashing with the salt drawn at that
  moment, \<open>us_verify\<close> is \<^term>\<open>None\<close> for a malformed hash); \<open>us_readable\<close> says whether
  \<^verbatim>\<open>read_to_string\<close> of a file that exists succeeds, \<open>us_put\<close> is \<^verbatim>\<open>fs::write\<close> and
  \<open>us_mkdirs\<close> says whether \<^verbatim>\<open>create_dir_all\<close> of the parent directory succeeded.
\<close>

section \<open>Data\<close>

datatype user_role = AdminRole | OperatorRole | ViewerRole

definition can_manage_users :: "user_role \<Rightarrow> bool" where
  "can_manage_users r \<longleftrightarrow> r = AdminRole"

definition can_edit_config :: "user_role \<Rightarrow> bool" where
  "can_edit_config r \<longleftrightarrow> r = AdminRole \<or> r = OperatorRole"

record user_record =
  ur_name :: string
  ur_hash :: string
  ur_role :: user_role
  ur_display :: string

record user_view =
  uv_name :: string
  uv_role :: user_role
  uv_display :: string

definition view_of :: "user_record \<Rightarrow> user_view" where
  "view_of u = \<lparr>uv_name = ur_name u, uv_role = ur_role u, uv_display = ur_display u\<rparr>"

record user_lib =
  us_hash :: "nat \<Rightarrow> string \<Rightarrow> string option"
  us_verify :: "string \<Rightarrow> string \<Rightarrow> bool option"
  us_print :: "user_record list \<Rightarrow> string option"
  us_parse :: "string \<Rightarrow> user_record list option"
  us_readable :: "file_system \<Rightarrow> string \<Rightarrow> bool"
  us_put :: "file_system \<Rightarrow> string \<Rightarrow> string \<Rightarrow> bool \<times> file_system"
  us_mkdirs :: "string \<Rightarrow> bool"
  us_env_password :: "string option"

record user_store =
  st_path :: string
  st_users :: "user_record list"

section \<open>Operations\<close>

definition hash_password :: "user_lib \<Rightarrow> nat \<Rightarrow> string \<Rightarrow> string result" where
  "hash_password L salt password = ok_or (Config ''password hashing'') (us_hash L salt password)"

definition write_data :: "user_lib \<Rightarrow> user_record list \<Rightarrow> file_system \<Rightarrow> user_store
    \<Rightarrow> unit result \<times> file_system \<times> user_store" where
  "write_data L users fs s =
     (case us_print L users of
        None \<Rightarrow> (Inl (Config ''users serialisation''), fs, s)
      | Some content \<Rightarrow>
          (case us_put L fs (st_path s) content of
             (ok, fs1) \<Rightarrow> if ok then (Inr (), fs1, s\<lparr>st_users := users\<rparr>)
                          else (Inl (Config ''cannot write users file''), fs1, s)))"

definition list_users :: "user_store \<Rightarrow> user_view list" where
  "list_users s = map view_of (st_users s)"

definition authenticate :: "user_lib \<Rightarrow> string \<Rightarrow> string \<Rightarrow> user_store \<Rightarrow> user_view option result" where
  "authenticate L username password s =
     (case find (\<lambda>u. ur_name u = username) (st_users s) of
        None \<Rightarrow> Inr None
      | Some u \<Rightarrow>
          (case us_verify L (ur_hash u) password of
             None \<Rightarrow> Inl (Config ''malformed password hash'')
           | Some ok \<Rightarrow> if ok then Inr (Some (view_of u)) else Inr None))"

text \<open>
  The part of \<^verbatim>\<open>create_user\<close> before the file is written: the new list from the list read at the start.
  Reading and writing take the lock separately, so another request can run in between.
\<close>

definition plan_create :: "user_lib \<Rightarrow> nat \<Rightarrow> string \<Rightarrow> string \<Rightarrow> user_role \<Rightarrow> string \<Rightarrow> user_record list
    \<Rightarrow> user_record list result" where
  "plan_create L salt username password role display users =
     (if trim username = [] then Inl (Config ''username must not be empty'')
      else if length (as_bytes password) < 6 then Inl (Config ''password shorter than 6'')
      else if list_ex (\<lambda>u. ur_name u = username) users then Inl (Config ''user already exists'')
      else bindR (hash_password L salt password) (\<lambda>hash.
        Inr (users @ [\<lparr>ur_name = username, ur_hash = hash, ur_role = role, ur_display = display\<rparr>])))"

definition create_user :: "user_lib \<Rightarrow> nat \<Rightarrow> string \<Rightarrow> string \<Rightarrow> user_role \<Rightarrow> string \<Rightarrow> file_system \<Rightarrow> user_store
    \<Rightarrow> user_view result \<times> file_system \<times> user_store" where
  "create_user L salt username password role display fs s =
     (case plan_create L salt username password role display (st_users s) of
        Inl e \<Rightarrow> (Inl e, fs, s)
      | Inr users \<Rightarrow>
          (case write_data L users fs s of
             (Inl e, fs1, s1) \<Rightarrow> (Inl e, fs1, s1)
           | (Inr _, fs1, s1) \<Rightarrow> (Inr \<lparr>uv_name = username, uv_role = role, uv_display = display\<rparr>, fs1, s1)))"

definition plan_delete :: "string \<Rightarrow> user_record list \<Rightarrow> user_record list result" where
  "plan_delete username users =
     (let rest = filter (\<lambda>u. ur_name u \<noteq> username) users in
      if length rest = length users then Inl (Config ''user not found'')
      else if rest = [] then Inl (Config ''the last user cannot be deleted'')
      else Inr rest)"

definition delete_user :: "user_lib \<Rightarrow> string \<Rightarrow> file_system \<Rightarrow> user_store \<Rightarrow> unit result \<times> file_system \<times> user_store" where
  "delete_user L username fs s =
     (case plan_delete username (st_users s) of
        Inl e \<Rightarrow> (Inl e, fs, s)
      | Inr rest \<Rightarrow> write_data L rest fs s)"

text \<open>\<^verbatim>\<open>iter_mut().find(..)\<close>: the first user of the name.\<close>

fun set_hash :: "string \<Rightarrow> string \<Rightarrow> user_record list \<Rightarrow> user_record list" where
  "set_hash username hash [] = []"
| "set_hash username hash (u # us) =
     (if ur_name u = username then u\<lparr>ur_hash := hash\<rparr> # us else u # set_hash username hash us)"

definition plan_password :: "user_lib \<Rightarrow> nat \<Rightarrow> string \<Rightarrow> string \<Rightarrow> user_record list \<Rightarrow> user_record list result" where
  "plan_password L salt username password users =
     (if length (as_bytes password) < 6 then Inl (Config ''password shorter than 6'')
      else if \<not> list_ex (\<lambda>u. ur_name u = username) users then Inl (Config ''user not found'')
      else bindR (hash_password L salt password) (\<lambda>hash. Inr (set_hash username hash users)))"

definition update_password :: "user_lib \<Rightarrow> nat \<Rightarrow> string \<Rightarrow> string \<Rightarrow> file_system \<Rightarrow> user_store
    \<Rightarrow> unit result \<times> file_system \<times> user_store" where
  "update_password L salt username password fs s =
     (case plan_password L salt username password (st_users s) of
        Inl e \<Rightarrow> (Inl e, fs, s)
      | Inr users \<Rightarrow> write_data L users fs s)"

definition ensure_default_admin :: "user_lib \<Rightarrow> nat \<Rightarrow> file_system \<Rightarrow> user_store \<Rightarrow> unit result \<times> file_system \<times> user_store" where
  "ensure_default_admin L salt fs s =
     (case create_user L salt ''admin'' (case us_env_password L of Some p \<Rightarrow> p | None \<Rightarrow> ''admin123'')
             AdminRole ''Administrator'' fs s of
        (Inl e, fs1, s1) \<Rightarrow> (Inl e, fs1, s1)
      | (Inr _, fs1, s1) \<Rightarrow> (Inr (), fs1, s1))"

definition load_users :: "user_lib \<Rightarrow> nat \<Rightarrow> string \<Rightarrow> file_system \<Rightarrow> user_store result \<times> file_system" where
  "load_users L salt path fs =
     (let with_admin = (\<lambda>s. case ensure_default_admin L salt fs s of
            (Inl e, fs1, _) \<Rightarrow> (Inl e, fs1) | (Inr _, fs1, s1) \<Rightarrow> (Inr s1, fs1)) in
      if \<not> us_mkdirs L path then (Inl (Config ''cannot create the directory''), fs)
      else (case fs path of
          None \<Rightarrow> with_admin \<lparr>st_path = path, st_users = []\<rparr>
        | Some content \<Rightarrow>
            if \<not> us_readable L fs path then (Inl (Config ''cannot read the users file''), fs)
            else (case us_parse L content of
               None \<Rightarrow> (Inl (Config ''users.json parse error''), fs)
             | Some users \<Rightarrow>
                 let s = \<lparr>st_path = path, st_users = users\<rparr> in
                 if list_users s = [] then with_admin s else (Inr s, fs))))"

section \<open>Documented behaviour of the libraries\<close>

definition user_lib_laws :: "user_lib \<Rightarrow> bool" where
  "user_lib_laws L \<longleftrightarrow>
     (\<forall>users content. us_print L users = Some content \<longrightarrow> us_parse L content = Some users)
     \<and> fs_write_law (us_put L) \<and> (\<forall>fs path content fs1. us_put L fs path content = (True, fs1) \<longrightarrow> us_readable L fs1 path)
     \<and> (\<forall>salt p h. us_hash L salt p = Some h \<longrightarrow> us_verify L h p = Some True)"

text \<open>What keeping the file means: names are distinct and not blank, someone is there, and the file can be read and has them.\<close>

definition names_ok :: "user_record list \<Rightarrow> bool" where
  "names_ok users \<longleftrightarrow> distinct (map ur_name users) \<and> users \<noteq> [] \<and> list_all (\<lambda>u. trim (ur_name u) \<noteq> []) users"

definition on_disk :: "user_lib \<Rightarrow> file_system \<Rightarrow> user_store \<Rightarrow> bool" where
  "on_disk L fs s \<longleftrightarrow> us_readable L fs (st_path s) \<and> Option.bind (fs (st_path s)) (us_parse L) = Some (st_users s)"

section \<open>Lemmas\<close>

lemma find_name:
  "distinct (map ur_name us) \<Longrightarrow> u \<in> set us \<Longrightarrow> find (\<lambda>v. ur_name v = ur_name u) us = Some u"
  by (induction us) auto

lemma find_name_None: "find (\<lambda>v. ur_name v = n) us = None \<longleftrightarrow> n \<notin> ur_name ` set us"
  by (auto simp: find_None_iff)

lemma set_hash_props:
  "map ur_name (set_hash n h us) = map ur_name us" "set_hash n h us = [] \<longleftrightarrow> us = []"
  by (induction us) auto

lemma find_set_hash:
  "find (\<lambda>v. ur_name v = m) (set_hash n h us)
     = (if m = n then map_option (\<lambda>u. u\<lparr>ur_hash := h\<rparr>) (find (\<lambda>v. ur_name v = m) us) else find (\<lambda>v. ur_name v = m) us)"
  by (induction us) auto

lemma list_all_names: "list_all (\<lambda>u. P (ur_name u)) us \<longleftrightarrow> list_all P (map ur_name us)"
  by (simp add: list_all_iff)

lemma plan_create_Inr:
  "plan_create L salt n p r d us = Inr us' \<longleftrightarrow> trim n \<noteq> [] \<and> 6 \<le> length p \<and> n \<notin> ur_name ` set us
     \<and> (\<exists>h. us_hash L salt p = Some h \<and> us' = us @ [\<lparr>ur_name = n, ur_hash = h, ur_role = r, ur_display = d\<rparr>])"
  by (auto simp: plan_create_def hash_password_def list_ex_iff split: option.splits elim: ok_or.elims)

lemma plan_delete_Inr:
  "plan_delete n us = Inr us' \<longleftrightarrow> n \<in> ur_name ` set us \<and> us' = filter (\<lambda>u. ur_name u \<noteq> n) us \<and> us' \<noteq> []"
proof -
  have "length (filter P xs) = length xs \<longleftrightarrow> list_all P xs" for P and xs :: "user_record list"
    by (induction xs) (auto simp: le_imp_less_Suc [OF length_filter_le, THEN less_imp_neq])
  then show ?thesis by (auto simp: plan_delete_def Let_def list_all_iff)
qed

lemma plan_password_Inr:
  "plan_password L salt n p us = Inr us' \<longleftrightarrow> 6 \<le> length p \<and> n \<in> ur_name ` set us
     \<and> (\<exists>h. us_hash L salt p = Some h \<and> us' = set_hash n h us)"
  by (auto simp: plan_password_def hash_password_def list_ex_iff split: option.splits elim: ok_or.elims)

lemma write_data_cases:
  assumes "write_data L users fs s = (r, fs1, s1)" and "user_lib_laws L"
  shows "(\<exists>e. r = Inl e) \<and> s1 = s \<and> (fs1 = fs \<or> (\<exists>content. us_put L fs (st_path s) content = (False, fs1)))
    \<or> r = Inr () \<and> s1 = s\<lparr>st_users := users\<rparr> \<and> on_disk L fs1 s1"
proof -
  have "fs1 (st_path s) = Some content" if "us_put L fs (st_path s) content = (True, fs1)" for content
    using assms(2) that by (metis user_lib_laws_def fs_write_law_def fst_conv snd_conv)
  then show ?thesis using assms
    by (auto simp: write_data_def on_disk_def user_lib_laws_def split: option.splits prod.splits if_splits)
qed

section \<open>The store as a machine\<close>

datatype user_op =
    CreateOp nat string string user_role string
  | DeleteOp string
  | PasswordOp nat string string

fun op_name :: "user_op \<Rightarrow> string" where
  "op_name (CreateOp salt n p r d) = n"
| "op_name (DeleteOp n) = n"
| "op_name (PasswordOp salt n p) = n"

fun user_plan :: "user_lib \<Rightarrow> user_op \<Rightarrow> user_record list \<Rightarrow> user_record list result" where
  "user_plan L (CreateOp salt n p r d) us = plan_create L salt n p r d us"
| "user_plan L (DeleteOp n) us = plan_delete n us"
| "user_plan L (PasswordOp salt n p) us = plan_password L salt n p us"

fun user_apply :: "user_lib \<Rightarrow> user_op \<Rightarrow> file_system \<Rightarrow> user_store \<Rightarrow> unit result \<times> file_system \<times> user_store" where
  "user_apply L (CreateOp salt n p r d) fs s =
     (case create_user L salt n p r d fs s of (Inl e, t) \<Rightarrow> (Inl e, t) | (Inr _, t) \<Rightarrow> (Inr (), t))"
| "user_apply L (DeleteOp n) fs s = delete_user L n fs s"
| "user_apply L (PasswordOp salt n p) fs s = update_password L salt n p fs s"

lemma user_apply_eq:
  "user_apply L op fs s = (case user_plan L op (st_users s) of Inl e \<Rightarrow> (Inl e, fs, s) | Inr us \<Rightarrow> write_data L us fs s)"
  by (cases op) (auto simp: create_user_def delete_user_def update_password_def split: sum.splits prod.splits)

definition user_step :: "user_lib \<Rightarrow> file_system \<times> user_store \<Rightarrow> user_op \<Rightarrow> file_system \<times> user_store" where
  "user_step L c op = snd (user_apply L op (fst c) (snd c))"

text \<open>The file follows the memory as long as writing succeeds.\<close>

definition writes_succeed :: "user_lib \<Rightarrow> bool" where
  "writes_succeed L \<longleftrightarrow> (\<forall>fs path content. fst (us_put L fs path content))"

definition store_inv :: "user_lib \<Rightarrow> string \<Rightarrow> file_system \<times> user_store \<Rightarrow> bool" where
  "store_inv L path c \<longleftrightarrow> user_lib_laws L \<and> names_ok (st_users (snd c)) \<and> st_path (snd c) = path
     \<and> (writes_succeed L \<longrightarrow> on_disk L (fst c) (snd c))"

lemma plan_names_ok:
  assumes "names_ok us" and "user_plan L op us = Inr us'"
  shows "names_ok us'"
proof (cases op)
  case (CreateOp salt n p r d)
  then show ?thesis using assms by (auto simp: plan_create_Inr names_ok_def image_iff)
next
  case (DeleteOp n)
  then show ?thesis using assms
    by (auto simp: plan_delete_Inr names_ok_def list_all_iff distinct_map intro: inj_on_subset)
next
  case (PasswordOp salt n p)
  have *: "map ur_name (set_hash n h us) = map ur_name us" for h by (rule set_hash_props)
  have "list_all (\<lambda>u. trim (ur_name u) \<noteq> []) (set_hash n h us) = list_all (\<lambda>u. trim (ur_name u) \<noteq> []) us" for h
    using list_all_names [of "\<lambda>x. trim x \<noteq> []" "set_hash n h us"] list_all_names [of "\<lambda>x. trim x \<noteq> []" us] * by simp
  then show ?thesis using assms PasswordOp * set_hash_props(2)
    by (auto simp: plan_password_Inr names_ok_def)
qed

lemma user_step_inv: "store_inv L path c \<Longrightarrow> store_inv L path (user_step L c op)"
proof -
  assume inv: "store_inv L path c"
  obtain fs s where c: "c = (fs, s)" by fastforce
  show ?thesis
  proof (cases "user_plan L op (st_users s)")
    case (Inl e)
    then show ?thesis using inv by (simp add: user_step_def user_apply_eq c)
  next
    case (Inr us)
    obtain r fs1 s1 where w: "write_data L us fs s = (r, fs1, s1)" using prod_cases3 by blast
    have "names_ok us" using plan_names_ok [OF _ Inr] inv c by (simp add: store_inv_def)
    moreover have "fst (us_put L fs (st_path s) content)" if "writes_succeed L" for content
      using that by (simp add: writes_succeed_def)
    then have "us_put L fs (st_path s) content \<noteq> (False, fs1)" if "writes_succeed L" for content
      using that by (metis fst_conv)
    ultimately show ?thesis
      using write_data_cases [OF w] inv w by (auto simp: user_step_def user_apply_eq c Inr store_inv_def on_disk_def)
  qed
qed

interpretation user_machine: invariant_machine "user_step L" "store_inv L path" for L path
  by unfold_locales (rule user_step_inv)

lemma trim_admin: "trim ''admin'' \<noteq> []"
  by code_simp

lemma load_inv:
  assumes "user_lib_laws L" and "load_users L salt path fs = (Inr s, fs1)"
    and "case Option.bind (fs path) (us_parse L) of None \<Rightarrow> True | Some users \<Rightarrow> users = [] \<or> names_ok users"
  shows "store_inv L path (fs1, s)"
proof -
  have fresh: "store_inv L path (fs1, s)"
    if ens: "ensure_default_admin L salt fs \<lparr>st_path = path, st_users = []\<rparr> = (Inr u, fs1, s)" for u
  proof -
    let ?p = "case us_env_password L of Some p \<Rightarrow> p | None \<Rightarrow> ''admin123''"
    let ?s = "\<lparr>st_path = path, st_users = []\<rparr>"
    obtain us where us: "plan_create L salt ''admin'' ?p AdminRole ''Administrator'' [] = Inr us" "write_data L us fs ?s = (Inr (), fs1, s)"
      using ens by (cases "plan_create L salt ''admin'' ?p AdminRole ''Administrator'' []")
        (auto simp: ensure_default_admin_def create_user_def split: sum.splits prod.splits)
    have "names_ok us" using us(1) trim_admin by (auto simp: plan_create_Inr names_ok_def)
    then show ?thesis using write_data_cases [OF us(2) assms(1)] assms(1) by (auto simp: store_inv_def)
  qed
  show ?thesis
  proof (cases "Option.bind (fs path) (us_parse L)")
    case None
    then show ?thesis using assms(2) fresh
      by (auto simp: load_users_def Let_def bind_eq_None_conv split: if_splits option.splits sum.splits prod.splits)
  next
    case (Some users)
    then obtain content where c: "fs path = Some content" "us_parse L content = Some users" by (auto simp: bind_eq_Some_conv)
    show ?thesis
    proof (cases "users = []")
      case True
      then show ?thesis using assms(2) fresh c
        by (auto simp: load_users_def Let_def list_users_def split: if_splits sum.splits prod.splits)
    next
      case False
      then have "s = \<lparr>st_path = path, st_users = users\<rparr>" "fs1 = fs" "us_readable L fs path" using assms(2) c
        by (auto simp: load_users_def Let_def list_users_def split: if_splits)
      then show ?thesis using assms(1,3) Some False c by (simp add: store_inv_def on_disk_def)
    qed
  qed
qed

section \<open>Properties\<close>

text \<open>
  C31. The user store stays well formed: from a load on that found no file, a file of no users or
  one whose names are distinct and not blank (\<^verbatim>\<open>load\<close> itself does not check the names), after any sequence of creations, deletions and
  password changes, the names are distinct and not blank and at least one user is left; and as long as
  files can be written, a restart finds exactly the users in memory.
\<close>

theorem users_stay_consistent:
  assumes "user_lib_laws L" and "load_users L salt path fs = (Inr s, fs1)"
    and "case Option.bind (fs path) (us_parse L) of None \<Rightarrow> True | Some users \<Rightarrow> users = [] \<or> names_ok users"
    and "foldl (user_step L) (fs1, s) opers = (fs2, s2)"
  shows "distinct (map ur_name (st_users s2)) \<and> st_users s2 \<noteq> [] \<and> list_all (\<lambda>u. trim (ur_name u) \<noteq> []) (st_users s2)
    \<and> (writes_succeed L \<and> us_mkdirs L path \<longrightarrow> load_users L salt2 path fs2 = (Inr s2, fs2))"
proof -
  have inv: "store_inv L path (fs2, s2)"
    using user_machine.run_inv [OF load_inv [OF assms(1-3)], of opers] by (simp only: assms(4))
  then have "load_users L salt2 path fs2 = (Inr s2, fs2)" if "writes_succeed L" "us_mkdirs L path"
    using that by (auto simp: store_inv_def on_disk_def names_ok_def load_users_def list_users_def Let_def bind_eq_Some_conv)
  with inv show ?thesis by (simp add: store_inv_def names_ok_def)
qed

text \<open>
  A successful operation changes exactly the credentials of its user: a created user logs in with the
  password and role given, a changed password is accepted, a deleted user is unknown, and what every other
  name and password gives is unchanged.
\<close>

theorem user_operation_is_local:
  assumes "user_lib_laws L" and "distinct (map ur_name (st_users s))"
    and "user_apply L op fs s = (Inr u, fs1, s1)"
  shows "(case op of
       CreateOp salt n p r d \<Rightarrow> authenticate L n p s1 = Inr (Some \<lparr>uv_name = n, uv_role = r, uv_display = d\<rparr>)
     | PasswordOp salt n p \<Rightarrow> (\<exists>v. v \<in> set (list_users s) \<and> uv_name v = n \<and> authenticate L n p s1 = Inr (Some v))
     | DeleteOp n \<Rightarrow> (\<forall>q. authenticate L n q s1 = Inr None))
   \<and> (\<forall>m q. m = op_name op \<or> authenticate L m q s1 = authenticate L m q s)"
proof -
  obtain us where us: "user_plan L op (st_users s) = Inr us" "write_data L us fs s = (Inr u, fs1, s1)"
    using assms(3) by (auto simp: user_apply_eq split: sum.splits)
  have s1: "st_users s1 = us" using write_data_cases [OF us(2) assms(1)] by auto
  have ver: "us_hash L salt p = Some h \<Longrightarrow> us_verify L h p = Some True" for salt p h
    using assms(1) by (simp add: user_lib_laws_def)
  show ?thesis
  proof (cases op)
    case (CreateOp salt n p r d)
    then obtain h where h: "us_hash L salt p = Some h" "n \<notin> ur_name ` set (st_users s)"
        "us = st_users s @ [\<lparr>ur_name = n, ur_hash = h, ur_role = r, ur_display = d\<rparr>]"
      using us(1) by (auto simp: plan_create_Inr)
    have app: "find P (xs @ ys) = (case find P xs of None \<Rightarrow> find P ys | Some x \<Rightarrow> Some x)" for P and xs ys :: "user_record list"
      by (induction xs) auto
    have none: "find (\<lambda>u. ur_name u = n) (st_users s) = None" using h(2) by (simp add: find_name_None)
    show ?thesis using h ver none
      by (auto simp: CreateOp authenticate_def s1 app view_of_def split: option.splits)
  next
    case (DeleteOp n)
    then have "us = filter (\<lambda>u. ur_name u \<noteq> n) (st_users s)" using us(1) by (simp add: plan_delete_Inr)
    moreover have "find (\<lambda>u. ur_name u = n) (filter (\<lambda>u. ur_name u \<noteq> n) xs) = None" for xs :: "user_record list" by (auto simp: find_None_iff)
    moreover have "m \<noteq> n \<Longrightarrow> find (\<lambda>u. ur_name u = m) (filter (\<lambda>u. ur_name u \<noteq> n) xs) = find (\<lambda>u. ur_name u = m) xs" for m and xs :: "user_record list"
      by (induction xs) auto
    ultimately show ?thesis by (auto simp: DeleteOp authenticate_def s1)
  next
    case (PasswordOp salt n p)
    then obtain h where h: "us_hash L salt p = Some h" "n \<in> ur_name ` set (st_users s)" "us = set_hash n h (st_users s)"
      using us(1) by (auto simp: plan_password_Inr)
    then obtain w where w: "w \<in> set (st_users s)" "ur_name w = n" by auto
    have f: "find (\<lambda>u. ur_name u = n) (st_users s) = Some w" using find_name [OF assms(2) w(1)] w(2) by simp
    have "authenticate L n p s1 = Inr (Some (view_of w))" using f ver [OF h(1)]
      by (simp add: authenticate_def s1 h(3) find_set_hash view_of_def)
    moreover have "view_of w \<in> set (list_users s)" "uv_name (view_of w) = n" using w by (simp add: list_users_def, simp add: view_of_def)
    moreover have "m = n \<or> authenticate L m q s1 = authenticate L m q s" for m q
      by (simp add: authenticate_def s1 h(3) find_set_hash)
    ultimately show ?thesis by (auto simp: PasswordOp)
  qed
qed

text \<open>
  The refusals: which operations are refused and why, and that an operation that fails leaves the
  users in memory as they were and, unless it was the writing itself that failed, the files too.
\<close>

theorem user_operation_refused:
  assumes "user_lib_laws L" and "user_apply L op fs s = (r, fs1, s1)"
  shows "(case op of
       CreateOp salt n p rl d \<Rightarrow> trim n = [] \<or> length p < 6 \<or> n \<in> ur_name ` set (st_users s) \<or> us_hash L salt p = None
     | DeleteOp n \<Rightarrow> n \<notin> ur_name ` set (st_users s) \<or> (\<exists>k. map ur_name (st_users s) = replicate k n)
     | PasswordOp salt n p \<Rightarrow> length p < 6 \<or> n \<notin> ur_name ` set (st_users s) \<or> us_hash L salt p = None)
     = (\<exists>e. user_plan L op (st_users s) = Inl e)
   \<and> (user_plan L op (st_users s) = Inl e \<longrightarrow> r = Inl e \<and> fs1 = fs)
   \<and> (\<forall>err. r = Inl err \<longrightarrow> s1 = s \<and> (fs1 = fs \<or> (\<exists>content. us_put L fs (st_path s) content = (False, fs1))))"
proof -
  have ex: "(\<exists>e. user_plan L op (st_users s) = Inl e) \<longleftrightarrow> (\<nexists>us. user_plan L op (st_users s) = Inr us)"
    by (cases "user_plan L op (st_users s)") auto
  have same: "filter (\<lambda>u. ur_name u \<noteq> n) us = [] \<longleftrightarrow> (\<exists>k. map ur_name us = replicate k n)" for n and us :: "user_record list"
  proof -
    have "filter (\<lambda>u. ur_name u \<noteq> n) us = [] \<longleftrightarrow> map ur_name us = replicate (length us) n" by (induction us) auto
    also have "\<dots> \<longleftrightarrow> (\<exists>k. map ur_name us = replicate k n)" by (metis length_map length_replicate)
    finally show ?thesis .
  qed
  show ?thesis
  proof (intro conjI)
    show "(case op of
       CreateOp salt n p rl d \<Rightarrow> trim n = [] \<or> length p < 6 \<or> n \<in> ur_name ` set (st_users s) \<or> us_hash L salt p = None
     | DeleteOp n \<Rightarrow> n \<notin> ur_name ` set (st_users s) \<or> (\<exists>k. map ur_name (st_users s) = replicate k n)
     | PasswordOp salt n p \<Rightarrow> length p < 6 \<or> n \<notin> ur_name ` set (st_users s) \<or> us_hash L salt p = None)
     = (\<exists>e. user_plan L op (st_users s) = Inl e)"
      unfolding ex by (cases op) (auto simp: plan_create_Inr plan_delete_Inr plan_password_Inr simp flip: same)
    show "user_plan L op (st_users s) = Inl e \<longrightarrow> r = Inl e \<and> fs1 = fs"
      using assms(2) by (auto simp: user_apply_eq)
    show "\<forall>err. r = Inl err \<longrightarrow> s1 = s \<and> (fs1 = fs \<or> (\<exists>content. us_put L fs (st_path s) content = (False, fs1)))"
      using assms(2) write_data_cases [OF _ assms(1), of _ fs s r fs1 s1] by (auto simp: user_apply_eq split: sum.splits)
  qed
qed

section \<open>A toy library\<close>

definition bob :: user_record where
  "bob = \<lparr>ur_name = ''bob'', ur_hash = ''#secret12'', ur_role = OperatorRole, ur_display = ''Bob''\<rparr>"

definition root_user :: user_record where
  "root_user = \<lparr>ur_name = ''admin'', ur_hash = ''#admin123'', ur_role = AdminRole, ur_display = ''Administrator''\<rparr>"

text \<open>It prints two files only, and stores the password behind a mark.\<close>

definition toy_user_lib :: user_lib where
  "toy_user_lib = \<lparr>us_hash = \<lambda>_ p. Some (CHR ''#'' # p), us_verify = \<lambda>h p. Some (h = CHR ''#'' # p),
     us_print = \<lambda>us. if us = [root_user] then Some ''a'' else if us = [root_user, bob] then Some ''ab'' else None,
     us_parse = \<lambda>c. if c = ''a'' then Some [root_user] else if c = ''ab'' then Some [root_user, bob] else None, us_readable = \<lambda>_ _. True,
     us_put = \<lambda>fs p c. (True, fs(p \<mapsto> c)), us_mkdirs = \<lambda>_. True, us_env_password = None\<rparr>"

lemma toy_user_laws: "user_lib_laws toy_user_lib"
  by (auto simp: user_lib_laws_def toy_user_lib_def fs_write_law_def split: if_splits)

definition toy_ops :: "user_op list" where
  "toy_ops = [CreateOp 1 ''bob'' ''secret12'' OperatorRole ''Bob'', CreateOp 2 ''bob'' ''other12'' AdminRole ''B'',
     DeleteOp ''carol'']"

lemma toy_load: "load_users toy_user_lib 0 ''u.json'' Map.empty
    = (Inr \<lparr>st_path = ''u.json'', st_users = [root_user]\<rparr>, [''u.json'' \<mapsto> ''a''])"
  using trim_admin by (simp add: load_users_def ensure_default_admin_def create_user_def plan_create_def hash_password_def
      write_data_def toy_user_lib_def root_user_def Let_def)

lemma toy_run: "foldl (user_step toy_user_lib) ([''u.json'' \<mapsto> ''a''], \<lparr>st_path = ''u.json'', st_users = [root_user]\<rparr>) toy_ops
    = ([''u.json'' \<mapsto> ''ab''], \<lparr>st_path = ''u.json'', st_users = [root_user, bob]\<rparr>)"
proof -
  have t: "trim ''bob'' \<noteq> []" by code_simp
  have n: "ur_name root_user = ''admin''" "ur_name bob = ''bob''" "bob \<noteq> root_user" by (simp_all add: root_user_def bob_def)
  have b: "\<lparr>ur_name = ''bob'', ur_hash = ''#secret12'', ur_role = OperatorRole, ur_display = ''Bob''\<rparr> = bob" by (simp add: bob_def)
  have c: "user_plan toy_user_lib (CreateOp 1 ''bob'' ''secret12'' OperatorRole ''Bob'') [root_user] = Inr [root_user, bob]"
    using t by (simp add: plan_create_def hash_password_def toy_user_lib_def n b)
  have d: "\<exists>e. user_plan toy_user_lib (CreateOp 2 ''bob'' ''other12'' AdminRole ''B'') [root_user, bob] = Inl e"
    using t by (simp add: plan_create_def n)
  have e: "\<exists>e. user_plan toy_user_lib (DeleteOp ''carol'') [root_user, bob] = Inl e"
    by (simp add: plan_delete_def n Let_def)
  show ?thesis using c d e
    by (auto simp: toy_ops_def user_step_def user_apply_eq write_data_def toy_user_lib_def n(3) [symmetric])
qed

lemma users_stay_consistent_witness:
  "load_users toy_user_lib 7 ''u.json'' (fst (foldl (user_step toy_user_lib) ([''u.json'' \<mapsto> ''a''],
       \<lparr>st_path = ''u.json'', st_users = [root_user]\<rparr>) toy_ops))
     = (Inr \<lparr>st_path = ''u.json'', st_users = [root_user, bob]\<rparr>, [''u.json'' \<mapsto> ''ab''])"
  using users_stay_consistent [OF toy_user_laws toy_load _ toy_run, of 7] toy_run
  by (simp add: toy_user_lib_def writes_succeed_def)

lemma user_operation_is_local_witness:
  "authenticate toy_user_lib ''bob'' ''secret12'' \<lparr>st_path = ''u.json'', st_users = [root_user, bob]\<rparr>
     = Inr (Some \<lparr>uv_name = ''bob'', uv_role = OperatorRole, uv_display = ''Bob''\<rparr>)"
proof -
  let ?s = "\<lparr>st_path = ''u.json'', st_users = [root_user]\<rparr>"
  let ?op = "CreateOp 1 ''bob'' ''secret12'' OperatorRole ''Bob''"
  have t: "trim ''bob'' \<noteq> []" by code_simp
  have b: "\<lparr>ur_name = ''bob'', ur_hash = ''#secret12'', ur_role = OperatorRole, ur_display = ''Bob''\<rparr> = bob"
    "ur_name root_user = ''admin''" "bob \<noteq> root_user" by (simp_all add: bob_def root_user_def)
  have "user_apply toy_user_lib ?op Map.empty ?s = (Inr (), [''u.json'' \<mapsto> ''ab''], \<lparr>st_path = ''u.json'', st_users = [root_user, bob]\<rparr>)"
    using t by (simp add: user_apply_eq plan_create_def hash_password_def write_data_def toy_user_lib_def b)
  from user_operation_is_local [OF toy_user_laws _ this] show ?thesis by simp
qed

lemma user_operation_refused_witness:
  "user_apply toy_user_lib (DeleteOp ''admin'') Map.empty \<lparr>st_path = ''u.json'', st_users = [root_user]\<rparr>
     = (Inl (Config ''the last user cannot be deleted''), Map.empty, \<lparr>st_path = ''u.json'', st_users = [root_user]\<rparr>)"
proof -
  let ?s = "\<lparr>st_path = ''u.json'', st_users = [root_user]\<rparr>"
  obtain r fs1 s1 where a: "user_apply toy_user_lib (DeleteOp ''admin'') Map.empty ?s = (r, fs1, s1)" using prod_cases3 by blast
  have "user_plan toy_user_lib (DeleteOp ''admin'') (st_users ?s) = Inl (Config ''the last user cannot be deleted'')"
    by (simp add: plan_delete_def root_user_def Let_def)
  with user_operation_refused [OF toy_user_laws a, of "Config ''the last user cannot be deleted''"] a show ?thesis by auto
qed

section \<open>What the store does not prevent\<close>

text \<open>Only the last user is protected: the last administrator can be deleted, and nobody can manage users any more.\<close>

lemma last_admin_deletable:
  "plan_delete ''admin'' [root_user, bob] = Inr [bob]" "\<not> list_ex (\<lambda>u. can_manage_users (ur_role u)) [bob]"
  by (simp_all add: plan_delete_def root_user_def bob_def can_manage_users_def)

text \<open>
  Two requests that create users at the same time: both read the list before either writes it, and the
  second write drops the user the first one was told is created.
\<close>

lemma concurrent_creation_loses_user:
  assumes "plan_create L salt1 n1 p1 r1 d1 (st_users s) = Inr us1" and "plan_create L salt2 n2 p2 r2 d2 (st_users s) = Inr us2"
    and "write_data L us1 fs s = (Inr (), fs1, s1)" and "write_data L us2 fs1 s1 = (Inr (), fs2, s2)" and "n1 \<noteq> n2"
  shows "n1 \<in> ur_name ` set (st_users s1) \<and> n1 \<notin> ur_name ` set (st_users s2)"
proof -
  have "st_users s1 = us1" "st_users s2 = us2" using assms(3,4) by (auto simp: write_data_def split: option.splits prod.splits if_splits)
  then show ?thesis using assms(1,2,5) by (auto simp: plan_create_Inr)
qed

end
