(* ===== verification/App_State.thy ===== *)
theory App_State
  imports Backend_Pool Anti_Replay Conn_Limits User_Store
begin

text \<open>
  \<^verbatim>\<open>src/state.rs\<close> and \<^verbatim>\<open>src/webhooks.rs\<close>: the state all connections and all management requests share,
  the operations that change the configuration at run time, and the notifications they send. Each
  field has its own lock and an operation takes them one after another, so an operation is a sequence
  of steps on a \<open>world\<close>: the shared state, the file system, the clock and the notifications spawned so
  far. TOML, hex, Argon2 and the file writes are the parameter \<open>app_lib\<close>; a poisoned lock is not modelled.
\<close>

section \<open>Webhooks\<close>

datatype webhook_event = ConfigReloaded | SecretUpdated | BackendFailover | ProxyStarted

fun event_name :: "webhook_event \<Rightarrow> string" where
  "event_name ConfigReloaded = ''config_reloaded''"
| "event_name SecretUpdated = ''secret_updated''"
| "event_name BackendFailover = ''backend_failover''"
| "event_name ProxyStarted = ''proxy_started''"

text \<open>The details are JSON objects of strings.\<close>

record webhook_payload =
  wp_event :: string
  wp_detail :: "(string \<times> string) list option"
  wp_timestamp :: nat

text \<open>\<^verbatim>\<open>dispatch\<close>: the task it spawns, if any.\<close>

definition dispatch ::
    "webhooks_config \<Rightarrow> webhook_event \<Rightarrow> (string \<times> string) list option \<Rightarrow> nat \<Rightarrow> (string list \<times> webhook_payload) option" where
  "dispatch c ev detail now =
     (if \<not> wh_enabled c \<or> wh_urls c = [] then None
      else if wh_events c \<noteq> [] \<and> event_name ev \<notin> set (wh_events c) then None
      else Some (wh_urls c, \<lparr>wp_event = event_name ev, wp_detail = detail, wp_timestamp = now\<rparr>))"

text \<open>
  The spawned task: the requests it makes, in order, and its result. \<open>post\<close> is the HTTP client, a
  transport error or the status it returned; a status that is not a success is only logged.
\<close>

fun post_all :: "(string \<Rightarrow> string \<Rightarrow> string + nat) \<Rightarrow> string \<Rightarrow> string list \<Rightarrow> string list \<times> (string + unit)" where
  "post_all post body [] = ([], Inr ())"
| "post_all post body (url # urls) =
     (case post url body of
        Inl e \<Rightarrow> ([url], Inl (''POST '' @ url @ '': '' @ e))
      | Inr status \<Rightarrow> (case post_all post body urls of (sent, r) \<Rightarrow> (url # sent, r)))"

definition send_webhooks ::
    "(webhook_payload \<Rightarrow> string + string) \<Rightarrow> (string \<Rightarrow> string \<Rightarrow> string + nat) \<Rightarrow> string list \<Rightarrow> webhook_payload
     \<Rightarrow> string list \<times> (string + unit)" where
  "send_webhooks to_json post urls payload =
     (case to_json payload of Inl e \<Rightarrow> ([], Inl e) | Inr body \<Rightarrow> post_all post body urls)"

section \<open>Rotation of the TLS identity\<close>

record tls_rotation_state =
  rot_sni :: rotation_selector
  rot_fingerprint :: rotation_selector

definition rotation_from_tls :: "nat \<Rightarrow> tls_config \<Rightarrow> tls_rotation_state" where
  "rotation_from_tls now t =
     \<lparr>rot_sni = selector_new (sni_pool t) (sni_rotation t) (Some (unat (rotation_interval_secs t))) now,
      rot_fingerprint = selector_new (fingerprint_pool t) (fingerprint_rotation t) (Some (unat (rotation_interval_secs t))) now\<rparr>"

definition active_sni :: "(nat \<Rightarrow> nat) \<Rightarrow> nat \<Rightarrow> tls_config \<Rightarrow> tls_rotation_state \<Rightarrow> string" where
  "active_sni pick now t r = fst (select_item pick now (fake_domain t) (rot_sni r))"

definition active_fingerprint :: "(nat \<Rightarrow> nat) \<Rightarrow> nat \<Rightarrow> tls_config \<Rightarrow> tls_rotation_state \<Rightarrow> string option" where
  "active_fingerprint pick now t r =
     (case all_fingerprint_profiles t of
        [] \<Rightarrow> None
      | profile # _ \<Rightarrow> Some (fst (select_item pick now profile (rot_fingerprint r))))"

section \<open>The shared state\<close>

record app_state =
  app_config :: config
  app_config_path :: string
  app_stats :: stats
  app_users :: user_store
  app_antireplay :: antireplay_cache
  app_limits :: limiter
  app_pool :: backend_pool
  app_rotation :: tls_rotation_state

record app_lib =
  al_users :: user_lib
  al_parse :: "string \<Rightarrow> config option"
  al_print :: "config \<Rightarrow> string option"
  al_put :: "file_system \<Rightarrow> string \<Rightarrow> string \<Rightarrow> bool \<times> file_system"
  al_hex :: hex_lib

definition new_state :: "app_lib \<Rightarrow> nat \<Rightarrow> nat \<Rightarrow> config \<Rightarrow> string \<Rightarrow> file_system \<Rightarrow> app_state result \<times> file_system" where
  "new_state A now salt c path fs =
     (case load_users (al_users A) salt (users_file (webui c)) fs of
        (Inl e, fs1) \<Rightarrow> (Inl e, fs1)
      | (Inr users, fs1) \<Rightarrow>
          (Inr \<lparr>app_config = c, app_config_path = path, app_stats = stats_default, app_users = users,
                app_antireplay = new_cache (antireplay_cache_size (security c)), app_limits = limiter_new,
                app_pool = pool_from_config (mtproto c), app_rotation = rotation_from_tls now (tls c)\<rparr>, fs1))"

definition ip_blacklist_of :: "app_state \<Rightarrow> ip_addr list result" where
  "ip_blacklist_of s =
     try_map (\<lambda>ip. ok_or (Config (''blacklist IP '' @ ip)) (parse_ip ip)) (ip_blacklist (security (app_config s)))"

section \<open>Operations on the configuration\<close>

record world =
  wd_fs :: file_system
  wd_app :: app_state
  wd_now :: nat
  wd_spawned :: "(string list \<times> webhook_payload) list"

type_synonym app_action = "world \<Rightarrow> unit result \<times> world"

text \<open>\<^verbatim>\<open>a?; b\<close>\<close>

definition and_then :: "app_action \<Rightarrow> app_action \<Rightarrow> app_action" where
  "and_then a b w = (case a w of (Inl e, w1) \<Rightarrow> (Inl e, w1) | (Inr _, w1) \<Rightarrow> b w1)"

definition checked :: "unit result \<Rightarrow> app_action" where
  "checked r w = (r, w)"

definition set_config :: "(config \<Rightarrow> config) \<Rightarrow> app_action" where
  "set_config f w = (Inr (), w\<lparr>wd_app := (wd_app w)\<lparr>app_config := f (app_config (wd_app w))\<rparr>\<rparr>)"

definition sync_tls_rotation :: app_action where
  "sync_tls_rotation w =
     (Inr (), w\<lparr>wd_app := (wd_app w)\<lparr>app_rotation := rotation_from_tls (wd_now w) (tls (app_config (wd_app w)))\<rparr>\<rparr>)"

definition sync_backend_pool :: app_action where
  "sync_backend_pool w =
     (Inr (), w\<lparr>wd_app := (wd_app w)\<lparr>app_pool := pool_from_config (mtproto (app_config (wd_app w)))\<rparr>\<rparr>)"

definition announce :: "webhook_event \<Rightarrow> (string \<times> string) list option \<Rightarrow> app_action" where
  "announce ev detail w =
     (Inr (), case dispatch (webhooks (app_config (wd_app w))) ev detail (wd_now w) of
                None \<Rightarrow> w | Some job \<Rightarrow> w\<lparr>wd_spawned := wd_spawned w @ [job]\<rparr>)"

definition save_config :: "app_lib \<Rightarrow> app_action" where
  "save_config A w =
     (case save_to_file (al_print A) (al_put A) (app_config (wd_app w)) (app_config_path (wd_app w)) (wd_fs w) of
        (r, fs1) \<Rightarrow> (r, w\<lparr>wd_fs := fs1\<rparr>))"

definition reload_config :: "app_lib \<Rightarrow> app_action" where
  "reload_config A w =
     (case from_file (al_parse A) (wd_fs w) (app_config_path (wd_app w)) of
        Inl e \<Rightarrow> (Inl e, w)
      | Inr fresh \<Rightarrow>
          and_then (set_config (\<lambda>_. fresh)) (and_then sync_backend_pool
            (and_then sync_tls_rotation (announce ConfigReloaded None))) w)"

definition update_secret :: "app_lib \<Rightarrow> string \<Rightarrow> app_action" where
  "update_secret A secret =
     and_then (checked (validate_secret secret))
     (and_then (set_config (\<lambda>c. c\<lparr>mtproto := (mtproto c)\<lparr>mt_secret := secret\<rparr>\<rparr>))
     (and_then (save_config A) (announce SecretUpdated None)))"

definition update_proxy_settings :: "app_lib \<Rightarrow> string \<Rightarrow> string \<Rightarrow> string \<Rightarrow> app_action" where
  "update_proxy_settings A secret backend domain =
     and_then (checked (validate_secret secret))
     (and_then (set_config (\<lambda>c. c\<lparr>mtproto := (mtproto c)\<lparr>mt_secret := secret, mt_backend := backend\<rparr>,
                                 tls := (tls c)\<lparr>fake_domain := domain\<rparr>\<rparr>))
     (and_then (save_config A)
     (and_then sync_backend_pool (and_then sync_tls_rotation (announce SecretUpdated None)))))"

definition update_mtproto :: "app_lib \<Rightarrow> mtproto_config \<Rightarrow> app_action" where
  "update_mtproto A m =
     and_then (checked (validate_secret (mt_secret m)))
     (and_then (checked (try_all (\<lambda>e. validate_secret (se_secret e)) (mt_secrets m)))
     (and_then (set_config (\<lambda>c. c\<lparr>mtproto := m\<rparr>))
     (and_then (save_config A) (and_then sync_backend_pool sync_tls_rotation))))"

definition update_fragmentation :: "app_lib \<Rightarrow> fragmentation_config \<Rightarrow> app_action" where
  "update_fragmentation A f =
     and_then (set_config (\<lambda>c. c\<lparr>fragmentation := f\<rparr>)) (save_config A)"

section \<open>Reading the state\<close>

definition proxy_link :: "hex_lib \<Rightarrow> app_state \<Rightarrow> string result" where
  "proxy_link hx s =
     (let c = app_config s in
      bindR (telegram_proxy_secret hx (mt_secret (mtproto c)) (fake_domain (tls c))) (\<lambda>secret.
        Inr (''tg://proxy?server='' @ listen_host (listen c) @ ''&port='' @ dec_string (unat (listen_port (listen c)))
             @ ''&secret='' @ secret)))"

definition full_config :: "app_state \<Rightarrow> config" where
  "full_config s = app_config s"

record config_summary =
  cs_listen :: string
  cs_fake_domain :: string
  cs_active_sni :: string
  cs_sni_pool_count :: nat
  cs_sni_rotation :: string
  cs_fingerprint_pool_count :: nat
  cs_fingerprint_rotation :: string
  cs_backend :: string
  cs_secret_prefix :: string
  cs_secrets_count :: nat
  cs_tls_enabled :: bool
  cs_fragmentation_enabled :: bool
  cs_fragmentation_delay_ms :: u64
  cs_fragmentation_chunk_sizes :: "nat list"
  cs_drs_enabled :: bool
  cs_backends_count :: nat
  cs_failover_strategy :: string
  cs_webhooks_enabled :: bool
  cs_domain_fronting :: string
  cs_socks5_proxy :: "string option"
  cs_admin_socket :: "string option"
  cs_uninstall_enabled :: bool
  cs_split_mode :: string
  cs_webui_enabled :: bool
  cs_webui_listen :: string
  cs_metrics_enabled :: bool
  cs_metrics_listen :: string

text \<open>\<^verbatim>\<open>format!("{:?}", value).to_lowercase()\<close> of the enumerations.\<close>

fun rotation_debug :: "rotation_mode \<Rightarrow> string" where
  "rotation_debug RotNone = ''none''"
| "rotation_debug PerConnection = ''perconnection''"
| "rotation_debug TimeBased = ''timebased''"

fun failover_debug :: "backend_failover_strategy \<Rightarrow> string" where
  "failover_debug Priority = ''priority''"
| "failover_debug RoundRobin = ''roundrobin''"

fun fronting_debug :: "domain_fronting_mode \<Rightarrow> string" where
  "fronting_debug FrontNone = ''none''"
| "fronting_debug FrontSni = ''sni''"
| "fronting_debug FrontFixed = ''fixed''"

fun split_debug :: "split_mode \<Rightarrow> string" where
  "split_debug Monolith = ''monolith''"
| "split_debug Front = ''front''"
| "split_debug Back = ''back''"

definition host_port :: "string \<Rightarrow> u16 \<Rightarrow> string" where
  "host_port host port = host @ '':'' @ dec_string (unat port)"

text \<open>\<^verbatim>\<open>secret.chars().take(4)\<close>: secrets that passed validation start with four ASCII characters.\<close>

definition summary_of :: "(nat \<Rightarrow> nat) \<Rightarrow> nat \<Rightarrow> file_system \<Rightarrow> app_state \<Rightarrow> config_summary" where
  "summary_of pick now fs s =
     (let c = app_config s in
      \<lparr>cs_listen = host_port (listen_host (listen c)) (listen_port (listen c)),
       cs_fake_domain = fake_domain (tls c),
       cs_active_sni = active_sni pick now (tls c) (app_rotation s),
       cs_sni_pool_count = length (all_sni_domains (tls c)),
       cs_sni_rotation = rotation_debug (sni_rotation (tls c)),
       cs_fingerprint_pool_count = length (all_fingerprint_profiles (tls c)),
       cs_fingerprint_rotation = rotation_debug (fingerprint_rotation (tls c)),
       cs_backend = mt_backend (mtproto c),
       cs_secret_prefix = take 4 (mt_secret (mtproto c)),
       cs_secrets_count = 1 + length (mt_secrets (mtproto c)),
       cs_tls_enabled = tls_is_enabled (\<lambda>p. fs p \<noteq> None) (tls c),
       cs_fragmentation_enabled = fr_enabled (fragmentation c),
       cs_fragmentation_delay_ms = delay_ms (fragmentation c),
       cs_fragmentation_chunk_sizes = chunk_sizes (fragmentation c),
       cs_drs_enabled = drs_enabled (drs c),
       cs_backends_count = length (all_backends (mtproto c)),
       cs_failover_strategy = failover_debug (failover_strategy (mtproto c)),
       cs_webhooks_enabled = wh_enabled (webhooks c),
       cs_domain_fronting = fronting_debug (domain_fronting (fallback c)),
       cs_socks5_proxy = socks5_proxy (network c),
       cs_admin_socket = ad_socket (admin c),
       cs_uninstall_enabled = uninstall_enabled (admin c),
       cs_split_mode = split_debug (sp_mode (split c)),
       cs_webui_enabled = ui_enabled (webui c),
       cs_webui_listen = host_port (ui_host (webui c)) (ui_port (webui c)),
       cs_metrics_enabled = me_enabled (metrics c),
       cs_metrics_listen = host_port (me_host (metrics c)) (me_port (metrics c))\<rparr>)"

definition stats_snapshot :: "app_state \<Rightarrow> stats" where
  "stats_snapshot s = app_stats s"

section \<open>The operations as a machine\<close>

datatype app_op =
    Reload
  | Secret string
  | ProxySettings string string string
  | Mtproto mtproto_config
  | Fragmentation fragmentation_config

fun app_apply :: "app_lib \<Rightarrow> app_op \<Rightarrow> app_action" where
  "app_apply A Reload = reload_config A"
| "app_apply A (Secret s) = update_secret A s"
| "app_apply A (ProxySettings s b d) = update_proxy_settings A s b d"
| "app_apply A (Mtproto m) = update_mtproto A m"
| "app_apply A (Fragmentation f) = update_fragmentation A f"

text \<open>What an operation asks for: the new configuration, from the old one and the file.\<close>

fun intended :: "app_lib \<Rightarrow> app_op \<Rightarrow> world \<Rightarrow> config" where
  "intended A Reload w =
     (case from_file (al_parse A) (wd_fs w) (app_config_path (wd_app w)) of Inl _ \<Rightarrow> app_config (wd_app w) | Inr c \<Rightarrow> c)"
| "intended A (Secret s) w = (app_config (wd_app w))\<lparr>mtproto := (mtproto (app_config (wd_app w)))\<lparr>mt_secret := s\<rparr>\<rparr>"
| "intended A (ProxySettings s b d) w = (app_config (wd_app w))
     \<lparr>mtproto := (mtproto (app_config (wd_app w)))\<lparr>mt_secret := s, mt_backend := b\<rparr>,
      tls := (tls (app_config (wd_app w)))\<lparr>fake_domain := d\<rparr>\<rparr>"
| "intended A (Mtproto m) w = (app_config (wd_app w))\<lparr>mtproto := m\<rparr>"
| "intended A (Fragmentation f) w = (app_config (wd_app w))\<lparr>fragmentation := f\<rparr>"

text \<open>Which operations rebuild the backend pool and the rotation.\<close>

fun rebuilds :: "app_op \<Rightarrow> bool" where
  "rebuilds (Secret s) = False"
| "rebuilds (Fragmentation f) = False"
| "rebuilds op = True"

definition app_lib_laws :: "app_lib \<Rightarrow> bool" where
  "app_lib_laws A \<longleftrightarrow> toml_law (al_print A) (al_parse A) \<and> fs_write_law (al_put A)"

text \<open>The configuration in memory is valid and is the one a restart will load.\<close>

definition durable :: "app_lib \<Rightarrow> world \<Rightarrow> bool" where
  "durable A w \<longleftrightarrow> config_validate (app_config (wd_app w)) = Inr ()
     \<and> from_file (al_parse A) (wd_fs w) (app_config_path (wd_app w)) = Inr (app_config (wd_app w))"

text \<open>The pool dials the configured backends, and the rotation draws from the configured pools.\<close>

definition in_sync :: "app_state \<Rightarrow> bool" where
  "in_sync s \<longleftrightarrow> bp_backends (app_pool s) = all_backends (mtproto (app_config s))
     \<and> bp_strategy (app_pool s) = failover_strategy (mtproto (app_config s))
     \<and> (\<exists>t. app_rotation s = rotation_from_tls t (tls (app_config s)))"

lemmas app_step_defs = and_then_def checked_def set_config_def sync_tls_rotation_def sync_backend_pool_def announce_def

lemmas app_op_defs = reload_config_def update_secret_def update_proxy_settings_def update_mtproto_def
  update_fragmentation_def

named_theorems app_frame

text \<open>Saving leaves the shared state alone; if it succeeds, the file has the configuration.\<close>

lemma save_config_frame [app_frame]: "save_config A w = (r, w1) \<Longrightarrow> w1 = w\<lparr>wd_fs := wd_fs w1\<rparr>"
  by (auto simp: save_config_def split: prod.splits)

lemma from_file_valid: "from_file parse fs path = Inr c \<Longrightarrow> config_validate c = Inr ()"
  by (auto simp: from_file_def)

lemma save_config_ok:
  assumes "app_lib_laws A" and "save_config A w = (Inr (), w1)"
  shows "durable A w1"
proof -
  obtain fs1 where s: "save_to_file (al_print A) (al_put A) (app_config (wd_app w)) (app_config_path (wd_app w)) (wd_fs w) = (Inr (), fs1)"
    and w1: "w1 = w\<lparr>wd_fs := fs1\<rparr>"
    using assms(2) by (auto simp: save_config_def split: prod.splits)
  have "from_file (al_parse A) fs1 (app_config_path (wd_app w)) = Inr (app_config (wd_app w))"
    using saved_config_loads [of "al_print A" "al_parse A" "al_put A"] assms(1) s by (simp add: app_lib_laws_def)
  then show ?thesis using from_file_valid w1 by (simp add: durable_def)
qed

lemma save_config_error:
  assumes "save_config A w = (Inl e, w1)"
  shows "wd_fs w1 = wd_fs w
    \<or> config_validate (app_config (wd_app w)) = Inr ()
       \<and> (\<exists>content. al_put A (wd_fs w) (app_config_path (wd_app w)) content = (False, wd_fs w1))"
  using assms by (auto simp: save_config_def save_to_file_def split: prod.splits sum.splits if_splits)

lemma announce_frame [app_frame]: "announce ev d w = (r, w1) \<Longrightarrow> r = Inr () \<and> wd_app w1 = wd_app w \<and> wd_fs w1 = wd_fs w"
  by (auto simp: announce_def split: option.splits)

text \<open>Every update is the check of the secrets, the new configuration, the save, and the follow-up.\<close>

definition follow_up :: "app_op \<Rightarrow> app_action" where
  "follow_up op w =
     (case op of
        Secret s \<Rightarrow> announce SecretUpdated None w
      | ProxySettings s b d \<Rightarrow> and_then sync_backend_pool (and_then sync_tls_rotation (announce SecretUpdated None)) w
      | Mtproto m \<Rightarrow> and_then sync_backend_pool sync_tls_rotation w
      | _ \<Rightarrow> (Inr (), w))"

fun secrets_check :: "app_op \<Rightarrow> unit result" where
  "secrets_check (Secret s) = validate_secret s"
| "secrets_check (ProxySettings s b d) = validate_secret s"
| "secrets_check (Mtproto m) =
     bindR (validate_secret (mt_secret m)) (\<lambda>_. try_all (\<lambda>e. validate_secret (se_secret e)) (mt_secrets m))"
| "secrets_check _ = Inr ()"

lemma update_shape:
  assumes "op \<noteq> Reload"
  shows "app_apply A op w =
    (case secrets_check op of
       Inl e \<Rightarrow> (Inl e, w)
     | Inr _ \<Rightarrow> and_then (save_config A) (follow_up op) (w\<lparr>wd_app := (wd_app w)\<lparr>app_config := intended A op w\<rparr>\<rparr>))"
proof (cases op)
  case (Mtproto m)
  then show ?thesis
    by (cases "validate_secret (mt_secret m)"; cases "try_all (\<lambda>e. validate_secret (se_secret e)) (mt_secrets m)")
      (auto simp: update_mtproto_def follow_up_def app_step_defs simp del: try_all_ok split: sum.splits prod.splits)
qed (use assms in \<open>auto simp: app_op_defs follow_up_def app_step_defs split: sum.splits prod.splits\<close>)

lemma follow_up_props:
  assumes "follow_up op w = (r, w1)" and "op \<noteq> Reload"
  shows "r = Inr ()" "wd_fs w1 = wd_fs w" "app_config (wd_app w1) = app_config (wd_app w)"
    "app_config_path (wd_app w1) = app_config_path (wd_app w)"
    "app_stats (wd_app w1) = app_stats (wd_app w)" "app_users (wd_app w1) = app_users (wd_app w)"
    "app_antireplay (wd_app w1) = app_antireplay (wd_app w)" "app_limits (wd_app w1) = app_limits (wd_app w)"
    "rebuilds op \<Longrightarrow> in_sync (wd_app w1)" "\<not> rebuilds op \<Longrightarrow> wd_app w1 = wd_app w"
  using assms
  by (cases op; auto simp: follow_up_def app_step_defs in_sync_def pool_from_config_def split: option.splits)+

lemma reload_cases:
  assumes "reload_config A w = (r, w1)"
  shows "(\<exists>e. r = Inl e) \<and> w1 = w
    \<or> r = Inr () \<and> (\<exists>c. from_file (al_parse A) (wd_fs w) (app_config_path (wd_app w)) = Inr c
         \<and> app_config (wd_app w1) = c) \<and> wd_fs w1 = wd_fs w
       \<and> app_config_path (wd_app w1) = app_config_path (wd_app w) \<and> in_sync (wd_app w1)
       \<and> app_stats (wd_app w1) = app_stats (wd_app w) \<and> app_users (wd_app w1) = app_users (wd_app w)
       \<and> app_antireplay (wd_app w1) = app_antireplay (wd_app w) \<and> app_limits (wd_app w1) = app_limits (wd_app w)"
  using assms
  by (cases "from_file (al_parse A) (wd_fs w) (app_config_path (wd_app w))")
    (auto simp: reload_config_def app_step_defs in_sync_def pool_from_config_def split: option.splits)

lemma update_cases:
  assumes "app_apply A op w = (r, w1)" and "op \<noteq> Reload"
  obtains
    (Refused) e where "secrets_check op = Inl e" "r = Inl e" "w1 = w"
  | (Unsaved) e fs1 where "r = Inl e"
      "w1 = w\<lparr>wd_app := (wd_app w)\<lparr>app_config := intended A op w\<rparr>, wd_fs := fs1\<rparr>"
      "fs1 = wd_fs w \<or> config_validate (intended A op w) = Inr ()
         \<and> (\<exists>content. al_put A (wd_fs w) (app_config_path (wd_app w)) content = (False, fs1))"
  | (Saved) w2 where "r = Inr ()" "save_config A (w\<lparr>wd_app := (wd_app w)\<lparr>app_config := intended A op w\<rparr>\<rparr>) = (Inr (), w2)"
      "follow_up op w2 = (Inr (), w1)"
proof -
  define v where "v = w\<lparr>wd_app := (wd_app w)\<lparr>app_config := intended A op w\<rparr>\<rparr>"
  obtain q w2 where q: "save_config A v = (q, w2)" by fastforce
  have v: "app_config (wd_app v) = intended A op w" "wd_fs v = wd_fs w" "app_config_path (wd_app v) = app_config_path (wd_app w)"
    by (simp_all add: v_def)
  have fr: "w2 = w\<lparr>wd_app := (wd_app w)\<lparr>app_config := intended A op w\<rparr>, wd_fs := wd_fs w2\<rparr>"
    using save_config_frame [OF q] by (simp add: v_def)
  show thesis
  proof (cases "secrets_check op")
    case (Inl e)
    then show thesis using Refused assms update_shape [OF assms(2), of A w] by simp
  next
    case (Inr u)
    then have ap: "app_apply A op w = and_then (save_config A) (follow_up op) v"
      using update_shape [OF assms(2), of A w] by (simp add: v_def)
    show thesis
    proof (cases q)
      case (Inl e)
      then have r: "r = Inl e" "w1 = w2" using ap q assms(1) by (auto simp: and_then_def)
      have "wd_fs w2 = wd_fs w \<or> config_validate (intended A op w) = Inr ()
         \<and> (\<exists>content. al_put A (wd_fs w) (app_config_path (wd_app w)) content = (False, wd_fs w2))"
        using save_config_error [of A v e w2] q Inl v by simp
      then show thesis using Unsaved [OF r(1)] fr r(2) by blast
    next
      case (Inr u')
      then have f: "follow_up op w2 = (r, w1)" using ap q assms(1) by (auto simp: and_then_def)
      then have "r = Inr ()" using follow_up_props(1) assms(2) by blast
      then show thesis using Saved f q Inr by (simp add: v_def)
    qed
  qed
qed

lemma update_ok:
  assumes "app_lib_laws A" and "app_apply A op w = (Inr (), w1)"
  shows "durable A w1 \<and> app_config (wd_app w1) = intended A op w
    \<and> (rebuilds op \<or> in_sync (wd_app w) \<longrightarrow> in_sync (wd_app w1))
    \<and> app_config_path (wd_app w1) = app_config_path (wd_app w) \<and> app_users (wd_app w1) = app_users (wd_app w)
    \<and> app_stats (wd_app w1) = app_stats (wd_app w) \<and> app_antireplay (wd_app w1) = app_antireplay (wd_app w)
    \<and> app_limits (wd_app w1) = app_limits (wd_app w)"
proof (cases "op = Reload")
  case True
  then show ?thesis using reload_cases [of A w "Inr ()" w1] assms(2) by (auto simp: durable_def dest: from_file_valid)
next
  case False
  from assms(2) False show ?thesis
  proof (cases rule: update_cases)
    case (Saved w2)
    let ?v = "w\<lparr>wd_app := (wd_app w)\<lparr>app_config := intended A op w\<rparr>\<rparr>"
    note f = follow_up_props [OF Saved(3) False]
    have w2: "w2 = ?v\<lparr>wd_fs := wd_fs w2\<rparr>" using save_config_frame [OF Saved(2)] .
    have app2: "wd_app w2 = wd_app ?v" by (subst w2) simp
    have d: "durable A w1" using save_config_ok [OF assms(1) Saved(2)] f(2-4) by (simp add: durable_def)
    have "in_sync (wd_app w1)" if "rebuilds op \<or> in_sync (wd_app w)"
    proof (cases "rebuilds op")
      case True
      then show ?thesis by (rule f(9))
    next
      case nr: False
      then have "in_sync (wd_app w)" using that by simp
      then show ?thesis using f(10) [OF nr] app2 nr
        by (cases op) (auto simp: in_sync_def all_backends_def)
    qed
    then show ?thesis using d f(3-8) app2 by simp
  qed simp_all
qed

section \<open>Runs\<close>

text \<open>A run in which every operation succeeds.\<close>

fun app_run :: "app_lib \<Rightarrow> app_op list \<Rightarrow> world \<Rightarrow> world option" where
  "app_run A [] w = Some w"
| "app_run A (op # ops) w =
     (case app_apply A op w of (Inl _, _) \<Rightarrow> None | (Inr _, w1) \<Rightarrow> app_run A ops w1)"

lemma app_run_keeps:
  assumes "app_lib_laws A" and "app_run A ops w = Some w1" and "durable A w" and "in_sync (wd_app w)"
  shows "durable A w1 \<and> in_sync (wd_app w1)"
  using assms(2-4)
proof (induction ops arbitrary: w)
  case Nil
  then show ?case by simp
next
  case (Cons op ops)
  then obtain w2 where "app_apply A op w = (Inr (), w2)" "app_run A ops w2 = Some w1"
    by (auto split: prod.splits sum.splits)
  then show ?case using Cons update_ok [OF assms(1), of op w w2] by blast
qed

lemma new_state_good:
  assumes "new_state A now salt c path fs = (Inr s, fs1)" and "from_file (al_parse A) fs1 path = Inr c"
  shows "durable A \<lparr>wd_fs = fs1, wd_app = s, wd_now = now, wd_spawned = []\<rparr> \<and> in_sync s"
  using assms by (auto simp: new_state_def durable_def in_sync_def pool_from_config_def split: prod.splits sum.splits
      dest: from_file_valid)

section \<open>Properties\<close>

text \<open>
  C32. Whatever failed before, from a start or from a successful reload on, and through any updates that
  succeed, the configuration in memory is valid, it is what a restart will load, the pool dials exactly
  the configured backends with the configured strategy, and the rotation draws from the configured pools.
\<close>

theorem configuration_stays_consistent:
  assumes "app_lib_laws A"
    and "(\<exists>now salt c path fs. new_state A now salt c path fs = (Inr (wd_app w), wd_fs w)
             \<and> from_file (al_parse A) (wd_fs w) path = Inr c)
         \<or> (\<exists>w0. app_apply A Reload w0 = (Inr (), w))"
    and "app_run A ops w = Some w1"
  shows "config_validate (app_config (wd_app w1)) = Inr ()
    \<and> from_file (al_parse A) (wd_fs w1) (app_config_path (wd_app w1)) = Inr (app_config (wd_app w1))
    \<and> bp_backends (app_pool (wd_app w1)) = all_backends (mtproto (app_config (wd_app w1)))
    \<and> bp_strategy (app_pool (wd_app w1)) = failover_strategy (mtproto (app_config (wd_app w1)))
    \<and> (\<exists>t. app_rotation (wd_app w1) = rotation_from_tls t (tls (app_config (wd_app w1))))"
proof -
  have "durable A w \<and> in_sync (wd_app w)"
    using assms(2)
  proof
    assume "\<exists>now salt c path fs. new_state A now salt c path fs = (Inr (wd_app w), wd_fs w)
             \<and> from_file (al_parse A) (wd_fs w) path = Inr c"
    then show ?thesis using new_state_good by (fastforce simp: durable_def)
  next
    assume "\<exists>w0. app_apply A Reload w0 = (Inr (), w)"
    then show ?thesis using update_ok [OF assms(1), of Reload] by auto
  qed
  then show ?thesis using app_run_keeps [OF assms(1,3)] by (simp add: durable_def in_sync_def)
qed

text \<open>
  What a successful operation does: the configuration becomes exactly the one asked for, it is validated
  and on disk, and the users, the counters, the replay window and the connection limits are untouched. A
  change of backends or domains rebuilds the pool and the rotation.
\<close>

theorem update_takes_effect:
  assumes "app_lib_laws A" and "app_apply A op w = (Inr (), w1)"
  shows "app_config (wd_app w1) = intended A op w
    \<and> config_validate (intended A op w) = Inr ()
    \<and> from_file (al_parse A) (wd_fs w1) (app_config_path (wd_app w)) = Inr (intended A op w)
    \<and> (rebuilds op \<or> in_sync (wd_app w) \<longrightarrow> in_sync (wd_app w1))
    \<and> app_users (wd_app w1) = app_users (wd_app w) \<and> app_stats (wd_app w1) = app_stats (wd_app w)
    \<and> app_antireplay (wd_app w1) = app_antireplay (wd_app w) \<and> app_limits (wd_app w1) = app_limits (wd_app w)"
  using update_ok [OF assms] by (auto simp: durable_def)

text \<open>
  C33. What a failed operation leaves: a failed reload and an update whose secret is malformed change nothing.
  Any other failure keeps the pool, the rotation and the notifications, but the configuration in
  memory is already the new one; the file is the old one unless the write itself failed.
\<close>

theorem failed_update_leaves:
  assumes "app_apply A op w = (Inl e, w1)"
  shows "(op = Reload \<or> (\<exists>e'. secrets_check op = Inl e') \<longrightarrow> w1 = w)
    \<and> (op \<noteq> Reload \<and> secrets_check op = Inr () \<longrightarrow> app_config (wd_app w1) = intended A op w)
    \<and> app_pool (wd_app w1) = app_pool (wd_app w) \<and> app_rotation (wd_app w1) = app_rotation (wd_app w)
    \<and> app_users (wd_app w1) = app_users (wd_app w) \<and> wd_spawned w1 = wd_spawned w
    \<and> (wd_fs w1 = wd_fs w \<or> config_validate (intended A op w) = Inr ()
         \<and> (\<exists>content. al_put A (wd_fs w) (app_config_path (wd_app w)) content = (False, wd_fs w1)))"
proof (cases "op = Reload")
  case True
  then show ?thesis using reload_cases [of A w "Inl e" w1] assms by auto
next
  case False
  from assms False show ?thesis
  proof (cases rule: update_cases)
    case (Unsaved e' fs1)
    have "secrets_check op = Inr () \<or> w1 = w"
      using update_shape [OF False, of A w] assms by (cases "secrets_check op") auto
    then show ?thesis using Unsaved(2,3) False by auto
  qed (use False in auto)
qed

text \<open>
  C35. The published link is \<^verbatim>\<open>tg://proxy?server=..&port=..&secret=..\<close> with the address and port of the
  listener, and the secret in it has the mode and the key of the configured secret; for a valid configuration it exists.
\<close>

theorem proxy_link_names_the_secret:
  assumes "hex_laws hx" and "is_rust_str (fake_domain (tls (app_config s)))"
    and "config_validate (app_config s) = Inr ()"
  shows "\<exists>t. proxy_link hx s = Inr (''tg://proxy?server='' @ listen_host (listen (app_config s)) @ ''&port=''
        @ dec_string (unat (listen_port (listen (app_config s)))) @ ''&secret='' @ t)
     \<and> decode_secret hx t = decode_secret hx (mt_secret (mtproto (app_config s)))
     \<and> secret_mode t = secret_mode (mt_secret (mtproto (app_config s)))"
proof -
  let ?c = "app_config s"
  let ?s = "mt_secret (mtproto ?c)" and ?d = "fake_domain (tls ?c)"
  obtain core where core: "secret_core_hex ?s = Inr core"
    using config_validate_D(1) [OF assms(3)] unfolding validate_secret_iff secret_core_hex_Inr_iff by blast
  have "length (to_ascii_lowercase (trim core)) = 32 \<and> list_all is_ascii_hexdigit (to_ascii_lowercase (trim core))"
    using secret_core_hex_props [OF core] normalize_lower_hex [of core]
    by (auto simp: normalize_secret_def list_all_iff lower_hexdigit_hexdigit)
  moreover have "trim ?d \<noteq> []"
    using config_validate_D(9) [OF assms(3)] by (auto simp: tls_validate_def split: if_splits)
  ultimately have "\<exists>t. format_ee_secret hx core ?d = Inr t" by (simp add: format_ee_secret_def Let_def)
  then have "\<exists>t. telegram_proxy_secret hx ?s ?d = Inr t"
    unfolding telegram_proxy_secret_def using core by simp
  then obtain t where t: "telegram_proxy_secret hx ?s ?d = Inr t" by blast
  then show ?thesis
    using telegram_link_keeps_key [OF assms(1,2) t] by (simp add: proxy_link_def Let_def)
qed

section \<open>Witnesses\<close>

text \<open>One configuration file, a second one with another backend, and a library that knows both.\<close>

definition toy_config :: config where
  "toy_config = test_minimal ''u.json''"

definition toy_config2 :: config where
  "toy_config2 = toy_config\<lparr>mtproto := (mtproto toy_config)\<lparr>mt_backend := ''10.0.0.2:443''\<rparr>\<rparr>"

definition toy_app_lib :: app_lib where
  "toy_app_lib = \<lparr>al_users = toy_user_lib,
     al_parse = \<lambda>s. if s = ''1'' then Some toy_config else if s = ''2'' then Some toy_config2 else None,
     al_print = \<lambda>c. if c = toy_config then Some ''1'' else if c = toy_config2 then Some ''2'' else None,
     al_put = \<lambda>fs p c. (True, fs(p \<mapsto> c)), al_hex = base16\<rparr>"

definition toy_world :: "config \<Rightarrow> world" where
  "toy_world c = \<lparr>wd_fs = [''c'' \<mapsto> ''1''],
     wd_app = \<lparr>app_config = c, app_config_path = ''c'', app_stats = stats_default,
       app_users = \<lparr>st_path = ''u.json'', st_users = [root_user]\<rparr>, app_antireplay = new_cache 4, app_limits = limiter_new,
       app_pool = pool_from_config (mtproto toy_config), app_rotation = rotation_from_tls 0 (tls toy_config)\<rparr>,
     wd_now = 0, wd_spawned = []\<rparr>"

lemma toy_app_laws: "app_lib_laws toy_app_lib"
  by (auto simp: app_lib_laws_def toml_law_def fs_write_law_def toy_app_lib_def split: if_splits)

lemma toy_config_valid: "config_validate toy_config = Inr ()"
  by (simp add: toy_config_def test_minimal_valid)

lemma toy_config2_ne: "toy_config2 \<noteq> toy_config" "toy_config \<noteq> toy_config2"
proof -
  have "mt_backend (mtproto toy_config2) \<noteq> mt_backend (mtproto toy_config)"
    by (simp add: toy_config2_def toy_config_def test_minimal_def)
  then show "toy_config2 \<noteq> toy_config" "toy_config \<noteq> toy_config2" by auto
qed

lemma toy_config2_valid: "config_validate toy_config2 = Inr ()"
proof -
  have m: "mt_secret (mtproto toy_config2) = mt_secret (mtproto toy_config)" "mt_secrets (mtproto toy_config2) = mt_secrets (mtproto toy_config)"
    "fallback toy_config2 = fallback toy_config" "fragmentation toy_config2 = fragmentation toy_config"
    "security toy_config2 = security toy_config" "dd toy_config2 = dd toy_config" "drs toy_config2 = drs toy_config"
    "split toy_config2 = split toy_config" "tls toy_config2 = tls toy_config" "network toy_config2 = network toy_config"
    by (simp_all add: toy_config2_def)
  have r: "(\<forall>r \<in> set (all_secrets (mtproto toy_config2)). P (sr_secret r)) = (\<forall>r \<in> set (all_secrets (mtproto toy_config)). P (sr_secret r))" for P
    by (simp add: all_secrets_def m toy_config_def test_minimal_def)
  note r' = r [of "\<lambda>s. is_protocol_allowed s (allowed_protocols (security toy_config))"]
  show ?thesis using toy_config_valid all_backends_props(3)
    by (simp add: config_validate_def m r')
qed

lemma toy_update:
  "app_apply toy_app_lib (Mtproto (mtproto toy_config2)) (toy_world toy_config)
     = (Inr (), (toy_world toy_config)\<lparr>wd_fs := [''c'' \<mapsto> ''2''],
          wd_app := (wd_app (toy_world toy_config))\<lparr>app_config := toy_config2, app_pool := pool_from_config (mtproto toy_config2)\<rparr>\<rparr>)"
proof -
  have v: "validate_secret (mt_secret (mtproto toy_config2)) = Inr ()" "mt_secrets (mtproto toy_config2) = []"
    using config_validate_D(1) [OF toy_config2_valid] by (simp_all add: toy_config2_def toy_config_def test_minimal_def)
  have c: "toy_config\<lparr>mtproto := mtproto toy_config2\<rparr> = toy_config2" "tls toy_config2 = tls toy_config"
    by (simp_all add: toy_config2_def)
  show ?thesis
    by (simp add: update_mtproto_def app_step_defs v save_config_def save_to_file_def toy_world_def c toy_config2_valid
        toy_app_lib_def toy_config2_ne)
qed

lemma update_takes_effect_witness:
  "app_config (wd_app (snd (app_apply toy_app_lib (Mtproto (mtproto toy_config2)) (toy_world toy_config)))) = toy_config2"
  using update_takes_effect [OF toy_app_laws toy_update] toy_update
  by simp

lemma configuration_stays_consistent_witness:
  "\<exists>w w1. app_apply toy_app_lib Reload (toy_world toy_config2) = (Inr (), w)
     \<and> app_run toy_app_lib [Mtproto (mtproto toy_config2)] w = Some w1
     \<and> bp_backends (app_pool (wd_app w1)) = [''10.0.0.2:443'']"
proof -
  have r: "app_apply toy_app_lib Reload (toy_world toy_config2) = (Inr (), toy_world toy_config)"
  proof -
    let ?w = "toy_world toy_config2"
    have f: "from_file (al_parse toy_app_lib) (wd_fs ?w) (app_config_path (wd_app ?w)) = Inr toy_config"
      by (simp add: from_file_def toy_world_def toy_app_lib_def toy_config_valid)
    have d: "dispatch (webhooks toy_config) ConfigReloaded None t = None" for t
      by (simp add: dispatch_def toy_config_def test_minimal_def webhooks_default_def)
    show ?thesis unfolding app_apply.simps reload_config_def f
      by (simp add: app_step_defs d) (simp add: toy_world_def)
  qed
  define w1 where "w1 = snd (app_apply toy_app_lib (Mtproto (mtproto toy_config2)) (toy_world toy_config))"
  have a: "app_run toy_app_lib [Mtproto (mtproto toy_config2)] (toy_world toy_config) = Some w1"
    using toy_update by (simp add: w1_def)
  have "app_config (wd_app w1) = toy_config2" unfolding w1_def toy_update by simp
  moreover have "all_backends (mtproto toy_config2) = [''10.0.0.2:443'']"
    by (simp add: all_backends_def toy_config2_def toy_config_def test_minimal_def)
  ultimately have "bp_backends (app_pool (wd_app w1)) = [''10.0.0.2:443'']"
    using configuration_stays_consistent [OF toy_app_laws _ a] r by (metis (no_types, lifting))
  then show ?thesis using r a by blast
qed

lemma empty_domain_refused:
  "app_apply toy_app_lib (ProxySettings (mt_secret (mtproto toy_config)) ''10.0.0.2:443'' []) (toy_world toy_config)
     = (Inl (Config ''tls.fake_domain must not be empty''), (toy_world toy_config)\<lparr>wd_app := (wd_app (toy_world toy_config))
          \<lparr>app_config := intended toy_app_lib (ProxySettings (mt_secret (mtproto toy_config)) ''10.0.0.2:443'' []) (toy_world toy_config)\<rparr>\<rparr>)"
proof -
  let ?c = "intended toy_app_lib (ProxySettings (mt_secret (mtproto toy_config)) ''10.0.0.2:443'' []) (toy_world toy_config)"
  have t: "trim [] = []" using length_trim_le [of "[]"] by simp
  have v: "validate_secret (mt_secret (mtproto toy_config)) = Inr ()"
    using config_validate_D(1) [OF toy_config_valid] .
  have c: "?c = toy_config\<lparr>mtproto := (mtproto toy_config)\<lparr>mt_backend := ''10.0.0.2:443''\<rparr>, tls := (tls toy_config)\<lparr>fake_domain := []\<rparr>\<rparr>"
    by (simp add: toy_world_def)
  have "config_validate ?c = Inl (Config ''tls.fake_domain must not be empty'')"
    unfolding c config_validate_def using v
    by (simp add: toy_config_def test_minimal_def t all_backends_def all_secrets_def is_protocol_allowed_def
        security_default_def fragmentation_default_def drs_default_def default_drs_sizes_def dd_default_def
        split_default_def network_default_def split_validate_def tls_validate_def guard_that_def)
  then show ?thesis
    by (simp add: update_shape v and_then_def save_config_def save_to_file_def del: app_apply.simps intended.simps)
qed

lemma failed_update_leaves_witness:
  "app_config (wd_app (snd (app_apply toy_app_lib (ProxySettings (mt_secret (mtproto toy_config)) ''10.0.0.2:443'' []) (toy_world toy_config))))
     = toy_config\<lparr>mtproto := (mtproto toy_config)\<lparr>mt_backend := ''10.0.0.2:443''\<rparr>, tls := (tls toy_config)\<lparr>fake_domain := []\<rparr>\<rparr>"
proof -
  let ?op = "ProxySettings (mt_secret (mtproto toy_config)) ''10.0.0.2:443'' []"
  have "?op \<noteq> Reload \<and> secrets_check ?op = Inr () \<longrightarrow>
      app_config (wd_app (snd (app_apply toy_app_lib ?op (toy_world toy_config)))) = intended toy_app_lib ?op (toy_world toy_config)"
    using failed_update_leaves [OF empty_domain_refused] unfolding empty_domain_refused snd_conv by (elim conjE)
  then show ?thesis using config_validate_D(1) [OF toy_config_valid] by (simp add: toy_world_def del: app_apply.simps)
qed

lemma proxy_link_names_the_secret_witness:
  "\<exists>t. proxy_link base16 (wd_app (toy_world toy_config)) = Inr (''tg://proxy?server=127.0.0.1&port=8443&secret='' @ t)
     \<and> decode_secret base16 t = decode_secret base16 ''0123456789abcdef0123456789abcdef''"
proof -
  define s where "s = wd_app (toy_world toy_config)"
  have u: "is_rust_str ''example.com''" by code_simp
  have d: "dec_string 8443 = ''8443''" by (simp add: dec_string.simps) code_simp
  have c: "app_config s = test_minimal ''u.json''" by (simp add: s_def toy_world_def toy_config_def)
  have f: "fake_domain (tls (app_config s)) = ''example.com''" "listen_host (listen (app_config s)) = ''127.0.0.1''"
    "unat (listen_port (listen (app_config s))) = 8443"
    "mt_secret (mtproto (app_config s)) = ''0123456789abcdef0123456789abcdef''"
    by (simp_all add: c test_minimal_def)
  have v: "config_validate (app_config s) = Inr ()" unfolding c by (rule test_minimal_valid)
  obtain t where "proxy_link base16 s = Inr (''tg://proxy?server='' @ ''127.0.0.1'' @ ''&port='' @ ''8443'' @ ''&secret='' @ t)"
    "decode_secret base16 t = decode_secret base16 ''0123456789abcdef0123456789abcdef''"
    using proxy_link_names_the_secret [OF hex_laws_base16, of s] u v unfolding f d by blast
  then show ?thesis unfolding s_def [symmetric] by simp
qed

section \<open>What the operations do not prevent\<close>

text \<open>
  An update that is refused has already changed the running configuration: with an empty domain the
  request fails, but connections are served with that domain, and the pool still has the old backends.
\<close>

lemma refused_update_is_served:
  "fake_domain (tls (app_config (wd_app (snd (app_apply toy_app_lib
     (ProxySettings (mt_secret (mtproto toy_config)) ''10.0.0.2:443'' []) (toy_world toy_config)))))) = []"
  "\<not> in_sync (wd_app (snd (app_apply toy_app_lib
     (ProxySettings (mt_secret (mtproto toy_config)) ''10.0.0.2:443'' []) (toy_world toy_config))))"
  unfolding empty_domain_refused
  by (simp_all add: toy_world_def in_sync_def pool_from_config_def toy_config_def test_minimal_def all_backends_def)

text \<open>The addresses after one that cannot be reached are never notified.\<close>

lemma webhooks_stop_at_failure:
  assumes "post url body = Inl e"
  shows "post_all post body (url # urls) = ([url], Inl (''POST '' @ url @ '': '' @ e))"
  using assms by simp

lemma post_all_prefix: "post_all post body urls = (sent, r) \<Longrightarrow>
    prefix sent urls \<and> (r = Inr () \<longrightarrow> sent = urls)
    \<and> (\<forall>e. r = Inl e \<longrightarrow> sent \<noteq> [] \<and> (\<exists>e'. post (last sent) body = Inl e'))"
proof (induction urls arbitrary: sent)
  case Nil
  then show ?case by auto
next
  case (Cons url urls)
  show ?case
  proof (cases "post url body")
    case (Inl e)
    then show ?thesis using Cons.prems by auto
  next
    case (Inr st)
    obtain sent1 r1 where "post_all post body urls = (sent1, r1)" by fastforce
    then show ?thesis using Cons.IH [of sent1] Cons.prems Inr by (auto split: if_splits)
  qed
qed

end
