(* ===== verification/Proxy_Session.thy ===== *)
theory Proxy_Session
  imports App_State Shaping Socks_Network Relay Traffic_Detector Fake_Tls_Stream
begin

text \<open>
  The MTProto session of \<^verbatim>\<open>src/proxy.rs\<close>: dial a data centre through the pool, send it what was peeked
  from the client, and relay; for ee secrets first answer the ClientHello, then relay between fake TLS with
  the client's obfuscated2 inside and the proxy's own obfuscated2 to the data centre. A session is a task
  on its two sockets and the shared counters, pool and clock. The configuration is read at the start; a
  reload while the session runs is not modelled. What comes from outside (dialling, random draws, the
  order in which the two directions are polled) is the parameter \<open>proxy_env\<close>; \<open>pe_fuel\<close> bounds the
  polls of one operation.
\<close>

section \<open>Sessions\<close>

record session =
  ss_client :: wire
  ss_upstream :: wire
  ss_stats :: stats
  ss_pool :: backend_pool
  ss_now :: nat
  ss_spawned :: "(string list \<times> webhook_payload) list"

record proxy_env =
  pe_crypto :: crypto_env
  pe_net :: net_env
  pe_fuel :: nat
  pe_elapsed :: "string \<Rightarrow> nat \<Rightarrow> nat"
  pe_unix :: u64
  pe_hello_rng :: hello_rng
  pe_pad :: pad_rng
  pe_draws :: "bytes list"
  pe_jitter :: "nat \<Rightarrow> u64"
  pe_dd :: "nat \<Rightarrow> nat \<Rightarrow> nat \<Rightarrow> nat"
  pe_schedule :: "bool list"

definition on_client :: "(wire, 'a) task \<Rightarrow> (session, 'a) task" where
  "on_client t s = (case t (ss_client s) of (r, w) \<Rightarrow> (r, s\<lparr>ss_client := w\<rparr>))"

definition on_upstream :: "(wire, 'a) task \<Rightarrow> (session, 'a) task" where
  "on_upstream t s = (case t (ss_upstream s) of (r, w) \<Rightarrow> (r, s\<lparr>ss_upstream := w\<rparr>))"

text \<open>\<^verbatim>\<open>fetch_add\<close> on the counters.\<close>

definition count :: "(stats \<Rightarrow> stats) \<Rightarrow> (session, unit) task" where
  "count f s = (Some (Inr ()), s\<lparr>ss_stats := f (ss_stats s)\<rparr>)"

definition to_backend :: "nat \<Rightarrow> stats \<Rightarrow> stats" where
  "to_backend n st = st\<lparr>bytes_to_backend := bytes_to_backend st + of_nat n\<rparr>"

definition from_backend :: "nat \<Rightarrow> stats \<Rightarrow> stats" where
  "from_backend n st = st\<lparr>bytes_from_backend := bytes_from_backend st + of_nat n\<rparr>"

definition spawn :: "(string list \<times> webhook_payload) option \<Rightarrow> (session, unit) task" where
  "spawn job s = (Some (Inr ()), case job of None \<Rightarrow> s | Some j \<Rightarrow> s\<lparr>ss_spawned := ss_spawned s @ [j]\<rparr>)"

text \<open>
  The writers of \<^verbatim>\<open>Shaping\<close> on a socket: \<^verbatim>\<open>write_all\<close> with the fuel of an operation. The flag says
  that a write is still waiting; nothing is written after it.
\<close>

definition wire_writer :: "nat \<Rightarrow> (bool \<times> wire) writer" where
  "wire_writer fuel = (\<lambda>(stuck, w) bs.
     if stuck then (Inl OtherIo, (True, w))
     else (case write_all fuel wire_write bs w of
             (None, w1) \<Rightarrow> (Inl OtherIo, (True, w1))
           | (Some r, w1) \<Rightarrow> (r, (False, w1))))"

definition wire_flusher :: "bool \<times> wire \<Rightarrow> (io_kind + unit) \<times> (bool \<times> wire)" where
  "wire_flusher w = (if fst w then (Inl OtherIo, w) else (Inr (), w))"

text \<open>Running such a routine on a socket: \<^term>\<open>None\<close> if a write is still waiting.\<close>

definition unless_stuck :: "'a result \<times> (bool \<times> wire) \<Rightarrow> 'a result option \<times> wire" where
  "unless_stuck x = (case x of (r, (stuck, w)) \<Rightarrow> (if stuck then None else Some r, w))"

section \<open>Dialling\<close>

text \<open>\<^verbatim>\<open>connect_backend\<close> as the pool calls it; \<^term>\<open>Inr None\<close> is a dial that is still waiting.\<close>

definition pool_dial :: "proxy_env \<Rightarrow> network_config \<Rightarrow> string \<Rightarrow> nat \<Rightarrow> nat \<times> wire option result" where
  "pool_dial env net backend now =
     (pe_elapsed env backend now,
      case connect_backend (pe_net env) (pe_fuel env) backend net of
        None \<Rightarrow> Inr None
      | Some (Inl e) \<Rightarrow> Inl e
      | Some (Inr w) \<Rightarrow> Inr (Some w))"

text \<open>\<^verbatim>\<open>pool.connect(network, Some(preferred), stats)\<close>: the backend it connected to.\<close>

definition connect_pool :: "proxy_env \<Rightarrow> network_config \<Rightarrow> string \<Rightarrow> (session, string) task" where
  "connect_pool env net preferred s =
     (case pool_connect (pool_dial env net) (Some preferred) (ss_now s) (ss_pool s) (ss_stats s) of
        (r, now1, pool1, st1) \<Rightarrow>
          let s1 = s\<lparr>ss_now := now1, ss_pool := pool1, ss_stats := st1\<rparr> in
          (case r of
             Inl e \<Rightarrow> (Some (Inl e), s1)
           | Inr (None, _) \<Rightarrow> (None, s1)
           | Inr (Some w, backend) \<Rightarrow> (Some (Inr backend), s1\<lparr>ss_upstream := w\<rparr>)))"

record proxy_options =
  po_preferred :: string
  po_mode :: secret_kind
  po_fragmentation :: fragmentation_config
  po_drs :: drs_config
  po_dd :: dd_config
  po_network :: network_config
  po_webhooks :: webhooks_config

definition failover_notice :: "webhooks_config \<Rightarrow> string \<Rightarrow> string \<Rightarrow> (session, unit) task" where
  "failover_notice wh preferred connected s =
     (if connected = preferred then (Some (Inr ()), s)
      else spawn (dispatch wh BackendFailover (Some [(''preferred'', preferred), (''connected'', connected)]) (ss_now s)) s)"

definition resolve_secret_bytes :: "hex_lib \<Rightarrow> mtproto_config \<Rightarrow> string option \<Rightarrow> bytes result" where
  "resolve_secret_bytes hx m label =
     (let routes = all_secrets m;
          first = (case routes of [] \<Rightarrow> None | r # _ \<Rightarrow> Some r)
      in bindR (ok_or (Config ''no MTProto secret'')
                 (case Option.bind label (\<lambda>name. find (\<lambda>r. sr_label r = name) routes) of
                    Some r \<Rightarrow> Some r | None \<Rightarrow> first))
           (\<lambda>route. decode_secret hx (sr_secret route)))"

section \<open>The session of a classic or dd secret\<close>

text \<open>The three ways of writing the first packet.\<close>

definition initial_write ::
    "proxy_env \<Rightarrow> bytes \<Rightarrow> secret_kind \<Rightarrow> fragmentation_config \<Rightarrow> drs_config \<Rightarrow> dd_config \<Rightarrow> stats \<Rightarrow> bool \<times> wire
     \<Rightarrow> (unit result \<times> (bool \<times> wire) \<times> stats) option" where
  "initial_write env data mode fr dr ddc st up =
     (if mode = Dd then write_dd_randomized (wire_writer (pe_fuel env)) (pe_dd env) data ddc st up
      else Some (if drs_enabled dr then write_with_drs (wire_writer (pe_fuel env)) (\<lambda>_ w. w) (pe_jitter env) data dr st up
                 else write_to_backend (wire_writer (pe_fuel env)) (\<lambda>_ w. w) data fr st up))"

definition write_initial_to_backend ::
    "proxy_env \<Rightarrow> bytes \<Rightarrow> secret_kind \<Rightarrow> fragmentation_config \<Rightarrow> drs_config \<Rightarrow> dd_config \<Rightarrow> (session, unit) task" where
  "write_initial_to_backend env data mode fr dr ddc s =
     (case initial_write env data mode fr dr ddc (ss_stats s) (False, ss_upstream s) of
        None \<Rightarrow> (None, s)
      | Some (r, up1, st1) \<Rightarrow>
          (case unless_stuck (r, up1) of (r1, w1) \<Rightarrow> (r1, s\<lparr>ss_upstream := w1, ss_stats := st1\<rparr>)))"

definition relay_sockets :: "proxy_env \<Rightarrow> (session, nat \<times> nat) task" where
  "relay_sockets env s =
     (case copy_bidirectional_graceful tcp tcp (pe_schedule env) (ss_client s) (ss_upstream s) of
        (r, l, u) \<Rightarrow> (r, s\<lparr>ss_client := l, ss_upstream := u\<rparr>))"

definition proxy_mtproto_plain :: "proxy_env \<Rightarrow> proxy_options \<Rightarrow> bytes \<Rightarrow> (session, unit) task" where
  "proxy_mtproto_plain env opts initial =
     bindT (connect_pool env (po_network opts) (po_preferred opts)) (\<lambda>connected.
     bindT (failover_notice (po_webhooks opts) (po_preferred opts) connected) (\<lambda>_.
     bindT (write_initial_to_backend env initial (po_mode opts) (po_fragmentation opts) (po_drs opts) (po_dd opts)) (\<lambda>_.
     bindT (count (to_backend (length initial))) (\<lambda>_.
     bindT (relay_sockets env) (\<lambda>(up, down).
     bindT (count (to_backend up)) (\<lambda>_.
     count (from_backend down)))))))"

section \<open>The session of an ee secret\<close>

text \<open>The two ends: the client's obfuscated2 inside a stream, and the proxy's on the socket.\<close>

definition obf_end :: "keystream \<Rightarrow> 's end_point \<Rightarrow> 's obf_stream end_point" where
  "obf_end ks e = \<lparr>ep_read = obf_poll_read ks (ep_read e), ep_write = obf_poll_write ks (ep_write e),
     ep_flush = obf_poll_flush ks (ep_write e) (ep_flush e)\<rparr>"

definition ft_flush :: "fake_tls poll_flush_fun" where
  "ft_flush s = (Ready (Inr ()), s)"

definition fake_tls_end :: "pad_rng \<Rightarrow> fake_tls end_point" where
  "fake_tls_end rng = \<lparr>ep_read = poll_read, ep_write = poll_write rng, ep_flush = ft_flush\<rparr>"

text \<open>\<^verbatim>\<open>FakeTlsStream::with_write_options(client, ..)\<close> takes over the socket.\<close>

definition fake_tls_over :: "wire \<Rightarrow> write_options option \<Rightarrow> fake_tls" where
  "fake_tls_over w opts = (fake_tls_new (wi_in w) (wi_out w) opts)\<lparr>ft_sent := wi_sent w\<rparr>"

definition wire_below :: "fake_tls \<Rightarrow> wire" where
  "wire_below t = \<lparr>wi_in = ft_in t, wi_out = ft_out t, wi_sent = ft_sent t\<rparr>"

text \<open>
  \<^verbatim>\<open>relay_ee_streams\<close>, for any client stream. What is left of the two streams is returned as well; when the
  handshake does not come or does not fit, the client stream is dropped with what it has read.
\<close>

definition relay_ee_streams ::
    "proxy_env \<Rightarrow> 'c end_point \<Rightarrow> bytes \<Rightarrow> string \<Rightarrow> 'c \<Rightarrow> wire \<Rightarrow> (nat \<times> nat) result option \<times> 'c option \<times> wire" where
  "relay_ee_streams env C secret preferred client_io upstream =
     (let ks = ce_ks (pe_crypto env) in
      case accept_handshake (ce_sha (pe_crypto env)) ks (pe_fuel env) (ep_read C) client_io secret of
        None \<Rightarrow> (None, None, upstream)
      | Some (Inl e) \<Rightarrow> (Some (Inl e), None, upstream)
      | Some (Inr accepted) \<Rightarrow>
          let dc_id = (if ac_dc_id accepted \<noteq> 0 then ac_dc_id accepted else dc_id_from_backend preferred);
              inner = ob_inner (ac_stream accepted) in
          (case generate_relay_init ks (pe_draws env) dc_id (ac_proto_tag accepted) of
             None \<Rightarrow> (None, Some inner, upstream)
           | Some (Inl e) \<Rightarrow> (Some (Inl e), Some inner, upstream)
           | Some (Inr (header, keys)) \<Rightarrow>
               (case proxy_err ''ee relay header to DC'' (write_all (pe_fuel env) wire_write header) upstream of
                  (None, u1) \<Rightarrow> (None, Some inner, u1)
                | (Some (Inl e), u1) \<Rightarrow> (Some (Inl e), Some inner, u1)
                | (Some (Inr _), u1) \<Rightarrow>
                    (case copy_bidirectional_graceful (obf_end ks C) (obf_end ks tcp) (pe_schedule env)
                            (ac_stream accepted) (from_relay_keys u1 keys) of
                       (r, l, d) \<Rightarrow> (r, Some (ob_inner l), ob_inner d)))))"

definition relay_ee :: "proxy_env \<Rightarrow> bytes \<Rightarrow> string \<Rightarrow> drs_config \<Rightarrow> (session, nat \<times> nat) task" where
  "relay_ee env secret preferred dr s =
     (case relay_ee_streams env (fake_tls_end (pe_pad env)) secret preferred
             (fake_tls_over (ss_client s) (write_options_from_drs dr)) (ss_upstream s) of
        (r, c, u) \<Rightarrow> (r, s\<lparr>ss_client := (case c of Some t \<Rightarrow> wire_below t | None \<Rightarrow> ss_client s), ss_upstream := u\<rparr>))"

definition answer_client_hello :: "proxy_env \<Rightarrow> parsed_client_hello \<Rightarrow> bytes \<Rightarrow> (wire, unit) task" where
  "answer_client_hello env ch secret w =
     unless_stuck (send_server_hello (wire_writer (pe_fuel env)) wire_flusher (ce_hmac (pe_crypto env))
       (pe_hello_rng env) ch secret (False, w))"

definition proxy_mtproto_ee :: "proxy_env \<Rightarrow> mtproto_config \<Rightarrow> proxy_options \<Rightarrow> bytes \<Rightarrow> (session, unit) task" where
  "proxy_mtproto_ee env m opts initial =
     bindT (liftT (resolve_secret_bytes (ce_hex (pe_crypto env)) m None)) (\<lambda>secret.
     bindT (liftT (parse_client_hello_record initial)) (\<lambda>ch.
     bindT (liftT (validate_client_hello (ce_hmac (pe_crypto env)) (pe_unix env) ch secret)) (\<lambda>_.
     bindT (on_client (answer_client_hello env ch secret)) (\<lambda>_.
     bindT (connect_pool env (po_network opts) (po_preferred opts)) (\<lambda>connected.
     bindT (failover_notice (po_webhooks opts) (po_preferred opts) connected) (\<lambda>_.
     bindT (relay_ee env secret (po_preferred opts) (po_drs opts)) (\<lambda>(up, down).
     bindT (count (to_backend (up + length initial))) (\<lambda>_.
     count (from_backend down)))))))))"

definition proxy_mtproto :: "proxy_env \<Rightarrow> mtproto_config \<Rightarrow> proxy_options \<Rightarrow> bytes \<Rightarrow> (session, unit) task" where
  "proxy_mtproto env m opts initial =
     (if po_mode opts = Ee then proxy_mtproto_ee env m opts initial else proxy_mtproto_plain env opts initial)"

section \<open>The writers on a socket\<close>

lemma write_all_in: "write_all fuel wire_write bs w = (r, w1) \<Longrightarrow> wi_in w1 = wi_in w"
proof (induction fuel arbitrary: bs w)
  case (Suc fuel)
  obtain p w2 where p: "wire_write bs w = (p, w2)" by fastforce
  consider "p = Pending" | k where "p = Ready (Inl k)" | n where "p = Ready (Inr n)"
    by (cases p) (auto, metis sum.exhaust)
  then show ?case
    using Suc.prems wire_write_in [OF p] Suc.IH [of _ w2] by cases (auto simp: p split: if_splits)
qed simp

lemma wire_writer_appends: "appending (wire_writer fuel) (\<lambda>x. wi_sent (snd x))"
proof (unfold appending_def, intro allI)
  fix x :: "bool \<times> wire" and bs
  obtain stuck w where x: "x = (stuck, w)" by fastforce
  show "case wire_writer fuel x bs of (Inl _, w') \<Rightarrow> \<exists>k. wi_sent (snd w') = wi_sent (snd x) @ take k bs
      | (Inr _, w') \<Rightarrow> wi_sent (snd w') = wi_sent (snd x) @ bs"
  proof (cases stuck)
    case True
    then show ?thesis by (auto simp: wire_writer_def x intro: exI [of _ 0])
  next
    case False
    obtain r w1 where r: "write_all fuel wire_write bs w = (r, w1)" by fastforce
    obtain sent left where s: "bs = sent @ left" "wi_sent w1 = wi_sent w @ sent" "r = Some (Inr ()) \<longrightarrow> left = []"
      using wire_sink.write_all_accepts [OF _ r, of "wi_sent w"] by (auto simp: took_wire_def)
    have k: "\<exists>k. wi_sent w1 = wi_sent w @ take k bs" using s(1,2) by (intro exI [of _ "length sent"]) simp
    have ok: "r = Some (Inr ()) \<longrightarrow> wi_sent w1 = wi_sent w @ bs" using s by simp
    show ?thesis
    proof (cases r)
      case None
      then show ?thesis using False k by (simp add: wire_writer_def x r)
    next
      case (Some v)
      then show ?thesis using False k ok by (cases v) (simp_all add: wire_writer_def x r)
    qed
  qed
qed

text \<open>What the routines keep of the socket they write to.\<close>

lemma write_loop_keeps:
  assumes "\<And>x bs. P x \<Longrightarrow> P (snd (wr x bs))" and "\<And>k x. P x \<Longrightarrow> P (pause k x)"
  shows "P x \<Longrightarrow> P (fst (snd (write_loop wr pause sizes data offset i sent x)))"
proof (induction "length data - offset" arbitrary: offset i sent x rule: less_induct)
  case less
  show ?case
  proof (cases "offset < length data")
    case True
    let ?e = "chunk_end sizes data offset i"
    obtain r x1 where r: "wr x (slice data offset (?e - offset)) = (r, x1)" by fastforce
    then have p: "P x1" using assms(1) [OF less.prems] by (metis snd_conv)
    have "length data - ?e < length data - offset" using chunk_end_bounds [OF True, of sizes i] True by linarith
    from less.hyps [OF this] p assms(2) show ?thesis
      using True r by (cases r) (simp_all add: write_loop.simps [of _ _ _ _ offset] Let_def)
  qed (use less.prems in \<open>simp add: write_loop.simps\<close>)
qed

lemma write_ranges_keeps:
  assumes "\<And>x bs. P x \<Longrightarrow> P (snd (wr x bs))"
  shows "P x \<Longrightarrow> P (fst (snd (write_ranges wr data ranges sent x)))"
proof (induction ranges arbitrary: sent x)
  case (Cons rg ranges)
  obtain a e where rg: "rg = (a, e)" by fastforce
  obtain r x1 where r: "wr x (slice data a (e - a)) = (r, x1)" by fastforce
  then have "P x1" using assms [OF Cons.prems] by (metis snd_conv)
  with Cons.IH [OF this] show ?case by (cases r) (simp_all add: rg r)
qed simp

text \<open>The three routines, each by the result of its loop.\<close>

lemma write_dd_shape:
  assumes "write_dd_randomized wr rnd data ddc st x = Some (r, x1, st1)"
  obtains (Empty) "data = []" "x1 = x" "st1 = st"
  | (Ranges) ranges r0 n where "write_ranges wr data ranges 0 x = (r0, x1, n)"
      "st1 = st \<or> st1 = st\<lparr>dd_writes := dd_writes st + 1\<rparr>"
proof (cases "data = []")
  case True
  then show thesis using assms Empty by (simp add: write_dd_randomized_def)
next
  case False
  then obtain ranges where p: "plan_dd_chunks rnd (length data) ddc = Some ranges"
    using assms by (auto simp: write_dd_randomized_def bind_eq_Some_conv)
  obtain r0 x0 n where w: "write_ranges wr data ranges 0 x = (r0, x0, n)" using prod_cases3 by blast
  have "x1 = x0 \<and> (st1 = st \<or> st1 = st\<lparr>dd_writes := dd_writes st + 1\<rparr>)"
    using assms False p w by (cases r0) (auto simp: write_dd_randomized_def split: if_splits)
  then show thesis using Ranges w by blast
qed

lemma write_to_backend_shape:
  assumes "write_to_backend wr sleep data fr st x = (r, x1, st1)"
  obtains (Whole) r0 where "wr x data = (r0, x1)" "st1 = st"
  | (Chunks) r0 n where "write_loop wr (\<lambda>_ w. if 0 < delay_ms fr then sleep (delay_ms fr) w else w) (chunk_sizes fr) data 0 0 0 x = (r0, x1, n)"
      "st1 = st \<or> st1 = st\<lparr>fragmented_writes := fragmented_writes st + 1\<rparr>"
proof (cases "\<not> fr_enabled fr \<or> chunk_sizes fr = []")
  case True
  obtain r0 x0 where w: "wr x data = (r0, x0)" by fastforce
  have "x1 = x0 \<and> st1 = st" using assms True w by (cases r0) (auto simp: write_to_backend_def)
  then show thesis using Whole w by blast
next
  case False
  let ?loop = "write_loop wr (\<lambda>_ w. if 0 < delay_ms fr then sleep (delay_ms fr) w else w) (chunk_sizes fr) data 0 0 0 x"
  obtain r0 x0 n where w: "?loop = (r0, x0, n)" using prod_cases3 by blast
  have "write_to_backend wr sleep data fr st x = (case ?loop of (Inl _, w1, _) \<Rightarrow> (Inl (Proxy ''fragmented write''), w1, st)
      | (Inr _, w1, sent) \<Rightarrow> (Inr (), w1, if 1 < sent then st\<lparr>fragmented_writes := fragmented_writes st + 1\<rparr> else st))"
    using False by (simp add: write_to_backend_def)
  then have "x1 = x0 \<and> (st1 = st \<or> st1 = st\<lparr>fragmented_writes := fragmented_writes st + 1\<rparr>)"
    using assms unfolding w by (cases r0) (auto split: if_splits)
  then show thesis using Chunks w by blast
qed

lemma write_chunks_shape:
  assumes "write_chunks_with_jitter wr sleep rand data dr (Some st) x = (r, x1, st1)"
  obtains r0 n where "write_loop wr (\<lambda>k w. if 0 < jitter_ms dr then
        let delay = rand k mod (jitter_ms dr + 1) in if 0 < delay then sleep delay w else w else w)
      (if record_sizes dr = [] then [512, 1024, 1398, 256] else record_sizes dr) data 0 0 0 x = (r0, x1, n)"
    "st1 = Some st \<or> st1 = Some (st\<lparr>drs_writes := drs_writes st + 1\<rparr>)"
proof -
  let ?loop = "write_loop wr (\<lambda>k w. if 0 < jitter_ms dr then
        let delay = rand k mod (jitter_ms dr + 1) in if 0 < delay then sleep delay w else w else w)
      (if record_sizes dr = [] then [512, 1024, 1398, 256] else record_sizes dr) data 0 0 0 x"
  obtain r0 x0 n where w: "?loop = (r0, x0, n)" using prod_cases3 by blast
  have "write_chunks_with_jitter wr sleep rand data dr (Some st) x =
      (case ?loop of (Inl _, w1, _) \<Rightarrow> (Inl (Proxy ''DRS chunk write''), w1, Some st)
       | (Inr _, w1, sent) \<Rightarrow> (Inr (), w1, if 1 < sent then map_option (\<lambda>s. s\<lparr>drs_writes := drs_writes s + 1\<rparr>) (Some st) else Some st))"
    unfolding write_chunks_with_jitter_def Let_def ..
  then have "x1 = x0 \<and> (st1 = Some st \<or> st1 = Some (st\<lparr>drs_writes := drs_writes st + 1\<rparr>))"
    using assms unfolding w by (cases r0) (auto split: if_splits)
  then show thesis using that w by blast
qed

lemma write_with_drs_shape:
  assumes "write_with_drs wr sleep rand data dr st x = (r, x1, st1)"
  obtains (Whole) r0 where "wr x data = (r0, x1)" "st1 = st"
  | (Chunks) r0 st2 where "write_chunks_with_jitter wr sleep rand data dr (Some st) x = (r0, x1, st2)"
      "st2 = Some st1"
proof (cases "\<not> drs_enabled dr \<or> record_sizes dr = []")
  case True
  obtain r0 x0 where w: "wr x data = (r0, x0)" by fastforce
  have "x1 = x0 \<and> st1 = st" using assms True w by (cases r0) (auto simp: write_with_drs_def)
  then show thesis using Whole w by blast
next
  case False
  obtain r0 x0 st2 where w: "write_chunks_with_jitter wr sleep rand data dr (Some st) x = (r0, x0, st2)" using prod_cases3 by blast
  from write_chunks_shape [OF this] obtain st3 where "st2 = Some st3" by blast
  then have "x1 = x0 \<and> st2 = Some st1" using assms False w by (auto simp: write_with_drs_def)
  then show thesis using Chunks w by blast
qed

lemma write_routines_keep:
  assumes wr: "\<And>x bs. P x \<Longrightarrow> P (snd (wr x bs))" and px: "P x"
  shows "write_to_backend wr (\<lambda>_ x. x) data fr st x = (r, x1, st1) \<Longrightarrow> P x1"
    "write_with_drs wr (\<lambda>_ x. x) rand data dr st x = (r, x1, st1) \<Longrightarrow> P x1"
    "write_dd_randomized wr rnd data ddc st x = Some (r, x1, st1) \<Longrightarrow> P x1"
proof -
  have one: "P x1" if "wr x data = (r0, x1)" for r0 x1 using wr [OF px, of data] that by simp
  have loop: "P x1" if "write_loop wr pause sizes data 0 0 0 x = (r0, x1, n)" "\<And>k x. P x \<Longrightarrow> P (pause k x)" for pause sizes r0 x1 n
    using write_loop_keeps [of P wr pause, OF wr that(2) px, of sizes data 0 0 0] that(1) by simp
  show "write_to_backend wr (\<lambda>_ x. x) data fr st x = (r, x1, st1) \<Longrightarrow> P x1"
    by (erule write_to_backend_shape) (auto intro: one loop)
  have "write_chunks_with_jitter wr (\<lambda>_ x. x) rand data dr (Some st) x = (r, x1, st2) \<Longrightarrow> P x1" for r st2
    by (erule write_chunks_shape) (auto simp: Let_def intro: loop)
  then show "write_with_drs wr (\<lambda>_ x. x) rand data dr st x = (r, x1, st1) \<Longrightarrow> P x1"
    by - (erule write_with_drs_shape; auto intro: one)
  show "write_dd_randomized wr rnd data ddc st x = Some (r, x1, st1) \<Longrightarrow> P x1"
  proof (erule write_dd_shape)
    fix ranges r0 n
    assume "write_ranges wr data ranges 0 x = (r0, x1, n)"
    then show "P x1" using write_ranges_keeps [of P wr, OF wr px, of data ranges 0] by simp
  qed (simp add: px)
qed

text \<open>The byte counters are the session's: the routines count their own kind of write only.\<close>

definition same_bytes :: "stats \<Rightarrow> stats \<Rightarrow> bool" where
  "same_bytes st st1 \<longleftrightarrow> bytes_to_backend st1 = bytes_to_backend st \<and> bytes_from_backend st1 = bytes_from_backend st"

lemma write_routines_bytes:
  "write_to_backend wr sleep data fr st x = (r, x1, st1) \<Longrightarrow> same_bytes st st1"
  "write_with_drs wr sleep rand data dr st x = (r, x1, st1) \<Longrightarrow> same_bytes st st1"
  "write_dd_randomized wr rnd data ddc st x = Some (r, x1, st1) \<Longrightarrow> same_bytes st st1"
  by (erule write_to_backend_shape write_with_drs_shape write_dd_shape; (erule write_chunks_shape)?;
      auto simp: same_bytes_def)+

section \<open>What a plain session does\<close>

text \<open>
  The first packet on the data centre's socket: a front of the data, all of it if the write succeeded, and
  nothing is taken from the socket.
\<close>

lemma wire_writer_in: "wi_in (snd x) = c \<Longrightarrow> wi_in (snd (snd (wire_writer fuel x bs))) = c"
  by (auto simp: wire_writer_def split: prod.splits option.splits dest: write_all_in)

lemma initial_write_facts:
  assumes "initial_write env data mode fr dr ddc st (False, w) = Some (r, (stuck, w1), st1)" and "gen_range_law (pe_dd env)"
  shows "wi_in w1 = wi_in w" "same_bytes st st1"
    "case r of Inr _ \<Rightarrow> wi_sent w1 = wi_sent w @ data | Inl _ \<Rightarrow> \<exists>k. wi_sent w1 = wi_sent w @ take k data"
proof -
  note app = wire_writer_appends [of "pe_fuel env"]
  note keep = write_routines_keep [of "\<lambda>x. wi_in (snd x) = wi_in w" "wire_writer (pe_fuel env)" "(False, w)"]
  consider (dd) "write_dd_randomized (wire_writer (pe_fuel env)) (pe_dd env) data ddc st (False, w) = Some (r, (stuck, w1), st1)"
    | (drs) "write_with_drs (wire_writer (pe_fuel env)) (\<lambda>_ w. w) (pe_jitter env) data dr st (False, w) = (r, (stuck, w1), st1)"
    | (fr) "write_to_backend (wire_writer (pe_fuel env)) (\<lambda>_ w. w) data fr st (False, w) = (r, (stuck, w1), st1)"
    using assms(1) by (auto simp: initial_write_def split: if_splits)
  then have "wi_in w1 = wi_in w \<and> same_bytes st st1
    \<and> (case r of Inr _ \<Rightarrow> wi_sent w1 = wi_sent w @ data | Inl _ \<Rightarrow> \<exists>k. wi_sent w1 = wi_sent w @ take k data)"
  proof cases
    case dd
    then show ?thesis
      using keep(3) [OF wire_writer_in _ dd] write_routines_bytes(3) [OF dd] write_dd_out [OF assms(2) app, of data ddc st "(False, w)"]
      by (auto split: sum.splits)
  next
    case drs
    then show ?thesis
      using keep(2) [OF wire_writer_in _ drs] write_routines_bytes(2) [OF drs] write_with_drs_out [OF app _ drs]
      by (auto split: sum.splits)
  next
    case fr
    then show ?thesis
      using keep(1) [OF wire_writer_in _ fr] write_routines_bytes(1) [OF fr] write_to_backend_out [OF app _ fr]
      by (auto split: sum.splits)
  qed
  then show "wi_in w1 = wi_in w" "same_bytes st st1"
    "case r of Inr _ \<Rightarrow> wi_sent w1 = wi_sent w @ data | Inl _ \<Rightarrow> \<exists>k. wi_sent w1 = wi_sent w @ take k data"
    by blast+
qed

lemma write_initial_sends:
  assumes "write_initial_to_backend env data mode fr dr ddc s = (r, s1)" and "gen_range_law (pe_dd env)"
  shows "\<exists>w1 st1 sent. s1 = s\<lparr>ss_upstream := w1, ss_stats := st1\<rparr> \<and> wi_sent w1 = wi_sent (ss_upstream s) @ sent
     \<and> prefix sent data \<and> (r = Some (Inr ()) \<longrightarrow> sent = data) \<and> wi_in w1 = wi_in (ss_upstream s) \<and> same_bytes (ss_stats s) st1"
proof -
  let ?y = "initial_write env data mode fr dr ddc (ss_stats s) (False, ss_upstream s)"
  have run: "(r, s1) = (case ?y of None \<Rightarrow> (None, s) | Some (r, up1, st1) \<Rightarrow>
      (case unless_stuck (r, up1) of (r1, w1) \<Rightarrow> (r1, s\<lparr>ss_upstream := w1, ss_stats := st1\<rparr>)))"
    using assms(1) by (simp add: write_initial_to_backend_def)
  show ?thesis
  proof (cases ?y)
    case None
    then show ?thesis using run by (intro exI [of _ "ss_upstream s"] exI [of _ "ss_stats s"] exI [of _ "[]"]) (simp add: same_bytes_def)
  next
    case (Some z)
    obtain r1 up1 st1 where "z = (r1, up1, st1)" using prod_cases3 by blast
    moreover obtain stuck w1 where "up1 = (stuck, w1)" by fastforce
    ultimately have z: "?y = Some (r1, (stuck, w1), st1)" using Some by simp
    have rs: "r = (if stuck then None else Some r1)" "s1 = s\<lparr>ss_upstream := w1, ss_stats := st1\<rparr>"
      using run by (simp_all add: z unless_stuck_def)
    note f = initial_write_facts [OF z assms(2)]
    obtain sent where "wi_sent w1 = wi_sent (ss_upstream s) @ sent" "prefix sent data" "r1 = Inr () \<longrightarrow> sent = data"
    proof (cases r1)
      case (Inl e)
      then obtain k where "wi_sent w1 = wi_sent (ss_upstream s) @ take k data" using f(3) by auto
      with Inl that show thesis by (simp add: take_is_prefix)
    next
      case (Inr u)
      with f(3) that show thesis by simp
    qed
    moreover from this rs(1) have "r = Some (Inr ()) \<longrightarrow> sent = data" by (auto split: if_splits)
    ultimately show ?thesis using rs(2) f(1,2) by blast
  qed
qed

lemma connect_loop_same_bytes:
  "connect_loop dial bs now p st le = (r, now1, p1, st1) \<Longrightarrow> same_bytes st st1"
proof (induction bs arbitrary: now p st le)
  case Nil
  then show ?case by (auto simp: same_bytes_def)
next
  case (Cons b bs)
  obtain t v where "dial b now = (t, v)" by fastforce
  then show ?case using Cons.prems Cons.IH
    by (cases v) (fastforce simp: same_bytes_def split: if_splits)+
qed

definition dialled :: "proxy_env \<Rightarrow> network_config \<Rightarrow> string \<Rightarrow> wire \<Rightarrow> bool" where
  "dialled env net backend w \<longleftrightarrow> connect_backend (pe_net env) (pe_fuel env) backend net = Some (Inr w)"

lemma pool_dial_Some: "snd (pool_dial env net b t) = Inr (Some w) \<longleftrightarrow> dialled env net b w"
  by (auto simp: pool_dial_def dialled_def split: option.splits sum.splits)

lemma connect_pool_cases:
  assumes "connect_pool env net preferred s = (r, s1)"
  obtains st1 where "same_bytes (ss_stats s) st1" "ss_client s1 = ss_client s" "ss_stats s1 = st1" "ss_spawned s1 = ss_spawned s"
    "case r of Some (Inr b) \<Rightarrow> b \<in> set (bp_backends (ss_pool s)) \<and> dialled env net b (ss_upstream s1)
     | _ \<Rightarrow> ss_upstream s1 = ss_upstream s"
proof -
  obtain v now1 p1 st1 where c: "pool_connect (pool_dial env net) (Some preferred) (ss_now s) (ss_pool s) (ss_stats s) = (v, now1, p1, st1)"
    using prod_cases4 by blast
  have sb: "same_bytes (ss_stats s) st1"
    using c connect_loop_same_bytes by (auto simp: pool_connect_def split: prod.splits)
  have d: "b \<in> set (bp_backends (ss_pool s)) \<and> dialled env net b w" if v: "v = Inr (Some w, b)" for w b
  proof -
    have "pool_connect (pool_dial env net) (Some preferred) (ss_now s) (ss_pool s) (ss_stats s) = (Inr (Some w, b), now1, p1, st1)"
      using c v by simp
    from connect_result_sound [OF this] obtain t e where "pool_dial env net b t = (e, Inr (Some w))" "b \<in> set (bp_backends (ss_pool s))"
      by blast
    moreover from this(1) have "snd (pool_dial env net b t) = Inr (Some w)" by simp
    ultimately show ?thesis using pool_dial_Some by blast
  qed
  define s2 where "s2 = s\<lparr>ss_now := now1, ss_pool := p1, ss_stats := st1\<rparr>"
  have s2: "ss_client s2 = ss_client s" "ss_stats s2 = st1" "ss_spawned s2 = ss_spawned s" "ss_upstream s2 = ss_upstream s"
    by (simp_all add: s2_def)
  have run: "(r, s1) = (case v of Inl e \<Rightarrow> (Some (Inl e), s2) | Inr (None, _) \<Rightarrow> (None, s2)
      | Inr (Some w, backend) \<Rightarrow> (Some (Inr backend), s2\<lparr>ss_upstream := w\<rparr>))"
    using assms unfolding connect_pool_def c prod.case Let_def s2_def [symmetric] by simp
  consider e where "v = Inl e" | b where "v = Inr (None, b)" | w b where "v = Inr (Some w, b)"
    by (cases v) (auto, metis option.exhaust)
  then show thesis
  proof cases
    case (3 w b)
    then show thesis using run d [OF 3] s2 by (intro that [OF sb]) simp_all
  qed (use run s2 in \<open>auto intro: that [OF sb]\<close>)
qed

lemma spawn_frame: "spawn job s = (r, s1) \<Longrightarrow> r = Some (Inr ()) \<and> s1 = s\<lparr>ss_spawned := ss_spawned s1\<rparr>"
  by (auto simp: spawn_def split: option.splits)

lemma failover_notice_frame:
  "failover_notice wh p c s = (r, s1) \<Longrightarrow> r = Some (Inr ()) \<and> s1 = s\<lparr>ss_spawned := ss_spawned s1\<rparr> \<and> (c = p \<longrightarrow> s1 = s)"
  by (auto simp: failover_notice_def dest: spawn_frame split: if_splits)

section \<open>A concrete session\<close>

definition toy_mtproto :: mtproto_config where
  "toy_mtproto = \<lparr>mt_secret = ''ee0123456789abcdef0123456789abcdef'', mt_backend = ''dc'', mt_backends = [],
     failover_strategy = Priority, mt_secrets = []\<rparr>"

definition toy_dc :: wire where
  "toy_dc = \<lparr>wi_in = [RData [7, 8, 9], REof], wi_out = replicate 9 (WAccept 3), wi_sent = []\<rparr>"

definition toy_proxy_env :: proxy_env where
  "toy_proxy_env = \<lparr>pe_crypto = toy_env,
     pe_net = \<lparr>ne_dial = \<lambda>_ b. if b = ''dc'' then Some (Inr toy_dc) else None, ne_dial_pair = \<lambda>_ _ _. None\<rparr>,
     pe_fuel = 20, pe_elapsed = \<lambda>_ _. 0, pe_unix = 1100,
     pe_hello_rng = \<lparr>hr_random = replicate 32 1, hr_pub_key = replicate 32 2, hr_pad_draw = 0, hr_fill = \<lambda>n. replicate n 0\<rparr>,
     pe_pad = \<lambda>_. (0, \<lambda>n. replicate n 0), pe_draws = [toy_nonce], pe_jitter = \<lambda>_. 0, pe_dd = \<lambda>_ lo _. lo,
     pe_schedule = replicate 120 True @ replicate 120 False\<rparr>"

definition toy_options :: "secret_kind \<Rightarrow> proxy_options" where
  "toy_options mode = \<lparr>po_preferred = ''dc'', po_mode = mode, po_fragmentation = fragmentation_default, po_drs = drs_default,
     po_dd = dd_default, po_network = network_default, po_webhooks = webhooks_default\<rparr>"

definition toy_session :: session where
  "toy_session = \<lparr>ss_client = \<lparr>wi_in = [RData [3, 4], RPending, RData [5], REof], wi_out = replicate 9 (WAccept 2), wi_sent = []\<rparr>,
     ss_upstream = toy_dc, ss_stats = stats_default, ss_pool = pool_from_config toy_mtproto, ss_now = 5, ss_spawned = []\<rparr>"

lemmas toy_defs = toy_mtproto_def toy_dc_def toy_proxy_env_def toy_options_def toy_session_def

lemma toy_dials: "dialled toy_proxy_env (po_network (toy_options mode)) b w \<longleftrightarrow> b = ''dc'' \<and> w = toy_dc"
  by (auto simp: dialled_def connect_backend_def toy_proxy_env_def toy_options_def network_default_def)

lemma toy_gen_range: "gen_range_law (pe_dd toy_proxy_env)"
  by (simp add: gen_range_law_def toy_proxy_env_def)

section \<open>Properties of plain sessions\<close>

lemma bindT_Some:
  "bindT t f s = (r, s1) \<Longrightarrow> \<exists>v s2. t s = (v, s2)
     \<and> (case v of Some (Inr a) \<Rightarrow> f a s2 = (r, s1) | Some (Inl e) \<Rightarrow> r = Some (Inl e) \<and> s1 = s2 | None \<Rightarrow> r = None \<and> s1 = s2)"
  by (auto simp: bindT_def split: prod.splits option.splits sum.splits)

lemma same_bytes_trans: "same_bytes a b \<Longrightarrow> same_bytes b c \<Longrightarrow> same_bytes a c"
  by (simp add: same_bytes_def)

text \<open>From the connected backend on.\<close>

definition plain_rest :: "proxy_env \<Rightarrow> proxy_options \<Rightarrow> bytes \<Rightarrow> (session, unit) task" where
  "plain_rest env opts initial =
     bindT (write_initial_to_backend env initial (po_mode opts) (po_fragmentation opts) (po_drs opts) (po_dd opts)) (\<lambda>_.
     bindT (count (to_backend (length initial))) (\<lambda>_.
     bindT (relay_sockets env) (\<lambda>(up, down).
     bindT (count (to_backend up)) (\<lambda>_.
     count (from_backend down)))))"

text \<open>
  What a session that relays between \<open>client\<close> and \<open>server\<close> has moved, when it has sent \<open>first\<close> before:
  to each side only a front of what it should get. At a good end the server has all of \<open>first\<close>, the sockets are
  as the relay under \<open>schedule\<close> left them when it was started behind \<open>first\<close>, and the counters \<open>st\<close> have grown by
  the length of \<open>first\<close> and by the two counts which that relay returned; a direction whose count is not zero has
  delivered everything, and the count is its length.
\<close>

definition relayed :: "bool list \<Rightarrow> bytes \<Rightarrow> wire \<Rightarrow> wire \<Rightarrow> stats \<Rightarrow> unit result option \<Rightarrow> session \<Rightarrow> bool" where
  "relayed schedule first client server st r s1 \<longleftrightarrow>
     (\<exists>to_server to_client. wi_sent (ss_upstream s1) = wi_sent server @ to_server
       \<and> wi_sent (ss_client s1) = wi_sent client @ to_client
       \<and> prefix to_server (first @ script_data (wi_in client)) \<and> prefix to_client (script_data (wi_in server))
       \<and> (r = Some (Inr ()) \<longrightarrow> prefix first to_server \<and> (\<exists>server1 up down.
             wi_in server1 = wi_in server \<and> wi_sent server1 = wi_sent server @ first
           \<and> copy_bidirectional_graceful tcp tcp schedule client server1 = (Some (Inr (up, down)), ss_client s1, ss_upstream s1)
           \<and> bytes_to_backend (ss_stats s1) = bytes_to_backend st + of_nat (length first + up)
           \<and> bytes_from_backend (ss_stats s1) = bytes_from_backend st + of_nat down
           \<and> (0 < up \<longrightarrow> to_server = first @ script_data (wi_in client) \<and> length to_server = length first + up)
           \<and> (0 < down \<longrightarrow> to_client = script_data (wi_in server) \<and> length to_client = down))))"

lemma relayed_same_bytes: "same_bytes st st1 \<Longrightarrow> relayed sch first c u st r s1 = relayed sch first c u st1 r s1"
  by (simp add: relayed_def same_bytes_def)

lemma plain_rest_delivers:
  assumes "plain_rest env opts initial s = (r, s1)" and "gen_range_law (pe_dd env)"
    and "RData [] \<notin> set (wi_in (ss_client s))" and "RData [] \<notin> set (wi_in (ss_upstream s))"
  shows "relayed (pe_schedule env) initial (ss_client s) (ss_upstream s) (ss_stats s) r s1"
proof -
  obtain v s2 where w: "write_initial_to_backend env initial (po_mode opts) (po_fragmentation opts) (po_drs opts) (po_dd opts) s = (v, s2)"
    by fastforce
  obtain w1 st1 sent where s2: "s2 = s\<lparr>ss_upstream := w1, ss_stats := st1\<rparr>" "wi_sent w1 = wi_sent (ss_upstream s) @ sent"
      "prefix sent initial" "v = Some (Inr ()) \<longrightarrow> sent = initial" "wi_in w1 = wi_in (ss_upstream s)" "same_bytes (ss_stats s) st1"
    using write_initial_sends [OF w assms(2)] by blast
  show ?thesis
  proof (cases "v = Some (Inr ())")
    case False
    then have "s1 = s2" "r \<noteq> Some (Inr ())"
      using assms(1) by (auto simp: plain_rest_def bindT_def w split: option.splits sum.splits)
    then show ?thesis using s2 unfolding relayed_def
      by (intro exI [of _ sent] exI [of _ "[]"]) (auto intro: prefix_prefix)
  next
    case True
    obtain q l u where c: "copy_bidirectional_graceful tcp tcp (pe_schedule env) (ss_client s) w1 = (q, l, u)"
      using prod_cases3 by blast
    have io: "io_wire (ss_client s) (script_data (wi_in (ss_client s))) (wi_sent (ss_client s))"
        "io_wire w1 (script_data (wi_in w1)) (wi_sent w1)"
      using assms(3,4) s2(5) by (simp_all add: io_wire_def owes_wire_def owes_script_def took_wire_def)
    obtain mc ms where f: "wi_sent l = wi_sent (ss_client s) @ ms" "wi_sent u = wi_sent w1 @ mc"
        "prefix mc (script_data (wi_in (ss_client s)))" "prefix ms (script_data (wi_in (ss_upstream s)))"
        "\<forall>m n. q = Some (Inr (m, n)) \<longrightarrow> (0 < m \<longrightarrow> mc = script_data (wi_in (ss_client s)) \<and> m = length mc)
           \<and> (0 < n \<longrightarrow> ms = script_data (wi_in (ss_upstream s)) \<and> n = length ms)"
      using wire_relay.relay_flow [OF io c [unfolded tcp_def]] s2(5) by (fastforce simp: io_wire_def took_wire_def)
    have run: "(r, s1) = (case q of
        None \<Rightarrow> (None, s2\<lparr>ss_stats := to_backend (length initial) st1, ss_client := l, ss_upstream := u\<rparr>)
      | Some (Inl e) \<Rightarrow> (Some (Inl e), s2\<lparr>ss_stats := to_backend (length initial) st1, ss_client := l, ss_upstream := u\<rparr>)
      | Some (Inr (up, down)) \<Rightarrow> (Some (Inr ()), s2\<lparr>ss_client := l, ss_upstream := u,
           ss_stats := from_backend down (to_backend up (to_backend (length initial) st1))\<rparr>))"
      using assms(1) c by (auto simp: plain_rest_def bindT_def w True count_def relay_sockets_def s2(1)
          split: option.splits sum.splits prod.splits)
    then have ends: "ss_client s1 = l" "ss_upstream s1 = u" by (auto split: option.splits sum.splits)
    show ?thesis
      unfolding relayed_def
    proof (rule exI [of _ "initial @ mc"], rule exI [of _ ms], intro conjI impI)
      assume ok: "r = Some (Inr ())"
      then obtain up down where q: "q = Some (Inr (up, down))" using run by (auto split: option.splits sum.splits)
      show "\<exists>server1 up down. wi_in server1 = wi_in (ss_upstream s) \<and> wi_sent server1 = wi_sent (ss_upstream s) @ initial
         \<and> copy_bidirectional_graceful tcp tcp (pe_schedule env) (ss_client s) server1 = (Some (Inr (up, down)), ss_client s1, ss_upstream s1)
         \<and> bytes_to_backend (ss_stats s1) = bytes_to_backend (ss_stats s) + of_nat (length initial + up)
         \<and> bytes_from_backend (ss_stats s1) = bytes_from_backend (ss_stats s) + of_nat down
         \<and> (0 < up \<longrightarrow> initial @ mc = initial @ script_data (wi_in (ss_client s)) \<and> length (initial @ mc) = length initial + up)
         \<and> (0 < down \<longrightarrow> ms = script_data (wi_in (ss_upstream s)) \<and> length ms = down)"
        using run s2(2,4,5,6) f(5) c True by (intro exI [of _ w1] exI [of _ up] exI [of _ down])
          (auto simp: q to_backend_def from_backend_def same_bytes_def)
    qed (use f s2 ends True in \<open>simp_all\<close>)
  qed
qed

lemma proxy_plain_split:
  "proxy_mtproto_plain env opts initial =
     bindT (connect_pool env (po_network opts) (po_preferred opts)) (\<lambda>connected.
     bindT (failover_notice (po_webhooks opts) (po_preferred opts) connected) (\<lambda>_. plain_rest env opts initial))"
  by (simp add: proxy_mtproto_plain_def plain_rest_def)

lemma plain_session_flow:
  assumes "po_mode opts \<noteq> Ee" and "gen_range_law (pe_dd env)" and "RData [] \<notin> set (wi_in (ss_client s))"
    and "\<forall>b w. dialled env (po_network opts) b w \<longrightarrow> RData [] \<notin> set (wi_in w)"
    and "proxy_mtproto env m opts initial s = (r, s1)"
  shows "ss_client s1 = ss_client s \<and> ss_upstream s1 = ss_upstream s \<and> r \<noteq> Some (Inr ())
    \<or> (\<exists>b w. b \<in> set (bp_backends (ss_pool s)) \<and> dialled env (po_network opts) b w
         \<and> relayed (pe_schedule env) initial (ss_client s) w (ss_stats s) r s1)"
proof -
  obtain v s2 where c: "connect_pool env (po_network opts) (po_preferred opts) s = (v, s2)" by fastforce
  from connect_pool_cases [OF c] have f: "same_bytes (ss_stats s) (ss_stats s2)" "ss_client s2 = ss_client s"
    "case v of Some (Inr b) \<Rightarrow> b \<in> set (bp_backends (ss_pool s)) \<and> dialled env (po_network opts) b (ss_upstream s2)
     | _ \<Rightarrow> ss_upstream s2 = ss_upstream s" by blast+
  have run: "bindT (connect_pool env (po_network opts) (po_preferred opts)) (\<lambda>connected.
     bindT (failover_notice (po_webhooks opts) (po_preferred opts) connected) (\<lambda>_. plain_rest env opts initial)) s = (r, s1)"
    using assms(1,5) by (simp add: proxy_mtproto_def proxy_plain_split)
  show ?thesis
  proof (cases "\<exists>b. v = Some (Inr b)")
    case False
    then have "s1 = s2 \<and> r \<noteq> Some (Inr ())" "ss_upstream s2 = ss_upstream s"
      using run c f(3) by (auto simp: bindT_def split: option.splits sum.splits)
    then show ?thesis using f by simp
  next
    case True
    then obtain b where b: "v = Some (Inr b)" by blast
    obtain s3 where n: "failover_notice (po_webhooks opts) (po_preferred opts) b s2 = (Some (Inr ()), s3)"
      and s3: "s3 = s2\<lparr>ss_spawned := ss_spawned s3\<rparr>"
      using failover_notice_frame by (metis surj_pair)
    have eq: "ss_client s3 = ss_client s" "ss_upstream s3 = ss_upstream s2" "ss_stats s3 = ss_stats s2"
      using f(2) by (subst s3, simp)+
    have "plain_rest env opts initial s3 = (r, s1)" using run c b n by (simp add: bindT_def)
    moreover have "RData [] \<notin> set (wi_in (ss_client s3))" "RData [] \<notin> set (wi_in (ss_upstream s3))"
      using assms(3,4) f(3) b eq by auto
    ultimately have "relayed (pe_schedule env) initial (ss_client s3) (ss_upstream s3) (ss_stats s3) r s1"
      using plain_rest_delivers assms(2) by blast
    then have "relayed (pe_schedule env) initial (ss_client s) (ss_upstream s2) (ss_stats s) r s1"
      using relayed_same_bytes [OF f(1)] by (simp add: eq)
    then show ?thesis using f(3) b by auto
  qed
qed

text \<open>
  C11. A session of a classic or dd secret, whatever the network does and however the polls are ordered: the
  data centre that was dialled is one of the pool, and it receives only a front of the first packet
  followed by what the client sends; the client receives only a front of what the data centre sends. When
  the session ends well, the first packet has arrived in full, and the counters have grown by its length
  and by the two counts that the relay of these sockets returned (not by more or less); a count that is not
  zero says that its direction has delivered everything, and is the length of that. If nobody could be
  dialled, the client has seen nothing.
\<close>

theorem plain_session_delivers:
  assumes "po_mode opts \<noteq> Ee" and "gen_range_law (pe_dd env)" and "RData [] \<notin> set (wi_in (ss_client s))"
    and "\<And>b w. dialled env (po_network opts) b w \<Longrightarrow> RData [] \<notin> set (wi_in w)"
    and "proxy_mtproto env m opts initial s = (r, s1)"
  shows "ss_client s1 = ss_client s \<and> ss_upstream s1 = ss_upstream s \<and> r \<noteq> Some (Inr ())
    \<or> (\<exists>b w. b \<in> set (bp_backends (ss_pool s)) \<and> dialled env (po_network opts) b w
         \<and> relayed (pe_schedule env) initial (ss_client s) w (ss_stats s) r s1)"
  using plain_session_flow [OF assms(1-3) _ assms(5)] assms(4) by blast

lemma plain_session_delivers_witness:
  "\<exists>r s1. proxy_mtproto toy_proxy_env toy_mtproto (toy_options Dd) [1, 2] toy_session = (r, s1)
     \<and> (ss_client s1 = ss_client toy_session \<and> ss_upstream s1 = ss_upstream toy_session \<and> r \<noteq> Some (Inr ())
        \<or> relayed (pe_schedule toy_proxy_env) [1, 2] (ss_client toy_session) toy_dc stats_default r s1)"
proof -
  obtain r s1 where run: "proxy_mtproto toy_proxy_env toy_mtproto (toy_options Dd) [1, 2] toy_session = (r, s1)" by fastforce
  have m: "po_mode (toy_options Dd) \<noteq> Ee" by (simp add: toy_options_def)
  have c: "RData [] \<notin> set (wi_in (ss_client toy_session))" by (simp add: toy_session_def)
  have d: "dialled toy_proxy_env (po_network (toy_options Dd)) b w \<Longrightarrow> RData [] \<notin> set (wi_in w)" for b w
    by (simp add: toy_dials toy_dc_def)
  have st: "ss_stats toy_session = stats_default" by (simp add: toy_session_def)
  have "ss_client s1 = ss_client toy_session \<and> ss_upstream s1 = ss_upstream toy_session \<and> r \<noteq> Some (Inr ())
    \<or> (\<exists>b w. b \<in> set (bp_backends (ss_pool toy_session)) \<and> dialled toy_proxy_env (po_network (toy_options Dd)) b w
         \<and> relayed (pe_schedule toy_proxy_env) [1, 2] (ss_client toy_session) w (ss_stats toy_session) r s1)"
    by (rule plain_session_delivers [OF m toy_gen_range c d run])
  then show ?thesis unfolding toy_dials st using run by blast
qed

section \<open>Sessions between healthy peers\<close>

text \<open>The routines on a socket that goes on accepting.\<close>

lemma wire_writer_talk:
  assumes "talk fuel (length bs + k) d w"
  shows "\<exists>w1. wire_writer fuel (False, w) bs = (Inr (), (False, w1)) \<and> talk fuel k d w1 \<and> wi_sent w1 = wi_sent w @ bs"
  using talk_write [OF assms] by (auto simp: wire_writer_def)

lemma write_loop_talk:
  "offset \<le> length data \<Longrightarrow> talk fuel (length data - offset + k) d w \<Longrightarrow>
   \<exists>w1 n. write_loop (wire_writer fuel) (\<lambda>_ x. x) sizes data offset i sent (False, w) = (Inr (), (False, w1), n) \<and> talk fuel k d w1"
proof (induction "length data - offset" arbitrary: offset i sent w rule: less_induct)
  case less
  show ?case
  proof (cases "offset < length data")
    case True
    let ?e = "chunk_end sizes data offset i"
    have b: "offset < ?e" "?e \<le> length data" using chunk_end_bounds [OF True] by auto
    let ?c = "slice data offset (?e - offset)"
    have "length ?c + (length data - ?e + k) = length data - offset + k" using b by (simp add: slice_def)
    then have "talk fuel (length ?c + (length data - ?e + k)) d w" using less.prems(2) by (simp only:)
    from wire_writer_talk [OF this] obtain w1 where w1: "wire_writer fuel (False, w) ?c = (Inr (), (False, w1))"
      "talk fuel (length data - ?e + k) d w1" by blast
    have "length data - ?e < length data - offset" using b by linarith
    from less.hyps [OF this b(2) w1(2)] show ?thesis
      using True w1(1) by (simp add: write_loop.simps [of _ _ _ _ offset] Let_def)
  qed (use less.prems talk_weaken in \<open>fastforce simp: write_loop.simps\<close>)
qed

lemma write_ranges_talk:
  "talk fuel (sum_list (map (\<lambda>(a, e). length (slice data a (e - a))) ranges) + k) d w \<Longrightarrow>
   \<exists>w1 n. write_ranges (wire_writer fuel) data ranges sent (False, w) = (Inr (), (False, w1), n) \<and> talk fuel k d w1"
proof (induction ranges arbitrary: sent w)
  case (Cons rg ranges)
  obtain a e where rg: "rg = (a, e)" by fastforce
  from Cons.prems have "talk fuel (length (slice data a (e - a)) + (sum_list (map (\<lambda>(a, e). length (slice data a (e - a))) ranges) + k)) d w"
    by (simp add: rg add.assoc)
  from wire_writer_talk [OF this] Cons.IH show ?case by (fastforce simp: rg)
qed simp

lemma initial_write_talk:
  assumes "gen_range_law (pe_dd env)" and "talk (pe_fuel env) (length data + k) d w"
  shows "\<exists>w1 st1. initial_write env data mode fr dr ddc st (False, w) = Some (Inr (), (False, w1), st1) \<and> talk (pe_fuel env) k d w1"
proof -
  note one = wire_writer_talk [OF assms(2)]
  have loop: "\<exists>w1 n. write_loop (wire_writer (pe_fuel env)) (\<lambda>_ x. x) sizes data 0 0 0 (False, w) = (Inr (), (False, w1), n)
      \<and> talk (pe_fuel env) k d w1" for sizes
    by (rule write_loop_talk) (use assms(2) in simp_all)
  have "\<exists>w1 st1. write_to_backend (wire_writer (pe_fuel env)) (\<lambda>_ w. w) data fr st (False, w) = (Inr (), (False, w1), st1) \<and> talk (pe_fuel env) k d w1"
    using one loop [of "chunk_sizes fr"] by (auto simp: write_to_backend_def)
  moreover have "\<exists>w1 st1. write_with_drs (wire_writer (pe_fuel env)) (\<lambda>_ w. w) (pe_jitter env) data dr st (False, w) = (Inr (), (False, w1), st1)
      \<and> talk (pe_fuel env) k d w1"
  proof -
    obtain w1 n where "write_loop (wire_writer (pe_fuel env)) (\<lambda>_ x. x) (if record_sizes dr = [] then [512, 1024, 1398, 256] else record_sizes dr)
        data 0 0 0 (False, w) = (Inr (), (False, w1), n)" "talk (pe_fuel env) k d w1" using loop by blast
    then have "\<exists>st1. write_chunks_with_jitter (wire_writer (pe_fuel env)) (\<lambda>_ w. w) (pe_jitter env) data dr (Some st) (False, w)
        = (Inr (), (False, w1), Some st1)"
      unfolding write_chunks_with_jitter_def Let_def if_cancel by simp
    then show ?thesis using one \<open>talk (pe_fuel env) k d w1\<close> by (auto simp: write_with_drs_def)
  qed
  moreover have "\<exists>w1 st1. write_dd_randomized (wire_writer (pe_fuel env)) (pe_dd env) data ddc st (False, w) = Some (Inr (), (False, w1), st1)
      \<and> talk (pe_fuel env) k d w1"
  proof (cases "data = []")
    case True
    then show ?thesis using assms(2) by (simp add: write_dd_randomized_def)
  next
    case False
    obtain ranges where p: "plan_dd_chunks (pe_dd env) (length data) ddc = Some ranges"
      using plan_dd_chunks_tiles [OF assms(1)] by blast
    have "concat (map (\<lambda>(a, e). slice data a (e - a)) ranges) = data"
      using chunking.chunks_concat [OF dd_chunking [OF assms(1)], of ddc data] by (simp add: dd_chunks_def p)
    then have "length data = length (concat (map (\<lambda>(a, e). slice data a (e - a)) ranges))" by simp
    then have "sum_list (map (\<lambda>(a, e). length (slice data a (e - a))) ranges) = length data"
      by (simp add: length_concat comp_def case_prod_unfold)
    then obtain w1 n where "write_ranges (wire_writer (pe_fuel env)) data ranges 0 (False, w) = (Inr (), (False, w1), n)" "talk (pe_fuel env) k d w1"
      using write_ranges_talk [of "pe_fuel env" data ranges k d w 0] assms(2) by auto
    then show ?thesis using False p by (auto simp: write_dd_randomized_def)
  qed
  ultimately show ?thesis by (auto simp: initial_write_def)
qed

lemma connect_pool_preferred:
  assumes "preferred \<in> set (bp_backends (ss_pool s))" and "\<not> is_unhealthy (ss_now s) preferred (ss_pool s)"
    and "dialled env net preferred w"
  shows "\<exists>now1 p1. connect_pool env net preferred s = (Some (Inr preferred), s\<lparr>ss_now := now1, ss_pool := p1, ss_upstream := w\<rparr>)"
proof -
  obtain bs p1 where o: "connection_order (Some preferred) (ss_pool s) = (bs, p1)" by fastforce
  have hd: "hd bs = preferred" using connection_order_preferred [OF assms(1)] o by simp
  have "mset bs = mset (bp_backends (ss_pool s))" using connection_order_mset [of "Some preferred" "ss_pool s"] o by simp
  then have "bs \<noteq> []" using assms(1) by (metis mset.simps(1) set_mset_mset mset_zero_iff_right empty_iff list.set(1))
  then obtain rest where bs: "bs = preferred # rest" using hd by (cases bs) auto
  have "\<not> is_unhealthy (ss_now s) preferred p1"
    using assms(2) connection_order_pool(2) [of "Some preferred" "ss_pool s"] o by (simp add: is_unhealthy_def)
  moreover have "pool_dial env net preferred (ss_now s) = (pe_elapsed env preferred (ss_now s), Inr (Some w))"
    using assms(3) by (simp add: pool_dial_def dialled_def)
  ultimately show ?thesis
    by (simp add: connect_pool_def pool_connect_def o bs Let_def) (metis session.surjective session.update_convs)
qed

text \<open>
  C14. A session of a classic or dd secret comes to its end: when the preferred data centre is in the pool,
  not in its cooldown and can be dialled, and both peers send what they have, close, and go on accepting,
  then under every order of polls that gives each direction enough turns the data centre receives the
  first packet and everything the client sends, the client everything the data centre sends, and the
  counters grow by exactly these lengths.
\<close>

theorem plain_session_completes:
  assumes "po_mode opts \<noteq> Ee" and "gen_range_law (pe_dd env)"
    and "po_preferred opts \<in> set (bp_backends (ss_pool s))" and "\<not> is_unhealthy (ss_now s) (po_preferred opts) (ss_pool s)"
    and "dialled env (po_network opts) (po_preferred opts) w"
    and "talk (pe_fuel env) (length initial + length up) down w" and "talk (pe_fuel env) (length down) up (ss_client s)"
    and "6 * pe_fuel env \<le> count_list (pe_schedule env) True" and "6 * pe_fuel env \<le> count_list (pe_schedule env) False"
  shows "\<exists>s1. proxy_mtproto env m opts initial s = (Some (Inr ()), s1)
     \<and> wi_sent (ss_upstream s1) = wi_sent w @ initial @ up \<and> wi_sent (ss_client s1) = wi_sent (ss_client s) @ down
     \<and> bytes_to_backend (ss_stats s1) = bytes_to_backend (ss_stats s) + of_nat (length initial + length up)
     \<and> bytes_from_backend (ss_stats s1) = bytes_from_backend (ss_stats s) + of_nat (length down)
     \<and> ss_spawned s1 = ss_spawned s"
proof -
  obtain now1 p1 where c: "connect_pool env (po_network opts) (po_preferred opts) s
      = (Some (Inr (po_preferred opts)), s\<lparr>ss_now := now1, ss_pool := p1, ss_upstream := w\<rparr>)"
    using connect_pool_preferred [OF assms(3-5)] by blast
  define s2 where "s2 = s\<lparr>ss_now := now1, ss_pool := p1, ss_upstream := w\<rparr>"
  have s2: "ss_client s2 = ss_client s" "ss_upstream s2 = w" "ss_stats s2 = ss_stats s" "ss_spawned s2 = ss_spawned s"
    by (simp_all add: s2_def)
  have n: "failover_notice wh p p s2 = (Some (Inr ()), s2)" for wh p by (simp add: failover_notice_def)
  let ?iw = "initial_write env initial (po_mode opts) (po_fragmentation opts) (po_drs opts) (po_dd opts) (ss_stats s) (False, w)"
  obtain w1 st1 where i: "?iw = Some (Inr (), (False, w1), st1)" and t1: "talk (pe_fuel env) (length up) down w1"
    using initial_write_talk [OF assms(2,6)] by blast
  note f = initial_write_facts [OF i assms(2)]
  have wi: "write_initial_to_backend env initial (po_mode opts) (po_fragmentation opts) (po_drs opts) (po_dd opts) s2
      = (Some (Inr ()), s2\<lparr>ss_upstream := w1, ss_stats := st1\<rparr>)"
    by (simp add: write_initial_to_backend_def s2 i unless_stuck_def)
  have d: "script_data (wi_in (ss_client s)) = up" "script_data (wi_in w1) = down"
    using assms(7) t1 by (simp_all add: talk_def)
  have "\<exists>l u. copy_bidirectional_graceful tcp tcp (pe_schedule env) (ss_client s) w1
      = (Some (Inr (length (script_data (wi_in (ss_client s))), length (script_data (wi_in w1)))), l, u)
    \<and> wi_sent u = wi_sent w1 @ script_data (wi_in (ss_client s)) \<and> wi_sent l = wi_sent (ss_client s) @ script_data (wi_in w1)"
    by (rule relay_ends) (use assms(7-9) t1 in \<open>auto simp: talk_def\<close>)
  then obtain l u where cb: "copy_bidirectional_graceful tcp tcp (pe_schedule env) (ss_client s) w1 = (Some (Inr (length up, length down)), l, u)"
      "wi_sent u = wi_sent w1 @ up" "wi_sent l = wi_sent (ss_client s) @ down"
    unfolding d by blast
  have "proxy_mtproto env m opts initial s = (Some (Inr ()), s2\<lparr>ss_client := l, ss_upstream := u,
      ss_stats := from_backend (length down) (to_backend (length up) (to_backend (length initial) st1))\<rparr>)"
    using assms(1) c n wi cb(1)
    by (simp add: proxy_mtproto_def proxy_plain_split bindT_def plain_rest_def count_def relay_sockets_def s2 flip: s2_def)
  then show ?thesis using cb(2,3) f(2,3) s2
    by (auto simp: to_backend_def from_backend_def same_bytes_def)
qed

lemma plain_session_completes_witness:
  "\<exists>s1. proxy_mtproto toy_proxy_env toy_mtproto (toy_options Classic) [1, 2] toy_session = (Some (Inr ()), s1)
     \<and> wi_sent (ss_upstream s1) = [1, 2, 3, 4, 5] \<and> wi_sent (ss_client s1) = [7, 8, 9]"
proof -
  have reps: "count_list (replicate n b) b = n" for n and b :: bool by (induction n) simp_all
  from reps [of 120 True] reps [of 120 False]
  have c: "6 * pe_fuel toy_proxy_env \<le> count_list (pe_schedule toy_proxy_env) True"
    "6 * pe_fuel toy_proxy_env \<le> count_list (pe_schedule toy_proxy_env) False"
    by (simp_all add: toy_proxy_env_def del: replicate.simps)
  have sent: "wi_sent toy_dc = []" "wi_sent (ss_client toy_session) = []" by (simp_all add: toy_defs)
  have mode: "po_mode (toy_options Classic) \<noteq> Ee" by (simp add: toy_options_def)
  have "\<exists>s1. proxy_mtproto toy_proxy_env toy_mtproto (toy_options Classic) [1, 2] toy_session = (Some (Inr ()), s1)
     \<and> wi_sent (ss_upstream s1) = wi_sent toy_dc @ [1, 2] @ [3, 4, 5] \<and> wi_sent (ss_client s1) = wi_sent (ss_client toy_session) @ [7, 8, 9]
     \<and> bytes_to_backend (ss_stats s1) = bytes_to_backend (ss_stats toy_session) + of_nat (length [1, 2 :: u8] + length [3, 4, 5 :: u8])
     \<and> bytes_from_backend (ss_stats s1) = bytes_from_backend (ss_stats toy_session) + of_nat (length [7, 8, 9 :: u8])
     \<and> ss_spawned s1 = ss_spawned toy_session"
  proof -
    have dial: "dialled toy_proxy_env (po_network (toy_options Classic)) (po_preferred (toy_options Classic)) toy_dc"
      by (simp add: toy_dials) (simp add: toy_options_def)
    have pool: "po_preferred (toy_options Classic) \<in> set (bp_backends (ss_pool toy_session))"
      "\<not> is_unhealthy (ss_now toy_session) (po_preferred (toy_options Classic)) (ss_pool toy_session)"
      by (simp_all add: toy_defs pool_from_config_def all_backends_def is_unhealthy_def)
    have talk: "talk (pe_fuel toy_proxy_env) (length [1, 2 :: u8] + length [3, 4, 5 :: u8]) [7, 8, 9] toy_dc"
      "talk (pe_fuel toy_proxy_env) (length [7, 8, 9 :: u8]) [3, 4, 5] (ss_client toy_session)"
      by (simp_all add: talk_def willing_def clean_script_def toy_defs list_all_iff)
    show ?thesis
      by (rule plain_session_completes [OF mode toy_gen_range pool dial talk c])
  qed
  then show ?thesis by (auto simp: sent)
qed

text \<open>
  The backend of a secret is used only if it is also one of the pool's: another one is never dialled, and
  every session of that secret is reported as a failover.
\<close>

lemma secret_backend_not_dialled:
  assumes "po_preferred opts \<notin> set (bp_backends (ss_pool s))"
    and "connect_pool env (po_network opts) (po_preferred opts) s = (Some (Inr b), s1)"
  shows "b \<noteq> po_preferred opts" "dispatch (po_webhooks opts) BackendFailover (Some [(''preferred'', po_preferred opts), (''connected'', b)]) (ss_now s1) = Some job \<Longrightarrow>
      ss_spawned (snd (failover_notice (po_webhooks opts) (po_preferred opts) b s1)) = ss_spawned s1 @ [job]"
  using assms connect_pool_cases [OF assms(2)] by (auto simp: failover_notice_def spawn_def)

end
