(* ===== verification/Steady_Streams.thy ===== *)
theory Steady_Streams
  imports Relay Obfuscated2 Fake_Tls_Stream
begin

text \<open>
  The streams of the ee sessions as ends of a relay. The contract \<open>steady\<close> is that of a stream over a socket
  that takes something whenever it is asked, until its script ends: \<open>took s c\<close> says that the stream has
  put exactly \<open>c\<close> on its way and will go on, \<open>dead s c\<close> that it has put \<open>c\<close> on its way and will take
  nothing more. Sockets and fake TLS streams keep it; an obfuscated2 stream over a steady stream, and a
  steady stream itself, are a \<open>duplex\<close>, so the relay theorems apply to them.
\<close>

text \<open>The answers of a writer.\<close>

lemma written_cases:
  obtains (Wrote) n where "p = Ready (Inr n)" | (Failed) k where "p = Ready (Inl k)" | (Waits) "p = (Pending :: (io_kind + nat) poll)"
  by (metis poll.exhaust sum.exhaust)

section \<open>The contract\<close>

locale steady =
  fixes rd :: "nat \<Rightarrow> 's \<Rightarrow> (io_kind + bytes) poll \<times> 's"
    and wr :: "bytes \<Rightarrow> 's \<Rightarrow> (io_kind + nat) poll \<times> 's"
    and fl :: "'s \<Rightarrow> (io_kind + unit) poll \<times> 's"
    and owes :: "'s \<Rightarrow> bytes \<Rightarrow> bool"
    and took :: "'s \<Rightarrow> bytes \<Rightarrow> bool"
    and dead :: "'s \<Rightarrow> bytes \<Rightarrow> bool"
  assumes rd_owes: "owes s d \<Longrightarrow> 0 < n \<Longrightarrow> rd n s = (r, s1) \<Longrightarrow>
      (\<exists>d1. owes s1 d1 \<and> d = polled r @ d1) \<and> (r = Ready (Inr []) \<longrightarrow> d = []) \<and> length (polled r) \<le> n"
    and rd_keeps: "rd n s = (r, s1) \<Longrightarrow> (took s c \<longrightarrow> took s1 c) \<and> (dead s c \<longrightarrow> dead s1 c)"
    and wr_took: "took s c \<Longrightarrow> bs \<noteq> [] \<Longrightarrow> wr bs s = (q, s1) \<Longrightarrow>
      (\<exists>n. q = Ready (Inr n) \<and> 0 < n \<and> n \<le> length bs \<and> (took s1 (c @ take n bs) \<or> dead s1 (c @ take n bs)))
      \<or> (q = Pending \<or> q = Ready (Inr 0)) \<and> dead s1 c"
    and wr_dead: "dead s c \<Longrightarrow> bs \<noteq> [] \<Longrightarrow> wr bs s = (q, s1) \<Longrightarrow> q = Pending \<and> dead s1 c"
    and wr_keeps: "owes s d \<Longrightarrow> wr bs s = (q, s1) \<Longrightarrow> owes s1 d"
    and fl_keeps: "fl s = (f, s1) \<Longrightarrow> (owes s d \<longrightarrow> owes s1 d) \<and> (took s c \<longrightarrow> took s1 c) \<and> (dead s c \<longrightarrow> dead s1 c)"
begin

definition io_steady :: "'s \<Rightarrow> bytes \<Rightarrow> bytes \<Rightarrow> bool" where
  "io_steady s d t \<longleftrightarrow> owes s d \<and> (took s t \<or> dead s t)"

lemma steady_duplex: "duplex rd wr fl io_steady"
proof (unfold_locales, goal_cases)
  case (1 s d t n r s1)
  then show ?case using rd_owes [OF _ 1(2,3)] rd_keeps [OF 1(3)] by (auto simp: io_steady_def)
next
  case (2 s d t bs q s1)
  have o: "owes s1 d" using wr_keeps 2 by (auto simp: io_steady_def)
  show ?case
  proof (cases "took s t")
    case True
    from wr_took [OF this 2(2,3)] o show ?thesis by (auto simp: io_steady_def)
  next
    case False
    then have "dead s t" using 2(1) by (simp add: io_steady_def)
    from wr_dead [OF this 2(2,3)] o show ?thesis by (auto simp: io_steady_def)
  qed
next
  case (3 s d t f s1)
  then show ?case using fl_keeps [OF 3(2)] by (auto simp: io_steady_def)
qed

text \<open>
  Obfuscated2 over it: what is on its way, with the encrypted bytes kept back, is the encryption of what
  was accepted.
\<close>

definition io_obf :: "keystream \<Rightarrow> cipher \<Rightarrow> 's obf_stream \<Rightarrow> bytes \<Rightarrow> bytes \<Rightarrow> bool" where
  "io_obf ks k0 s d t \<longleftrightarrow> owes_obf ks owes s d
     \<and> ((\<exists>c. took (ob_inner s) c \<and> c @ ob_pending s = crypt ks k0 t \<and> ob_enc s = advance (length t) k0)
        \<or> (\<exists>c. dead (ob_inner s) c \<and> prefix c (crypt ks k0 t)))"

definition live_obf :: "keystream \<Rightarrow> cipher \<Rightarrow> bytes \<Rightarrow> 's obf_stream \<Rightarrow> bool" where
  "live_obf ks k0 t s \<longleftrightarrow> (\<exists>c. took (ob_inner s) c \<and> c @ ob_pending s = crypt ks k0 t \<and> ob_enc s = advance (length t) k0)"

definition dead_obf :: "keystream \<Rightarrow> cipher \<Rightarrow> bytes \<Rightarrow> 's obf_stream \<Rightarrow> bool" where
  "dead_obf ks k0 t s \<longleftrightarrow> (\<exists>c. dead (ob_inner s) c \<and> prefix c (crypt ks k0 t))"

lemma io_obf_iff: "io_obf ks k0 s d t \<longleftrightarrow> owes_obf ks owes s d \<and> (live_obf ks k0 t s \<or> dead_obf ks k0 t s)"
  by (simp add: io_obf_def live_obf_def dead_obf_def)

lemma crypt_prefix: "prefix (crypt ks k0 t) (crypt ks k0 (t @ u))"
  by (simp add: crypt_append)

lemma dead_obf_more: "dead_obf ks k0 t s \<Longrightarrow> dead_obf ks k0 (t @ u) s"
  unfolding dead_obf_def using crypt_prefix prefix_order.trans by blast

text \<open>Sending what was kept back.\<close>

lemma drain_obf:
  assumes "drain_pending wr s = (r, s1)"
  shows "live_obf ks k0 t s \<Longrightarrow>
      (r = None \<and> (live_obf ks k0 t s1 \<or> dead_obf ks k0 t s1) \<and> ob_pending s1 = [])
      \<or> ((r = Some Pending \<or> r = Some (Ready (Inl WriteZero))) \<and> (live_obf ks k0 t s1 \<or> dead_obf ks k0 t s1))"
    and "dead_obf ks k0 t s \<Longrightarrow> dead_obf ks k0 t s1 \<and> (r = None \<and> ob_pending s1 = [] \<or> r = Some Pending)"
    and "owes_obf ks owes s d \<Longrightarrow> owes_obf ks owes s1 d" "ob_dec s1 = ob_dec s" "ob_enc s1 = ob_enc s"
proof -
  obtain q i where q: "wr (ob_pending s) (ob_inner s) = (q, i)" by fastforce
  have shape: "drain_pending wr s = (if ob_pending s = [] then (None, s) else (case q of
      Ready (Inr n) \<Rightarrow> if n = 0 then (Some (Ready (Inl WriteZero)), s\<lparr>ob_inner := i\<rparr>)
        else if n < length (ob_pending s) then (Some Pending, s\<lparr>ob_inner := i, ob_pending := drop n (ob_pending s)\<rparr>)
        else (None, s\<lparr>ob_inner := i, ob_pending := []\<rparr>)
    | Ready (Inl k) \<Rightarrow> (Some (Ready (Inl k)), s\<lparr>ob_inner := i\<rparr>)
    | Pending \<Rightarrow> (Some Pending, s\<lparr>ob_inner := i\<rparr>)))"
    by (simp add: drain_pending_def q)
  have inner: "s1 = s \<or> ob_inner s1 = i" and "ob_dec s1 = ob_dec s" "ob_enc s1 = ob_enc s"
    using assms unfolding shape by (auto split: if_splits poll.splits sum.splits)
  then show "ob_dec s1 = ob_dec s" "ob_enc s1 = ob_enc s" by simp_all
  show "owes_obf ks owes s1 d" if "owes_obf ks owes s d"
    using that inner \<open>ob_dec s1 = ob_dec s\<close> wr_keeps [OF _ q] by (auto simp: owes_obf_def)
  show "dead_obf ks k0 t s1 \<and> (r = None \<and> ob_pending s1 = [] \<or> r = Some Pending)" if d: "dead_obf ks k0 t s"
  proof (cases "ob_pending s = []")
    case True
    then show ?thesis using assms d unfolding shape by auto
  next
    case False
    obtain c where c: "dead (ob_inner s) c" "prefix c (crypt ks k0 t)" using d by (auto simp: dead_obf_def)
    from wr_dead [OF c(1) False q] have "r = Some Pending" "s1 = s\<lparr>ob_inner := i\<rparr>" "dead i c"
      using assms False unfolding shape by auto
    then show ?thesis using c(2) by (auto simp: dead_obf_def)
  qed
  show "(r = None \<and> (live_obf ks k0 t s1 \<or> dead_obf ks k0 t s1) \<and> ob_pending s1 = [])
      \<or> ((r = Some Pending \<or> r = Some (Ready (Inl WriteZero))) \<and> (live_obf ks k0 t s1 \<or> dead_obf ks k0 t s1))"
    if l: "live_obf ks k0 t s"
  proof (cases "ob_pending s = []")
    case True
    then show ?thesis using assms l unfolding shape by auto
  next
    case False
    obtain c where c: "took (ob_inner s) c" "c @ ob_pending s = crypt ks k0 t" "ob_enc s = advance (length t) k0"
      using l by (auto simp: live_obf_def)
    from wr_took [OF c(1) False q] consider
        (part) n where "q = Ready (Inr n)" "0 < n" "n \<le> length (ob_pending s)"
          "took i (c @ take n (ob_pending s)) \<or> dead i (c @ take n (ob_pending s))"
      | (stop) "q = Pending \<or> q = Ready (Inr 0)" "dead i c" by blast
    then show ?thesis
    proof cases
      case (part n)
      have s1: "s1 = s\<lparr>ob_inner := i, ob_pending := drop n (ob_pending s)\<rparr>"
        "r = (if n < length (ob_pending s) then Some Pending else None)"
        using assms part(1-3) False unfolding shape by (auto split: if_splits)
      have "(c @ take n (ob_pending s)) @ drop n (ob_pending s) = crypt ks k0 t" using c(2) by simp
      moreover from this have "prefix (c @ take n (ob_pending s)) (crypt ks k0 t)" by (metis prefixI)
      ultimately have "live_obf ks k0 t s1 \<or> dead_obf ks k0 t s1"
        using part(4) c(3) unfolding live_obf_def dead_obf_def s1(1) by auto
      then show ?thesis using s1 part(3) by (cases "n < length (ob_pending s)") auto
    next
      case stop
      have "prefix c (crypt ks k0 t)" using c(2) by (metis prefixI)
      then have "dead_obf ks k0 t s1" using stop assms False unfolding shape
        by (auto simp: dead_obf_def intro!: exI [of _ c])
      then show ?thesis using stop assms False unfolding shape by auto
    qed
  qed
qed

text \<open>A fresh buffer when nothing is kept back.\<close>

lemma fresh_obf:
  assumes "obf_poll_write ks wr bs s = (q, s1)" and "ob_pending s = []" and "bs \<noteq> []"
    and "live_obf ks k0 t s \<or> dead_obf ks k0 t s"
  shows "(live_obf ks k0 (t @ accepted_of bs q) s1 \<or> dead_obf ks k0 (t @ accepted_of bs q) s1)
    \<and> (\<forall>n. q = Ready (Inr n) \<longrightarrow> n \<le> length bs) \<and> (owes_obf ks owes s d \<longrightarrow> owes_obf ks owes s1 d)"
proof -
  let ?out = "crypt ks (ob_enc s) bs"
  have ne: "?out \<noteq> []" using assms(3) by (metis length_0_conv length_crypt)
  obtain p i where p: "wr ?out (ob_inner s) = (p, i)" by fastforce
  let ?e = "advance (length bs) (ob_enc s)"
  have "obf_poll_write ks wr bs s = (case p of
      Ready (Inr n) \<Rightarrow> if n = 0 then (Ready (Inl WriteZero), s\<lparr>ob_inner := i, ob_enc := ?e\<rparr>)
        else if n < length bs then (Ready (Inr (length bs)), s\<lparr>ob_inner := i, ob_enc := ?e, ob_pending := drop n ?out\<rparr>)
        else (Ready (Inr (length bs)), s\<lparr>ob_inner := i, ob_enc := ?e\<rparr>)
    | Ready (Inl k) \<Rightarrow> (Ready (Inl k), s\<lparr>ob_inner := i, ob_enc := ?e\<rparr>)
    | Pending \<Rightarrow> (Pending, s\<lparr>ob_inner := i, ob_enc := ?e, ob_pending := ?out\<rparr>))"
    using assms(2,3) p by (cases p rule: written_cases) (auto simp: obf_poll_write_def drain_pending_def apply_keystream_def)
  note shape = this [unfolded assms(1)]
  have i: "ob_inner s1 = i" "ob_dec s1 = ob_dec s" using shape by (auto split: poll.splits sum.splits if_splits)
  then have o: "owes_obf ks owes s d \<longrightarrow> owes_obf ks owes s1 d" using wr_keeps [OF _ p] by (auto simp: owes_obf_def)
  show ?thesis
  proof (cases "live_obf ks k0 t s")
    case False
    then obtain c where c: "dead (ob_inner s) c" "prefix c (crypt ks k0 t)" using assms(4) by (auto simp: dead_obf_def)
    from wr_dead [OF c(1) ne p] shape have "q = Pending" "dead_obf ks k0 t s1" using c(2) i by (auto simp: dead_obf_def)
    then show ?thesis using o by simp
  next
    case True
    then obtain c where c: "took (ob_inner s) c" "c = crypt ks k0 t" "ob_enc s = advance (length t) k0"
      using assms(2) by (auto simp: live_obf_def)
    have out: "c @ ?out = crypt ks k0 (t @ bs)" by (simp add: c(2,3) crypt_append)
    from wr_took [OF c(1) ne p] consider
        (part) n where "p = Ready (Inr n)" "0 < n" "n \<le> length bs" "took i (c @ take n ?out) \<or> dead i (c @ take n ?out)"
      | (stop) "p = Pending \<or> p = Ready (Inr 0)" "dead i c" by auto
    then show ?thesis
    proof cases
      case (part n)
      have q: "q = Ready (Inr (length bs))" and s1: "ob_pending s1 = drop n ?out" "ob_enc s1 = ?e"
        using shape part(1-3) assms(2) by (auto split: if_splits)
      have "(c @ take n ?out) @ drop n ?out = crypt ks k0 (t @ bs)" using out by simp
      moreover from this have "prefix (c @ take n ?out) (crypt ks k0 (t @ bs))" by (metis prefixI)
      moreover have "?e = advance (length (t @ bs)) k0" by (simp add: c(3))
      ultimately have "live_obf ks k0 (t @ bs) s1 \<or> dead_obf ks k0 (t @ bs) s1"
        using part(4) unfolding live_obf_def dead_obf_def i s1 by auto
      then show ?thesis using q o by simp
    next
      case stop
      have "accepted_of bs q = []" "\<forall>n. q \<noteq> Ready (Inr n)" using shape stop(1) by auto
      moreover have "dead_obf ks k0 t s1" using stop(2) c(2) i by (auto simp: dead_obf_def)
      ultimately show ?thesis using o by simp
    qed
  qed
qed

lemma write_obf:
  assumes "obf_poll_write ks wr bs s = (q, s1)" and "live_obf ks k0 t s \<or> dead_obf ks k0 t s"
  shows "(live_obf ks k0 (t @ accepted_of bs q) s1 \<or> dead_obf ks k0 (t @ accepted_of bs q) s1)
    \<and> (\<forall>n. q = Ready (Inr n) \<longrightarrow> n \<le> length bs) \<and> (owes_obf ks owes s d \<longrightarrow> owes_obf ks owes s1 d)"
proof -
  obtain r s2 where d: "drain_pending wr s = (r, s2)" by fastforce
  note dr = drain_obf [OF d]
  have keep: "live_obf ks k0 t s2 \<or> dead_obf ks k0 t s2" and o: "owes_obf ks owes s d \<longrightarrow> owes_obf ks owes s2 d"
    using dr(1,2) [of ks k0 t] dr(3) [of ks d] assms(2) by blast+
  show ?thesis
  proof (cases r)
    case (Some v)
    then have "v = Pending \<or> v = Ready (Inl WriteZero)" using dr(1,2) [of ks k0 t] assms(2) by auto
    moreover have "q = v" "s1 = s2" using assms(1) d Some by (simp_all add: obf_poll_write_def)
    ultimately show ?thesis using keep o by auto
  next
    case None
    then have p: "ob_pending s2 = []" using dr(1,2) [of ks k0 t] assms(2) by auto
    then have same: "obf_poll_write ks wr bs s2 = (q, s1)"
      using assms(1) d None by (simp add: obf_poll_write_def drain_pending_def [of _ s2])
    show ?thesis
    proof (cases "bs = []")
      case True
      then have "q = Ready (Inr 0)" "s1 = s2" using same p by (simp_all add: obf_poll_write_def drain_pending_def)
      then show ?thesis using keep o by simp
    next
      case False
      from fresh_obf [OF same p False keep, of d] o show ?thesis by blast
    qed
  qed
qed

lemma obf_duplex: "duplex (obf_poll_read ks rd) (obf_poll_write ks wr) (obf_poll_flush ks wr fl) (io_obf ks k0)"
proof (unfold_locales, goal_cases)
  case (1 s d t n r s1)
  have src: "byte_source rd owes" by unfold_locales (rule rd_owes)
  obtain p i where p: "rd n (ob_inner s) = (p, i)" by fastforce
  have "ob_inner s1 = i \<and> ob_pending s1 = ob_pending s \<and> ob_enc s1 = ob_enc s"
    using 1(3) p by (auto simp: obf_poll_read_def split: poll.splits sum.splits prod.splits)
  then have "live_obf ks k0 t s1 \<or> dead_obf ks k0 t s1"
    using 1(1) rd_keeps [OF p] unfolding io_obf_iff live_obf_def dead_obf_def by metis
  then show ?case using byte_source.obf_delivers [OF src _ 1(2,3), of d] 1(1) unfolding io_obf_iff by blast
next
  case (2 s d t bs q s1)
  then show ?case using write_obf [OF 2(3)] by (auto simp: io_obf_iff)
next
  case (3 s d t f s1)
  have inner: "io_obf ks k0 (x\<lparr>ob_inner := j\<rparr>) d t" if "io_obf ks k0 x d t" "fl (ob_inner x) = (g, j)" for x g j
    using that fl_keeps [OF that(2)] by (auto simp: io_obf_def owes_obf_def)
  show ?case
  proof (cases "ob_pending s = []")
    case True
    then show ?thesis using 3 inner by (auto simp: obf_poll_flush_def Let_def split: prod.splits)
  next
    case False
    obtain q s2 where w: "obf_poll_write ks wr [] s = (q, s2)" by fastforce
    have "accepted_of [] q = []" by (cases q rule: written_cases) simp_all
    then have "io_obf ks k0 s2 d t" using write_obf [OF w, of k0 t d] 3(1) by (auto simp: io_obf_iff)
    then show ?thesis using 3(2) False w inner
      by (auto simp: obf_poll_flush_def Let_def split: prod.splits poll.splits sum.splits)
  qed
qed

end

section \<open>Sockets\<close>

text \<open>A socket whose output is accepted until its script ends; \<open>pre\<close> is what was sent before.\<close>

definition wire_took :: "bytes \<Rightarrow> wire \<Rightarrow> bytes \<Rightarrow> bool" where
  "wire_took pre w c \<longleftrightarrow> accepting w \<and> wi_out w \<noteq> [] \<and> wi_sent w = pre @ c"

definition wire_dead :: "bytes \<Rightarrow> wire \<Rightarrow> bytes \<Rightarrow> bool" where
  "wire_dead pre w c \<longleftrightarrow> wi_out w = [] \<and> wi_sent w = pre @ c"

interpretation wire_steady: steady wire_read wire_write wire_flush owes_wire "wire_took pre" "wire_dead pre"
  for pre
proof (unfold_locales, goal_cases)
  case (1 s d n r s1)
  then show ?case by (rule wire_source.poll_delivers)
next
  case (2 n s r s1 c)
  then show ?case using wire_read_sent [OF 2] by (simp add: wire_took_def wire_dead_def accepting_def)
next
  case (3 s c bs q s1)
  then obtain n where "q = Ready (Inr n)" "0 < n" "n \<le> length bs" "wi_sent s1 = wi_sent s @ take n bs" "accepting s1"
    by (metis wire_took_def wire_write_accepting prod.inject)
  then show ?case using 3(1) by (auto simp: wire_took_def wire_dead_def)
next
  case (4 s c bs q s1)
  then show ?case by (auto simp: wire_dead_def wire_write_def)
next
  case (5 s d bs q s1)
  then show ?case using wire_write_in [OF 5(2)] by (simp add: owes_wire_def)
qed (simp add: wire_flush_def)

section \<open>Fake TLS streams\<close>

definition frames :: "bytes list \<Rightarrow> bytes" where
  "frames ps = concat (map (\<lambda>p. record_bytes (app_record p)) ps)"

lemma frames_simps [simp]: "frames [] = []" "frames (p # ps) = record_bytes (app_record p) @ frames ps"
    "frames (ps @ qs) = frames ps @ frames qs"
  by (simp_all add: frames_def)

definition fits :: "bytes \<Rightarrow> bool" where
  "fits p \<longleftrightarrow> p \<noteq> [] \<and> length p \<le> max_tls_payload"

text \<open>The writing side of the stream; reading does not touch it.\<close>

definition keeps_out :: "fake_tls \<Rightarrow> fake_tls \<Rightarrow> bool" where
  "keeps_out s s1 \<longleftrightarrow> ft_out s1 = ft_out s \<and> ft_sent s1 = ft_sent s \<and> ft_write_opts s1 = ft_write_opts s"

lemma keeps_out_refl [simp]: "keeps_out s s" by (simp add: keeps_out_def)
lemma keeps_out_trans: "keeps_out a b \<Longrightarrow> keeps_out b c \<Longrightarrow> keeps_out a c" by (simp add: keeps_out_def)
lemma keeps_out_upd [simp]: "keeps_out a (b\<lparr>ft_stash := x\<rparr>) = keeps_out a b"
    "keeps_out a (b\<lparr>ft_read_buf := y\<rparr>) = keeps_out a b" "keeps_out a (b\<lparr>ft_in := z\<rparr>) = keeps_out a b"
    "keeps_out (a\<lparr>ft_stash := x\<rparr>) b = keeps_out a b"
  by (simp_all add: keeps_out_def)

lemma fill_keeps_out: "poll_fill_tls_stash s = (r, s1) \<Longrightarrow> keeps_out s s1"
  by (auto simp: poll_fill_tls_stash_def split: prod.splits poll.splits sum.splits)

lemma resync_keeps_out: "keeps_out s (resync s)"
  by (simp add: resync_def split: option.split)

lemma stash_loop_keeps_out: "stash_loop s = (x, s1) \<Longrightarrow> keeps_out s s1"
proof (induction s rule: stash_loop.induct)
  case (1 s)
  define pl where "pl = be16 (ft_stash s ! 3) (ft_stash s ! 4)"
  show ?case
  proof (cases "length (ft_stash s) < 5 \<or> max_tls_payload + 2048 < pl")
    case True
    then show ?thesis using "1.prems" by (auto simp: stash_loop.simps [of s] Let_def pl_def split: if_splits)
  next
    case False
    then have g: "\<not> length (ft_stash s) < 5" "\<not> max_tls_payload + 2048 < pl" by simp_all
    show ?thesis
    proof (cases "5 + pl \<le> length (ft_stash s)")
      case full: True
      let ?s1 = "s\<lparr>ft_stash := drop (5 + pl) (ft_stash s)\<rparr>"
      show ?thesis
      proof (cases "ft_stash s ! 0 = tls_application_data")
        case True
        with "1.prems" g full show ?thesis by (auto simp: stash_loop.simps [of s] Let_def pl_def)
      next
        case nd: False
        then have "stash_loop ?s1 = (x, s1)" using "1.prems" g full by (simp add: stash_loop.simps [of s] Let_def pl_def)
        from "1.IH"(1) [OF g(1) pl_def refl g(2) full refl nd this] show ?thesis by simp
      qed
    next
      case part: False
      obtain r s2 where f: "poll_fill_tls_stash s = (r, s2)" by fastforce
      note k = fill_keeps_out [OF f]
      let ?s3 = "s2\<lparr>ft_stash := abandon_incomplete_handshake (ft_stash s2) (length (ft_stash s))\<rparr>"
      show ?thesis
      proof (cases "\<exists>n. r = Ready (Inr n) \<and> n \<noteq> 0 \<and> length (ft_stash ?s3) \<noteq> length (ft_stash s)")
        case True
        then obtain n where n: "r = Ready (Inr n)" "n \<noteq> 0" "length (ft_stash ?s3) \<noteq> length (ft_stash s)" by blast
        then have "stash_loop ?s3 = (x, s1)"
          using "1.prems" g part f by (simp add: stash_loop.simps [of s] Let_def pl_def)
        from "1.IH"(2) [OF g(1) pl_def refl g(2) part f [unfolded n(1), symmetric] refl refl n(2) refl n(3) this]
        show ?thesis using k keeps_out_trans by fastforce
      next
        case False
        then show ?thesis using "1.prems" g part f k
          by (cases r rule: written_cases) (auto simp: stash_loop.simps [of s] Let_def pl_def split: if_splits)
      qed
    qed
  qed
qed

lemma poll_read_keeps_out: "poll_read n s = (r, s1) \<Longrightarrow> keeps_out s s1"
proof (induction n s rule: poll_read.induct)
  case (1 n s)
  show ?case
  proof (cases "ft_read_buf s = []")
    case False
    then show ?thesis using "1.prems" by (auto simp: poll_read.simps [of n s])
  next
    case empty: True
    then have e: "\<not> ft_read_buf s \<noteq> []" by simp
    obtain x s2 where l: "stash_loop s = (x, s2)" by fastforce
    note k = stash_loop_keeps_out [OF l]
    show ?thesis
    proof (cases "x = Leave \<and> ft_read_buf s2 = []")
      case False
      then show ?thesis using "1.prems" empty l k
        by (cases x) (auto simp: poll_read.simps [of n s] split: poll.splits sum.splits)
    next
      case True
      then have x: "(Leave, s2) = stash_loop s" "\<not> ft_read_buf s2 \<noteq> []" using l by simp_all
      show ?thesis
      proof (cases "length (ft_stash s2) < 5")
        case long: False
        then have "poll_read n (resync s2) = (r, s1)" using "1.prems" empty l True by (simp add: poll_read.simps [of n s])
        from "1.IH"(2) [OF e x(1) refl x(2) long this] show ?thesis
          using k resync_keeps_out keeps_out_trans by blast
      next
        case short: True
        obtain q s3 where f: "poll_fill_tls_stash s2 = (q, s3)" by fastforce
        have k3: "keeps_out s s3" using k fill_keeps_out [OF f] keeps_out_trans by blast
        show ?thesis
        proof (cases "\<exists>m. q = Ready (Inr m) \<and> m \<noteq> 0")
          case False
          then show ?thesis using "1.prems" empty l True short f k3
            by (cases q rule: written_cases) (auto simp: poll_read.simps [of n s] split: if_splits)
        next
          case True
          then obtain m where m: "q = Ready (Inr m)" "m \<noteq> 0" by blast
          then have "poll_read n (resync s3) = (r, s1)"
            using "1.prems" empty l \<open>x = Leave \<and> ft_read_buf s2 = []\<close> short f by (simp add: poll_read.simps [of n s])
          from "1.IH"(1) [OF e x(1) refl x(2) short f [unfolded m(1), symmetric] refl refl m(2) this] show ?thesis
            using k3 resync_keeps_out keeps_out_trans by blast
        qed
      qed
    qed
  qed
qed

text \<open>The reading side; writing does not touch it.\<close>

definition keeps_in :: "fake_tls \<Rightarrow> fake_tls \<Rightarrow> bool" where
  "keeps_in s s1 \<longleftrightarrow> ft_in s1 = ft_in s \<and> ft_stash s1 = ft_stash s \<and> ft_read_buf s1 = ft_read_buf s"

lemma owes_keeps_in: "keeps_in s s1 \<Longrightarrow> owes_ft s d \<Longrightarrow> owes_ft s1 d"
  by (auto simp: owes_ft_def carries_def content_def keeps_in_def)

definition obliging :: "fake_tls \<Rightarrow> bool" where
  "obliging s \<longleftrightarrow> list_all (\<lambda>e. case e of WAccept n \<Rightarrow> 0 < n | _ \<Rightarrow> False) (ft_out s)"

lemma send_record_obliging:
  "send_record rec k s = (x, s1) \<Longrightarrow> k \<le> length rec \<Longrightarrow> obliging s \<Longrightarrow>
   obliging s1 \<and> keeps_in s s1 \<and> ft_write_opts s1 = ft_write_opts s
   \<and> (x = Sent \<and> ft_sent s1 = ft_sent s @ drop k rec
      \<or> (\<exists>w. x = Stalled w \<and> k \<le> w \<and> w < length rec \<and> ft_out s1 = [] \<and> ft_sent s1 = ft_sent s @ take (w - k) (drop k rec)))"
proof (induction rec k s rule: send_record.induct)
  case (1 rec k s)
  show ?case
  proof (cases "k < length rec")
    case False
    with "1.prems" show ?thesis by (auto simp: send_record.simps keeps_in_def)
  next
    case more: True
    show ?thesis
    proof (cases "ft_out s")
      case Nil
      then show ?thesis using "1.prems" more by (auto simp: send_record.simps [of rec k] keeps_in_def obliging_def)
    next
      case (Cons e es)
      then obtain m where e: "e = WAccept m" "0 < m" using "1.prems"(3) by (cases e) (auto simp: obliging_def)
      define n where "n = min m (length rec - k)"
      have n: "n \<noteq> 0" "k + n \<le> length rec" using more e(2) by (auto simp: n_def)
      let ?b = "take n (drop k rec)"
      have w: "inner_write (drop k rec) (ft_out s) = (Ready (Inr n), ?b, es)" by (simp add: Cons e n_def)
      let ?s = "s\<lparr>ft_out := es, ft_sent := ft_sent s @ ?b\<rparr>"
      have rec: "send_record rec (k + n) ?s = (x, s1)" using "1.prems"(1) more w n(1) by (simp add: send_record.simps [of rec k])
      have "obliging ?s" using "1.prems"(3) Cons by (simp add: obliging_def)
      note IH = "1.IH" [OF more w [symmetric] refl refl refl n(1) rec n(2) this]
      have "?b @ drop (k + n) rec = drop k rec" by (metis append_take_drop_id drop_drop add.commute)
      moreover have "?b @ take (v - (k + n)) (drop (k + n) rec) = take (v - k) (drop k rec)" if "k + n \<le> v" for v
        using that by (metis add.commute diff_diff_left drop_drop le_add_diff_inverse2 le_diff_conv2 le_add1 add_leD1 take_add)
      ultimately show ?thesis using IH by (auto simp: keeps_in_def)
    qed
  qed
qed

text \<open>What was sent since \<open>pre\<close>: complete records for \<open>c\<close>, and possibly the beginning of one more.\<close>

definition framed :: "bytes \<Rightarrow> bytes \<Rightarrow> bytes \<Rightarrow> bool" where
  "framed pre sent c \<longleftrightarrow> (\<exists>ps. sent = pre @ frames ps \<and> concat ps = c \<and> list_all fits ps)"

definition cut_short :: "bytes \<Rightarrow> bytes \<Rightarrow> bytes \<Rightarrow> bool" where
  "cut_short pre sent c \<longleftrightarrow> (\<exists>ps junk p. sent = pre @ frames ps @ junk \<and> concat ps = c \<and> list_all fits ps
     \<and> fits p \<and> strict_prefix junk (record_bytes (app_record p)))"

lemma framed_nil [simp]: "framed pre pre []"
  by (auto simp: framed_def intro: exI [of _ "[]"])

lemma framed_then:
  assumes "framed a b c"
  shows "framed b x d \<Longrightarrow> framed a x (c @ d)" "cut_short b x d \<Longrightarrow> cut_short a x (c @ d)"
proof -
  obtain ps where ps: "b = a @ frames ps" "concat ps = c" "list_all fits ps" using assms by (auto simp: framed_def)
  show "framed a x (c @ d)" if f: "framed b x d"
  proof -
    obtain qs where "x = b @ frames qs" "concat qs = d" "list_all fits qs" using f unfolding framed_def by blast
    then show ?thesis unfolding framed_def using ps by (intro exI [of _ "ps @ qs"]) simp
  qed
  show "cut_short a x (c @ d)" if f: "cut_short b x d"
  proof -
    obtain qs junk p where "x = b @ frames qs @ junk" "concat qs = d" "list_all fits qs" "fits p"
      "strict_prefix junk (record_bytes (app_record p))" using f unfolding cut_short_def by blast
    then show ?thesis unfolding cut_short_def using ps
      by (intro exI [of _ "ps @ qs"] exI [of _ junk] exI [of _ p]) simp
  qed
qed

lemma framed_cut: "framed a b c \<Longrightarrow> cut_short a b c"
  unfolding framed_def cut_short_def
  by (elim exE, rule_tac x = ps in exI, rule exI [of _ "[]"], rule exI [of _ "[0]"])
    (auto simp: fits_def max_tls_payload_def record_bytes_def strict_prefix_def app_record_def)

lemma framed_one: "fits p \<Longrightarrow> framed a (a @ record_bytes (app_record p)) p"
  unfolding framed_def by (intro exI [of _ "[p]"]) simp

lemma cut_one: "fits p \<Longrightarrow> w < length (record_bytes (app_record p)) \<Longrightarrow>
    cut_short a (a @ take w (record_bytes (app_record p))) []"
  unfolding cut_short_def
  by (intro exI [of _ "[]"] exI [of _ "take w (record_bytes (app_record p))"] exI [of _ p])
    (auto simp: strict_prefix_def take_is_prefix dest: arg_cong [of _ _ length])

definition partly_written :: "bytes \<Rightarrow> nat \<Rightarrow> fake_tls \<Rightarrow> (io_kind + nat) poll \<Rightarrow> fake_tls \<Rightarrow> bool" where
  "partly_written buf k s q s1 \<longleftrightarrow>
     (q = Ready (Inr (length buf)) \<and> framed (ft_sent s) (ft_sent s1) (drop k buf))
     \<or> ft_out s1 = [] \<and> (\<exists>n. k \<le> n \<and> n < length buf \<and> (q = Ready (Inr n) \<or> q = Pending \<and> n = 0)
          \<and> cut_short (ft_sent s) (ft_sent s1) (take (n - k) (drop k buf)))"

lemma partly_written_then:
  assumes "framed (ft_sent s) (ft_sent s3) p" and "partly_written buf (k + n) s3 q s1"
    and "p @ drop (k + n) buf = drop k buf" and "length p = n" and "k + n \<le> length buf"
  shows "partly_written buf k s q s1"
proof (cases "q = Ready (Inr (length buf)) \<and> framed (ft_sent s3) (ft_sent s1) (drop (k + n) buf)")
  case True
  then show ?thesis using framed_then(1) [OF assms(1)] assms(3) by (fastforce simp: partly_written_def)
next
  case False
  then obtain m where m: "ft_out s1 = []" "k + n \<le> m" "m < length buf" "q = Ready (Inr m) \<or> q = Pending \<and> m = 0"
      "cut_short (ft_sent s3) (ft_sent s1) (take (m - (k + n)) (drop (k + n) buf))"
    using assms(2) unfolding partly_written_def by blast
  have "p @ take (m - (k + n)) (drop (k + n) buf) = take (m - k) (drop k buf)"
    using m(2) assms(4) by (simp flip: assms(3))
  then have "cut_short (ft_sent s) (ft_sent s1) (take (m - k) (drop k buf))" using framed_then(2) [OF assms(1) m(5)] by simp
  then show ?thesis unfolding partly_written_def using m(1-4) by (intro disjI2) auto
qed

lemma poll_write_loop_obliging:
  "poll_write_loop rng buf k s = (q, s1) \<Longrightarrow> unpadded s \<Longrightarrow> k \<le> length buf \<Longrightarrow> obliging s \<Longrightarrow>
   unpadded s1 \<and> obliging s1 \<and> keeps_in s s1 \<and> partly_written buf k s q s1"
proof (induction rng buf k s rule: poll_write_loop.induct)
  case (1 rng buf k s)
  show ?case
  proof (cases "k < length buf")
    case False
    with "1.prems" show ?thesis by (auto simp: poll_write_loop.simps partly_written_def keeps_in_def)
  next
    case True
    obtain n s2 where c: "next_chunk_size (length buf - k) s = (n, s2)" by fastforce
    have s2: "unpadded s2" "ft_sent s2 = ft_sent s" "obliging s2" "keeps_in s s2"
      using c "1.prems"(2,4)
      by (auto simp: unpadded_def obliging_def keeps_in_def next_chunk_size_def Let_def split: option.splits if_splits)
    have bn: "0 < n" "k + n \<le> length buf" "n \<le> max_tls_payload" using next_chunk_size_bounds [OF _ c] True by auto
    let ?p = "slice buf k n"
    have fp: "fits ?p" using bn by (simp add: fits_def slice_def)
    obtain x s3 where sr: "send_record (record_bytes (app_record ?p)) 0 s2 = (x, s3)" by fastforce
    have whole: "poll_write_loop rng buf k s = (case x of Failed e \<Rightarrow> (Ready (Inl e), s3)
        | Stalled w \<Rightarrow> if 0 < k \<or> 0 < w then (Ready (Inr k), s3) else (Pending, s3)
        | Sent \<Rightarrow> poll_write_loop rng buf (k + n) s3)"
      using True c by (simp add: poll_write_loop.simps [of rng buf k] unpadded_payload [OF s2(1)] app_record_bytes sr
          split: record_exit.splits)
    note so = send_record_obliging [OF sr _ s2(3), simplified]
    have s3: "unpadded s3" "obliging s3" "keeps_in s s3" using so s2(1,4) by (auto simp: unpadded_def keeps_in_def)
    show ?thesis
    proof (cases x)
      case Sent
      have rest: "poll_write_loop rng buf (k + n) s3 = (q, s1)" using whole "1.prems"(1) Sent by simp
      have sr': "send_record (write_tls_record [] tls_application_data ?p) 0 s2 = (Sent, s3)"
        using sr Sent by (simp add: app_record_bytes)
      have fr: "framed (ft_sent s) (ft_sent s3) ?p" using so Sent s2(2) framed_one [OF fp] by simp
      note IH = "1.IH" [OF True refl c [symmetric] refl refl refl unpadded_payload [OF s2(1), symmetric] refl
          sr' [symmetric] refl rest s3(1) bn(2) s3(2)]
      have pre: "?p @ drop (k + n) buf = drop k buf" unfolding slice_def by (metis append_take_drop_id drop_drop add.commute)
      have lp: "length ?p = n" using bn by (simp add: slice_def)
      have "partly_written buf k s q s1"
        by (rule partly_written_then [OF fr _ pre lp bn(2)]) (use IH in simp)
      then show ?thesis using IH s3(3) by (simp add: keeps_in_def)
    next
      case (Stalled w)
      then have q: "s1 = s3" "q = Ready (Inr k) \<or> q = Pending \<and> k = 0" using whole "1.prems"(1) by (auto split: if_splits)
      have "cut_short (ft_sent s) (ft_sent s3) []" "ft_out s3 = []" using so Stalled s2(2) cut_one [OF fp] by auto
      then have "partly_written buf k s q s1" unfolding partly_written_def q(1) using q(2) True by (intro disjI2) auto
      then show ?thesis using s3 q(1) by simp
    qed (use so in auto)
  qed
qed

definition ft_took :: "bytes \<Rightarrow> fake_tls \<Rightarrow> bytes \<Rightarrow> bool" where
  "ft_took pre s c \<longleftrightarrow> unpadded s \<and> obliging s \<and> ft_out s \<noteq> [] \<and> framed pre (ft_sent s) c"

definition ft_dead :: "bytes \<Rightarrow> fake_tls \<Rightarrow> bytes \<Rightarrow> bool" where
  "ft_dead pre s c \<longleftrightarrow> unpadded s \<and> ft_out s = [] \<and> cut_short pre (ft_sent s) c"

lemma ft_write_took:
  assumes "ft_took pre s c" and "bs \<noteq> []" and "poll_write rng bs s = (q, s1)"
  shows "(\<exists>n. q = Ready (Inr n) \<and> 0 < n \<and> n \<le> length bs \<and> (ft_took pre s1 (c @ take n bs) \<or> ft_dead pre s1 (c @ take n bs)))
      \<or> (q = Pending \<or> q = Ready (Inr 0)) \<and> ft_dead pre s1 c"
proof -
  have w: "unpadded s1" "obliging s1" "partly_written bs 0 s q s1" and f: "framed pre (ft_sent s) c"
    using poll_write_loop_obliging [OF assms(3) [unfolded poll_write_def]] assms(1) by (simp_all add: ft_took_def)
  consider (all) "q = Ready (Inr (length bs))" "framed (ft_sent s) (ft_sent s1) bs"
    | (part) n where "ft_out s1 = []" "n < length bs" "q = Ready (Inr n) \<or> q = Pending \<and> n = 0"
        "cut_short (ft_sent s) (ft_sent s1) (take n bs)"
    using w(3) unfolding partly_written_def by auto
  then show ?thesis
  proof cases
    case all
    have fr: "framed pre (ft_sent s1) (c @ bs)" by (rule framed_then(1) [OF f all(2)])
    have "ft_took pre s1 (c @ bs) \<or> ft_dead pre s1 (c @ bs)"
      using w(1,2) fr framed_cut [OF fr] by (simp add: ft_took_def ft_dead_def)
    then show ?thesis using all(1) assms(2) by simp
  next
    case part
    have "ft_dead pre s1 (c @ take n bs)" using framed_then(2) [OF f part(4)] w(1) part(1) by (simp add: ft_dead_def)
    then show ?thesis using part(2,3) by (cases "n = 0") auto
  qed
qed

text \<open>With nothing accepted any more, not a byte of a record is sent.\<close>

lemma ft_write_dead:
  assumes "ft_dead pre s c" and "bs \<noteq> []" and "poll_write rng bs s = (q, s1)"
  shows "q = Pending \<and> ft_dead pre s1 c"
proof -
  obtain n s2 where c: "next_chunk_size (length bs) s = (n, s2)" by fastforce
  have s2: "unpadded s2" "ft_sent s2 = ft_sent s" "ft_out s2 = []"
    using c assms(1) by (auto simp: ft_dead_def unpadded_def next_chunk_size_def Let_def split: option.splits if_splits)
  have "send_record rec 0 s2 = (if rec = [] then Sent else Stalled 0, s2)" for rec
    using s2(3) by (simp add: send_record.simps [of rec])
  then have "q = Pending" "s1 = s2"
    using assms(2,3) c unfolding poll_write_def
    by (simp_all add: poll_write_loop.simps [of rng bs 0] unpadded_payload [OF s2(1)] write_tls_record_def)
  then show ?thesis using assms(1) s2 by (simp add: ft_dead_def)
qed

lemma keeps_in_trans: "keeps_in a b \<Longrightarrow> keeps_in b c \<Longrightarrow> keeps_in a c" by (simp add: keeps_in_def)

lemma send_record_keeps_in: "send_record rec k s = (x, s1) \<Longrightarrow> keeps_in s s1"
proof (induction rec k s rule: send_record.induct)
  case (1 rec k s)
  obtain r bs es where w: "inner_write (drop k rec) (ft_out s) = (r, bs, es)" by (rule prod_cases3)
  let ?s = "s\<lparr>ft_out := es, ft_sent := ft_sent s @ bs\<rparr>"
  have ks: "keeps_in s ?s" "keeps_in s s" by (simp_all add: keeps_in_def)
  show ?case
  proof (cases "k < length rec \<and> (\<exists>n. r = Ready (Inr n) \<and> n \<noteq> 0)")
    case True
    then obtain n where n: "k < length rec" "r = Ready (Inr n)" "n \<noteq> 0" by blast
    then have "send_record rec (k + n) ?s = (x, s1)" using "1.prems" w by (simp add: send_record.simps [of rec k])
    from "1.IH" [OF n(1) w [unfolded n(2), symmetric] refl refl refl n(3) this] show ?thesis by (rule keeps_in_trans [OF ks(1)])
  next
    case False
    then show ?thesis using "1.prems" w ks
      by (cases r rule: written_cases) (auto simp: send_record.simps [of rec k] split: if_splits)
  qed
qed

lemma write_loop_keeps_in: "poll_write_loop rng buf k s = (q, s1) \<Longrightarrow> keeps_in s s1"
proof (induction rng buf k s rule: poll_write_loop.induct)
  case (1 rng buf k s)
  obtain n s2 where c: "next_chunk_size (length buf - k) s = (n, s2)" by fastforce
  obtain p s3 where m: "maybe_pad_payload rng (slice buf k n) s2 = (p, s3)" by fastforce
  obtain x s4 where sr: "send_record (write_tls_record [] tls_application_data p) 0 s3 = (x, s4)" by fastforce
  have "keeps_in s s2" using c by (auto simp: keeps_in_def next_chunk_size_def Let_def split: option.splits if_splits)
  moreover have "keeps_in s2 s3" using m by (auto simp: keeps_in_def maybe_pad_payload_def Let_def split: option.splits if_splits)
  moreover note send_record_keeps_in [OF sr]
  ultimately have k4: "keeps_in s s4" by (simp add: keeps_in_def)
  show ?case
  proof (cases "k < length buf \<and> x = Sent")
    case True
    then have g: "k < length buf" "x = Sent" by simp_all
    then have "poll_write_loop rng buf (k + n) s4 = (q, s1)"
      using "1.prems" c m sr by (simp add: poll_write_loop.simps [of rng buf k])
    from "1.IH" [OF g(1) refl c [symmetric] refl refl refl m [symmetric] refl sr [unfolded g(2), symmetric] refl this]
    show ?thesis by (rule keeps_in_trans [OF k4])
  next
    case False
    have "poll_write_loop rng buf k s = (if k < length buf then case x of Failed e \<Rightarrow> (Ready (Inl e), s4)
        | Stalled w \<Rightarrow> if 0 < k \<or> 0 < w then (Ready (Inr k), s4) else (Pending, s4)
        | Sent \<Rightarrow> poll_write_loop rng buf (k + n) s4 else (Ready (Inr (length buf)), s))"
      by (subst poll_write_loop.simps) (simp add: c m sr split: record_exit.splits)
    then have "s1 = s4 \<or> s1 = s" using "1.prems" False by (cases x) (auto split: if_splits)
    then show ?thesis using k4 by (auto simp: keeps_in_def)
  qed
qed

lemma ft_write_keeps_in: "poll_write rng bs s = (q, s1) \<Longrightarrow> keeps_in s s1"
  unfolding poll_write_def by (rule write_loop_keeps_in)

interpretation ft_steady: steady poll_read "poll_write rng" "\<lambda>s. (Ready (Inr ()), s)" owes_ft "ft_took pre" "ft_dead pre"
  for rng pre
proof (unfold_locales, goal_cases)
  case (1 s d n r s1)
  then show ?case by (rule ft_source.poll_delivers)
next
  case (2 n s r s1 c)
  then show ?case using poll_read_keeps_out [OF 2]
    by (auto simp: ft_took_def ft_dead_def keeps_out_def unpadded_def obliging_def)
next
  case (3 s c bs q s1)
  then show ?case by (rule ft_write_took)
next
  case (4 s c bs q s1)
  then show ?case by (rule ft_write_dead)
next
  case (5 s d bs q s1)
  then show ?case using owes_keeps_in [OF ft_write_keeps_in] by blast
qed simp

end
