(* ===== verification/Ee_Session.thy ===== *)
theory Ee_Session
  imports Proxy_Session Steady_Streams
begin

text \<open>
  The session of an ee secret end to end (\<^verbatim>\<open>proxy_mtproto_ee\<close> and \<^verbatim>\<open>relay_ee_streams\<close> of
  \<^verbatim>\<open>src/proxy.rs\<close>): ServerHello, obfuscated2 inside the fake TLS records of the client, a second
  obfuscated2 layer to the data centre. The two obfuscated streams are interpreted as the ends of a relay,
  and what either peer receives is related to the plaintext of the other.
\<close>

section \<open>The two ends\<close>

interpretation ft_obf: duplex "obf_poll_read ks poll_read" "obf_poll_write ks (poll_write rng)"
    "obf_poll_flush ks (poll_write rng) ft_flush" "steady.io_obf owes_ft (ft_took pre) (ft_dead pre) ks k0"
  for ks k0 rng pre
  using ft_steady.obf_duplex [of ks rng pre k0] by (simp add: ft_flush_def [abs_def])

interpretation tcp_obf: duplex "obf_poll_read ks wire_read" "obf_poll_write ks wire_write"
    "obf_poll_flush ks wire_write wire_flush" "steady.io_obf owes_wire (wire_took pre) (wire_dead pre) ks k0"
  for ks k0 pre
  by (rule wire_steady.obf_duplex)

interpretation ee_relay: relay_pair "obf_poll_read ks poll_read" "obf_poll_write ks (poll_write rng)"
    "obf_poll_flush ks (poll_write rng) ft_flush" "steady.io_obf owes_ft (ft_took pre) (ft_dead pre) ks k0"
    "obf_poll_read ks wire_read" "obf_poll_write ks wire_write"
    "obf_poll_flush ks wire_write wire_flush" "steady.io_obf owes_wire (wire_took pre') (wire_dead pre') ks k0'"
  for ks k0 rng pre k0' pre'
  by unfold_locales

lemma obf_end_eq: "obf_end ks (fake_tls_end rng) = \<lparr>ep_read = obf_poll_read ks poll_read,
      ep_write = obf_poll_write ks (poll_write rng), ep_flush = obf_poll_flush ks (poll_write rng) ft_flush\<rparr>"
    "obf_end ks tcp = \<lparr>ep_read = obf_poll_read ks wire_read, ep_write = obf_poll_write ks wire_write,
      ep_flush = obf_poll_flush ks wire_write wire_flush\<rparr>"
  by (simp_all add: obf_end_def fake_tls_end_def tcp_def)

section \<open>What a session moves\<close>

text \<open>
  \<open>D\<close> is what the client sends inside its records, \<open>E\<close> what the data centre sends. Apart from the relay
  header, the data centre receives a front of the plaintext of the client, encrypted for it, and the
  records of the client carry a front of the plaintext of the data centre, encrypted for the client.
\<close>

definition bridged :: "keystream \<Rightarrow> cipher \<Rightarrow> relay_keys \<Rightarrow> bytes \<Rightarrow> bytes \<Rightarrow> (nat \<times> nat) option \<Rightarrow> bytes \<Rightarrow> bytes \<Rightarrow> bool" where
  "bridged ks for_client keys plain E tally to_client to_dc \<longleftrightarrow>
     (\<exists>up down carried. prefix to_dc (crypt ks (rk_enc keys) up) \<and> prefix up plain
        \<and> cut_short [] to_client carried \<and> prefix carried (crypt ks for_client down) \<and> prefix down (crypt ks (rk_dec keys) E)
        \<and> (\<forall>m n. tally = Some (m, n) \<longrightarrow> (0 < m \<longrightarrow> up = plain \<and> m = length plain)
             \<and> (0 < n \<longrightarrow> down = crypt ks (rk_dec keys) E \<and> n = length E)))"

definition ee_moved :: "proxy_env \<Rightarrow> bytes \<Rightarrow> string \<Rightarrow> bytes \<Rightarrow> bytes \<Rightarrow> (nat \<times> nat) option \<Rightarrow> bytes \<Rightarrow> bytes \<Rightarrow> bool" where
  "ee_moved env secret preferred D E tally to_client to_dc \<longleftrightarrow>
     to_client = [] \<and> to_dc = [] \<and> tally = None
     \<or> (\<exists>hd keys dc tag. 64 \<le> length D
          \<and> handshake_dc_index (ce_sha (pe_crypto env)) (ce_ks (pe_crypto env)) (take 64 D) secret = Some dc
          \<and> handshake_proto_tag (ce_sha (pe_crypto env)) (ce_ks (pe_crypto env)) (take 64 D) secret = Some tag
          \<and> generate_relay_init (ce_ks (pe_crypto env)) (pe_draws env) (if dc \<noteq> 0 then dc else dc_id_from_backend preferred) tag
              = Some (Inr (hd, keys))
          \<and> (to_client = [] \<and> prefix to_dc hd \<and> tally = None
             \<or> (\<exists>rest. to_dc = hd @ rest \<and>
                bridged (ce_ks (pe_crypto env)) (client_cipher (ce_sha (pe_crypto env)) (rev (take 64 D)) secret) keys
                  (crypt (ce_ks (pe_crypto env)) (advance 64 (client_cipher (ce_sha (pe_crypto env)) (take 64 D) secret)) (drop 64 D))
                  E tally to_client rest)))"

section \<open>The relay\<close>

lemma cut_short_shift: "cut_short pre (pre @ x) c \<longleftrightarrow> cut_short [] x c"
  by (simp add: cut_short_def)

lemma cut_short_ext: "cut_short pre x c \<Longrightarrow> \<exists>y. x = pre @ y \<and> cut_short [] y c"
  by (auto simp: cut_short_def)

lemma write_all_accepting:
  "accepting w \<Longrightarrow> write_all fuel wire_write bs w = (r, w1) \<Longrightarrow> accepting w1"
proof (induction fuel arbitrary: bs w)
  case (Suc fuel)
  have keep: "accepting w2" if "wire_write bs w = (p, w2)" for p w2
    using that Suc.prems(1) by (cases "(bs, wi_out w)" rule: inner_write.cases) (auto simp: wire_write_def accepting_def)
  obtain p w2 where p: "wire_write bs w = (p, w2)" by fastforce
  show ?case
    using Suc.prems Suc.IH [OF keep [OF p]] keep [OF p] p
    by (cases p rule: written_cases) (auto split: if_splits)
qed simp

lemma ft_ready:
  assumes "unpadded t" and "obliging t"
  shows "ft_took (ft_sent t) t [] \<or> ft_dead (ft_sent t) t []"
  using assms framed_cut [OF framed_nil] by (auto simp: ft_took_def ft_dead_def)

lemma wire_ready: "accepting w \<Longrightarrow> wire_took (wi_sent w) w [] \<or> wire_dead (wi_sent w) w []"
  by (auto simp: wire_took_def wire_dead_def)

lemma obf_start:
  assumes "steady rd wr fl owes took dead" and "owes i (crypt ks d plain)" and "took i [] \<or> dead i []"
  shows "steady.io_obf owes took dead ks e \<lparr>ob_inner = i, ob_enc = e, ob_dec = d, ob_pending = []\<rparr> plain []"
  using assms(2,3) by (auto simp: steady.io_obf_def [OF assms(1)] owes_obf_def)

lemma ft_obf_sent:
  assumes "steady.io_obf owes_ft (ft_took pre) (ft_dead pre) ks k0 s d t"
  shows "\<exists>carried. cut_short pre (ft_sent (ob_inner s)) carried \<and> prefix carried (crypt ks k0 t)"
  using assms framed_cut unfolding steady.io_obf_def [OF ft_steady.steady_axioms] ft_took_def ft_dead_def
  by (metis prefixI)

lemma tcp_obf_sent:
  assumes "steady.io_obf owes_wire (wire_took pre) (wire_dead pre) ks k0 s d t"
  shows "\<exists>c. wi_sent (ob_inner s) = pre @ c \<and> prefix c (crypt ks k0 t)"
  using assms unfolding steady.io_obf_def [OF wire_steady.steady_axioms] wire_took_def wire_dead_def
  by (metis prefixI)

lemma bridged_relay:
  assumes run: "copy_bidirectional_graceful (obf_end ks (fake_tls_end rng)) (obf_end ks tcp) schedule
      \<lparr>ob_inner = t, ob_enc = e, ob_dec = d, ob_pending = []\<rparr> (from_relay_keys u keys) = (r, l, v)"
    and t: "unpadded t" "obliging t" "owes_ft t (crypt ks d plain)"
    and u: "accepting u" "RData [] \<notin> set (wi_in u)"
  shows "\<exists>to_client to_dc. ft_sent (ob_inner l) = ft_sent t @ to_client \<and> wi_sent (ob_inner v) = wi_sent u @ to_dc
    \<and> bridged ks e keys plain (script_data (wi_in u)) (case r of Some (Inr x) \<Rightarrow> Some x | _ \<Rightarrow> None) to_client to_dc"
proof -
  let ?E = "script_data (wi_in u)"
  have a: "steady.io_obf owes_ft (ft_took (ft_sent t)) (ft_dead (ft_sent t)) ks e
      \<lparr>ob_inner = t, ob_enc = e, ob_dec = d, ob_pending = []\<rparr> plain []"
    by (rule obf_start [OF ft_steady.steady_axioms t(3) ft_ready [OF t(1,2)]])
  have "owes_wire u (crypt ks (rk_dec keys) (crypt ks (rk_dec keys) ?E))"
    using u(2) by (simp add: owes_wire_def owes_script_def)
  from obf_start [OF wire_steady.steady_axioms this wire_ready [OF u(1)]]
  have b: "steady.io_obf owes_wire (wire_took (wi_sent u)) (wire_dead (wi_sent u)) ks (rk_enc keys)
      (from_relay_keys u keys) (crypt ks (rk_dec keys) ?E) []" by (simp add: from_relay_keys_def)
  obtain dl dr up down where f: "steady.io_obf owes_ft (ft_took (ft_sent t)) (ft_dead (ft_sent t)) ks e l dl down"
      "steady.io_obf owes_wire (wire_took (wi_sent u)) (wire_dead (wi_sent u)) ks (rk_enc keys) v dr up"
      "prefix up plain" "prefix down (crypt ks (rk_dec keys) ?E)"
      "\<forall>m n. r = Some (Inr (m, n)) \<longrightarrow> (0 < m \<longrightarrow> up = plain \<and> m = length plain)
         \<and> (0 < n \<longrightarrow> down = crypt ks (rk_dec keys) ?E \<and> n = length (crypt ks (rk_dec keys) ?E))"
    using ee_relay.relay_flow [OF a b run [unfolded obf_end_eq]] by auto
  obtain carried where cr: "cut_short (ft_sent t) (ft_sent (ob_inner l)) carried" "prefix carried (crypt ks e down)"
    using ft_obf_sent [OF f(1)] by blast
  obtain to_client where tc: "ft_sent (ob_inner l) = ft_sent t @ to_client" "cut_short [] to_client carried"
    using cut_short_ext [OF cr(1)] by blast
  obtain c where c: "wi_sent (ob_inner v) = wi_sent u @ c" "prefix c (crypt ks (rk_enc keys) up)"
    using tcp_obf_sent [OF f(2)] by blast
  have "bridged ks e keys plain ?E (case r of Some (Inr x) \<Rightarrow> Some x | _ \<Rightarrow> None) to_client c"
    unfolding bridged_def using c(2) f(3-5) tc(2) cr(2)
    by (intro exI [of _ up] exI [of _ down] exI [of _ carried]) (auto split: option.splits sum.splits)
  then show ?thesis using tc(1) c(1) by blast
qed

lemma read_exact_keeps_out: "read_exact fuel poll_read n t = (r, t1) \<Longrightarrow> keeps_out t t1"
proof (induction fuel arbitrary: n t r t1)
  case (Suc fuel)
  obtain q t2 where q: "poll_read n t = (q, t2)" by fastforce
  note k = poll_read_keeps_out [OF q]
  obtain q1 t3 where rec: "read_exact fuel poll_read (n - length (polled q)) t2 = (q1, t3)" by fastforce
  have "keeps_out t t3" using k Suc.IH [OF rec] by (rule keeps_out_trans)
  then show ?case using Suc.prems q k rec
    by (cases q rule: polled.cases) (auto split: if_splits option.splits sum.splits)
qed (auto split: if_splits)

text \<open>\<^verbatim>\<open>relay_ee_streams\<close> over the records of the client.\<close>

definition completed :: "'a result option \<Rightarrow> 'a option" where
  "completed r = (case r of Some (Inr x) \<Rightarrow> Some x | _ \<Rightarrow> None)"

lemma ee_streams_after:
  fixes env secret D
  defines "ks \<equiv> ce_ks (pe_crypto env)" and "e \<equiv> client_cipher (ce_sha (pe_crypto env)) (rev (take 64 D)) secret"
    and "d \<equiv> advance 64 (client_cipher (ce_sha (pe_crypto env)) (take 64 D) secret)"
  assumes go: "(r, c, u1) = (case generate_relay_init ks (pe_draws env) dc_no tag of
             None \<Rightarrow> (None, Some t1, u)
           | Some (Inl e) \<Rightarrow> (Some (Inl e), Some t1, u)
           | Some (Inr (header, keys)) \<Rightarrow>
               (case proxy_err msg (write_all (pe_fuel env) wire_write header) u of
                  (None, u1) \<Rightarrow> (None, Some t1, u1)
                | (Some (Inl e), u1) \<Rightarrow> (Some (Inl e), Some t1, u1)
                | (Some (Inr _), u1) \<Rightarrow>
                    (case copy_bidirectional_graceful (obf_end ks (fake_tls_end rng)) (obf_end ks tcp) (pe_schedule env)
                            \<lparr>ob_inner = t1, ob_enc = e, ob_dec = d, ob_pending = []\<rparr> (from_relay_keys u1 keys) of
                       (r, l, d) \<Rightarrow> (r, Some (ob_inner l), ob_inner d))))"
    and says: "handshake_dc_index (ce_sha (pe_crypto env)) ks (take 64 D) secret = Some dc"
      "handshake_proto_tag (ce_sha (pe_crypto env)) ks (take 64 D) secret = Some tag"
    and dc_no: "dc_no = (if dc \<noteq> 0 then dc else dc_id_from_backend preferred)" and long: "64 \<le> length D"
    and t: "unpadded t1" "obliging t1" "ft_sent t1 = sent0" "owes_ft t1 (drop 64 D)"
    and u: "accepting u" "RData [] \<notin> set (wi_in u)"
  shows "\<exists>to_client to_dc. (case c of Some t1 \<Rightarrow> ft_sent t1 = sent0 @ to_client | None \<Rightarrow> to_client = [])
    \<and> wi_sent u1 = wi_sent u @ to_dc
    \<and> ee_moved env secret preferred D (script_data (wi_in u)) (completed r) to_client to_dc"
proof -
  consider (none) "\<nexists>p. generate_relay_init ks (pe_draws env) dc_no tag = Some (Inr p)"
    | (init) hd keys where "generate_relay_init ks (pe_draws env) dc_no tag = Some (Inr (hd, keys))" by fastforce
  then show ?thesis
  proof cases
    case none
    then have "c = Some t1" "u1 = u" "completed r = None" using go by (auto simp: completed_def split: option.splits sum.splits)
    then show ?thesis using t(3) by (intro exI [of _ "[]"]) (simp add: ee_moved_def)
  next
    case init
    obtain w u2 where w: "write_all (pe_fuel env) wire_write hd u = (w, u2)" by fastforce
    obtain sent left where sl: "hd = sent @ left" "wi_sent u2 = wi_sent u @ sent" "w = Some (Inr ()) \<longrightarrow> left = []"
      using wire_sink.write_all_accepts [OF _ w, of "wi_sent u"] by (auto simp: took_wire_def)
    show ?thesis
    proof (cases "w = Some (Inr ())")
      case False
      then have "c = Some t1" "u1 = u2" "completed r = None"
        using go init w by (auto simp: completed_def proxy_err_def split: option.splits sum.splits)
      then show ?thesis using says init t(3) sl dc_no long unfolding ks_def
        by (intro exI [of _ "[]"] exI [of _ sent]) (auto simp: ee_moved_def)
    next
      case True
      obtain q l v where cp: "copy_bidirectional_graceful (obf_end ks (fake_tls_end rng)) (obf_end ks tcp) (pe_schedule env)
          \<lparr>ob_inner = t1, ob_enc = e, ob_dec = d, ob_pending = []\<rparr> (from_relay_keys u2 keys) = (q, l, v)"
        using prod_cases3 by blast
      have end_: "r = q" "c = Some (ob_inner l)" "u1 = ob_inner v"
        using go init w True cp by (simp_all add: proxy_err_def)
      have u2: "accepting u2" "wi_in u2 = wi_in u" using write_all_accepting [OF u(1) w] write_all_in [OF w] by simp_all
      have ow: "owes_ft t1 (crypt ks d (crypt ks d (drop 64 D)))" using t(4) by simp
      have "RData [] \<notin> set (wi_in u2)" using u(2) u2(2) by simp
      from bridged_relay [OF cp t(1,2) ow u2(1) this] obtain to_client rest where
        b: "ft_sent (ob_inner l) = ft_sent t1 @ to_client" "wi_sent (ob_inner v) = wi_sent u2 @ rest"
          "bridged ks e keys (crypt ks d (drop 64 D)) (script_data (wi_in u)) (completed q) to_client rest"
        using u2(2) by (auto simp: completed_def)
      have "ee_moved env secret preferred D (script_data (wi_in u)) (completed r) to_client (hd @ rest)"
        unfolding ee_moved_def using says init dc_no long b(3) end_(1) unfolding ks_def e_def d_def by blast
      then show ?thesis using b end_ t(3) sl True by (intro exI [of _ to_client] exI [of _ "hd @ rest"]) simp
    qed
  qed
qed

lemma ee_streams_deliver:
  assumes run: "relay_ee_streams env (fake_tls_end rng) secret preferred t u = (r, c, u1)"
    and t: "unpadded t" "obliging t" "owes_ft t D" and u: "accepting u" "RData [] \<notin> set (wi_in u)"
  shows "\<exists>to_client to_dc. (case c of Some t1 \<Rightarrow> ft_sent t1 = ft_sent t @ to_client | None \<Rightarrow> to_client = [])
    \<and> wi_sent u1 = wi_sent u @ to_dc
    \<and> ee_moved env secret preferred D (script_data (wi_in u)) (completed r) to_client to_dc"
proof -
  let ?ks = "ce_ks (pe_crypto env)" and ?sha = "ce_sha (pe_crypto env)"
  obtain q t1 where q: "read_exact (pe_fuel env) poll_read 64 t = (q, t1)" by fastforce
  have idle: ?thesis if "c = None" "u1 = u" "completed r = None"
    using that by (intro exI [of _ "[]"]) (simp add: ee_moved_def)
  show ?thesis
  proof (cases "\<exists>h. q = Some (Inr h)")
    case False
    then show ?thesis using run q
      by (intro idle; cases q) (auto simp: relay_ee_streams_def accept_handshake_def fake_tls_end_def
          handshake_len_def completed_def Let_def split: sum.splits)
  next
    case True
    then obtain h where h: "q = Some (Inr h)" by blast
    obtain D1 where d: "length h = 64" "owes_ft t1 D1" "D = h @ D1"
      using ft_source.read_exact_delivers [OF t(3) q] h by auto
    note k = read_exact_keeps_out [OF q]
    have t1: "unpadded t1" "obliging t1" "ft_sent t1 = ft_sent t"
      using k t by (simp_all add: keeps_out_def unpadded_def obliging_def)
    note acc = accept_handshake_eq [OF q [unfolded h] d(1), of ?sha ?ks secret]
    show ?thesis
    proof (cases "parse_handshake ?sha ?ks h secret")
      case None
      then show ?thesis using run acc by (intro idle) (auto simp: relay_ee_streams_def fake_tls_end_def completed_def Let_def)
    next
      case (Some info)
      let ?e = "client_cipher ?sha (rev h) secret" and ?d = "advance 64 (client_cipher ?sha h secret)"
      let ?dc = "the (handshake_dc_index ?sha ?ks h secret)"
      let ?id = "if ?dc \<noteq> 0 then ?dc else dc_id_from_backend preferred"
      have ep: "ep_read (fake_tls_end rng) = poll_read" by (simp add: fake_tls_end_def)
      have H: "64 \<le> length D" "take 64 D = h" "drop 64 D = D1" using d by simp_all
      have says: "handshake_dc_index ?sha ?ks (take 64 D) secret = Some ?dc"
          "handshake_proto_tag ?sha ?ks (take 64 D) secret = Some (hi_proto_tag info)"
        using Some by (auto simp: H parse_handshake_alt [OF d(1)] handshake_proto_tag_def Let_def split: if_splits)
      have go: "(r, c, u1) = (case generate_relay_init ?ks (pe_draws env) ?id (hi_proto_tag info) of
             None \<Rightarrow> (None, Some t1, u)
           | Some (Inl e) \<Rightarrow> (Some (Inl e), Some t1, u)
           | Some (Inr (header, keys)) \<Rightarrow>
               (case proxy_err ''ee relay header to DC'' (write_all (pe_fuel env) wire_write header) u of
                  (None, u1) \<Rightarrow> (None, Some t1, u1)
                | (Some (Inl e), u1) \<Rightarrow> (Some (Inl e), Some t1, u1)
                | (Some (Inr _), u1) \<Rightarrow>
                    (case copy_bidirectional_graceful (obf_end ?ks (fake_tls_end rng)) (obf_end ?ks tcp) (pe_schedule env)
                            \<lparr>ob_inner = t1, ob_enc = ?e, ob_dec = ?d, ob_pending = []\<rparr> (from_relay_keys u1 keys) of
                       (r, l, d) \<Rightarrow> (r, Some (ob_inner l), ob_inner d))))"
        using run unfolding relay_ee_streams_def Let_def ep acc Some option.case sum.case
          accepted.select_convs obf_stream.select_convs by simp
      show ?thesis
        by (rule ee_streams_after [OF go [folded H(2)] says [folded H(2)] refl H(1) t1 _ u]) (use d H in simp_all)
    qed
  qed
qed

section \<open>The session\<close>

lemma answered:
  assumes "answer_client_hello env ch secret w = (r, w1)"
  shows "case server_hello_bytes (ce_hmac (pe_crypto env)) (pe_hello_rng env) ch secret of
      Inl e \<Rightarrow> r = Some (Inl e) \<and> w1 = w
    | Inr hello \<Rightarrow> wi_in w1 = wi_in w \<and> (accepting w \<longrightarrow> accepting w1)
        \<and> (\<exists>x. prefix x hello \<and> wi_sent w1 = wi_sent w @ x \<and> (r = Some (Inr ()) \<longrightarrow> x = hello))"
proof (cases "server_hello_bytes (ce_hmac (pe_crypto env)) (pe_hello_rng env) ch secret")
  case (Inl e)
  then show ?thesis using assms by (auto simp: answer_client_hello_def send_server_hello_def unless_stuck_def)
next
  case (Inr hello)
  obtain q w2 where q: "write_all (pe_fuel env) wire_write hello w = (q, w2)" by fastforce
  obtain sent left where sl: "hello = sent @ left" "wi_sent w2 = wi_sent w @ sent" "q = Some (Inr ()) \<longrightarrow> left = []"
    using wire_sink.write_all_accepts [OF _ q, of "wi_sent w"] by (auto simp: took_wire_def)
  have "w1 = w2" "r = Some (Inr ()) \<longrightarrow> q = Some (Inr ())"
    using assms Inr q by (auto simp: answer_client_hello_def send_server_hello_def unless_stuck_def wire_writer_def
        wire_flusher_def split: option.splits sum.splits)
  then show ?thesis using Inr write_all_in [OF q] write_all_accepting [OF _ q] sl
    by (auto intro!: exI [of _ sent])
qed

text \<open>
  A relay of \<^verbatim>\<open>relay_ee_streams\<close> that ended with the counts \<open>m\<close> and \<open>n\<close>: it ran between the stream of the
  accepted handshake and the data centre's socket behind the relay header, and left the two sockets.
\<close>

definition ee_counted :: "proxy_env \<Rightarrow> proxy_options \<Rightarrow> bytes \<Rightarrow> wire \<Rightarrow> wire \<Rightarrow> nat \<Rightarrow> nat \<Rightarrow> wire \<Rightarrow> wire \<Rightarrow> bool" where
  "ee_counted env opts secret client server m n client1 server1 \<longleftrightarrow>
     (let ks = ce_ks (pe_crypto env); C = fake_tls_end (pe_pad env) in
      \<exists>accepted dc_no header keys server0 l d.
        accept_handshake (ce_sha (pe_crypto env)) ks (pe_fuel env) (ep_read C)
          (fake_tls_over client (write_options_from_drs (po_drs opts))) secret = Some (Inr accepted)
      \<and> generate_relay_init ks (pe_draws env) dc_no (ac_proto_tag accepted) = Some (Inr (header, keys))
      \<and> write_all (pe_fuel env) wire_write header server = (Some (Inr ()), server0)
      \<and> copy_bidirectional_graceful (obf_end ks C) (obf_end ks tcp) (pe_schedule env) (ac_stream accepted)
          (from_relay_keys server0 keys) = (Some (Inr (m, n)), l, d)
      \<and> client1 = wire_below (ob_inner l) \<and> server1 = ob_inner d)"

lemma ee_streams_counted:
  assumes "relay_ee_streams env (fake_tls_end (pe_pad env)) secret (po_preferred opts)
      (fake_tls_over client (write_options_from_drs (po_drs opts))) server = (Some (Inr (m, n)), c, server1)"
  shows "\<exists>t. c = Some t \<and> ee_counted env opts secret client server m n (wire_below t) server1"
  using assms unfolding relay_ee_streams_def ee_counted_def Let_def
  by (fastforce split: option.splits sum.splits prod.splits unit.splits simp: proxy_err_def)

text \<open>
  From the answered ClientHello on: the records of the client hold \<open>D\<close>, \<open>client\<close> and \<open>st\<close> are its socket and
  the counters when the data centre is dialled.
\<close>

definition ee_linked :: "proxy_env \<Rightarrow> proxy_options \<Rightarrow> bytes \<Rightarrow> nat \<Rightarrow> bytes \<Rightarrow> session \<Rightarrow> unit result option \<Rightarrow> session \<Rightarrow> bool" where
  "ee_linked env opts secret first D s r s1 \<longleftrightarrow>
     ss_upstream s1 = ss_upstream s \<and> ss_client s1 = ss_client s \<and> r \<noteq> Some (Inr ())
     \<or> (\<exists>b w to_client to_dc tally. b \<in> set (bp_backends (ss_pool s)) \<and> dialled env (po_network opts) b w
          \<and> wi_sent (ss_client s1) = wi_sent (ss_client s) @ to_client \<and> wi_sent (ss_upstream s1) = wi_sent w @ to_dc
          \<and> ee_moved env secret (po_preferred opts) D (script_data (wi_in w)) tally to_client to_dc
          \<and> (r = Some (Inr ()) \<longrightarrow> (\<exists>m n. tally = Some (m, n)
               \<and> ee_counted env opts secret (ss_client s) w m n (ss_client s1) (ss_upstream s1)
               \<and> bytes_to_backend (ss_stats s1) = bytes_to_backend (ss_stats s) + of_nat (m + first)
               \<and> bytes_from_backend (ss_stats s1) = bytes_from_backend (ss_stats s) + of_nat n)))"

definition ee_rest :: "proxy_env \<Rightarrow> proxy_options \<Rightarrow> bytes \<Rightarrow> nat \<Rightarrow> (session, unit) task" where
  "ee_rest env opts secret first =
     bindT (connect_pool env (po_network opts) (po_preferred opts)) (\<lambda>connected.
     bindT (failover_notice (po_webhooks opts) (po_preferred opts) connected) (\<lambda>_.
     bindT (relay_ee env secret (po_preferred opts) (po_drs opts)) (\<lambda>(up, down).
     bindT (count (to_backend (up + first))) (\<lambda>_.
     count (from_backend down)))))"

lemma from_drs_unpadded: "unpadded (fake_tls_over w (write_options_from_drs d))"
  by (simp add: unpadded_def fake_tls_over_def fake_tls_new_def write_options_from_drs_def)

lemma ee_rest_links:
  assumes run: "ee_rest env opts secret first s = (r, s1)"
    and client: "accepting (ss_client s)" "script_data (wi_in (ss_client s)) = concat (map record_bytes rs)"
      "list_all data_record rs" "RData [] \<notin> set (wi_in (ss_client s))"
    and dc: "\<And>b w. dialled env (po_network opts) b w \<Longrightarrow> accepting w \<and> RData [] \<notin> set (wi_in w)"
  shows "ee_linked env opts secret first (app_data rs) s r s1"
proof -
  obtain v s2 where c: "connect_pool env (po_network opts) (po_preferred opts) s = (v, s2)" by fastforce
  from connect_pool_cases [OF c] have f: "same_bytes (ss_stats s) (ss_stats s2)" "ss_client s2 = ss_client s"
    "case v of Some (Inr b) \<Rightarrow> b \<in> set (bp_backends (ss_pool s)) \<and> dialled env (po_network opts) b (ss_upstream s2)
     | _ \<Rightarrow> ss_upstream s2 = ss_upstream s" by blast+
  show ?thesis
  proof (cases "\<exists>b. v = Some (Inr b)")
    case False
    then have "s1 = s2 \<and> r \<noteq> Some (Inr ())" "ss_upstream s2 = ss_upstream s"
      using run c f(3) by (auto simp: ee_rest_def bindT_def split: option.splits sum.splits)
    then show ?thesis using f by (simp add: ee_linked_def)
  next
    case True
    then obtain b where b: "v = Some (Inr b)" by blast
    obtain s3 where n: "failover_notice (po_webhooks opts) (po_preferred opts) b s2 = (Some (Inr ()), s3)"
      and s3: "s3 = s2\<lparr>ss_spawned := ss_spawned s3\<rparr>"
      using failover_notice_frame by (metis surj_pair)
    have eq: "ss_client s3 = ss_client s" "ss_upstream s3 = ss_upstream s2" "ss_stats s3 = ss_stats s2"
      using f(2) by (subst s3, simp)+
    let ?t = "fake_tls_over (ss_client s) (write_options_from_drs (po_drs opts))" and ?u = "ss_upstream s2"
    have d: "b \<in> set (bp_backends (ss_pool s))" "dialled env (po_network opts) b ?u" using f(3) b by simp_all
    have t: "obliging ?t" "owes_ft ?t (app_data rs)" "ft_sent ?t = wi_sent (ss_client s)"
      using client by (auto simp: obliging_def accepting_def fake_tls_over_def fake_tls_new_def owes_ft_def carries_def
          content_def intro!: exI [of _ rs])
    obtain q c1 u1 where st: "relay_ee_streams env (fake_tls_end (pe_pad env)) secret (po_preferred opts) ?t ?u = (q, c1, u1)"
      using prod_cases3 by blast
    obtain to_client to_dc where m: "case c1 of Some t1 \<Rightarrow> ft_sent t1 = ft_sent ?t @ to_client | None \<Rightarrow> to_client = []"
        "wi_sent u1 = wi_sent ?u @ to_dc"
        "ee_moved env secret (po_preferred opts) (app_data rs) (script_data (wi_in ?u)) (completed q) to_client to_dc"
      using ee_streams_deliver [OF st from_drs_unpadded t(1,2)] dc [OF d(2)] by blast
    let ?c1 = "case c1 of Some t1 \<Rightarrow> wire_below t1 | None \<Rightarrow> ss_client s"
    have sc: "wi_sent ?c1 = wi_sent (ss_client s) @ to_client"
      using m(1) t(3) by (auto simp: wire_below_def split: option.splits)
    have run3: "bindT (relay_ee env secret (po_preferred opts) (po_drs opts)) (\<lambda>(up, down).
       bindT (count (to_backend (up + first))) (\<lambda>_. count (from_backend down))) s3 = (r, s1)"
      using run c b n by (simp add: ee_rest_def bindT_def)
    have counted: "q = Some (Inr (m, n)) \<Longrightarrow> ee_counted env opts secret (ss_client s) ?u m n ?c1 u1" for m n
      using ee_streams_counted [of env secret opts "ss_client s" ?u m n c1 u1] st by auto
    have "ss_client s1 = ?c1 \<and> ss_upstream s1 = u1 \<and> (r = Some (Inr ()) \<longrightarrow> (\<exists>m n. q = Some (Inr (m, n))
               \<and> bytes_to_backend (ss_stats s1) = bytes_to_backend (ss_stats s2) + of_nat (m + first)
               \<and> bytes_from_backend (ss_stats s1) = bytes_from_backend (ss_stats s2) + of_nat n))"
      using run3 by (auto simp: bindT_def relay_ee_def eq st completed_def count_def to_backend_def from_backend_def
          split: option.splits sum.splits)
    then have "ss_client s1 = ?c1 \<and> ss_upstream s1 = u1 \<and> (r = Some (Inr ()) \<longrightarrow> (\<exists>m n. completed q = Some (m, n)
               \<and> ee_counted env opts secret (ss_client s) ?u m n ?c1 u1
               \<and> bytes_to_backend (ss_stats s1) = bytes_to_backend (ss_stats s2) + of_nat (m + first)
               \<and> bytes_from_backend (ss_stats s1) = bytes_from_backend (ss_stats s2) + of_nat n))"
      using counted by (fastforce simp: completed_def)
    then show ?thesis unfolding ee_linked_def
      using d m(2,3) sc f(1)
      by (intro disjI2, rule_tac exI [of _ b], rule_tac exI [of _ ?u], rule_tac exI [of _ to_client],
          rule_tac exI [of _ to_dc], rule_tac exI [of _ "completed q"]) (simp add: same_bytes_def)
  qed
qed

text \<open>
  C7. A session of an ee secret under every order of polls, when the sockets of the client and of the data
  centres may take as little as they like of every write, or stall for good, but do not ask to be tried
  again or fail in the middle (\<open>accepting\<close>; after such a write the obfuscated2 layer sends bytes twice or
  drops them, \<open>obf_write_pending_duplicates\<close>), and the client sends TLS records: nothing happens on any connection unless the
  ClientHello is authentic for the first configured secret. Then the client receives a front of the
  ServerHello made for it; once it is sent in full, a backend of the pool is dialled, the data centre
  receives the relay header of the data centre number and tag that the client's handshake names and after
  it a front of the client's plaintext under the relay keys, and the client receives, in ApplicationData
  records of at most 16384 bytes, a front of the data centre's plaintext under its own keys. When the
  session ends well, the counters have grown by the two counts which the relay of these sockets returned and
  by the length of the ClientHello; a count that is not zero says that all of the plaintext of its
  direction was handed to the stream of the other side, and is its length.
\<close>

theorem ee_session_delivers:
  assumes "po_mode opts = Ee" and "proxy_mtproto env m opts initial s = (r, s1)"
    and "accepting (ss_client s)" and "script_data (wi_in (ss_client s)) = concat (map record_bytes rs)"
    and "list_all data_record rs" and "RData [] \<notin> set (wi_in (ss_client s))"
    and "\<And>b w. dialled env (po_network opts) b w \<Longrightarrow> accepting w \<and> RData [] \<notin> set (wi_in w)"
  shows "s1 = s \<and> r \<noteq> Some (Inr ())
    \<or> (\<exists>secret ch hello x s2. resolve_secret_bytes (ce_hex (pe_crypto env)) m None = Inr secret
         \<and> parse_client_hello_record initial = Inr ch \<and> validate_client_hello (ce_hmac (pe_crypto env)) (pe_unix env) ch secret = Inr ()
         \<and> server_hello_bytes (ce_hmac (pe_crypto env)) (pe_hello_rng env) ch secret = Inr hello
         \<and> prefix x hello \<and> wi_sent (ss_client s2) = wi_sent (ss_client s) @ x \<and> s2 = s\<lparr>ss_client := ss_client s2\<rparr>
         \<and> (s1 = s2 \<and> r \<noteq> Some (Inr ()) \<or> x = hello \<and> ee_linked env opts secret (length initial) (app_data rs) s2 r s1))"
proof -
  let ?c = "pe_crypto env"
  have run: "proxy_mtproto_ee env m opts initial s = (r, s1)" using assms(1,2) by (simp add: proxy_mtproto_def)
  have split: "proxy_mtproto_ee env m opts initial = bindT (liftT (resolve_secret_bytes (ce_hex ?c) m None)) (\<lambda>secret.
      bindT (liftT (parse_client_hello_record initial)) (\<lambda>ch.
      bindT (liftT (validate_client_hello (ce_hmac ?c) (pe_unix env) ch secret)) (\<lambda>_.
      bindT (on_client (answer_client_hello env ch secret)) (\<lambda>_. ee_rest env opts secret (length initial)))))"
    by (simp add: proxy_mtproto_ee_def ee_rest_def)
  consider (refused) "s1 = s" "r \<noteq> Some (Inr ())"
    | (valid) secret ch where "resolve_secret_bytes (ce_hex ?c) m None = Inr secret" "parse_client_hello_record initial = Inr ch"
        "validate_client_hello (ce_hmac ?c) (pe_unix env) ch secret = Inr ()"
    using run unfolding split
    by (cases "resolve_secret_bytes (ce_hex ?c) m None"; cases "parse_client_hello_record initial")
      (auto simp: bindT_def liftT_def split: option.splits sum.splits)
  then show ?thesis
  proof cases
    case valid
    obtain q w where a: "answer_client_hello env ch secret (ss_client s) = (q, w)" by fastforce
    let ?s2 = "s\<lparr>ss_client := w\<rparr>"
    have rest: "(case q of Some (Inr _) \<Rightarrow> ee_rest env opts secret (length initial) ?s2
        | Some (Inl e) \<Rightarrow> (Some (Inl e), ?s2) | None \<Rightarrow> (None, ?s2)) = (r, s1)"
      using run unfolding split by (simp add: bindT_def liftT_def valid on_client_def a split: option.splits sum.splits)
    show ?thesis
    proof (cases "server_hello_bytes (ce_hmac ?c) (pe_hello_rng env) ch secret")
      case (Inl e)
      then have "q = Some (Inl e)" "w = ss_client s" using answered [OF a] by simp_all
      then have "s1 = s \<and> r \<noteq> Some (Inr ())" using rest by auto
      then show ?thesis by (rule disjI1)
    next
      case (Inr hello)
      then obtain x where x: "wi_in w = wi_in (ss_client s)" "accepting w" "prefix x hello" "wi_sent w = wi_sent (ss_client s) @ x"
          "q = Some (Inr ()) \<longrightarrow> x = hello" using answered [OF a] assms(3) by auto
      have "s1 = ?s2 \<and> r \<noteq> Some (Inr ()) \<or> x = hello \<and> ee_linked env opts secret (length initial) (app_data rs) ?s2 r s1"
      proof (cases "q = Some (Inr ())")
        case False
        then show ?thesis using rest by (auto split: option.splits sum.splits)
      next
        case True
        then have go: "ee_rest env opts secret (length initial) ?s2 = (r, s1)" using rest by simp
        have "ee_linked env opts secret (length initial) (app_data rs) ?s2 r s1"
          by (rule ee_rest_links [OF go _ _ assms(5) _ assms(7)]) (use x assms(4,6) in simp_all)
        then show ?thesis using x(5) True by simp
      qed
      then show ?thesis using valid Inr x
        by (intro disjI2, rule_tac exI [of _ secret], rule_tac exI [of _ ch], rule_tac exI [of _ hello],
            rule_tac exI [of _ x], rule_tac exI [of _ ?s2]) simp
    qed
  qed simp
qed

definition toy_ee_session :: session where
  "toy_ee_session = toy_session\<lparr>ss_client := \<lparr>wi_in = [RData (record_bytes (app_record (replicate 64 1))), RPending,
     RData (record_bytes (app_record [2, 3])), REof], wi_out = replicate 9 (WAccept 200), wi_sent = []\<rparr>\<rparr>"

lemma ee_session_delivers_witness:
  "\<exists>r s1. proxy_mtproto toy_proxy_env toy_mtproto (toy_options Ee)
       (the (build_signed_client_hello toy_hmac 1000 ''a.io'' (replicate 16 1))) toy_ee_session = (r, s1)
     \<and> (s1 = toy_ee_session \<or> (\<exists>secret ch hello x s2. parse_client_hello_record
            (the (build_signed_client_hello toy_hmac 1000 ''a.io'' (replicate 16 1))) = Inr ch
          \<and> validate_client_hello toy_hmac 1100 ch secret = Inr () \<and> prefix x hello
          \<and> wi_sent (ss_client s2) = x \<and> (s1 = s2 \<or> x = hello
              \<and> ee_linked toy_proxy_env (toy_options Ee) secret
                  (length (the (build_signed_client_hello toy_hmac 1000 ''a.io'' (replicate 16 1)))) (replicate 64 1 @ [2, 3]) s2 r s1)))"
proof -
  let ?hello = "the (build_signed_client_hello toy_hmac 1000 ''a.io'' (replicate 16 1))"
  let ?rs = "[app_record (replicate 64 1), app_record [2, 3]]"
  obtain r s1 where run: "proxy_mtproto toy_proxy_env toy_mtproto (toy_options Ee) ?hello toy_ee_session = (r, s1)" by fastforce
  have m: "po_mode (toy_options Ee) = Ee" by (simp add: toy_options_def)
  have a: "accepting (ss_client toy_ee_session)" by (simp add: toy_ee_session_def accepting_def list_all_iff)
  have d: "script_data (wi_in (ss_client toy_ee_session)) = concat (map record_bytes ?rs)" by (simp add: toy_ee_session_def)
  have l: "list_all data_record ?rs" by (simp add: data_record_def app_record_def max_tls_payload_def)
  have n: "RData [] \<notin> set (wi_in (ss_client toy_ee_session))"
    by (simp add: toy_ee_session_def record_bytes_def)
  have dc: "dialled toy_proxy_env (po_network (toy_options Ee)) b w \<Longrightarrow> accepting w \<and> RData [] \<notin> set (wi_in w)" for b w
    by (simp add: toy_dials toy_dc_def accepting_def list_all_iff)
  have e: "ce_hmac (pe_crypto toy_proxy_env) = toy_hmac" "pe_unix toy_proxy_env = 1100" "wi_sent (ss_client toy_ee_session) = []"
    by (simp_all add: toy_proxy_env_def toy_env_def toy_ee_session_def)
  have ad: "app_data ?rs = replicate 64 1 @ [2, 3]" by (simp add: app_data_def app_record_def)
  have "s1 = toy_ee_session \<and> r \<noteq> Some (Inr ())
    \<or> (\<exists>secret ch hello x s2. resolve_secret_bytes (ce_hex (pe_crypto toy_proxy_env)) toy_mtproto None = Inr secret
         \<and> parse_client_hello_record ?hello = Inr ch
         \<and> validate_client_hello (ce_hmac (pe_crypto toy_proxy_env)) (pe_unix toy_proxy_env) ch secret = Inr ()
         \<and> server_hello_bytes (ce_hmac (pe_crypto toy_proxy_env)) (pe_hello_rng toy_proxy_env) ch secret = Inr hello
         \<and> prefix x hello \<and> wi_sent (ss_client s2) = wi_sent (ss_client toy_ee_session) @ x
         \<and> s2 = toy_ee_session\<lparr>ss_client := ss_client s2\<rparr>
         \<and> (s1 = s2 \<and> r \<noteq> Some (Inr ()) \<or> x = hello
              \<and> ee_linked toy_proxy_env (toy_options Ee) secret (length ?hello) (app_data ?rs) s2 r s1))"
    by (rule ee_session_delivers [OF m run a d l n dc])
  then show ?thesis unfolding e ad append_Nil using run by blast
qed

text \<open>
  The handler knows only the first secret: a client of another configured secret, which the traffic detector
  has recognised, is refused without an answer.
\<close>

lemma other_secret_refused:
  assumes "resolve_secret_bytes (ce_hex (pe_crypto env)) m None = Inr secret" and "parse_client_hello_record initial = Inr ch"
    and "validate_client_hello (ce_hmac (pe_crypto env)) (pe_unix env) ch secret = Inl e"
  shows "proxy_mtproto_ee env m opts initial s = (Some (Inl e), s)"
  using assms by (simp add: proxy_mtproto_ee_def bindT_def liftT_def)

text \<open>
  A ClientHello of which only a part was peeked (the detector takes such a part for an ee client) is
  refused in the same way, so this client reaches neither the data centre nor the fallback site.
\<close>

lemma partial_hello_refused:
  assumes "resolve_secret_bytes (ce_hex (pe_crypto env)) m None = Inr secret" and "parse_client_hello_record initial = Inl e"
  shows "proxy_mtproto_ee env m opts initial s = (Some (Inl e), s)"
  using assms by (simp add: proxy_mtproto_ee_def bindT_def liftT_def)

end
