(* ===== verification/Relay_Streams.thy ===== *)
theory Relay_Streams
  imports Split_Frame Steady_Streams
begin

text \<open>
  The streams of the front/back sessions as ends of a relay: the encrypted stream of
  \<^verbatim>\<open>src/sgfb_crypto.rs\<close> (here with its \<^verbatim>\<open>poll_flush\<close>), the plain-or-encrypted relay stream of
  \<^verbatim>\<open>src/split.rs\<close>, and bytes put back in front of a socket. All of them are \<open>steady\<close>: an encrypted
  stream when the socket below takes a whole frame at a time.
\<close>

section \<open>Flushing\<close>

definition enc_poll_flush :: "enc_stream poll_flush_fun" where
  "enc_poll_flush s =
     (case drain_write_pending s of
        (Ready (Inr _), s1) \<Rightarrow> (case wire_flush (es_inner s1) of (r, i) \<Rightarrow> (r, s1\<lparr>es_inner := i\<rparr>))
      | (Ready (Inl k), s1) \<Rightarrow> (Ready (Inl k), s1)
      | (Pending, s1) \<Rightarrow> (Pending, s1))"

fun relay_poll_flush :: "relay_stream poll_flush_fun" where
  "relay_poll_flush (PlainRelay w) = map_prod id PlainRelay (wire_flush w)"
| "relay_poll_flush (EncryptedRelay s) = map_prod id EncryptedRelay (enc_poll_flush s)"

definition relay_end :: "aead \<Rightarrow> relay_stream end_point" where
  "relay_end A = \<lparr>ep_read = relay_poll_read A, ep_write = relay_poll_write A, ep_flush = relay_poll_flush\<rparr>"

fun relay_wire :: "relay_stream \<Rightarrow> wire" where
  "relay_wire (PlainRelay w) = w"
| "relay_wire (EncryptedRelay s) = es_inner s"

text \<open>\<^verbatim>\<open>flush().await\<close>\<close>

fun flush_all :: "nat \<Rightarrow> 's poll_flush_fun \<Rightarrow> ('s, unit) io_task" where
  "flush_all 0 fl s = (None, s)"
| "flush_all (Suc fuel) fl s =
     (case fl s of
        (Pending, s1) \<Rightarrow> flush_all fuel fl s1
      | (Ready r, s1) \<Rightarrow> (Some r, s1))"

section \<open>Bytes in front of a socket\<close>

text \<open>
  \<^verbatim>\<open>PrefixedStream::new(prefix, stream)\<close> over a socket, for the streams that own the socket below them: the
  prefix is what the next reads bring.
\<close>

definition prefix_wire :: "bytes \<Rightarrow> wire \<Rightarrow> wire" where
  "prefix_wire p w = (if p = [] then w else w\<lparr>wi_in := RData p # wi_in w\<rparr>)"

lemma prefix_wire_simps [simp]: "wi_out (prefix_wire p w) = wi_out w" "wi_sent (prefix_wire p w) = wi_sent w"
    "script_data (wi_in (prefix_wire p w)) = p @ script_data (wi_in w)"
    "RData [] \<in> set (wi_in (prefix_wire p w)) \<longleftrightarrow> RData [] \<in> set (wi_in w)"
    "accepting (prefix_wire p w) = accepting w" "roomy (prefix_wire p w) = roomy w"
  by (auto simp: prefix_wire_def accepting_def roomy_def)

text \<open>It answers every poll as the prefixed stream does.\<close>

definition matches_prefixed :: "wire \<Rightarrow> wire prefixed \<Rightarrow> bool" where
  "matches_prefixed v s \<longleftrightarrow> v = prefix_wire (drop (px_pos s) (px_data s)) (px_inner s)"

lemma prefix_wire_read:
  assumes "matches_prefixed v s" and "0 < n" and "prefixed_poll_read wire_read n s = (r, s1)" and "wire_read n v = (q, v1)"
  shows "q = r \<and> matches_prefixed v1 s1"
proof (cases "drop (px_pos s) (px_data s) = []")
  case True
  then have v: "v = px_inner s" using assms(1) by (simp add: matches_prefixed_def prefix_wire_def)
  obtain p i where "wire_read n (px_inner s) = (p, i)" by fastforce
  then show ?thesis using assms(3,4) True v by (auto simp: prefixed_poll_read_def matches_prefixed_def prefix_wire_def)
next
  case False
  then have lt: "px_pos s < length (px_data s)" by simp
  show ?thesis using assms lt
    by (auto simp: prefixed_poll_read_def matches_prefixed_def prefix_wire_def wire_read_def Let_def add.commute
        split: if_splits)
qed

lemma prefix_wire_write:
  assumes "matches_prefixed v s" and "prefixed_poll_write wire_write bs s = (r, s1)" and "wire_write bs v = (q, v1)"
  shows "q = r \<and> matches_prefixed v1 s1"
  using assms by (auto simp: prefixed_poll_write_def matches_prefixed_def prefix_wire_def wire_write_def split: prod.splits)

section \<open>The encrypted stream\<close>

text \<open>Reading leaves the writing side alone, and conversely.\<close>

definition enc_keeps_out :: "enc_stream \<Rightarrow> enc_stream \<Rightarrow> bool" where
  "enc_keeps_out s s1 \<longleftrightarrow> es_enc s1 = es_enc s \<and> es_write_pending s1 = es_write_pending s
     \<and> wi_out (es_inner s1) = wi_out (es_inner s) \<and> wi_sent (es_inner s1) = wi_sent (es_inner s)"

definition enc_keeps_in :: "enc_stream \<Rightarrow> enc_stream \<Rightarrow> bool" where
  "enc_keeps_in s s1 \<longleftrightarrow> es_dec s1 = es_dec s \<and> es_read_buf s1 = es_read_buf s \<and> es_pending_plain s1 = es_pending_plain s
     \<and> es_header s1 = es_header s \<and> es_frame_len s1 = es_frame_len s \<and> es_frame s1 = es_frame s
     \<and> wi_in (es_inner s1) = wi_in (es_inner s)"

lemma enc_keeps_out_trans: "enc_keeps_out a b \<Longrightarrow> enc_keeps_out b c \<Longrightarrow> enc_keeps_out a c"
  by (simp add: enc_keeps_out_def)

lemma read_header_keeps_out: "read_header s = (x, s1) \<Longrightarrow> enc_keeps_out s s1"
proof (induction s rule: read_header.induct)
  case (1 s)
  obtain r i where w: "wire_read 1 (es_inner s) = (r, i)" by fastforce
  note ws = wire_read_sent [OF w]
  show ?case
  proof (cases "length (es_header s) < 2 \<and> (\<exists>bs. r = Ready (Inr bs) \<and> bs \<noteq> [])")
    case True
    then obtain bs where bs: "r = Ready (Inr bs)" "bs \<noteq> []" by blast
    have "read_header (s\<lparr>es_inner := i, es_header := es_header s @ [bs ! 0]\<rparr>) = (x, s1)"
      using "1.prems" True w bs by (simp add: read_header.simps [of s])
    from "1.IH" [OF _ w [symmetric] bs(1) refl bs(2) this] True ws show ?thesis by (auto simp: enc_keeps_out_def)
  next
    case False
    with "1.prems" w ws show ?thesis
      by (auto simp: read_header.simps [of s] enc_keeps_out_def split: if_splits poll.splits sum.splits)
  qed
qed

lemma next_frame_keeps_out:
  assumes "next_frame A s = (x, s1)"
  shows "enc_keeps_out s s1"
proof -
  obtain y s2 where st: "start_frame s = (y, s2)" by fastforce
  have k2: "enc_keeps_out s s2" using st read_header_keeps_out [of s]
    by (auto simp: start_frame_def Let_def enc_keeps_out_def split: option.splits prod.splits if_splits)
  obtain z s3 where bd: "read_body s2 = (z, s3)" by fastforce
  have k3: "enc_keeps_out s2 s3" using read_body_shape [OF bd] wire_read_sent by (fastforce simp: enc_keeps_out_def)
  obtain v c where o: "open_frame A (es_dec s3) (es_frame s3) = (v, c)" by fastforce
  have "s1 = s2 \<or> enc_keeps_out s3 s1"
    using assms st bd o by (cases y; cases z; cases v) (auto simp: next_frame_def Let_def enc_keeps_out_def)
  then show ?thesis using k2 k3 enc_keeps_out_trans by blast
qed

lemma enc_read_keeps_out: "enc_poll_read A n s = (r, s1) \<Longrightarrow> enc_keeps_out s s1"
proof (induction A n s rule: enc_poll_read.induct)
  case (1 A n s)
  show ?case
  proof (cases "es_pending_plain s = [] \<and> es_read_buf s = []")
    case False
    then show ?thesis using "1.prems" by (auto simp: enc_poll_read.simps [of A n s] enc_keeps_out_def split: if_splits)
  next
    case True
    then have t: "\<not> es_pending_plain s \<noteq> []" "es_read_buf s = []" by simp_all
    obtain x s2 where nf: "next_frame A s = (x, s2)" by fastforce
    note k = next_frame_keeps_out [OF nf]
    show ?thesis
    proof (cases x)
      case (Some q)
      then show ?thesis using "1.prems" True nf k by (simp add: enc_poll_read.simps [of A n s])
    next
      case None
      then have "enc_poll_read A n s2 = (r, s1)" using "1.prems" True nf by (simp add: enc_poll_read.simps [of A n s])
      from "1.IH" [OF t nf [symmetric] None this] show ?thesis by (rule enc_keeps_out_trans [OF k])
    qed
  qed
qed

lemma drain_keeps_in: "drain_write_pending s = (r, s1) \<Longrightarrow> enc_keeps_in s s1"
  using wire_write_in by (fastforce simp: drain_write_pending_def enc_keeps_in_def split: if_splits prod.splits poll.splits sum.splits)

lemma enc_write_keeps_in:
  assumes "enc_poll_write A bs s = (r, s1)"
  shows "enc_keeps_in s s1"
proof -
  obtain q s2 where d: "drain_write_pending s = (q, s2)" by fastforce
  obtain v c where sl: "seal A (es_enc s2) (take (min (length bs) max_frame_plain) bs) = (v, c)" by fastforce
  obtain q3 s3 where d3: "drain_write_pending (s2\<lparr>es_enc := c, es_write_pending := u16_be (length (projr v)) @ projr v\<rparr>) = (q3, s3)"
    by fastforce
  have k: "enc_keeps_in s s2" "enc_keeps_in s2 s3"
    using drain_keeps_in [OF d] drain_keeps_in [OF d3] by (simp_all add: enc_keeps_in_def)
  have "s1 = s2 \<or> s1 = s2\<lparr>es_enc := c\<rparr> \<or> s1 = s3"
    using assms d sl d3 unfolding enc_poll_write_def
    by (cases v) (auto simp: Let_def split: if_splits poll.splits sum.splits)
  then show ?thesis using k by (auto simp: enc_keeps_in_def)
qed

lemma owes_enc_keeps_in: "enc_keeps_in s s1 \<Longrightarrow> owes_lawful A s d \<Longrightarrow> owes_lawful A s1 d"
  by (simp add: owes_lawful_def owes_enc_def between_frames_def inside_frame_def owes_wire_def enc_keeps_in_def)

text \<open>What was sent since \<open>pre\<close> are the frames of \<open>c\<close>, sealed from the cipher state \<open>k\<close> on.\<close>

definition sealing :: "aead \<Rightarrow> dir_cipher \<Rightarrow> dir_cipher \<Rightarrow> bytes \<Rightarrow> bytes \<Rightarrow> bytes \<Rightarrow> bool" where
  "sealing A k e pre sent c \<longleftrightarrow> (\<exists>ps. list_all plain_ok ps \<and> concat ps = c \<and> sent = pre @ sealed A k ps
     \<and> (\<forall>qs. sealed A k (ps @ qs) = sealed A k ps @ sealed A e qs))"

definition enc_took :: "aead \<Rightarrow> dir_cipher \<Rightarrow> bytes \<Rightarrow> enc_stream \<Rightarrow> bytes \<Rightarrow> bool" where
  "enc_took A k pre s c \<longleftrightarrow> aead_laws A \<and> roomy (es_inner s) \<and> wi_out (es_inner s) \<noteq> [] \<and> es_write_pending s = []
     \<and> sealing A k (es_enc s) pre (wi_sent (es_inner s)) c"

definition enc_dead :: "aead \<Rightarrow> dir_cipher \<Rightarrow> bytes \<Rightarrow> enc_stream \<Rightarrow> bytes \<Rightarrow> bool" where
  "enc_dead A k pre s c \<longleftrightarrow> aead_laws A \<and> wi_out (es_inner s) = []
     \<and> (\<exists>ps. list_all plain_ok ps \<and> concat ps = c \<and> wi_sent (es_inner s) = pre @ sealed A k ps)"

lemma enc_keeps_out_took: "enc_keeps_out s s1 \<Longrightarrow> (enc_took A k pre s c \<longrightarrow> enc_took A k pre s1 c) \<and> (enc_dead A k pre s c \<longrightarrow> enc_dead A k pre s1 c)"
  by (simp add: enc_keeps_out_def enc_took_def enc_dead_def roomy_def)

lemma drain_dead:
  assumes "wi_out (es_inner s) = []" and "drain_write_pending s = (q, s1)"
  shows "wi_out (es_inner s1) = [] \<and> wi_sent (es_inner s1) = wi_sent (es_inner s) \<and> es_enc s1 = es_enc s
    \<and> (q = Pending \<or> q = Ready (Inr ()) \<and> es_write_pending s = [] \<and> s1 = s)"
  using assms by (auto simp: drain_write_pending_def wire_write_def split: if_splits)

lemma enc_write_took:
  assumes "enc_took A k pre s c" and "bs \<noteq> []" and "enc_poll_write A bs s = (q, s1)"
  shows "\<exists>n. q = Ready (Inr n) \<and> 0 < n \<and> n \<le> length bs \<and> (enc_took A k pre s1 (c @ take n bs) \<or> enc_dead A k pre s1 (c @ take n bs))"
proof -
  have a: "aead_laws A" "roomy (es_inner s)" "wi_out (es_inner s) \<noteq> []" "es_write_pending s = []" using assms(1) by (simp_all add: enc_took_def)
  obtain ps where ps: "list_all plain_ok ps" "concat ps = c" "wi_sent (es_inner s) = pre @ sealed A k ps"
      "\<forall>qs. sealed A k (ps @ qs) = sealed A k ps @ sealed A (es_enc s) qs"
    using assms(1) unfolding enc_took_def sealing_def by blast
  obtain qs where qs: "list_all plain_ok qs" "q = Ready (Inr (length (concat qs)))" "concat qs = take (length (concat qs)) bs"
      "concat qs \<noteq> []" "wi_sent (es_inner s1) = wi_sent (es_inner s) @ sealed A (es_enc s) qs"
      "\<forall>rs. sealed A (es_enc s) (qs @ rs) = sealed A (es_enc s) qs @ sealed A (es_enc s1) rs"
      "roomy (es_inner s1)" "es_write_pending s1 = []"
    using enc_write_step [OF a assms(3)] assms(2) by blast
  have len: "0 < length (concat qs)" "length (concat qs) \<le> length bs"
    using qs(3,4) by (metis length_greater_0_conv, metis length_take min.cobounded1 min.commute nat_le_linear order_refl take_all_iff)
  have pq: "list_all plain_ok (ps @ qs)" "concat (ps @ qs) = c @ take (length (concat qs)) bs"
      "wi_sent (es_inner s1) = pre @ sealed A k (ps @ qs)"
    using ps qs by (simp_all flip: qs(3))
  have "\<forall>rs. sealed A k ((ps @ qs) @ rs) = sealed A k (ps @ qs) @ sealed A (es_enc s1) rs" using ps(4) qs(6) by simp
  with pq have "sealing A k (es_enc s1) pre (wi_sent (es_inner s1)) (c @ take (length (concat qs)) bs)"
    unfolding sealing_def by blast
  then have "enc_took A k pre s1 (c @ take (length (concat qs)) bs) \<or> enc_dead A k pre s1 (c @ take (length (concat qs)) bs)"
    using a(1) qs(7,8) pq unfolding enc_took_def enc_dead_def by blast
  then show ?thesis using qs(2) len by blast
qed

lemma enc_write_dead:
  assumes "enc_dead A k pre s c" and "bs \<noteq> []" and "enc_poll_write A bs s = (q, s1)"
  shows "q = Pending \<and> enc_dead A k pre s1 c"
proof -
  have a: "aead_laws A" "wi_out (es_inner s) = []" using assms(1) by (simp_all add: enc_dead_def)
  obtain d s2 where d: "drain_write_pending s = (d, s2)" by fastforce
  note dd = drain_dead [OF a(2) d]
  let ?p = "take (min (length bs) max_frame_plain) bs"
  have "plain_ok ?p" by (simp add: plain_ok_def)
  from seal_open [OF a(1) this, of "es_enc s2"] obtain x e where x: "seal A (es_enc s2) ?p = (Inr x, e)" by blast
  let ?t = "s2\<lparr>es_enc := e, es_write_pending := u16_be (length x) @ x\<rparr>"
  obtain d3 s3 where d3: "drain_write_pending ?t = (d3, s3)" by fastforce
  have t: "wi_out (es_inner ?t) = []" "es_write_pending ?t \<noteq> []" using dd by (simp_all add: u16_be_def)
  note dd3 = drain_dead [OF t(1) d3]
  have "q = Pending \<and> wi_out (es_inner s1) = [] \<and> wi_sent (es_inner s1) = wi_sent (es_inner s)"
  proof (cases "d = Pending")
    case True
    then show ?thesis using assms(3) d dd by (simp add: enc_poll_write_def)
  next
    case False
    then have "d = Ready (Inr ())" "s2 = s" using dd by simp_all
    moreover have "d3 = Pending" using dd3 t(2) by blast
    ultimately have "q = Pending" "s1 = s3" using assms(2,3) d x d3 by (simp_all add: enc_poll_write_def Let_def)
    then show ?thesis using dd3 \<open>s2 = s\<close> by simp
  qed
  then show ?thesis using assms(1) by (simp add: enc_dead_def)
qed

interpretation enc_steady: steady "enc_poll_read A" "enc_poll_write A" enc_poll_flush "owes_lawful A" "enc_took A k pre" "enc_dead A k pre"
  for A k pre
proof (unfold_locales, goal_cases)
  case (1 s d n r s1)
  then show ?case by (rule enc_source.poll_delivers)
next
  case (2 n s r s1 c)
  show ?case by (rule enc_keeps_out_took [OF enc_read_keeps_out [OF 2]])
next
  case (3 s c bs q s1)
  then show ?case using enc_write_took by blast
next
  case (4 s c bs q s1)
  then show ?case by (rule enc_write_dead)
next
  case (5 s d bs q s1)
  then show ?case using owes_enc_keeps_in [OF enc_write_keeps_in] by blast
next
  case (6 s f s1 d c)
  obtain q s2 where d: "drain_write_pending s = (q, s2)" by fastforce
  have s1: "s1 = s2" using 6 d by (auto simp: enc_poll_flush_def wire_flush_def split: poll.splits sum.splits)
  have "enc_took A k pre s c \<longrightarrow> s2 = s" using d by (auto simp: enc_took_def drain_write_pending_def)
  moreover have "enc_dead A k pre s c \<longrightarrow> enc_dead A k pre s2 c" using drain_dead [OF _ d] by (auto simp: enc_dead_def)
  ultimately show ?case using owes_enc_keeps_in [OF drain_keeps_in [OF d]] s1 by auto
qed

section \<open>The relay stream\<close>

fun relay_owes :: "aead \<Rightarrow> relay_stream \<Rightarrow> bytes \<Rightarrow> bool" where
  "relay_owes A (PlainRelay w) d = owes_wire w d"
| "relay_owes A (EncryptedRelay s) d = owes_lawful A s d"

text \<open>For the writing side the kind of the stream is fixed: \<open>None\<close> for a plain one, \<open>Some k\<close> for one that seals from \<open>k\<close> on.\<close>

fun relay_took :: "aead \<Rightarrow> dir_cipher option \<Rightarrow> bytes \<Rightarrow> relay_stream \<Rightarrow> bytes \<Rightarrow> bool" where
  "relay_took A None pre (PlainRelay w) c = wire_took pre w c"
| "relay_took A (Some k) pre (EncryptedRelay s) c = enc_took A k pre s c"
| "relay_took A _ pre _ c = False"

fun relay_dead :: "aead \<Rightarrow> dir_cipher option \<Rightarrow> bytes \<Rightarrow> relay_stream \<Rightarrow> bytes \<Rightarrow> bool" where
  "relay_dead A None pre (PlainRelay w) c = wire_dead pre w c"
| "relay_dead A (Some k) pre (EncryptedRelay s) c = enc_dead A k pre s c"
| "relay_dead A _ pre _ c = False"

fun relay_carries :: "aead \<Rightarrow> dir_cipher option \<Rightarrow> bytes \<Rightarrow> bytes \<Rightarrow> bool" where
  "relay_carries A None x c \<longleftrightarrow> x = c"
| "relay_carries A (Some k) x c \<longleftrightarrow> (\<exists>ps. list_all plain_ok ps \<and> concat ps = c \<and> x = sealed A k ps)"

lemma relay_sent:
  "relay_took A k pre b c \<or> relay_dead A k pre b c \<Longrightarrow> \<exists>x. wi_sent (relay_wire b) = pre @ x \<and> relay_carries A k x c"
  by (cases "(A, k, pre, b, c)" rule: relay_took.cases)
    (auto simp: wire_took_def wire_dead_def enc_took_def enc_dead_def sealing_def)

interpretation relay_steady: steady "relay_poll_read A" "relay_poll_write A" relay_poll_flush "relay_owes A"
    "relay_took A k pre" "relay_dead A k pre"
  for A k pre
proof (unfold_locales, goal_cases)
  case (1 s d n r s1)
  then show ?case
  proof (cases s)
    case (PlainRelay w)
    then show ?thesis using 1 wire_source.poll_delivers by (fastforce simp: map_prod_def split: prod.splits)
  next
    case (EncryptedRelay e)
    then show ?thesis using 1 enc_source.poll_delivers by (fastforce simp: map_prod_def split: prod.splits)
  qed
next
  case (2 n s r s1 c)
  then show ?case
    by (cases s; cases k) (use wire_steady.rd_keeps enc_steady.rd_keeps in \<open>fastforce simp: map_prod_def split: prod.splits\<close>)+
next
  case (3 s c bs q s1)
  then show ?case
  proof (cases "(A, k, pre, s, c)" rule: relay_took.cases)
    case (1 A pre w c)
    then show ?thesis using 3 wire_steady.wr_took [of pre w c bs] by (fastforce simp: map_prod_def split: prod.splits)
  next
    case (2 A k pre e c)
    then show ?thesis using 3 enc_steady.wr_took [of A k pre e c bs] by (fastforce simp: map_prod_def split: prod.splits)
  qed auto
next
  case (4 s c bs q s1)
  then show ?case
    by (cases s; cases k) (use wire_steady.wr_dead enc_steady.wr_dead in \<open>fastforce simp: map_prod_def split: prod.splits\<close>)+
next
  case (5 s d bs q s1)
  then show ?case
    by (cases s) (use wire_steady.wr_keeps enc_steady.wr_keeps in \<open>fastforce simp: map_prod_def split: prod.splits\<close>)+
next
  case (6 s f s1 d c)
  then show ?case
    by (cases s; cases k) (use wire_steady.fl_keeps enc_steady.fl_keeps in \<open>fastforce simp: map_prod_def split: prod.splits\<close>)+
qed

text \<open>A prefixed stream over a steady one.\<close>

context steady
begin

lemma prefixed_steady:
  "steady (prefixed_poll_read rd) (prefixed_poll_write wr) (prefixed_poll_flush fl) (owes_prefixed owes)
     (\<lambda>s. took (px_inner s)) (\<lambda>s. dead (px_inner s))"
proof (unfold_locales, goal_cases)
  case (1 s d n r s1)
  have "byte_source rd owes" by unfold_locales (rule rd_owes)
  from byte_source.prefixed_delivers [OF this 1] show ?case .
next
  case (2 n s r s1 c)
  then show ?case using rd_keeps by (fastforce simp: prefixed_poll_read_def Let_def split: if_splits prod.splits)
next
  case (3 s c bs q s1)
  then show ?case using wr_took [of "px_inner s" c bs] by (auto simp: prefixed_poll_write_def split: prod.splits)
next
  case (4 s c bs q s1)
  then show ?case using wr_dead [of "px_inner s" c bs] by (auto simp: prefixed_poll_write_def split: prod.splits)
next
  case (5 s d bs q s1)
  then show ?case using wr_keeps by (fastforce simp: prefixed_poll_write_def owes_prefixed_def split: prod.splits)
next
  case (6 s f s1 d c)
  then show ?case using fl_keeps by (fastforce simp: prefixed_poll_flush_def owes_prefixed_def split: prod.splits)
qed

end

interpretation prefixed_relay_steady: steady "prefixed_poll_read (relay_poll_read A)" "prefixed_poll_write (relay_poll_write A)"
    "prefixed_poll_flush relay_poll_flush" "owes_prefixed (relay_owes A)"
    "\<lambda>s. relay_took A k pre (px_inner s)" "\<lambda>s. relay_dead A k pre (px_inner s)"
  for A k pre
  by (rule relay_steady.prefixed_steady)

end
