(* ===== verification/Split_Session.thy ===== *)
theory Split_Session
  imports Ee_Session Relay_Streams
begin

text \<open>
  The two halves of a split session (\<^verbatim>\<open>src/split.rs\<close>). The front (\<^verbatim>\<open>relay_from_front\<close>) offers the opening
  frame to its back servers in turn and relays over the first that accepts; for ee secrets it has answered the
  ClientHello and read the obfuscated2 handshake before. The back (\<^verbatim>\<open>handle_back_connection\<close>) checks the
  frame, dials a data centre and relays. A front session keeps a log of its connections to back
  servers; a back session is a \<open>session\<close> whose client is the front. Fuel is as in \<open>Proxy_Session\<close>;
  the timers of the back connections are \<open>timed\<close>, and \<open>se_dial\<close> answers the \<open>k\<close>-th attempt to connect.
\<close>

section \<open>State\<close>

record front_session =
  fs_client :: wire
  fs_backs :: "(string \<times> wire) list"
  fs_dials :: nat
  fs_stats :: stats

record split_env =
  se_proxy :: proxy_env
  se_aead :: aead
  se_dial :: "nat \<Rightarrow> u64 \<Rightarrow> string \<Rightarrow> (io_kind + wire) option"
  se_io_text :: "io_kind \<Rightarrow> string"

abbreviation se_fuel :: "split_env \<Rightarrow> nat" where "se_fuel env \<equiv> pe_fuel (se_proxy env)"
abbreviation se_crypto :: "split_env \<Rightarrow> crypto_env" where "se_crypto env \<equiv> pe_crypto (se_proxy env)"

definition on_front :: "(wire, 'a) task \<Rightarrow> (front_session, 'a) task" where
  "on_front t s = (case t (fs_client s) of (r, w) \<Rightarrow> (r, s\<lparr>fs_client := w\<rparr>))"

section \<open>The front: an ee client\<close>

definition prepare_ee_client_hello :: "split_env \<Rightarrow> bytes \<Rightarrow> bytes \<Rightarrow> (wire, bytes \<times> parsed_client_hello) task" where
  "prepare_ee_client_hello env initial secret =
     (if (case tls_record_total_len initial of Some needed \<Rightarrow> length initial < needed | None \<Rightarrow> False) then
        bindT (liftT (parse_client_hello_prefix initial)) (\<lambda>partial.
        bindT (answer_client_hello (se_proxy env) partial secret) (\<lambda>_. retT (initial, partial)))
      else
        bindT (liftT (parse_client_hello_record initial)) (\<lambda>hello.
        bindT (liftT (validate_client_hello (ce_hmac (se_crypto env)) (pe_unix (se_proxy env)) hello secret)) (\<lambda>_.
        bindT (answer_client_hello (se_proxy env) hello secret) (\<lambda>_. retT (initial, hello)))))"

text \<open>The handshake, and what was read beyond it.\<close>

definition front_handshake :: "split_env \<Rightarrow> bytes \<Rightarrow> (fake_tls, bytes \<times> bytes) task" where
  "front_handshake env secret =
     bindT (timed ''split front ee handshake timeout''
              (proxy_err ''split front ee handshake'' (read_exact (se_fuel env) poll_read handshake_len))) (\<lambda>handshake.
     if parse_handshake (ce_sha (se_crypto env)) (ce_ks (se_crypto env)) handshake secret = None
     then failT (Proxy ''split front: invalid obfuscated2 handshake'')
     else (\<lambda>t. case take_read_buf t of (ahead, t1) \<Rightarrow> (Some (Inr (handshake, ahead)), t1)))"

definition dial_back :: "split_env \<Rightarrow> u64 \<Rightarrow> string \<Rightarrow> front_session \<Rightarrow> (io_kind + wire) option \<times> front_session" where
  "dial_back env secs addr s = (se_dial env (fs_dials s) secs addr, s\<lparr>fs_dials := Suc (fs_dials s)\<rparr>)"

definition preconnect :: "split_env \<Rightarrow> split_config \<Rightarrow> front_session \<Rightarrow> (string \<times> wire) option \<times> front_session" where
  "preconnect env sp s =
     (case back_servers sp of
        [] \<Rightarrow> (None, s)
      | addr # _ \<Rightarrow>
          (case dial_back env (connect_timeout_secs sp) addr s of
             (Some (Inr w), s1) \<Rightarrow> (Some (addr, w), s1)
           | (_, s1) \<Rightarrow> (None, s1)))"

section \<open>The front: over a back server\<close>

datatype front_relay = FrontPlain bytes | FrontEe bytes fake_tls

definition prime_back :: "split_env \<Rightarrow> bytes \<Rightarrow> (relay_stream, unit) task" where
  "prime_back env ahead =
     (if ahead = [] then retT ()
      else bindT (proxy_err ''split front ee prime SGFB'' (write_all (se_fuel env) (relay_poll_write (se_aead env)) ahead)) (\<lambda>_.
           proxy_err ''split front ee flush SGFB'' (flush_all (se_fuel env) relay_poll_flush)))"

definition front_copy :: "split_env \<Rightarrow> front_relay \<Rightarrow> wire \<Rightarrow> relay_stream \<Rightarrow> (nat \<times> nat) result option \<times> wire \<times> relay_stream" where
  "front_copy env fr client back =
     (case fr of
        FrontPlain initial \<Rightarrow>
          (case copy_bidirectional_graceful (prefixed_end tcp) (relay_end (se_aead env)) (pe_schedule (se_proxy env))
                  (prefixed_new initial client) back of
             (r, l, b) \<Rightarrow> (r, px_inner l, b))
      | FrontEe ahead stream \<Rightarrow>
          (case prime_back env ahead back of
             (None, b) \<Rightarrow> (None, wire_below stream, b)
           | (Some (Inl e), b) \<Rightarrow> (Some (Inl e), wire_below stream, b)
           | (Some (Inr _), b) \<Rightarrow>
               (case copy_bidirectional_graceful (fake_tls_end (pe_pad (se_proxy env))) (relay_end (se_aead env))
                       (pe_schedule (se_proxy env)) stream b of
                  (r, t, b1) \<Rightarrow> (r, wire_below t, b1))))"

text \<open>The opening frame and its acknowledgement; every failure here makes the front try the next server.\<close>

definition offer_frame :: "nat \<Rightarrow> bytes \<Rightarrow> (wire, unit) task" where
  "offer_frame fuel frame =
     bindT (proxy_err ''split write'' (write_all fuel wire_write frame)) (\<lambda>_.
     bindT (timed ''split ack timeout'' (proxy_err ''split ack read'' (read_exact fuel wire_read 1))) (\<lambda>ack.
     if ack ! 0 = ack_ok then retT () else failT (Proxy ''split back refused the session'')))"

definition front_session_over ::
    "split_env \<Rightarrow> nat \<Rightarrow> session_keys \<Rightarrow> bool \<Rightarrow> front_relay \<Rightarrow> string \<Rightarrow> wire \<Rightarrow> (front_session, unit) task" where
  "front_session_over env first keys encrypted fr addr w s =
     (let st = (fs_stats s)\<lparr>split_relayed := split_relayed (fs_stats s) + 1\<rparr> in
      case front_copy env fr (fs_client s) (wrap_relay_stream w keys encrypted True) of
        (r, c, b) \<Rightarrow>
          let s1 = s\<lparr>fs_client := c, fs_backs := fs_backs s @ [(addr, relay_wire b)], fs_stats := st\<rparr> in
          (case r of
             Some (Inr (c2b, b2c)) \<Rightarrow>
               (Some (Inr ()), s1\<lparr>fs_stats := from_backend b2c (to_backend (c2b + first) st)\<rparr>)
           | Some (Inl e) \<Rightarrow> (Some (Inl e), s1)
           | None \<Rightarrow> (None, s1)))"

fun try_backs ::
    "split_env \<Rightarrow> u64 \<Rightarrow> bytes \<Rightarrow> nat \<Rightarrow> session_keys \<Rightarrow> bool \<Rightarrow> front_relay \<Rightarrow> (string \<times> wire) option \<Rightarrow> sg_error option
     \<Rightarrow> string list \<Rightarrow> (front_session, unit) task" where
  "try_backs env secs frame first keys encrypted fr pre last_error [] s =
     (Some (Inl (case last_error of Some e \<Rightarrow> e | None \<Rightarrow> Proxy ''no split back_servers available'')), s)"
| "try_backs env secs frame first keys encrypted fr pre last_error (addr # rest) s =
     (case (case pre of
              Some (a, w) \<Rightarrow> if a = addr then (Some (Inr w), s) else dial_back env secs addr s
            | None \<Rightarrow> dial_back env secs addr s) of
        (None, s1) \<Rightarrow> try_backs env secs frame first keys encrypted fr None (Some (Proxy ''split connect timeout'')) rest s1
      | (Some (Inl _), s1) \<Rightarrow> try_backs env secs frame first keys encrypted fr None (Some (Proxy ''split connect'')) rest s1
      | (Some (Inr w), s1) \<Rightarrow>
          (case offer_frame (se_fuel env) frame w of
             (None, w1) \<Rightarrow> (None, s1\<lparr>fs_backs := fs_backs s1 @ [(addr, w1)]\<rparr>)
           | (Some (Inl e), w1) \<Rightarrow>
               try_backs env secs frame first keys encrypted fr None (Some e) rest (s1\<lparr>fs_backs := fs_backs s1 @ [(addr, w1)]\<rparr>)
           | (Some (Inr _), w1) \<Rightarrow> front_session_over env first keys encrypted fr addr w1 s1))"

definition front_offer ::
    "split_env \<Rightarrow> split_config \<Rightarrow> secret_kind \<Rightarrow> string \<Rightarrow> bytes \<Rightarrow> front_relay \<Rightarrow> (string \<times> wire) option \<Rightarrow> (front_session, unit) task" where
  "front_offer env sp mode preferred first fr pre =
     bindT (liftT (ok_or (Config ''split.auth_token is not set'') (auth_token sp))) (\<lambda>token.
     if back_servers sp = [] then failT (Config ''split.back_servers is empty for front mode'')
     else bindT (liftT (encode_opening_frame (ce_sha (se_crypto env)) token mode preferred first (encrypt_relay sp))) (\<lambda>frame.
       try_backs env (connect_timeout_secs sp) frame (length first)
         (derive_session_keys (ce_sha (se_crypto env)) token frame)
         (encrypt_relay sp \<and> opening_frame_encrypted frame) fr pre None (back_servers sp)))"

definition relay_from_front ::
    "split_env \<Rightarrow> mtproto_config \<Rightarrow> drs_config \<Rightarrow> split_config \<Rightarrow> bytes \<Rightarrow> string \<Rightarrow> secret_kind \<Rightarrow> string option
     \<Rightarrow> (front_session, unit) task" where
  "relay_from_front env m dr sp initial preferred mode label =
     (if mode = Ee then
        bindT (liftT (resolve_secret_bytes (ce_hex (se_crypto env)) m label)) (\<lambda>secret.
        bindT (on_front (prepare_ee_client_hello env initial secret)) (\<lambda>(hello_buf, _).
        (\<lambda>s. case front_handshake env secret (fake_tls_over (prefix_wire hello_buf (fs_client s)) (write_options_from_drs dr)) of
               (None, t) \<Rightarrow> (None, s\<lparr>fs_client := wire_below t\<rparr>)
             | (Some (Inl e), t) \<Rightarrow> (Some (Inl e), s\<lparr>fs_client := wire_below t\<rparr>)
             | (Some (Inr (handshake, ahead)), t) \<Rightarrow>
                 (case preconnect env sp (s\<lparr>fs_client := wire_below t\<rparr>) of
                    (pre, s1) \<Rightarrow> front_offer env sp mode preferred handshake (FrontEe ahead t) pre s1))))
      else front_offer env sp mode preferred initial (FrontPlain initial) None)"

section \<open>The back\<close>

definition auth_failed :: "stats \<Rightarrow> stats" where
  "auth_failed st = st\<lparr>split_auth_failed := split_auth_failed st + 1\<rparr>"

definition relayed_one :: "stats \<Rightarrow> stats" where
  "relayed_one st = st\<lparr>split_relayed := split_relayed st + 1\<rparr>"

text \<open>An answer to the front that refuses, and the error the handler ends with.\<close>

definition refuse :: "split_env \<Rightarrow> string \<Rightarrow> sg_error \<Rightarrow> (session, 'a) task" where
  "refuse env message err =
     bindT (on_client (send_ack (se_fuel env) wire_write False (Some message))) (\<lambda>_. failT err)"

definition split_ee_handshake_err :: string where
  "split_ee_handshake_err = ''invalid obfuscated2 handshake in initial_data''"

definition split_ee_length_err :: string where
  "split_ee_length_err = ''ee initial_data must be a 64-byte obfuscated2 handshake''"

text \<open>The data centre a handshake asks for, when it asks for one.\<close>

definition frame_dc_id :: "split_env \<Rightarrow> bytes \<Rightarrow> bytes \<Rightarrow> string \<Rightarrow> u16" where
  "frame_dc_id env handshake secret backend =
     (case handshake_dc_index (ce_sha (se_crypto env)) (ce_ks (se_crypto env)) handshake secret of
        Some dc \<Rightarrow> if dc \<noteq> 0 then dc else dc_id_from_backend backend
      | None \<Rightarrow> dc_id_from_backend backend)"

text \<open>The relay stream to the front with what was peeked, and the first bytes of the client before it.\<close>

definition back_front_io :: "bytes \<Rightarrow> bytes \<Rightarrow> wire \<Rightarrow> session_keys \<Rightarrow> bool \<Rightarrow> relay_stream prefixed" where
  "back_front_io initial peeked front keys encrypted =
     prefixed_new initial (wrap_relay_stream (prefix_wire peeked front) keys encrypted False)"

text \<open>
  \<^verbatim>\<open>try_join!\<close> of \<^verbatim>\<open>accept_handshake\<close> and the dial: the first needs only the prefix, so it is finished at its
  first poll (lemma \<open>back_accepts_at_once\<close> of \<open>Split_Back\<close>) and the dial follows it.
\<close>

definition back_ee_copy :: "split_env \<Rightarrow> u16 \<Rightarrow> relay_stream prefixed accepted \<Rightarrow> (session, unit) task" where
  "back_ee_copy env dc a =
     (let ks = ce_ks (se_crypto env); relay_dc = (if ac_dc_id a \<noteq> 0 then ac_dc_id a else dc) in
      case generate_relay_init ks (pe_draws (se_proxy env)) relay_dc (ac_proto_tag a) of
        None \<Rightarrow> (\<lambda>s. (None, s))
      | Some (Inl e) \<Rightarrow> failT e
      | Some (Inr (header, relay_keys)) \<Rightarrow>
          bindT (on_upstream (proxy_err ''split ee relay header to DC'' (write_all (se_fuel env) wire_write header))) (\<lambda>_.
          bindT (count relayed_one) (\<lambda>_.
          bindT (\<lambda>s. case copy_bidirectional_graceful (obf_end ks (prefixed_end (relay_end (se_aead env)))) (obf_end ks tcp)
                        (pe_schedule (se_proxy env)) (ac_stream a) (from_relay_keys (ss_upstream s) relay_keys) of
                   (r, l, d) \<Rightarrow> (r, s\<lparr>ss_client := relay_wire (px_inner (ob_inner l)), ss_upstream := ob_inner d\<rparr>)) (\<lambda>(c2b, b2c).
          bindT (count (to_backend (c2b + handshake_len))) (\<lambda>_.
          count (from_backend b2c))))))"

definition back_ee_session ::
    "split_env \<Rightarrow> network_config \<Rightarrow> split_opening_frame \<Rightarrow> session_keys \<Rightarrow> bool \<Rightarrow> bytes \<Rightarrow> u16 \<Rightarrow> (session, unit) task" where
  "back_ee_session env net frame keys encrypted secret dc =
     bindT (on_client (peek_raw_after_ack (se_fuel env) wire_read)) (\<lambda>peeked.
     bindT (\<lambda>s. (accept_handshake (ce_sha (se_crypto env)) (ce_ks (se_crypto env)) (se_fuel env)
                   (prefixed_poll_read (relay_poll_read (se_aead env)))
                   (back_front_io (of_initial frame) peeked (ss_client s) keys encrypted) secret, s)) (\<lambda>accepted.
     bindT (timed ''split back ee: timeout connecting to DC'' (connect_pool (se_proxy env) net (of_backend frame))) (\<lambda>_.
     back_ee_copy env dc accepted)))"

definition handle_back_ee_connection ::
    "split_env \<Rightarrow> config \<Rightarrow> split_opening_frame \<Rightarrow> session_keys \<Rightarrow> bool \<Rightarrow> (session, unit) task" where
  "handle_back_ee_connection env cfg frame keys encrypted =
     bindT (liftT (resolve_secret_bytes (ce_hex (se_crypto env)) (mtproto cfg) None)) (\<lambda>secret.
     if length (of_initial frame) \<noteq> handshake_len then refuse env split_ee_length_err (Proxy split_ee_length_err)
     else if parse_handshake (ce_sha (se_crypto env)) (ce_ks (se_crypto env)) (of_initial frame) secret = None
       then refuse env split_ee_handshake_err (Proxy split_ee_handshake_err)
     else bindT (liftT (ok_or (Proxy ''no proto tag'')
                   (handshake_proto_tag (ce_sha (se_crypto env)) (ce_ks (se_crypto env)) (of_initial frame) secret))) (\<lambda>_.
       bindT (on_client (send_ack (se_fuel env) wire_write True None)) (\<lambda>_.
       back_ee_session env (network cfg) frame keys encrypted secret
         (frame_dc_id env (of_initial frame) secret (of_backend frame)))))"

text \<open>A step whose failure is reported to the front before the handler ends with it.\<close>

definition or_refuse :: "split_env \<Rightarrow> (session, 'a) task \<Rightarrow> (session, 'a) task" where
  "or_refuse env t s =
     (case t s of
        (Some (Inl e), s1) \<Rightarrow> refuse env (error_text (se_io_text env) e) e s1
      | other \<Rightarrow> other)"

definition back_plain_session ::
    "split_env \<Rightarrow> config \<Rightarrow> split_opening_frame \<Rightarrow> session_keys \<Rightarrow> bool \<Rightarrow> (session, unit) task" where
  "back_plain_session env cfg frame keys encrypted =
     bindT (or_refuse env (connect_pool (se_proxy env) (network cfg) (of_backend frame))) (\<lambda>connected.
     bindT (failover_notice (webhooks cfg) (of_backend frame) connected) (\<lambda>_.
     bindT (or_refuse env (write_initial_to_backend (se_proxy env) (of_initial frame) (of_mode frame)
              (fragmentation cfg) (drs cfg) (dd cfg))) (\<lambda>_.
     bindT (on_client (send_ack (se_fuel env) wire_write True None)) (\<lambda>_.
     bindT (count relayed_one) (\<lambda>_.
     bindT (count (to_backend (length (of_initial frame)))) (\<lambda>_.
     bindT (\<lambda>s. case copy_bidirectional_graceful (relay_end (se_aead env)) tcp (pe_schedule (se_proxy env))
                   (wrap_relay_stream (ss_client s) keys encrypted False) (ss_upstream s) of
              (r, l, u) \<Rightarrow> (r, s\<lparr>ss_client := relay_wire l, ss_upstream := u\<rparr>)) (\<lambda>(c2b, b2c).
     bindT (count (to_backend c2b)) (\<lambda>_.
     count (from_backend b2c)))))))))"

definition handle_back_connection ::
    "split_env \<Rightarrow> config \<Rightarrow> split_config \<Rightarrow> ip_addr \<Rightarrow> (session, unit) task" where
  "handle_back_connection env cfg sp peer_ip =
     (if \<not> peer_allowed peer_ip (front_allowlist sp) then
        bindT (count auth_failed) (\<lambda>_. refuse env ''front IP is not in the allowlist'' (Proxy ''split front IP is not allowed''))
      else
        bindT (liftT (ok_or (Config ''split.auth_token is not set'') (auth_token sp))) (\<lambda>token.
        bindT (on_client (read_opening_frame (se_fuel env) wire_read max_initial_len)) (\<lambda>raw.
        bindT (liftT (decode_opening_frame raw)) (\<lambda>frame.
        if max_initial_len < length (of_initial frame) then
          bindT (count auth_failed) (\<lambda>_. refuse env ''initial_data too big'' (Proxy ''initial_data too big''))
        else if slice raw 5 32 \<noteq> hash_auth_token (ce_sha (se_crypto env)) token then
          bindT (count auth_failed) (\<lambda>_. refuse env ''wrong auth_token'' (Proxy ''wrong split auth_token''))
        else
          let encrypted = encrypt_relay sp \<and> opening_frame_encrypted raw;
              keys = derive_session_keys (ce_sha (se_crypto env)) token raw in
          if of_mode frame = Ee then handle_back_ee_connection env cfg frame keys encrypted
          else back_plain_session env cfg frame keys encrypted))))"

section \<open>The relay streams of the two sides\<close>

text \<open>What the stream seals with, if anything, on the side of the front or of the back.\<close>

definition relay_key :: "session_keys \<Rightarrow> bool \<Rightarrow> bool \<Rightarrow> dir_cipher option" where
  "relay_key keys encrypted as_client =
     (if encrypted then Some (dir_cipher_new (if as_client then client_to_server keys else server_to_client keys)) else None)"

lemma roomy_accepting: "roomy w \<Longrightarrow> accepting w"
  unfolding roomy_def accepting_def by (erule list.pred_mono_strong) (simp split: wr_event.splits)

lemma roomy_cong: "wi_out a = wi_out b \<Longrightarrow> roomy a = roomy b"
  by (simp add: roomy_def)

lemma relay_start_took:
  assumes "aead_laws A" and "roomy w"
  shows "relay_took A (relay_key keys enc side) (wi_sent w) (wrap_relay_stream w keys enc side) []
    \<or> relay_dead A (relay_key keys enc side) (wi_sent w) (wrap_relay_stream w keys enc side) []"
proof (cases enc)
  case False
  then show ?thesis using wire_ready [OF roomy_accepting [OF assms(2)]] by (simp add: relay_key_def wrap_relay_stream_def)
next
  case True
  let ?s = "if side then client_side w keys else server_side w keys"
  have f: "es_inner ?s = w" "es_write_pending ?s = []"
    "es_enc ?s = dir_cipher_new (if side then client_to_server keys else server_to_client keys)"
    by (simp_all add: client_side_def server_side_def enc_stream_new_def)
  have "sealing A k k pre pre []" for k pre by (auto simp: sealing_def intro!: exI [of _ "[]"])
  then have "enc_took A (es_enc ?s) (wi_sent w) ?s [] \<or> enc_dead A (es_enc ?s) (wi_sent w) ?s []"
    using assms f(1,2) by (cases "wi_out w = []") (auto simp: enc_took_def enc_dead_def intro!: exI [of _ "[]"])
  then show ?thesis using True f(3) by (simp add: relay_key_def wrap_relay_stream_def)
qed

lemma relay_start_owes:
  assumes "aead_laws A" and "RData [] \<notin> set (wi_in w)" and "relay_carries A (relay_key keys enc (\<not> side)) (script_data (wi_in w)) d"
  shows "relay_owes A (wrap_relay_stream w keys enc side) d"
proof (cases enc)
  case False
  then show ?thesis using assms by (simp add: relay_key_def wrap_relay_stream_def owes_wire_def owes_script_def)
next
  case True
  let ?s = "if side then client_side w keys else server_side w keys"
  obtain ps where ps: "list_all plain_ok ps" "concat ps = d"
      "script_data (wi_in w) = sealed A (dir_cipher_new (if side then server_to_client keys else client_to_server keys)) ps"
    using assms(3) True by (auto simp: relay_key_def split: if_splits)
  have "owes_enc A ?s d" unfolding owes_enc_def
    by (intro conjI, force simp: client_side_def server_side_def enc_stream_new_def,
        rule exI [of _ "script_data (wi_in w)"], rule exI [of _ ps])
      (use ps assms(2) in \<open>auto simp: client_side_def server_side_def enc_stream_new_def owes_wire_def owes_script_def between_frames_def\<close>)
  then show ?thesis using True assms(1) by (simp add: wrap_relay_stream_def owes_lawful_def)
qed

section \<open>Offering the frame\<close>

lemma wire_write_roomy: "roomy w \<Longrightarrow> wire_write bs w = (r, w1) \<Longrightarrow> roomy w1"
  by (cases "(bs, wi_out w)" rule: inner_write.cases) (auto simp: wire_write_def roomy_def)

lemma write_all_roomy: "roomy w \<Longrightarrow> write_all fuel wire_write bs w = (r, w1) \<Longrightarrow> roomy w1"
proof (induction fuel arbitrary: bs w)
  case (Suc fuel)
  obtain p w2 where p: "wire_write bs w = (p, w2)" by fastforce
  show ?case using Suc.prems Suc.IH [of w2] wire_write_roomy [OF Suc.prems(1) p] p
    by (cases p rule: written_cases) (auto split: if_splits)
qed simp

lemma read_exact_wire:
  "read_exact fuel wire_read n w = (r, w1) \<Longrightarrow> RData [] \<notin> set (wi_in w) \<Longrightarrow> RData [] \<notin> set (wi_in w1)
     \<and> wi_sent w1 = wi_sent w \<and> wi_out w1 = wi_out w
     \<and> (\<forall>out. r = Some (Inr out) \<longrightarrow> length out = n \<and> script_data (wi_in w) = out @ script_data (wi_in w1))"
proof -
  assume a: "read_exact fuel wire_read n w = (r, w1)" "RData [] \<notin> set (wi_in w)"
  have keep: "wi_sent w1 = wi_sent w \<and> wi_out w1 = wi_out w" if "read_exact fuel wire_read n w = (r, w1)" for fuel n w r w1
    using that
  proof (induction fuel arbitrary: n w r w1)
    case (Suc fuel)
    obtain p w2 where p: "wire_read n w = (p, w2)" by fastforce
    obtain q w3 where q: "read_exact fuel wire_read (n - length (polled p)) w2 = (q, w3)" by fastforce
    show ?case using Suc.prems Suc.IH [OF q] wire_read_sent [OF p] p q
      by (cases p rule: polled.cases) (auto split: if_splits option.splits sum.splits)
  qed (auto split: if_splits)
  have nz: "RData [] \<notin> set (wi_in w1)" if "read_exact fuel wire_read n w = (r, w1)" "RData [] \<notin> set (wi_in w)" for fuel n w r w1
    using that
  proof (induction fuel arbitrary: n w r w1)
    case (Suc fuel)
    obtain p w2 where p: "wire_read n w = (p, w2)" by fastforce
    obtain q w3 where q: "read_exact fuel wire_read (n - length (polled p)) w2 = (q, w3)" by fastforce
    have "n \<noteq> 0 \<Longrightarrow> RData [] \<notin> set (wi_in w2)"
      using p Suc.prems(2) inner_read_script(1) [of n "wi_in w"] by (fastforce simp: wire_read_def split: prod.splits)
    then show ?case using Suc.prems Suc.IH [OF q] p q
      by (cases p rule: polled.cases) (auto split: if_splits option.splits sum.splits)
  qed (auto split: if_splits)
  have "owes_wire w (script_data (wi_in w))" using a(2) by (simp add: owes_wire_def owes_script_def)
  from wire_source.read_exact_delivers [OF this a(1)] show ?thesis
    using keep [OF a(1)] nz [OF a] by (auto simp: owes_wire_def owes_script_def)
qed

lemma offer_frame_shape:
  assumes "offer_frame fuel frame w = (r, w1)" and "RData [] \<notin> set (wi_in w)"
  shows "RData [] \<notin> set (wi_in w1)" "roomy w \<Longrightarrow> roomy w1"
    "\<exists>x. wi_sent w1 = wi_sent w @ x \<and> prefix x frame \<and> (r = Some (Inr ()) \<longrightarrow> x = frame)"
    "r = Some (Inr ()) \<Longrightarrow> script_data (wi_in w) = ack_ok # script_data (wi_in w1)"
proof -
  obtain q w2 where q: "write_all fuel wire_write frame w = (q, w2)" by fastforce
  obtain x y where x: "frame = x @ y" "wi_sent w2 = wi_sent w @ x" "q = Some (Inr ()) \<longrightarrow> y = []"
    using wire_sink.write_all_accepts [OF _ q, of "wi_sent w"] by (auto simp: took_wire_def)
  have i2: "wi_in w2 = wi_in w" by (rule write_all_in [OF q])
  obtain p w3 where p: "read_exact fuel wire_read 1 w2 = (p, w3)" by fastforce
  note rd = read_exact_wire [OF p] 
  have nz: "RData [] \<notin> set (wi_in w2)" using assms(2) i2 by simp
  have cases: "q \<noteq> Some (Inr ()) \<and> w1 = w2 \<and> r \<noteq> Some (Inr ()) \<or> q = Some (Inr ()) \<and> w1 = w3
      \<and> (r = Some (Inr ()) \<longrightarrow> (\<exists>ack. p = Some (Inr ack) \<and> ack ! 0 = ack_ok))"
    using assms(1) q p
    by (auto simp: offer_frame_def task_defs split: option.splits sum.splits if_splits)
  show "RData [] \<notin> set (wi_in w1)" using cases rd [OF nz] nz by auto
  show "roomy w \<Longrightarrow> roomy w1" using cases rd [OF nz] write_all_roomy [OF _ q] roomy_cong [of w3 w2] by auto
  show "\<exists>x. wi_sent w1 = wi_sent w @ x \<and> prefix x frame \<and> (r = Some (Inr ()) \<longrightarrow> x = frame)"
    using cases rd [OF nz] x by (intro exI [of _ x]) auto
  show "script_data (wi_in w) = ack_ok # script_data (wi_in w1)" if ok: "r = Some (Inr ())"
  proof -
    obtain ack where a: "p = Some (Inr ack)" "ack ! 0 = ack_ok" "w1 = w3" using cases ok by blast
    then have "length ack = 1" "script_data (wi_in w2) = ack @ script_data (wi_in w3)" using rd [OF nz] by auto
    then show ?thesis using a i2 by (cases ack) auto
  qed
qed

section \<open>What a front hands over\<close>

definition served :: "aead \<Rightarrow> dir_cipher option \<Rightarrow> bytes \<Rightarrow> bytes \<Rightarrow> wire \<Rightarrow> bool" where
  "served A k frame data w \<longleftrightarrow>
     (\<exists>x moved. wi_sent w = frame @ x \<and> relay_carries A k x moved \<and> prefix moved data)"

text \<open>
  A back server that speaks the protocol: after its acknowledgement it sends, if the session is sealed, frames of the
  other direction. How much its socket takes at a time is not part of it: that is the premise \<open>roomy\<close> of
  the properties.
\<close>

definition honest_back :: "aead \<Rightarrow> dir_cipher option \<Rightarrow> wire \<Rightarrow> bool" where
  "honest_back A k w \<longleftrightarrow> wi_sent w = [] \<and> RData [] \<notin> set (wi_in w)
     \<and> (\<forall>y. script_data (wi_in w) = ack_ok # y \<longrightarrow> (\<exists>e. relay_carries A k y e))"

text \<open>
  The back servers that were used, in the configured order; all but the last have seen at most the frame,
  and the client hears nothing unless the last one has acknowledged it.
\<close>

definition front_outcome ::
    "aead \<Rightarrow> dir_cipher option \<Rightarrow> bytes \<Rightarrow> bytes \<Rightarrow> string list \<Rightarrow> front_session \<Rightarrow> unit result option \<Rightarrow> front_session \<Rightarrow> bool" where
  "front_outcome A k frame data addrs s r s1 \<longleftrightarrow>
     (\<exists>log. fs_backs s1 = fs_backs s @ log \<and> subseq (map fst log) addrs
        \<and> (fs_client s1 = fs_client s \<and> r \<noteq> Some (Inr ()) \<and> (\<forall>(a, w) \<in> set log. prefix (wi_sent w) frame)
           \<or> log \<noteq> [] \<and> (\<forall>(a, w) \<in> set (butlast log). prefix (wi_sent w) frame) \<and> served A k frame data (snd (last log))))"

lemma front_outcome_skip:
  "front_outcome A k frame data rest s r s1 \<Longrightarrow> front_outcome A k frame data (a # rest) s r s1"
  unfolding front_outcome_def using list_emb_Cons by blast

lemma front_outcome_log:
  assumes "front_outcome A k frame data rest (s\<lparr>fs_backs := fs_backs s @ [(a, w)]\<rparr>) r s1" and "prefix (wi_sent w) frame"
  shows "front_outcome A k frame data (a # rest) s r s1"
proof -
  obtain log where log: "fs_backs s1 = fs_backs s @ (a, w) # log" "subseq (map fst log) rest"
      "fs_client s1 = fs_client s \<and> r \<noteq> Some (Inr ()) \<and> (\<forall>(a, w) \<in> set log. prefix (wi_sent w) frame)
       \<or> log \<noteq> [] \<and> (\<forall>(a, w) \<in> set (butlast log). prefix (wi_sent w) frame) \<and> served A k frame data (snd (last log))"
    using assms(1) by (auto simp: front_outcome_def)
  then show ?thesis unfolding front_outcome_def using assms(2) by (intro exI [of _ "(a, w) # log"]) auto
qed

lemma front_outcome_cong: "fs_backs s = fs_backs t \<Longrightarrow> fs_client s = fs_client t \<Longrightarrow>
   front_outcome A k frame data addrs s r s1 = front_outcome A k frame data addrs t r s1"
  by (simp add: front_outcome_def)

text \<open>The relay itself, for whatever the front relays.\<close>

definition copies :: "split_env \<Rightarrow> dir_cipher option \<Rightarrow> session_keys \<Rightarrow> bool \<Rightarrow> front_relay \<Rightarrow> wire \<Rightarrow> bytes \<Rightarrow> bool" where
  "copies env k keys enc fr client data \<longleftrightarrow>
     (\<forall>w r c b e. roomy w \<longrightarrow> RData [] \<notin> set (wi_in w) \<longrightarrow> relay_carries (se_aead env) (relay_key keys enc False) (script_data (wi_in w)) e
        \<longrightarrow> front_copy env fr client (wrap_relay_stream w keys enc True) = (r, c, b)
        \<longrightarrow> served (se_aead env) k (wi_sent w) data (relay_wire b))"

lemma front_session_over_outcome:
  assumes "front_session_over env first keys enc fr addr w s = (r, s1)" and "copies env k keys enc fr (fs_client s) data"
    and "roomy w" "RData [] \<notin> set (wi_in w)" "relay_carries (se_aead env) (relay_key keys enc False) (script_data (wi_in w)) e"
  shows "front_outcome (se_aead env) k (wi_sent w) data (addr # rest) s r s1"
proof -
  obtain q c b where c: "front_copy env fr (fs_client s) (wrap_relay_stream w keys enc True) = (q, c, b)" using prod_cases3 by blast
  have "served (se_aead env) k (wi_sent w) data (relay_wire b)" using assms(2-5) c unfolding copies_def by blast
  moreover have "fs_backs s1 = fs_backs s @ [(addr, relay_wire b)]"
    using assms(1) c by (auto simp: front_session_over_def Let_def split: option.splits sum.splits)
  ultimately show ?thesis unfolding front_outcome_def by (intro exI [of _ "[(addr, relay_wire b)]"]) simp
qed

lemma try_backs_outcome:
  assumes "copies env k keys enc fr (fs_client s) data"
    and "\<And>n a w. se_dial env n secs a = Some (Inr w) \<Longrightarrow> roomy w \<and> honest_back (se_aead env) (relay_key keys enc False) w"
  shows "try_backs env secs frame first keys enc fr pre le addrs s = (r, s1)
    \<Longrightarrow> (\<And>a w. pre = Some (a, w) \<Longrightarrow> roomy w \<and> honest_back (se_aead env) (relay_key keys enc False) w)
    \<Longrightarrow> front_outcome (se_aead env) k frame data addrs s r s1"
  using assms(1)
proof (induction addrs arbitrary: pre le s)
  case Nil
  then show ?case by (auto simp: front_outcome_def)
next
  case (Cons addr rest)
  let ?dial = "case pre of Some (a, w) \<Rightarrow> if a = addr then (Some (Inr w), s) else dial_back env secs addr s
            | None \<Rightarrow> dial_back env secs addr s"
  obtain d s2 where d: "?dial = (d, s2)" by fastforce
  have s2: "fs_backs s2 = fs_backs s" "fs_client s2 = fs_client s"
    and hon: "\<And>w. d = Some (Inr w) \<Longrightarrow> roomy w \<and> honest_back (se_aead env) (relay_key keys enc False) w"
    using d Cons.prems(2) assms(2) by (auto simp: dial_back_def split: option.splits prod.splits if_splits)
  have run: "(case d of None \<Rightarrow> try_backs env secs frame first keys enc fr None (Some (Proxy ''split connect timeout'')) rest s2
      | Some (Inl _) \<Rightarrow> try_backs env secs frame first keys enc fr None (Some (Proxy ''split connect'')) rest s2
      | Some (Inr w) \<Rightarrow>
          (case offer_frame (se_fuel env) frame w of
             (None, w1) \<Rightarrow> (None, s2\<lparr>fs_backs := fs_backs s2 @ [(addr, w1)]\<rparr>)
           | (Some (Inl e), w1) \<Rightarrow>
               try_backs env secs frame first keys enc fr None (Some e) rest (s2\<lparr>fs_backs := fs_backs s2 @ [(addr, w1)]\<rparr>)
           | (Some (Inr _), w1) \<Rightarrow> front_session_over env first keys enc fr addr w1 s2)) = (r, s1)"
    using Cons.prems(1) d by (simp split: option.splits sum.splits)
  have c2: "copies env k keys enc fr (fs_client s2) data" using Cons.prems(3) s2 by simp
  have cg: "front_outcome (se_aead env) k frame data (addr # rest) s2 r s1 \<Longrightarrow> ?case"
    using front_outcome_cong [OF s2] by simp
  show ?case
  proof (cases "\<exists>w. d = Some (Inr w)")
    case False
    then obtain le' where "try_backs env secs frame first keys enc fr None le' rest s2 = (r, s1)"
      using run by (cases d) (auto split: sum.splits)
    from Cons.IH [OF this _ c2] show ?thesis by (intro cg front_outcome_skip) simp
  next
    case True
    then obtain w where w: "d = Some (Inr w)" by blast
    obtain o1 w1 where o: "offer_frame (se_fuel env) frame w = (o1, w1)" by fastforce
    have h: "roomy w" "honest_back (se_aead env) (relay_key keys enc False) w" using hon w by blast+
    then have hw: "roomy w" "wi_sent w = []" "RData [] \<notin> set (wi_in w)" by (simp_all add: honest_back_def)
    note os = offer_frame_shape [OF o hw(3)]
    obtain x where x: "wi_sent w1 = x" "prefix x frame" "o1 = Some (Inr ()) \<longrightarrow> x = frame" using os(3) hw(2) by auto
    show ?thesis
    proof (cases "o1 = Some (Inr ())")
      case True
      obtain e where e: "relay_carries (se_aead env) (relay_key keys enc False) (script_data (wi_in w1)) e"
        using os(4) [OF True] h by (auto simp: honest_back_def)
      have "front_session_over env first keys enc fr addr w1 s2 = (r, s1)" using run w o True by simp
      from front_session_over_outcome [OF this c2 os(2) [OF hw(1)] os(1) e] x True show ?thesis by (intro cg) simp
    next
      case False
      let ?s3 = "s2\<lparr>fs_backs := fs_backs s2 @ [(addr, w1)]\<rparr>"
      have "front_outcome (se_aead env) k frame data rest ?s3 r s1"
      proof (cases o1)
        case None
        then have "r = None" "s1 = ?s3" using run w o by simp_all
        then show ?thesis by (auto simp: front_outcome_def)
      next
        case (Some v)
        then obtain e where "o1 = Some (Inl e)" using False by (cases v) auto
        then have "try_backs env secs frame first keys enc fr None (Some e) rest ?s3 = (r, s1)" using run w o by simp
        from Cons.IH [OF this _ _] c2 show ?thesis by simp
      qed
      from front_outcome_log [OF this] x show ?thesis by (intro cg) simp
    qed
  qed
qed

section \<open>The copying of the front\<close>

abbreviation io_relay :: "aead \<Rightarrow> dir_cipher option \<Rightarrow> bytes \<Rightarrow> relay_stream \<Rightarrow> bytes \<Rightarrow> bytes \<Rightarrow> bool" where
  "io_relay A k pre \<equiv> steady.io_steady (relay_owes A) (relay_took A k pre) (relay_dead A k pre)"

abbreviation io_ft :: "bytes \<Rightarrow> fake_tls \<Rightarrow> bytes \<Rightarrow> bytes \<Rightarrow> bool" where
  "io_ft pre \<equiv> steady.io_steady owes_ft (ft_took pre) (ft_dead pre)"

interpretation relay_duplex: duplex "relay_poll_read A" "relay_poll_write A" relay_poll_flush "io_relay A k pre" for A k pre
  by (rule relay_steady.steady_duplex)

interpretation ft_duplex: duplex poll_read "poll_write rng" ft_flush "io_ft pre" for rng pre
  using ft_steady.steady_duplex [of rng pre] by (simp add: ft_flush_def [abs_def])

interpretation front_plain: relay_pair "prefixed_poll_read wire_read" "prefixed_poll_write wire_write"
    "prefixed_poll_flush wire_flush" "io_prefixed io_wire"
    "relay_poll_read A" "relay_poll_write A" relay_poll_flush "io_relay A k pre" for A k pre
  by unfold_locales

interpretation front_ee: relay_pair poll_read "poll_write rng" ft_flush "io_ft pre'"
    "relay_poll_read A" "relay_poll_write A" relay_poll_flush "io_relay A k pre" for rng pre' A k pre
  by unfold_locales

lemma io_relay_iff: "io_relay A k pre b d c \<longleftrightarrow> relay_owes A b d \<and> (relay_took A k pre b c \<or> relay_dead A k pre b c)"
  by (simp add: steady.io_steady_def [OF relay_steady.steady_axioms])

lemma io_ft_iff: "io_ft pre t d c \<longleftrightarrow> owes_ft t d \<and> (ft_took pre t c \<or> ft_dead pre t c)"
  by (simp add: steady.io_steady_def [OF ft_steady.steady_axioms])

lemma relay_io_start:
  assumes "aead_laws A" and "roomy w" and "RData [] \<notin> set (wi_in w)"
    and "relay_carries A (relay_key keys enc (\<not> side)) (script_data (wi_in w)) e"
  shows "io_relay A (relay_key keys enc side) (wi_sent w) (wrap_relay_stream w keys enc side) e []"
  using relay_start_owes [OF assms(1,3,4)] relay_start_took [OF assms(1,2)] by (simp add: io_relay_iff)

lemma served_relay: "io_relay A k (frame @ x) b d c \<Longrightarrow> x = [] \<Longrightarrow> prefix c data \<Longrightarrow> served A k frame data (relay_wire b)"
  using relay_sent by (fastforce simp: io_relay_iff served_def)

lemma copies_plain:
  assumes "aead_laws (se_aead env)" and "RData [] \<notin> set (wi_in client)"
  shows "copies env (relay_key keys enc True) keys enc (FrontPlain initial) client (initial @ script_data (wi_in client))"
  unfolding copies_def
proof (intro allI impI)
  fix w r c b e
  assume w: "roomy w" "RData [] \<notin> set (wi_in w)" "relay_carries (se_aead env) (relay_key keys enc False) (script_data (wi_in w)) e"
    and run: "front_copy env (FrontPlain initial) client (wrap_relay_stream w keys enc True) = (r, c, b)"
  obtain l where cp: "copy_bidirectional_graceful (prefixed_end tcp) (relay_end (se_aead env)) (pe_schedule (se_proxy env))
      (prefixed_new initial client) (wrap_relay_stream w keys enc True) = (r, l, b)"
    using run by (auto simp: front_copy_def split: prod.splits)
  have a: "io_prefixed io_wire (prefixed_new initial client) (initial @ script_data (wi_in client)) (wi_sent client)"
    using assms(2) by (auto simp: io_prefixed_def prefixed_new_def io_wire_def owes_wire_def owes_script_def took_wire_def)
  have "io_relay (se_aead env) (relay_key keys enc True) (wi_sent w) (wrap_relay_stream w keys enc True) e []"
    by (rule relay_io_start [OF assms(1) w(1,2)]) (use w(3) in simp)
  from front_plain.relay_flow [OF a this cp [unfolded prefixed_end_def tcp_def relay_end_def end_point.simps]]
  obtain dr mc where f: "io_relay (se_aead env) (relay_key keys enc True) (wi_sent w) b dr mc"
      "prefix mc (initial @ script_data (wi_in client))" by auto
  from served_relay [of _ _ "wi_sent w" "[]", simplified, OF f]
  show "served (se_aead env) (relay_key keys enc True) (wi_sent w) (initial @ script_data (wi_in client)) (relay_wire b)" .
qed

lemma flush_all_io: "duplex rd wr fl io \<Longrightarrow> io s d t \<Longrightarrow> flush_all fuel fl s = (r, s1) \<Longrightarrow> io s1 d t"
proof (induction fuel arbitrary: s)
  case (Suc fuel)
  obtain f s2 where f: "fl s = (f, s2)" by fastforce
  have "io s2 d t" using duplex.fl_io [OF Suc.prems(1,2) f] .
  with Suc f show ?case by (cases f) auto
qed simp

lemma write_all_io:
  assumes "duplex rd wr fl io" and "io s d t" and "write_all fuel wr bs s = (r, s1)"
  shows "\<exists>x y. bs = x @ y \<and> io s1 d (t @ x) \<and> (r = Some (Inr ()) \<longrightarrow> y = [])"
proof -
  have "byte_sink wr (\<lambda>s t. io s d t)" by unfold_locales (use duplex.wr_io [OF assms(1)] in blast)
  from byte_sink.write_all_accepts [OF this assms(2,3)] show ?thesis by blast
qed

lemma copies_ee:
  assumes "aead_laws (se_aead env)" and "unpadded t" "obliging t" "owes_ft t D"
  shows "copies env (relay_key keys enc True) keys enc (FrontEe ahead t) client (ahead @ D)"
  unfolding copies_def
proof (intro allI impI)
  fix w r c b e
  let ?A = "se_aead env" and ?k = "relay_key keys enc True" and ?b0 = "wrap_relay_stream w keys enc True"
  assume w: "roomy w" "RData [] \<notin> set (wi_in w)" "relay_carries ?A (relay_key keys enc False) (script_data (wi_in w)) e"
    and run: "front_copy env (FrontEe ahead t) client ?b0 = (r, c, b)"
  have start: "io_relay ?A ?k (wi_sent w) ?b0 e []" by (rule relay_io_start [OF assms(1) w(1,2)]) (use w(3) in simp)
  obtain p b1 where p: "prime_back env ahead ?b0 = (p, b1)" by fastforce
  have "\<exists>x y. ahead = x @ y \<and> io_relay ?A ?k (wi_sent w) b1 e x \<and> (p = Some (Inr ()) \<longrightarrow> y = [])"
  proof (cases "ahead = []")
    case True
    then show ?thesis using p start by (simp add: prime_back_def retT_def)
  next
    case False
    obtain q b2 where q: "write_all (se_fuel env) (relay_poll_write ?A) ahead ?b0 = (q, b2)" by fastforce
    obtain x y where x: "ahead = x @ y" "io_relay ?A ?k (wi_sent w) b2 e x" "q = Some (Inr ()) \<longrightarrow> y = []"
      using write_all_io [OF relay_duplex.duplex_axioms start q] by auto
    obtain f b3 where f: "flush_all (se_fuel env) relay_poll_flush b2 = (f, b3)" by fastforce
    have "io_relay ?A ?k (wi_sent w) b3 e x" by (rule flush_all_io [OF relay_duplex.duplex_axioms x(2) f])
    moreover have "b1 = b2 \<and> p \<noteq> Some (Inr ()) \<or> b1 = b3 \<and> q = Some (Inr ())"
      using p False q f by (auto simp: prime_back_def task_defs split: option.splits sum.splits)
    ultimately show ?thesis using x by (intro exI [of _ x] exI [of _ y]) auto
  qed
  then obtain x y where x: "ahead = x @ y" "io_relay ?A ?k (wi_sent w) b1 e x" "p = Some (Inr ()) \<longrightarrow> y = []" by blast
  show "served ?A ?k (wi_sent w) (ahead @ D) (relay_wire b)"
  proof (cases "p = Some (Inr ())")
    case False
    then have "b = b1" using run p by (auto simp: front_copy_def split: option.splits sum.splits)
    then show ?thesis using served_relay [of _ _ "wi_sent w" "[]", simplified, OF x(2), of "ahead @ D"] x(1) by simp
  next
    case True
    obtain l where cp: "copy_bidirectional_graceful (fake_tls_end (pe_pad (se_proxy env))) (relay_end ?A) (pe_schedule (se_proxy env))
        t b1 = (r, l, b)"
      using run p True by (auto simp: front_copy_def split: prod.splits)
    have a: "io_ft (ft_sent t) t D []" using assms(2-4) ft_ready by (auto simp: io_ft_iff)
    from front_ee.relay_flow [OF a x(2) cp [unfolded fake_tls_end_def relay_end_def end_point.simps]]
    obtain dr mc where "io_relay ?A ?k (wi_sent w) b dr (x @ mc)" "prefix mc D" by auto
    then show ?thesis using served_relay [of _ _ "wi_sent w" "[]", simplified, of ?A ?k b dr "x @ mc" "ahead @ D"] x(1,3) True by simp
  qed
qed

section \<open>The ee client of a front\<close>

text \<open>A whole ClientHello record put back in front of the client's records is read over.\<close>

definition hello_record :: "tls_record \<Rightarrow> bool" where
  "hello_record rc \<longleftrightarrow> rec_type rc = Handshake \<and> rec_version rc \<in> {(3, 1), (3, 3)} \<and> length (rec_payload rc) \<le> 2043"

lemma hello_skipped:
  assumes "hello_record rc" and "ft_stash t = []" and "ft_read_buf t = []"
  shows "poll_read n (t\<lparr>ft_in := RData (record_bytes rc) # es\<rparr>) = poll_read n (t\<lparr>ft_in := es\<rparr>)"
proof -
  let ?h = "record_bytes rc" and ?s = "t\<lparr>ft_in := RData (record_bytes rc) # es\<rparr>"
  let ?s2 = "t\<lparr>ft_in := es, ft_stash := ?h\<rparr>"
  have l: "length ?h = 5 + length (rec_payload rc)" by (simp add: length_record_bytes)
  then have len: "length ?h \<le> 2048" "length ?h \<noteq> 0" "\<not> length ?h < 5" using assms(1) by (simp_all add: hello_record_def)
  have hd: "?h ! 0 = 22" "?h ! 1 = 3" "?h ! 2 = 1 \<or> ?h ! 2 = 3" "be16 (?h ! 3) (?h ! 4) = length (rec_payload rc)"
    using assms(1) by (auto simp: record_bytes_def hello_record_def u16_be_def be16_u8_of)
  have lk: "looks_like_tls_record_header ?h"
    using hd len by (auto simp: looks_like_tls_record_header_def tls_handshake_def)
  have s0: "stash_loop ?s = (Leave, ?s)" using assms(2) by (simp add: stash_loop.simps)
  have tt: "?s2\<lparr>ft_stash := []\<rparr> = t\<lparr>ft_in := es\<rparr>" using assms(2) by simp
  have fill: "poll_fill_tls_stash ?s = (Ready (Inr (length ?h)), ?s2)"
    using len by (simp add: poll_fill_tls_stash_def assms(2))
  have "stash_loop ?s2 = stash_loop (?s2\<lparr>ft_stash := []\<rparr>)"
    using len l hd by (subst stash_loop.simps) (simp add: tls_application_data_def Let_def max_tls_payload_def)
  then have sl: "stash_loop ?s2 = stash_loop (t\<lparr>ft_in := es\<rparr>)" by (simp only: tt)
  have "poll_read n ?s = poll_read n (resync ?s2)"
    using fill len(2) assms(2,3) s0 by (subst poll_read.simps) simp
  also have "\<dots> = poll_read n ?s2" using lk by (simp add: resync_def)
  also have "\<dots> = poll_read n (t\<lparr>ft_in := es\<rparr>)"
    by (subst poll_read.simps, subst (2) poll_read.simps) (simp add: sl assms(3))
  finally show ?thesis .
qed

lemma hello_skipped_exact:
  assumes "hello_record rc" and "ft_stash t = []" and "ft_read_buf t = []" and "0 < fuel" and "0 < n"
  shows "read_exact fuel poll_read n (t\<lparr>ft_in := RData (record_bytes rc) # es\<rparr>) = read_exact fuel poll_read n (t\<lparr>ft_in := es\<rparr>)"
  using assms(4,5) hello_skipped [OF assms(1-3)] by (cases fuel) simp_all

lemma take_read_buf_owes:
  assumes "owes_ft t D" and "take_read_buf t = (ahead, t1)"
  obtains D1 where "D = ahead @ D1" "owes_ft t1 D1"
proof -
  obtain rs where rs: "carries t rs" "content t rs = D" using assms(1) by (auto simp: owes_ft_def)
  have t1: "t1 = t\<lparr>ft_read_buf := []\<rparr>" "ahead = ft_read_buf t" using assms(2) by (simp_all add: take_read_buf_def)
  have "carries t1 rs" "content t1 rs = app_data rs" using rs(1) by (simp_all add: t1 carries_def content_def)
  then show thesis using rs(2) by (intro that [of "app_data rs"]) (auto simp: t1 owes_ft_def content_def)
qed

lemma front_handshake_reads:
  assumes "front_handshake env secret (fake_tls_over (prefix_wire (record_bytes rc) client) opts) = (Some (Inr (h, ahead)), t)"
    and "hello_record rc" and "0 < se_fuel env"
    and "script_data (wi_in client) = concat (map record_bytes rs)" "list_all data_record rs" "RData [] \<notin> set (wi_in client)"
    and "accepting client" and "unpadded (fake_tls_over client opts)"
  shows "\<exists>D1. app_data rs = h @ ahead @ D1 \<and> length h = 64 \<and> owes_ft t D1 \<and> unpadded t \<and> obliging t \<and> ft_sent t = wi_sent client
    \<and> parse_handshake (ce_sha (se_crypto env)) (ce_ks (se_crypto env)) h secret \<noteq> None"
proof -
  let ?t0 = "fake_tls_over client opts"
  have ne: "record_bytes rc \<noteq> []" by (simp add: record_bytes_def)
  have t0: "fake_tls_over (prefix_wire (record_bytes rc) client) opts = ?t0\<lparr>ft_in := RData (record_bytes rc) # wi_in client\<rparr>"
    "?t0\<lparr>ft_in := wi_in client\<rparr> = ?t0" "ft_stash ?t0 = []" "ft_read_buf ?t0 = []"
    using ne by (simp_all add: fake_tls_over_def fake_tls_new_def prefix_wire_def)
  obtain q t1 where q: "read_exact (se_fuel env) poll_read 64 ?t0 = (q, t1)" by fastforce
  have "read_exact (se_fuel env) poll_read 64 (fake_tls_over (prefix_wire (record_bytes rc) client) opts) = (q, t1)"
    using hello_skipped_exact [OF assms(2) t0(3,4) assms(3), of 64 "wi_in client"] q t0(1,2) by simp
  then have h: "q = Some (Inr h)" "parse_handshake (ce_sha (se_crypto env)) (ce_ks (se_crypto env)) h secret \<noteq> None"
      "take_read_buf t1 = (ahead, t)"
    using assms(1) by (auto simp: front_handshake_def task_defs handshake_len_def split: option.splits sum.splits if_splits prod.splits)
  have o: "owes_ft ?t0 (app_data rs)"
    using assms(4-6) by (auto simp: owes_ft_def carries_def content_def fake_tls_over_def fake_tls_new_def intro!: exI [of _ rs])
  obtain D2 where D2: "length h = 64" "owes_ft t1 D2" "app_data rs = h @ D2"
    using ft_source.read_exact_delivers [OF o q] h(1) by auto
  obtain D1 where D1: "D2 = ahead @ D1" "owes_ft t D1" using take_read_buf_owes [OF D2(2) h(3)] .
  have "keeps_out ?t0 t1" by (rule read_exact_keeps_out [OF q])
  moreover have "obliging ?t0" using assms(7) by (simp add: obliging_def accepting_def fake_tls_over_def fake_tls_new_def)
  ultimately have "unpadded t" "obliging t" "ft_sent t = wi_sent client"
    using assms(8) h(3) by (auto simp: take_read_buf_def keeps_out_def unpadded_def obliging_def fake_tls_over_def)
  then show ?thesis using D1 D2 h(2) by auto
qed

section \<open>Properties of the front\<close>

text \<open>Every back server the front can reach speaks the protocol under the keys of the frame.\<close>

definition honest_network :: "split_env \<Rightarrow> split_config \<Rightarrow> secret_kind \<Rightarrow> string \<Rightarrow> bytes \<Rightarrow> bool" where
  "honest_network env sp mode preferred first \<longleftrightarrow> aead_laws (se_aead env) \<and>
     (\<forall>token frame n secs a w. auth_token sp = Some token
        \<longrightarrow> encode_opening_frame (ce_sha (se_crypto env)) token mode preferred first (encrypt_relay sp) = Inr frame
        \<longrightarrow> se_dial env n secs a = Some (Inr w)
        \<longrightarrow> honest_back (se_aead env) (relay_key (derive_session_keys (ce_sha (se_crypto env)) token frame)
              (encrypt_relay sp \<and> opening_frame_encrypted frame) False) w)"

text \<open>What the front hands over after the first bytes \<open>first\<close>, which are in the frame.\<close>

definition front_hands_over ::
    "split_env \<Rightarrow> split_config \<Rightarrow> secret_kind \<Rightarrow> string \<Rightarrow> bytes \<Rightarrow> bytes \<Rightarrow> front_session \<Rightarrow> unit result option \<Rightarrow> front_session \<Rightarrow> bool" where
  "front_hands_over env sp mode preferred first data s r s1 \<longleftrightarrow>
     s1 = s \<and> r \<noteq> Some (Inr ())
     \<or> (\<exists>token frame. auth_token sp = Some token
          \<and> encode_opening_frame (ce_sha (se_crypto env)) token mode preferred first (encrypt_relay sp) = Inr frame
          \<and> front_outcome (se_aead env) (relay_key (derive_session_keys (ce_sha (se_crypto env)) token frame)
              (encrypt_relay sp \<and> opening_frame_encrypted frame) True) frame data (back_servers sp) s r s1)"

lemma front_offer_hands_over:
  assumes "front_offer env sp mode preferred first fr pre s = (r, s1)" and "honest_network env sp mode preferred first"
    and roomy: "\<forall>n secs a w. se_dial env n secs a = Some (Inr w) \<longrightarrow> roomy w"
    and "\<And>a w. pre = Some (a, w) \<Longrightarrow> \<exists>n secs. se_dial env n secs a = Some (Inr w)"
    and "\<And>keys enc. copies env (relay_key keys enc True) keys enc fr (fs_client s) data"
  shows "front_hands_over env sp mode preferred first data s r s1"
proof (cases "\<exists>token frame. auth_token sp = Some token \<and> back_servers sp \<noteq> []
    \<and> encode_opening_frame (ce_sha (se_crypto env)) token mode preferred first (encrypt_relay sp) = Inr frame")
  case False
  then have "s1 = s \<and> r \<noteq> Some (Inr ())"
    using assms(1)
    by (cases "auth_token sp"; cases "encode_opening_frame (ce_sha (se_crypto env)) (the (auth_token sp)) mode preferred first (encrypt_relay sp)")
      (auto simp: front_offer_def task_defs split: if_splits)
  then show ?thesis by (simp add: front_hands_over_def)
next
  case True
  then obtain token frame where t: "auth_token sp = Some token" "back_servers sp \<noteq> []"
    "encode_opening_frame (ce_sha (se_crypto env)) token mode preferred first (encrypt_relay sp) = Inr frame" by blast
  let ?keys = "derive_session_keys (ce_sha (se_crypto env)) token frame" and ?enc = "encrypt_relay sp \<and> opening_frame_encrypted frame"
  have run: "try_backs env (connect_timeout_secs sp) frame (length first) ?keys ?enc fr pre None (back_servers sp) s = (r, s1)"
    using assms(1) t by (simp add: front_offer_def task_defs)
  have hon: "se_dial env n secs a = Some (Inr w) \<Longrightarrow> roomy w \<and> honest_back (se_aead env) (relay_key ?keys ?enc False) w" for n secs a w
    using assms(2) roomy t unfolding honest_network_def by blast
  have pre: "pre = Some (a, w) \<Longrightarrow> roomy w \<and> honest_back (se_aead env) (relay_key ?keys ?enc False) w" for a w
    using assms(4) hon by blast
  have "front_outcome (se_aead env) (relay_key ?keys ?enc True) frame data (back_servers sp) s r s1"
    by (rule try_backs_outcome [OF assms(5) hon run pre])
  then show ?thesis unfolding front_hands_over_def using t by blast
qed

lemma preconnect_dialled:
  "preconnect env sp s = (pre, s1) \<Longrightarrow> (pre = Some (a, w) \<longrightarrow> (\<exists>n secs. se_dial env n secs a = Some (Inr w)))
     \<and> fs_client s1 = fs_client s \<and> fs_backs s1 = fs_backs s \<and> fs_stats s1 = fs_stats s"
  by (auto simp: preconnect_def dial_back_def split: list.splits option.splits sum.splits prod.splits)

text \<open>
  A front serving a classic or dd client: the back servers are used in the configured order, each sees
  the frame only until one acknowledges it, and nothing reaches the client before. The server that
  acknowledged gets, after the frame, a front of what the prefixed stream delivers.
\<close>

lemma front_hands_over_plain:
  assumes "mode \<noteq> Ee" and "relay_from_front env m dr sp initial preferred mode label s = (r, s1)"
    and "honest_network env sp mode preferred initial" and "\<forall>n secs a w. se_dial env n secs a = Some (Inr w) \<longrightarrow> roomy w"
    and "RData [] \<notin> set (wi_in (fs_client s))"
  shows "front_hands_over env sp mode preferred initial (initial @ script_data (wi_in (fs_client s))) s r s1"
proof -
  have "aead_laws (se_aead env)" using assms(3) by (simp add: honest_network_def)
  from copies_plain [OF this assms(5)] show ?thesis
    by (intro front_offer_hands_over [OF _ assms(3,4), where pre = None and fr = "FrontPlain initial"])
      (use assms(1,2) in \<open>simp_all add: relay_from_front_def\<close>)
qed

text \<open>
  Two streams that answer alike: every answer of the one in state \<open>f s\<close> is the answer of the other in \<open>s\<close>.
\<close>

definition same_end :: "('a \<Rightarrow> 'b) \<Rightarrow> 'a end_point \<Rightarrow> 'b end_point \<Rightarrow> bool" where
  "same_end f E E' \<longleftrightarrow> (\<forall>n s. 0 < n \<longrightarrow> ep_read E' n (f s) = map_prod id f (ep_read E n s))
     \<and> (\<forall>bs s. ep_write E' bs (f s) = map_prod id f (ep_write E bs s)) \<and> (\<forall>s. ep_flush E' (f s) = map_prod id f (ep_flush E s))"

lemma same_end_copy_step:
  assumes "same_end f L L'" and "same_end g R R'"
  shows "copy_step (ep_read L') (ep_write R') (ep_flush R') ph (f l) (g r)
    = map_prod id (map_prod f g) (copy_step (ep_read L) (ep_write R) (ep_flush R) ph l r)"
proof -
  have rd: "ep_read L' copy_buf (f l) = map_prod id f (ep_read L copy_buf l)"
    using assms(1) by (simp add: same_end_def copy_buf_def)
  have wr: "ep_write R' bs (g r) = map_prod id g (ep_write R bs r)" "ep_flush R' (g r) = map_prod id g (ep_flush R r)" for bs
    using assms(2) by (simp_all add: same_end_def)
  show ?thesis
    by (cases ph) (simp_all add: copy_step_def rd wr split_beta split: poll.splits sum.splits)
qed

lemma same_end_run:
  assumes "same_end f L L'" and "same_end g R R'"
  shows "relay_run L' R' schedule \<lparr>rl_left = f l, rl_right = g r, rl_c2s = p, rl_s2c = q\<rparr>
    = (case relay_run L R schedule \<lparr>rl_left = l, rl_right = r, rl_c2s = p, rl_s2c = q\<rparr> of
         x \<Rightarrow> \<lparr>rl_left = f (rl_left x), rl_right = g (rl_right x), rl_c2s = rl_c2s x, rl_s2c = rl_s2c x\<rparr>)"
proof (induction schedule arbitrary: l r p q)
  case Nil
  then show ?case by (simp add: relay_run_def)
next
  case (Cons d schedule)
  let ?x = "\<lparr>rl_left = l, rl_right = r, rl_c2s = p, rl_s2c = q\<rparr>"
  let ?m = "\<lambda>x. \<lparr>rl_left = f (rl_left x), rl_right = g (rl_right x), rl_c2s = rl_c2s x, rl_s2c = rl_s2c x\<rparr>"
  have step: "relay_step L' R' d (?m ?x) = ?m (relay_step L R d ?x)"
    using same_end_copy_step [OF assms, of p l r] same_end_copy_step [OF assms(2,1), of q r l]
    by (simp add: relay_step_def relay_result_def split_beta)
  obtain l1 r1 p1 q1 where y: "relay_step L R d ?x = \<lparr>rl_left = l1, rl_right = r1, rl_c2s = p1, rl_s2c = q1\<rparr>"
    by (metis relay.surjective old.unit.exhaust)
  show ?case using Cons.IH [of l1 r1 p1 q1] step y by (simp add: relay_run_def)
qed

lemma relay_result_moved: "relay_result \<lparr>rl_left = l, rl_right = r, rl_c2s = rl_c2s x, rl_s2c = rl_s2c x\<rparr> = relay_result x"
  by (simp add: relay_result_def)

lemma same_end_copy:
  assumes "same_end f L L'" and "same_end g R R'" and "copy_bidirectional_graceful L R schedule l r = (x, l1, r1)"
  shows "copy_bidirectional_graceful L' R' schedule (f l) (g r) = (x, f l1, g r1)"
  using assms(3) same_end_run [OF assms(1,2), of schedule l r "Reading 0" "Reading 0"]
  by (simp add: copy_bidirectional_graceful_def relay_start_def Let_def relay_result_moved)

lemma same_end_id: "same_end (\<lambda>s. s) E E"
  by (simp add: same_end_def prod.map_ident id_def)

lemma same_end_plain: "same_end PlainRelay tcp (relay_end A)"
  by (simp add: same_end_def tcp_def relay_end_def)

lemma unread_write: "wire_write bs (unread p w) = map_prod id (unread p) (wire_write bs w)"
  by (simp add: unread_def wire_write_def split_beta)

lemma same_end_prefixed: "same_end prefixed_as_wire (prefixed_end tcp) tcp"
proof -
  have "wire_write bs (prefixed_as_wire s) = map_prod id prefixed_as_wire (prefixed_poll_write wire_write bs s)" for bs s
    by (simp add: prefixed_as_wire_def unread_write prefixed_poll_write_def split_beta map_prod_def)
  moreover have "wire_flush (prefixed_as_wire s) = map_prod id prefixed_as_wire (prefixed_poll_flush wire_flush s)" for s
    by (simp add: prefixed_as_wire_def wire_flush_def prefixed_poll_flush_def)
  ultimately show ?thesis by (simp add: same_end_def tcp_def prefixed_end_def prefixed_read_as_wire)
qed

lemma unread_facts: "wi_out (unread p w) = wi_out w" "wi_sent (unread p w) = wi_sent w"
    "script_data (wi_in (unread p w)) = p @ script_data (wi_in w)" "clean_script (wi_in w) \<Longrightarrow> clean_script (wi_in (unread p w))"
    "script_size (wi_in (unread p w)) \<le> Suc (length p) + script_size (wi_in w)"
  by (auto simp: unread_def clean_script_Cons)

text \<open>The relay of a front without encryption between peers that go on.\<close>

lemma plain_front_copy_ends:
  assumes "talk fuel (length initial + length up) down w" and "talk fuel (length down) up client"
    and "6 * fuel + 3 * length initial \<le> count_list (pe_schedule (se_proxy env)) True"
    and "6 * fuel \<le> count_list (pe_schedule (se_proxy env)) False"
  shows "\<exists>c b. front_copy env (FrontPlain initial) client (PlainRelay w)
      = (Some (Inr (length initial + length up, length down)), c, PlainRelay b)
    \<and> wi_sent b = wi_sent w @ initial @ up \<and> wi_sent c = wi_sent client @ down"
proof -
  let ?c = "unread initial client" and ?sch = "pe_schedule (se_proxy env)"
  have t: "clean_script (wi_in client)" "clean_script (wi_in w)" "script_data (wi_in client) = up" "script_data (wi_in w) = down"
      "willing (length initial + length up) w" "willing (length down) client"
      "script_size (wi_in client) < fuel" "script_size (wi_in w) < fuel" "length (wi_out client) < fuel" "length (wi_out w) < fuel"
    using assms(1,2) by (simp_all add: talk_def)
  have wc: "willing (length down) ?c" using t(6) by (simp add: willing_def unread_facts)
  have "\<exists>l r. copy_bidirectional_graceful tcp tcp ?sch ?c w
      = (Some (Inr (length (script_data (wi_in ?c)), length (script_data (wi_in w)))), l, r)
    \<and> wi_sent r = wi_sent w @ script_data (wi_in ?c) \<and> wi_sent l = wi_sent ?c @ script_data (wi_in w)"
    by (rule relay_ends)
      (use assms(3,4) t wc unread_facts(5) [of initial client] in \<open>auto simp: unread_facts\<close>)
  then obtain l r where ends: "copy_bidirectional_graceful tcp tcp ?sch ?c w = (Some (Inr (length initial + length up, length down)), l, r)"
      "wi_sent r = wi_sent w @ initial @ up" "wi_sent l = wi_sent client @ down"
    by (auto simp: unread_facts t(3,4))
  obtain x l1 r1 where c: "copy_bidirectional_graceful (prefixed_end tcp) tcp ?sch (prefixed_new initial client) w = (x, l1, r1)"
    using prod_cases3 by blast
  from same_end_copy [OF same_end_prefixed same_end_id c] ends(1)
  have e: "x = Some (Inr (length initial + length up, length down))" "l = prefixed_as_wire l1" "r = r1"
    by (simp_all add: prefixed_new_as_wire)
  from same_end_copy [OF same_end_id same_end_plain c]
  have "copy_bidirectional_graceful (prefixed_end tcp) (relay_end (se_aead env)) ?sch (prefixed_new initial client) (PlainRelay w)
      = (x, l1, PlainRelay r1)" .
  then have "front_copy env (FrontPlain initial) client (PlainRelay w) = (x, px_inner l1, PlainRelay r1)"
    by (simp add: front_copy_def)
  moreover have "wi_sent (px_inner l1) = wi_sent client @ down" using ends(3) e(2) by (simp add: prefixed_as_wire_def unread_facts)
  ultimately show ?thesis using e(1,3) ends(2) by blast
qed

text \<open>
  C15. The first bytes go to the back server twice (the relay without encryption, a classic or dd client, a first
  back server that can be reached and acknowledges, peers that send what they have and close and go on
  accepting, and enough turns for each direction): the session of the front ends well, and the back server
  has received the opening frame, which decodes to the first bytes, and after it the first bytes once more
  and then the rest of what the client sends, all of it; the client has received what the back server sends after its
  acknowledgement, and the counters have grown by these lengths, the first bytes being counted twice.
\<close>

theorem front_repeats_first_bytes:
  assumes "mode \<noteq> Ee" and "auth_token sp = Some token" and "\<not> encrypt_relay sp" and "back_servers sp = addr # others"
    and "encode_opening_frame (ce_sha (se_crypto env)) token mode preferred initial False = Inr frame"
    and "is_rust_str preferred" and "length (ce_sha (se_crypto env) (as_bytes token)) = 32"
    and "se_dial env (fs_dials s) (connect_timeout_secs sp) addr = Some (Inr w)"
    and "talk (se_fuel env) (length frame + length initial + length up) (ack_ok # down) w"
    and "talk (se_fuel env) (length down) up (fs_client s)"
    and "6 * se_fuel env + 3 * length initial \<le> count_list (pe_schedule (se_proxy env)) True"
    and "6 * se_fuel env \<le> count_list (pe_schedule (se_proxy env)) False"
  shows "\<exists>s1 w1. relay_from_front env m dr sp initial preferred mode label s = (Some (Inr ()), s1)
    \<and> fs_backs s1 = fs_backs s @ [(addr, w1)]
    \<and> decode_opening_frame frame = Inr \<lparr>of_mode = mode, of_backend = preferred, of_initial = initial\<rparr>
    \<and> wi_sent w1 = wi_sent w @ frame @ initial @ up
    \<and> wi_sent (fs_client s1) = wi_sent (fs_client s) @ down
    \<and> bytes_to_backend (fs_stats s1) = bytes_to_backend (fs_stats s) + of_nat (length initial + length up + length initial)
    \<and> bytes_from_backend (fs_stats s1) = bytes_from_backend (fs_stats s) + of_nat (length down)"
proof -
  let ?s = "s\<lparr>fs_dials := Suc (fs_dials s)\<rparr>"
  have "talk (se_fuel env) (length frame + (length initial + length up)) (ack_ok # down) w" using assms(9) by (simp add: add.assoc)
  from talk_write [OF this] obtain w1 where w1: "write_all (se_fuel env) wire_write frame w = (Some (Inr ()), w1)"
      "talk (se_fuel env) (length initial + length up) (ack_ok # down) w1" "wi_sent w1 = wi_sent w @ frame" by blast
  have "talk (se_fuel env) (length initial + length up) ([ack_ok] @ down) w1" using w1(2) by simp
  from talk_read [OF this, of 1] obtain w2 where w2: "read_exact (se_fuel env) wire_read 1 w1 = (Some (Inr [ack_ok]), w2)"
      "talk (se_fuel env) (length initial + length up) down w2" "wi_sent w2 = wi_sent w1" by auto
  have offer: "offer_frame (se_fuel env) frame w = (Some (Inr ()), w2)"
    using w1(1) w2(1) by (simp add: offer_frame_def task_defs)
  obtain c b where copy: "front_copy env (FrontPlain initial) (fs_client s) (PlainRelay w2)
      = (Some (Inr (length initial + length up, length down)), c, PlainRelay b)"
      "wi_sent b = wi_sent w2 @ initial @ up" "wi_sent c = wi_sent (fs_client s) @ down"
    using plain_front_copy_ends [OF w2(2) assms(10-12)] by blast
  let ?st = "(fs_stats s)\<lparr>split_relayed := split_relayed (fs_stats s) + 1\<rparr>"
  have run: "relay_from_front env m dr sp initial preferred mode label s
      = (Some (Inr ()), ?s\<lparr>fs_client := c, fs_backs := fs_backs s @ [(addr, b)],
           fs_stats := from_backend (length down) (to_backend (length initial + length up + length initial) ?st)\<rparr>)"
    using assms(1-5,8) offer copy(1)
    by (simp add: relay_from_front_def front_offer_def task_defs dial_back_def front_session_over_def wrap_relay_stream_def Let_def)
  have "decode_opening_frame frame = Inr \<lparr>of_mode = mode, of_backend = preferred, of_initial = initial\<rparr>"
    using opening_frame_decodes [OF assms(5-7)] .
  then show ?thesis using run copy(2,3) w1(3) w2(3)
    by (auto simp: to_backend_def from_backend_def)
qed

lemma hello_total_len: "hello_record rc \<Longrightarrow> tls_record_total_len (record_bytes rc) = Some (length (record_bytes rc))"
proof -
  assume "hello_record rc"
  then have rc: "rec_type rc = Handshake" "length (rec_payload rc) \<le> 2043" by (simp_all add: hello_record_def)
  have "record_type_of (record_code Handshake) = Inr Handshake" by simp
  then show ?thesis using rc
    by (simp add: tls_record_total_len_def record_bytes_def u16_be_def be16_u8_of usize_checked_add_def del: record_type_of_Inr_iff)
qed

lemma prepare_whole_hello:
  assumes "prepare_ee_client_hello env (record_bytes rc) secret w = (r, w1)" and "hello_record rc" and "accepting w"
  shows "w1 = w \<and> (\<forall>v. r \<noteq> Some (Inr v))
    \<or> (\<exists>ch. parse_client_hello_record (record_bytes rc) = Inr ch
         \<and> validate_client_hello (ce_hmac (se_crypto env)) (pe_unix (se_proxy env)) ch secret = Inr ()
         \<and> accepting w1 \<and> wi_in w1 = wi_in w \<and> (\<forall>v. r = Some (Inr v) \<longrightarrow> fst v = record_bytes rc))"
proof (cases "parse_client_hello_record (record_bytes rc)")
  case (Inl e)
  then show ?thesis using assms(1) by (auto simp: prepare_ee_client_hello_def hello_total_len [OF assms(2)] task_defs)
next
  case (Inr ch)
  show ?thesis
  proof (cases "validate_client_hello (ce_hmac (se_crypto env)) (pe_unix (se_proxy env)) ch secret")
    case (Inl e)
    then show ?thesis using assms(1) Inr by (auto simp: prepare_ee_client_hello_def hello_total_len [OF assms(2)] task_defs)
  next
    case ok: (Inr u)
    obtain q w2 where q: "answer_client_hello (se_proxy env) ch secret w = (q, w2)" by fastforce
    have run: "w1 = w2 \<and> (\<forall>v. r = Some (Inr v) \<longrightarrow> fst v = record_bytes rc)"
      using assms(1) Inr ok q
      by (auto simp: prepare_ee_client_hello_def hello_total_len [OF assms(2)] task_defs split: option.splits sum.splits)
    have "accepting w2 \<and> wi_in w2 = wi_in w"
      using answered [OF q] assms(3) by (auto split: sum.splits)
    then show ?thesis using run Inr ok by (intro disjI2 exI [of _ ch]) simp
  qed
qed


section \<open>The back: admission\<close>

definition admitted :: "split_env \<Rightarrow> split_config \<Rightarrow> ip_addr \<Rightarrow> bytes \<Rightarrow> string \<Rightarrow> bytes \<Rightarrow> split_opening_frame \<Rightarrow> bool" where
  "admitted env sp peer_ip incoming token raw frame \<longleftrightarrow> peer_allowed peer_ip (front_allowlist sp) \<and> auth_token sp = Some token
     \<and> prefix raw incoming \<and> decode_opening_frame raw = Inr frame \<and> length (of_initial frame) \<le> max_initial_len
     \<and> slice raw 5 32 = hash_auth_token (ce_sha (se_crypto env)) token"

text \<open>A refusal tells the front nothing but an error message.\<close>

definition told_error :: "bytes \<Rightarrow> bool" where
  "told_error x \<longleftrightarrow> x = [] \<or> hd x = ack_err"

lemma prefix_told: "prefix x (ack_err # m) \<Longrightarrow> told_error x"
  by (cases x) (simp_all add: told_error_def)

lemma send_err_says:
  assumes "send_ack fuel wire_write False m w = (r, w1)"
  shows "\<exists>x. wi_sent w1 = wi_sent w @ x \<and> told_error x" "wi_in w1 = wi_in w"
proof -
  let ?t = "as_bytes (case m of Some m \<Rightarrow> m | None \<Rightarrow> ''split relay error'')"
  let ?b = "[ack_err] @ u16_be (length ?t) @ ?t"
  obtain q w2 where q: "write_all fuel wire_write ?b w = (q, w2)" by fastforce
  obtain x y where x: "?b = x @ y" "wi_sent w2 = wi_sent w @ x"
    using wire_sink.write_all_accepts [OF _ q, of "wi_sent w"] by (auto simp: took_wire_def)
  have w1: "w1 = w \<or> w1 = w2"
    using assms q by (auto simp: send_ack_def Let_def task_defs split: if_splits option.splits sum.splits)
  have "prefix x (ack_err # u16_be (length ?t) @ ?t)" using x(1) by (metis append_Cons append_Nil prefixI)
  then show "\<exists>x. wi_sent w1 = wi_sent w @ x \<and> told_error x"
    using w1 x(2) prefix_told by (auto simp: told_error_def)
  show "wi_in w1 = wi_in w" using w1 write_all_in [OF q] by auto
qed

lemma refuse_says:
  assumes "refuse env m e s = (r, s1)"
  shows "r \<noteq> Some (Inr v)" "\<exists>x w. s1 = s\<lparr>ss_client := w\<rparr> \<and> wi_sent w = wi_sent (ss_client s) @ x \<and> told_error x"
proof -
  obtain q w where q: "send_ack (se_fuel env) wire_write False (Some m) (ss_client s) = (q, w)" by fastforce
  have "s1 = s\<lparr>ss_client := w\<rparr> \<and> r \<noteq> Some (Inr v)"
    using assms q by (auto simp: refuse_def task_defs on_client_def split: option.splits sum.splits)
  then show "r \<noteq> Some (Inr v)" "\<exists>x w. s1 = s\<lparr>ss_client := w\<rparr> \<and> wi_sent w = wi_sent (ss_client s) @ x \<and> told_error x"
    using send_err_says(1) [OF q] by auto
qed

lemma bindT_ok: "t s = (Some (Inr a), s1) \<Longrightarrow> bindT t f s = f a s1"
  by (simp add: bindT_def)

lemma read_frame_consumes:
  assumes "read_opening_frame fuel wire_read mx w = (r, w1)" and "RData [] \<notin> set (wi_in w)"
  shows "wi_sent w1 = wi_sent w \<and> wi_out w1 = wi_out w \<and> RData [] \<notin> set (wi_in w1)
    \<and> (\<forall>raw. r = Some (Inr raw) \<longrightarrow> script_data (wi_in w) = raw @ script_data (wi_in w1))"
proof -
  define ok where "ok w w1 got \<longleftrightarrow> wi_sent w1 = wi_sent w \<and> wi_out w1 = wi_out w \<and> RData [] \<notin> set (wi_in w1)
     \<and> (\<forall>raw. got = Some raw \<longrightarrow> script_data (wi_in w) = raw @ script_data (wi_in w1))" for w w1 :: wire and got
  have part: "ok w w1 (completed r)" if "(if b then proxy_err m (read_exact fuel wire_read n) else retT []) w = (r, w1)"
      "RData [] \<notin> set (wi_in w)" for b m n w r w1
    using that read_exact_wire [of fuel n w]
    by (cases b) (auto simp: ok_def task_defs completed_def split: option.splits sum.splits prod.splits)
  obtain r1 w2 where 1: "proxy_err ''split opening header'' (read_exact fuel wire_read 40) w = (r1, w2)" by fastforce
  have k1: "ok w w2 (completed r1)" using part [of True _ 40 w r1 w2] 1 assms(2) by simp
  then have n2: "RData [] \<notin> set (wi_in w2)" by (simp add: ok_def)
  show ?thesis
  proof (cases "\<exists>h. r1 = Some (Inr h) \<and> take 4 h = magic")
    case False
    then have "w1 = w2 \<and> completed r = None" using assms(1) 1
      by (auto simp: read_opening_frame_def bindT_def failT_def completed_def split: option.splits sum.splits if_splits)
    then show ?thesis using k1 by (auto simp: ok_def completed_def)
  next
    case True
    then obtain h where h: "r1 = Some (Inr h)" "take 4 h = magic" by blast
    define bl where "bl = be16 (h ! 38) (h ! 39)"
    obtain r2 w3 where 2: "(if 0 < bl then proxy_err ''split backend'' (read_exact fuel wire_read bl) else retT []) w2 = (r2, w3)" by fastforce
    have k2: "ok w2 w3 (completed r2)" by (rule part [OF 2 n2])
    then have n3: "RData [] \<notin> set (wi_in w3)" by (simp add: ok_def)
    show ?thesis
    proof (cases "\<exists>b. r2 = Some (Inr b)")
      case False
      then have "w1 = w3 \<and> completed r = None" using assms(1) 1 2 h
        by (auto simp: read_opening_frame_def bindT_def failT_def completed_def Let_def simp flip: bl_def split: option.splits sum.splits)
      then show ?thesis using k1 k2 by (auto simp: ok_def completed_def)
    next
      case True
      then obtain b where b: "r2 = Some (Inr b)" by blast
      obtain r3 w4 where 3: "proxy_err ''split initial_len'' (read_exact fuel wire_read 4) w3 = (r3, w4)" by fastforce
      have k3: "ok w3 w4 (completed r3)" using part [of True _ 4 w3 r3 w4] 3 n3 by simp
      then have n4: "RData [] \<notin> set (wi_in w4)" by (simp add: ok_def)
      define cont where "cont len = (let il = be32 (len ! 0) (len ! 1) (len ! 2) (len ! 3) in
          if mx < il then failT (Proxy ''split initial_data too big'')
          else bindT (if 0 < il then proxy_err ''split initial payload'' (read_exact fuel wire_read il) else retT [])
            (\<lambda>initial. retT (h @ b @ len @ initial)))" for len :: bytes
      have s2: "bindT (if 0 < bl then proxy_err ''split backend'' (read_exact fuel wire_read bl) else retT []) f w2 = f b w3" for f :: "bytes \<Rightarrow> (wire, bytes) task"
        by (rule bindT_ok) (use 2 b in simp)
      have run: "bindT (proxy_err ''split initial_len'' (read_exact fuel wire_read 4)) cont w3 = (r, w1)"
        using assms(1) by (simp add: s2 read_opening_frame_def bindT_ok [of "proxy_err ''split opening header'' (read_exact fuel wire_read 40)", OF 1 [unfolded h(1)]] h(2) Let_def cont_def [abs_def] flip: bl_def)
      show ?thesis
      proof (cases "\<exists>len. r3 = Some (Inr len) \<and> \<not> mx < be32 (len ! 0) (len ! 1) (len ! 2) (len ! 3)")
        case False
        then have "w1 = w4 \<and> completed r = None" using run 3
          by (auto simp: completed_def bindT_def cont_def failT_def split: option.splits sum.splits if_splits)
        then show ?thesis using k1 k2 k3 by (auto simp: ok_def completed_def)
      next
        case True
        then obtain len where len: "r3 = Some (Inr len)" "\<not> mx < be32 (len ! 0) (len ! 1) (len ! 2) (len ! 3)" by blast
        define il where "il = be32 (len ! 0) (len ! 1) (len ! 2) (len ! 3)"
        obtain r4 w5 where 4: "(if 0 < il then proxy_err ''split initial payload'' (read_exact fuel wire_read il) else retT []) w4 = (r4, w5)"
          by fastforce
        have k4: "ok w4 w5 (completed r4)" by (rule part [OF 4 n4])
        have "bindT (proxy_err ''split initial_len'' (read_exact fuel wire_read 4)) cont w3 = cont len w4"
          by (rule bindT_ok) (use 3 len in simp)
        then have "bindT (if 0 < il then proxy_err ''split initial payload'' (read_exact fuel wire_read il) else retT [])
            (\<lambda>initial. retT (h @ b @ len @ initial)) w4 = (r, w1)"
          using run len(2) unfolding il_def by (simp add: cont_def Let_def)
        then have "w1 = w5 \<and> (\<forall>raw. r = Some (Inr raw) \<longrightarrow> (\<exists>i. r4 = Some (Inr i) \<and> raw = h @ b @ len @ i))"
          using 4 unfolding bindT_def by (auto simp: retT_def split: option.splits sum.splits)
        then show ?thesis using k1 k2 k3 k4 h b len by (auto simp: ok_def completed_def)
      qed
    qed
  qed
qed

text \<open>What the handler does once the frame is accepted.\<close>

definition back_serves :: "split_env \<Rightarrow> config \<Rightarrow> split_config \<Rightarrow> string \<Rightarrow> bytes \<Rightarrow> split_opening_frame \<Rightarrow> (session, unit) task" where
  "back_serves env cfg sp token raw frame =
     (let encrypted = encrypt_relay sp \<and> opening_frame_encrypted raw;
          keys = derive_session_keys (ce_sha (se_crypto env)) token raw in
      if of_mode frame = Ee then handle_back_ee_connection env cfg frame keys encrypted
      else back_plain_session env cfg frame keys encrypted)"

lemma bindT_lift: "bindT (liftT (Inr a)) f = f a" "bindT (liftT (Inl e)) f = failT e"
  by (rule ext, simp add: bindT_def liftT_def failT_def)+

lemma count_refuse:
  assumes "bindT (count auth_failed) (\<lambda>_. refuse env m e) s = (r, s1)"
  shows "ss_upstream s1 = ss_upstream s \<and> r \<noteq> Some (Inr v) \<and> (\<exists>x. wi_sent (ss_client s1) = wi_sent (ss_client s) @ x \<and> told_error x)
    \<and> ss_stats s1 = auth_failed (ss_stats s)"
  using refuse_says [of env m e "s\<lparr>ss_stats := auth_failed (ss_stats s)\<rparr>" r s1] assms
  by (auto simp: bindT_def count_def)

lemma back_admission:
  assumes "handle_back_connection env cfg sp peer_ip s = (r, s1)" and "RData [] \<notin> set (wi_in (ss_client s))"
  shows "ss_upstream s1 = ss_upstream s \<and> r \<noteq> Some (Inr ())
        \<and> (\<exists>x. wi_sent (ss_client s1) = wi_sent (ss_client s) @ x \<and> told_error x)
        \<and> ss_stats s1 \<in> {ss_stats s, auth_failed (ss_stats s)}
    \<or> (\<exists>token raw frame w. admitted env sp peer_ip (script_data (wi_in (ss_client s))) token raw frame
         \<and> script_data (wi_in (ss_client s)) = raw @ script_data (wi_in w) \<and> wi_sent w = wi_sent (ss_client s)
         \<and> wi_out w = wi_out (ss_client s) \<and> RData [] \<notin> set (wi_in w)
         \<and> back_serves env cfg sp token raw frame (s\<lparr>ss_client := w\<rparr>) = (r, s1))"
proof (cases "peer_allowed peer_ip (front_allowlist sp) \<and> auth_token sp \<noteq> None")
  case False
  have none: "told_error []" by (simp add: told_error_def)
  show ?thesis
  proof (cases "peer_allowed peer_ip (front_allowlist sp)")
    case False
    then show ?thesis using assms(1) count_refuse by (intro disjI1) (fastforce simp: handle_back_connection_def)
  next
    case True
    then have "r = Some (Inl (Config ''split.auth_token is not set'')) \<and> s1 = s"
      using assms(1) False by (auto simp: handle_back_connection_def task_defs)
    then show ?thesis using none by (intro disjI1) auto
  qed
next
  case True
  then obtain token where t: "auth_token sp = Some token" "peer_allowed peer_ip (front_allowlist sp)" by auto
  obtain q w where q: "read_opening_frame (se_fuel env) wire_read max_initial_len (ss_client s) = (q, w)" by fastforce
  note rd = read_frame_consumes [OF q assms(2)]
  define after where "after raw frame = (if max_initial_len < length (of_initial frame) then
              bindT (count auth_failed) (\<lambda>_. refuse env ''initial_data too big'' (Proxy ''initial_data too big''))
            else if slice raw 5 32 \<noteq> hash_auth_token (ce_sha (se_crypto env)) token then
              bindT (count auth_failed) (\<lambda>_. refuse env ''wrong auth_token'' (Proxy ''wrong split auth_token''))
            else back_serves env cfg sp token raw frame)" for raw frame
  have "handle_back_connection env cfg sp peer_ip = bindT (on_client (read_opening_frame (se_fuel env) wire_read max_initial_len))
      (\<lambda>raw. bindT (liftT (decode_opening_frame raw)) (after raw))"
    using t unfolding handle_back_connection_def after_def back_serves_def Let_def by (simp add: bindT_lift)
  then have "bindT (on_client (read_opening_frame (se_fuel env) wire_read max_initial_len))
      (\<lambda>raw. bindT (liftT (decode_opening_frame raw)) (after raw)) s = (r, s1)" using assms(1) by simp
  then have run: "(case q of None \<Rightarrow> (None, s\<lparr>ss_client := w\<rparr>) | Some (Inl e) \<Rightarrow> (Some (Inl e), s\<lparr>ss_client := w\<rparr>)
      | Some (Inr raw) \<Rightarrow> (case decode_opening_frame raw of Inl e \<Rightarrow> (Some (Inl e), s\<lparr>ss_client := w\<rparr>)
         | Inr frame \<Rightarrow> after raw frame (s\<lparr>ss_client := w\<rparr>))) = (r, s1)"
    using q by (auto simp: bindT_def liftT_def on_client_def split: option.splits sum.splits)
  show ?thesis
  proof (cases "\<exists>raw frame. q = Some (Inr raw) \<and> decode_opening_frame raw = Inr frame")
    case False
    then have "s1 = s\<lparr>ss_client := w\<rparr> \<and> r \<noteq> Some (Inr ())" using run by (auto split: option.splits sum.splits)
    then show ?thesis using rd by (intro disjI1) (auto simp: told_error_def)
  next
    case True
    then obtain raw frame where f: "q = Some (Inr raw)" "decode_opening_frame raw = Inr frame" by blast
    show ?thesis
    proof (cases "length (of_initial frame) \<le> max_initial_len \<and> slice raw 5 32 = hash_auth_token (ce_sha (se_crypto env)) token")
      case False
      then obtain m e where "bindT (count auth_failed) (\<lambda>_. refuse env m e) (s\<lparr>ss_client := w\<rparr>) = (r, s1)"
        using run f by (auto simp: after_def split: if_splits)
      from count_refuse [OF this] show ?thesis using rd by (intro disjI1) simp
    next
      case ok: True
      then have "back_serves env cfg sp token raw frame (s\<lparr>ss_client := w\<rparr>) = (r, s1)" using run f by (simp add: after_def)
      moreover have "script_data (wi_in (ss_client s)) = raw @ script_data (wi_in w)" using rd f(1) by blast
      moreover from this have "prefix raw (script_data (wi_in (ss_client s)))" by simp
      ultimately show ?thesis using t f ok rd unfolding admitted_def by blast
    qed
  qed
qed

section \<open>The back: a classic or dd session\<close>

interpretation back_plain: relay_pair "relay_poll_read A" "relay_poll_write A" relay_poll_flush "io_relay A k pre"
    wire_read wire_write wire_flush io_wire for A k pre
  by unfold_locales

lemma send_ok_says:
  assumes "send_ack fuel wire_write True m w = (r, w1)"
  shows "wi_in w1 = wi_in w" "roomy w \<Longrightarrow> roomy w1" "\<exists>x. wi_sent w1 = wi_sent w @ x \<and> prefix x [ack_ok] \<and> (r = Some (Inr ()) \<longrightarrow> x = [ack_ok])"
proof -
  obtain q w2 where q: "write_all fuel wire_write [ack_ok] w = (q, w2)" by fastforce
  have w1: "w1 = w2" "r = Some (Inr ()) \<longrightarrow> q = Some (Inr ())"
    using assms q by (auto simp: send_ack_def task_defs split: option.splits sum.splits)
  obtain x y where x: "[ack_ok] = x @ y" "wi_sent w2 = wi_sent w @ x" "q = Some (Inr ()) \<longrightarrow> y = []"
    using wire_sink.write_all_accepts [OF _ q, of "wi_sent w"] by (auto simp: took_wire_def)
  show "wi_in w1 = wi_in w" "roomy w \<Longrightarrow> roomy w1" using write_all_in [OF q] write_all_roomy [OF _ q] w1(1) by simp_all
  show "\<exists>x. wi_sent w1 = wi_sent w @ x \<and> prefix x [ack_ok] \<and> (r = Some (Inr ()) \<longrightarrow> x = [ack_ok])"
    using x w1 by (intro exI [of _ x]) (metis append.right_neutral prefixI)
qed

definition back_plain_rest :: "split_env \<Rightarrow> config \<Rightarrow> split_opening_frame \<Rightarrow> session_keys \<Rightarrow> bool \<Rightarrow> (session, unit) task" where
  "back_plain_rest env cfg frame keys encrypted =
     bindT (or_refuse env (write_initial_to_backend (se_proxy env) (of_initial frame) (of_mode frame)
              (fragmentation cfg) (drs cfg) (dd cfg))) (\<lambda>_.
     bindT (on_client (send_ack (se_fuel env) wire_write True None)) (\<lambda>_.
     bindT (count relayed_one) (\<lambda>_.
     bindT (count (to_backend (length (of_initial frame)))) (\<lambda>_.
     bindT (\<lambda>s. case copy_bidirectional_graceful (relay_end (se_aead env)) tcp (pe_schedule (se_proxy env))
                   (wrap_relay_stream (ss_client s) keys encrypted False) (ss_upstream s) of
              (r, l, u) \<Rightarrow> (r, s\<lparr>ss_client := relay_wire l, ss_upstream := u\<rparr>)) (\<lambda>(c2b, b2c).
     bindT (count (to_backend c2b)) (\<lambda>_.
     count (from_backend b2c)))))))"

text \<open>\<open>y\<close> went to the data centre: a front of the frame's first bytes and of \<open>d\<close>; \<open>ack\<close> is the acknowledgement, if it was sent.\<close>

lemma back_plain_rest_delivers:
  assumes run: "back_plain_rest env cfg frame keys enc s = (r, s1)" and laws: "aead_laws (se_aead env)" "gen_range_law (pe_dd (se_proxy env))"
    and client: "roomy (ss_client s)" "RData [] \<notin> set (wi_in (ss_client s))"
      "relay_carries (se_aead env) (relay_key keys enc True) (script_data (wi_in (ss_client s))) d"
    and up: "RData [] \<notin> set (wi_in (ss_upstream s))"
  shows "\<exists>y. wi_sent (ss_upstream s1) = wi_sent (ss_upstream s) @ y \<and> prefix y (of_initial frame @ d)
    \<and> (r = Some (Inr ()) \<longrightarrow> prefix (of_initial frame) y)"
proof -
  obtain v s2 where w: "write_initial_to_backend (se_proxy env) (of_initial frame) (of_mode frame) (fragmentation cfg) (drs cfg) (dd cfg) s = (v, s2)"
    by fastforce
  obtain w1 st1 sent where s2: "s2 = s\<lparr>ss_upstream := w1, ss_stats := st1\<rparr>" "wi_sent w1 = wi_sent (ss_upstream s) @ sent"
      "prefix sent (of_initial frame)" "v = Some (Inr ()) \<longrightarrow> sent = of_initial frame" "wi_in w1 = wi_in (ss_upstream s)"
    using write_initial_sends [OF w laws(2)] by blast
  have short: "?thesis" if "r \<noteq> Some (Inr ())" "ss_upstream s1 = w1"
    using that s2(2,3) by (intro exI [of _ sent]) (auto intro: prefix_prefix)
  show ?thesis
  proof (cases "v = Some (Inr ())")
    case False
    show ?thesis
    proof (cases v)
      case None
      then have "r = None" "s1 = s2" using run w by (simp_all add: back_plain_rest_def bindT_def or_refuse_def)
      then show ?thesis using s2(1) by (intro short) simp_all
    next
      case (Some z)
      then obtain e where e: "v = Some (Inl e)" using False by (cases z) auto
      obtain q s3 where q: "refuse env (error_text (se_io_text env) e) e s2 = (q :: unit result option, s3)" by fastforce
      have rs: "(r, s1) = (case q of Some (Inr _) \<Rightarrow> (r, s1) | Some (Inl e) \<Rightarrow> (Some (Inl e), s3) | None \<Rightarrow> (None, s3))"
        using run w e q by (auto simp: back_plain_rest_def bindT_def or_refuse_def split: option.splits sum.splits)
      note rf = refuse_says [OF q]
      have "s1 = s3 \<and> r \<noteq> Some (Inr ())" using rs rf(1) by (auto split: option.splits sum.splits)
      then show ?thesis using rf(2) s2(1) by (intro short) auto
    qed
  next
    case True
    obtain q cw where a: "send_ack (se_fuel env) wire_write True None (ss_client s) = (q, cw)" by fastforce
    note ack = send_ok_says [OF a]
    define s3 where "s3 = s2\<lparr>ss_client := cw\<rparr>"
    have s2c: "ss_client s2 = ss_client s" using s2(1) by simp
    show ?thesis
    proof (cases "q = Some (Inr ())")
      case False
      then have "r \<noteq> Some (Inr ()) \<and> s1 = s3" using run w True a s2c
        by (auto simp: back_plain_rest_def bindT_def or_refuse_def on_client_def s3_def split: option.splits sum.splits)
      then show ?thesis using s2(1) by (intro short) (simp_all add: s3_def)
    next
      case ok: True
      obtain c l u where cp: "copy_bidirectional_graceful (relay_end (se_aead env)) tcp (pe_schedule (se_proxy env))
          (wrap_relay_stream cw keys enc False) w1 = (c, l, u)" using prod_cases3 by blast
      have e: "ss_upstream s1 = u"
        using run w True a ok s2 cp by (auto simp: back_plain_rest_def bindT_def or_refuse_def on_client_def count_def
            split: option.splits sum.splits)
      have start: "io_relay (se_aead env) (relay_key keys enc False) (wi_sent cw) (wrap_relay_stream cw keys enc False) d []"
        by (rule relay_io_start [OF laws(1) ack(2) [OF client(1)]]) (use client(2,3) ack(1) in simp_all)
      have b: "io_wire w1 (script_data (wi_in w1)) (wi_sent w1)"
        using up s2(5) by (simp add: io_wire_def owes_wire_def owes_script_def took_wire_def)
      from back_plain.relay_flow [OF start b cp [unfolded relay_end_def tcp_def]] obtain dr mc where
        "io_wire u dr (wi_sent w1 @ mc)" "prefix mc d" by auto
      then show ?thesis using e s2(2,4) True by (intro exI [of _ "of_initial frame @ mc"]) (simp add: io_wire_def took_wire_def)
    qed
  qed
qed

lemma back_plain_delivers:
  assumes run: "back_plain_session env cfg frame keys enc s = (r, s1)" and laws: "aead_laws (se_aead env)" "gen_range_law (pe_dd (se_proxy env))"
    and client: "roomy (ss_client s)" "RData [] \<notin> set (wi_in (ss_client s))"
      "relay_carries (se_aead env) (relay_key keys enc True) (script_data (wi_in (ss_client s))) d"
    and dc: "\<And>b w. dialled (se_proxy env) (network cfg) b w \<Longrightarrow> RData [] \<notin> set (wi_in w)"
  shows "ss_upstream s1 = ss_upstream s \<and> r \<noteq> Some (Inr ())
    \<or> (\<exists>b w y. b \<in> set (bp_backends (ss_pool s)) \<and> dialled (se_proxy env) (network cfg) b w
         \<and> wi_sent (ss_upstream s1) = wi_sent w @ y \<and> prefix y (of_initial frame @ d) \<and> (r = Some (Inr ()) \<longrightarrow> prefix (of_initial frame) y))"
proof -
  have split: "back_plain_session env cfg frame keys enc = bindT (or_refuse env (connect_pool (se_proxy env) (network cfg) (of_backend frame)))
      (\<lambda>connected. bindT (failover_notice (webhooks cfg) (of_backend frame) connected) (\<lambda>_. back_plain_rest env cfg frame keys enc))"
    by (simp add: back_plain_session_def back_plain_rest_def)
  obtain v s2 where c: "connect_pool (se_proxy env) (network cfg) (of_backend frame) s = (v, s2)" by fastforce
  from connect_pool_cases [OF c] have f: "ss_client s2 = ss_client s"
    "case v of Some (Inr b) \<Rightarrow> b \<in> set (bp_backends (ss_pool s)) \<and> dialled (se_proxy env) (network cfg) b (ss_upstream s2)
     | _ \<Rightarrow> ss_upstream s2 = ss_upstream s" by blast+
  show ?thesis
  proof (cases "\<exists>b. v = Some (Inr b)")
    case False
    have "ss_upstream s1 = ss_upstream s \<and> r \<noteq> Some (Inr ())"
    proof (cases v)
      case None
      then show ?thesis using run c f(2) by (simp add: split bindT_def or_refuse_def)
    next
      case (Some z)
      then obtain e where e: "v = Some (Inl e)" using False by (cases z) auto
      obtain q s3 where q: "refuse env (error_text (se_io_text env) e) e s2 = (q :: string result option, s3)" by fastforce
      have "\<nexists>b. q = Some (Inr b)" using refuse_says(1) [OF q] by blast
      then have "s1 = s3 \<and> r \<noteq> Some (Inr ())"
        using run c e q by (auto simp: split bindT_def or_refuse_def split: option.splits sum.splits)
      then show ?thesis using refuse_says(2) [OF q] f(2) e by auto
    qed
    then show ?thesis by simp
  next
    case True
    then obtain b where b: "v = Some (Inr b)" by blast
    obtain s3 where n: "failover_notice (webhooks cfg) (of_backend frame) b s2 = (Some (Inr ()), s3)"
      and s3: "s3 = s2\<lparr>ss_spawned := ss_spawned s3\<rparr>" using failover_notice_frame by (metis surj_pair)
    have eq: "ss_client s3 = ss_client s" "ss_upstream s3 = ss_upstream s2" using f(1) by (subst s3, simp)+
    have d: "b \<in> set (bp_backends (ss_pool s))" "dialled (se_proxy env) (network cfg) b (ss_upstream s2)" using f(2) b by simp_all
    have "back_plain_rest env cfg frame keys enc s3 = (r, s1)" using run c b n by (simp add: split bindT_def or_refuse_def)
    from back_plain_rest_delivers [OF this laws, of d] client eq dc [OF d(2)] d show ?thesis by auto
  qed
qed

end
