(* ===== verification/Split_Back.thy ===== *)
theory Split_Back
  imports Split_Session
begin

text \<open>
  What the back of a split session (\<^verbatim>\<open>handle_back_connection\<close> of \<^verbatim>\<open>src/split.rs\<close>) hands to the data centre.
  For ee secrets the relay stream to the front, behind the bytes peeked after the acknowledgement, is
  one end of an obfuscated2 relay; what the data centre receives is related to what a session without the
  split gives it.
\<close>

section \<open>Reading after the acknowledgement\<close>

lemma read_some_wire:
  "read_some fuel wire_read n w = (r, w1) \<Longrightarrow> RData [] \<notin> set (wi_in w) \<Longrightarrow> 0 < n \<Longrightarrow>
     RData [] \<notin> set (wi_in w1) \<and> wi_sent w1 = wi_sent w \<and> wi_out w1 = wi_out w
     \<and> (\<forall>out. r = Some (Inr out) \<longrightarrow> script_data (wi_in w) = out @ script_data (wi_in w1))"
proof -
  assume a: "read_some fuel wire_read n w = (r, w1)" "RData [] \<notin> set (wi_in w)" "0 < n"
  have keep: "wi_sent w1 = wi_sent w \<and> wi_out w1 = wi_out w"
    using a(1)
  proof (induction fuel arbitrary: w)
    case (Suc fuel)
    obtain p w2 where p: "wire_read n w = (p, w2)" by fastforce
    show ?case using Suc.prems Suc.IH [of w2] wire_read_sent [OF p] p by (cases p) auto
  qed simp
  have "owes_wire w (script_data (wi_in w))" using a(2) by (simp add: owes_wire_def owes_script_def)
  from wire_source.read_some_delivers [OF this a(3,1)] show ?thesis
    using keep by (auto simp: owes_wire_def owes_script_def)
qed

lemma peeked_wire:
  assumes "peek_raw_after_ack fuel wire_read w = (r, w1)" and "RData [] \<notin> set (wi_in w)"
  shows "RData [] \<notin> set (wi_in w1) \<and> wi_sent w1 = wi_sent w \<and> wi_out w1 = wi_out w
     \<and> (\<forall>p. r = Some (Inr p) \<longrightarrow> script_data (wi_in w) = p @ script_data (wi_in w1))"
proof -
  obtain q w2 where q: "read_some fuel wire_read 8192 w = (q, w2)" by fastforce
  then have "w1 = w2 \<and> (\<forall>p. r = Some (Inr p) \<longrightarrow> q = Some (Inr p))"
    using assms(1) by (auto simp: peek_raw_after_ack_def task_defs timed_def split: if_splits option.splits sum.splits)
  then show ?thesis using read_some_wire [OF q assms(2)] by simp
qed

section \<open>The obfuscated relay\<close>

interpretation pr_obf: duplex "obf_poll_read ks (prefixed_poll_read (relay_poll_read A))"
    "obf_poll_write ks (prefixed_poll_write (relay_poll_write A))"
    "obf_poll_flush ks (prefixed_poll_write (relay_poll_write A)) (prefixed_poll_flush relay_poll_flush)"
    "steady.io_obf (owes_prefixed (relay_owes A)) (\<lambda>s. relay_took A k pre (px_inner s)) (\<lambda>s. relay_dead A k pre (px_inner s)) ks k0"
  for ks k0 A k pre
  by (rule prefixed_relay_steady.obf_duplex)

interpretation back_ee: relay_pair "obf_poll_read ks (prefixed_poll_read (relay_poll_read A))"
    "obf_poll_write ks (prefixed_poll_write (relay_poll_write A))"
    "obf_poll_flush ks (prefixed_poll_write (relay_poll_write A)) (prefixed_poll_flush relay_poll_flush)"
    "steady.io_obf (owes_prefixed (relay_owes A)) (\<lambda>s. relay_took A k pre (px_inner s)) (\<lambda>s. relay_dead A k pre (px_inner s)) ks k0"
    "obf_poll_read ks wire_read" "obf_poll_write ks wire_write"
    "obf_poll_flush ks wire_write wire_flush" "steady.io_obf owes_wire (wire_took pre') (wire_dead pre') ks k0'"
  for ks k0 A k pre k0' pre'
  by unfold_locales

lemma relay_obf_end_eq: "obf_end ks (prefixed_end (relay_end A)) = \<lparr>ep_read = obf_poll_read ks (prefixed_poll_read (relay_poll_read A)),
      ep_write = obf_poll_write ks (prefixed_poll_write (relay_poll_write A)),
      ep_flush = obf_poll_flush ks (prefixed_poll_write (relay_poll_write A)) (prefixed_poll_flush relay_poll_flush)\<rparr>"
  by (simp add: obf_end_def prefixed_end_def relay_end_def)

text \<open>What arrives at the data centre after the relay header: a front of the plaintext under the relay keys.\<close>

definition rekeyed :: "keystream \<Rightarrow> relay_keys \<Rightarrow> bytes \<Rightarrow> bytes \<Rightarrow> bool" where
  "rekeyed ks keys plain rest \<longleftrightarrow> (\<exists>up. prefix rest (crypt ks (rk_enc keys) up) \<and> prefix up plain)"

lemma bridged_rekeyed: "bridged ks e keys plain E tally to_client to_dc \<Longrightarrow> rekeyed ks keys plain to_dc"
  by (auto simp: bridged_def rekeyed_def)

lemma back_ee_relay:
  assumes run: "copy_bidirectional_graceful (obf_end ks (prefixed_end (relay_end A))) (obf_end ks tcp) schedule
      \<lparr>ob_inner = \<lparr>px_data = h, px_pos = length h, px_inner = wrap_relay_stream fw keys enc False\<rparr>, ob_enc = e, ob_dec = d0, ob_pending = []\<rparr>
      (from_relay_keys u rk) = (r, l, v)"
    and fw: "aead_laws A" "roomy fw" "RData [] \<notin> set (wi_in fw)" "relay_carries A (relay_key keys enc True) (script_data (wi_in fw)) d"
    and u: "accepting u" "RData [] \<notin> set (wi_in u)"
  shows "\<exists>rest. wi_sent (ob_inner v) = wi_sent u @ rest \<and> rekeyed ks rk (crypt ks d0 d) rest"
proof -
  let ?p = "\<lparr>px_data = h, px_pos = length h, px_inner = wrap_relay_stream fw keys enc False\<rparr>"
  let ?k = "relay_key keys enc False"
  have "relay_owes A (wrap_relay_stream fw keys enc False) d" using relay_start_owes [OF fw(1,3), of keys enc False] fw(4) by simp
  then have "owes_prefixed (relay_owes A) ?p (crypt ks d0 (crypt ks d0 d))" by (simp add: owes_prefixed_def)
  from obf_start [OF prefixed_relay_steady.steady_axioms this, of ?k "wi_sent fw" e] relay_start_took [OF fw(1,2), of keys enc False]
  have a: "steady.io_obf (owes_prefixed (relay_owes A)) (\<lambda>s. relay_took A ?k (wi_sent fw) (px_inner s)) (\<lambda>s. relay_dead A ?k (wi_sent fw) (px_inner s))
      ks e \<lparr>ob_inner = ?p, ob_enc = e, ob_dec = d0, ob_pending = []\<rparr> (crypt ks d0 d) []" by simp
  let ?E = "script_data (wi_in u)"
  have "owes_wire u (crypt ks (rk_dec rk) (crypt ks (rk_dec rk) ?E))" using u(2) by (simp add: owes_wire_def owes_script_def)
  from obf_start [OF wire_steady.steady_axioms this wire_ready [OF u(1)]]
  have b: "steady.io_obf owes_wire (wire_took (wi_sent u)) (wire_dead (wi_sent u)) ks (rk_enc rk)
      (from_relay_keys u rk) (crypt ks (rk_dec rk) ?E) []" by (simp add: from_relay_keys_def)
  obtain dr up where f: "steady.io_obf owes_wire (wire_took (wi_sent u)) (wire_dead (wi_sent u)) ks (rk_enc rk) v dr up"
      "prefix up (crypt ks d0 d)"
    using back_ee.relay_flow [OF a b run [unfolded obf_end_eq relay_obf_end_eq]] by auto
  then show ?thesis using tcp_obf_sent [OF f(1)] by (auto simp: rekeyed_def)
qed

section \<open>An ee session behind the front\<close>

text \<open>What a data centre receives when the client's plain stream is \<open>D\<close>, its handshake included.\<close>

definition ee_to_dc :: "proxy_env \<Rightarrow> bytes \<Rightarrow> string \<Rightarrow> bytes \<Rightarrow> bytes \<Rightarrow> bool" where
  "ee_to_dc env secret preferred D y \<longleftrightarrow> y = []
     \<or> (\<exists>header keys dc tag. 64 \<le> length D
          \<and> handshake_dc_index (ce_sha (pe_crypto env)) (ce_ks (pe_crypto env)) (take 64 D) secret = Some dc
          \<and> handshake_proto_tag (ce_sha (pe_crypto env)) (ce_ks (pe_crypto env)) (take 64 D) secret = Some tag
          \<and> generate_relay_init (ce_ks (pe_crypto env)) (pe_draws env) (if dc \<noteq> 0 then dc else dc_id_from_backend preferred) tag
              = Some (Inr (header, keys))
          \<and> (prefix y header
             \<or> (\<exists>rest. y = header @ rest \<and> rekeyed (ce_ks (pe_crypto env)) keys
                  (crypt (ce_ks (pe_crypto env)) (advance 64 (client_cipher (ce_sha (pe_crypto env)) (take 64 D) secret)) (drop 64 D)) rest)))"

lemma moved_to_dc: "ee_moved env secret preferred D E tally to_client to_dc \<Longrightarrow> ee_to_dc env secret preferred D to_dc"
  unfolding ee_moved_def ee_to_dc_def using bridged_rekeyed by fast

lemma back_accepts_at_once:
  assumes "length h = 64" and "0 < fuel" and "parse_handshake sha ks h secret = Some info"
  shows "accept_handshake sha ks fuel (prefixed_poll_read poll) (prefixed_new h io) secret =
    Some (Inr \<lparr>ac_stream = \<lparr>ob_inner = \<lparr>px_data = h, px_pos = length h, px_inner = io\<rparr>, ob_enc = client_cipher sha (rev h) secret,
         ob_dec = advance 64 (client_cipher sha h secret), ob_pending = []\<rparr>,
       ac_dc_id = the (handshake_dc_index sha ks h secret), ac_proto_tag = hi_proto_tag info\<rparr>)"
proof -
  obtain f where f: "fuel = Suc f" using assms(2) gr0_conv_Suc by blast
  have "read_exact fuel (prefixed_poll_read poll) 64 (prefixed_new h io) = (Some (Inr h), \<lparr>px_data = h, px_pos = length h, px_inner = io\<rparr>)"
    using assms(1) by (cases f) (auto simp: f prefixed_poll_read_def prefixed_new_def)
  from accept_handshake_eq [OF this assms(1)] show ?thesis by (simp add: assms(3))
qed

lemma no_fuel_peeks: "peek_raw_after_ack 0 poll w = (q, w1) \<Longrightarrow> q \<noteq> Some (Inr p)"
  by (auto simp: peek_raw_after_ack_def task_defs timed_def)

lemma back_ee_copy_delivers:
  fixes env
  defines "ks \<equiv> ce_ks (se_crypto env)"
  assumes run: "back_ee_copy env dc a s = (r, s1)"
    and a: "ac_stream a = \<lparr>ob_inner = \<lparr>px_data = h, px_pos = length h, px_inner = wrap_relay_stream fw keys enc False\<rparr>,
      ob_enc = e, ob_dec = d0, ob_pending = []\<rparr>"
    and fw: "aead_laws (se_aead env)" "roomy fw" "RData [] \<notin> set (wi_in fw)"
      "relay_carries (se_aead env) (relay_key keys enc True) (script_data (wi_in fw)) d"
    and u: "accepting (ss_upstream s)" "RData [] \<notin> set (wi_in (ss_upstream s))"
  shows "\<exists>y. wi_sent (ss_upstream s1) = wi_sent (ss_upstream s) @ y
    \<and> (y = [] \<or> (\<exists>header rk. generate_relay_init ks (pe_draws (se_proxy env)) (if ac_dc_id a \<noteq> 0 then ac_dc_id a else dc) (ac_proto_tag a)
           = Some (Inr (header, rk)) \<and> (prefix y header \<or> (\<exists>rest. y = header @ rest \<and> rekeyed ks rk (crypt ks d0 d) rest))))"
proof -
  let ?g = "generate_relay_init ks (pe_draws (se_proxy env)) (if ac_dc_id a \<noteq> 0 then ac_dc_id a else dc) (ac_proto_tag a)"
  consider (none) "\<nexists>p. ?g = Some (Inr p)" | (init) header rk where "?g = Some (Inr (header, rk))" by fastforce
  then show ?thesis
  proof cases
    case none
    then have "s1 = s" using run unfolding ks_def by (auto simp: back_ee_copy_def Let_def failT_def split: option.splits sum.splits)
    then show ?thesis by (intro exI [of _ "[]"]) simp
  next
    case init
    obtain w u2 where w: "write_all (se_fuel env) wire_write header (ss_upstream s) = (w, u2)" by fastforce
    obtain sent left where sl: "header = sent @ left" "wi_sent u2 = wi_sent (ss_upstream s) @ sent" "w = Some (Inr ()) \<longrightarrow> left = []"
      using wire_sink.write_all_accepts [OF _ w, of "wi_sent (ss_upstream s)"] by (auto simp: took_wire_def)
    show ?thesis
    proof (cases "w = Some (Inr ())")
      case False
      then have "ss_upstream s1 = u2"
        using run init w unfolding ks_def by (auto simp: back_ee_copy_def Let_def on_upstream_def task_defs split: option.splits sum.splits)
      then show ?thesis using sl init by (intro exI [of _ sent]) auto
    next
      case True
      have u2: "accepting u2" "RData [] \<notin> set (wi_in u2)"
        using write_all_accepting [OF u(1) w] write_all_in [OF w] u(2) by simp_all
      obtain q l v where cp: "copy_bidirectional_graceful (obf_end ks (prefixed_end (relay_end (se_aead env)))) (obf_end ks tcp)
          (pe_schedule (se_proxy env)) (ac_stream a) (from_relay_keys u2 rk) = (q, l, v)" using prod_cases3 by blast
      have "ss_upstream s1 = ob_inner v"
        using run init w True cp unfolding ks_def
        by (auto simp: back_ee_copy_def Let_def on_upstream_def task_defs count_def split: option.splits sum.splits)
      with back_ee_relay [OF cp [unfolded a] fw u2] sl True init show ?thesis
        by (metis append.assoc append.right_neutral)
    qed
  qed
qed

text \<open>After the acknowledgement.\<close>

lemma back_ee_session_delivers:
  fixes env
  defines "sha \<equiv> ce_sha (se_crypto env)" and "ks \<equiv> ce_ks (se_crypto env)"
  assumes run: "back_ee_session env net frame keys enc secret (frame_dc_id env (of_initial frame) secret (of_backend frame)) s = (r, s1)"
    and h: "length (of_initial frame) = 64" "parse_handshake sha ks (of_initial frame) secret = Some info"
    and c: "aead_laws (se_aead env)" "roomy (ss_client s)" "RData [] \<notin> set (wi_in (ss_client s))"
      "relay_carries (se_aead env) (relay_key keys enc True) (script_data (wi_in (ss_client s))) d"
    and dc: "\<forall>b w. dialled (se_proxy env) net b w \<longrightarrow> accepting w \<and> RData [] \<notin> set (wi_in w)"
  shows "ss_upstream s1 = ss_upstream s \<and> r \<noteq> Some (Inr ())
    \<or> (\<exists>b w y. b \<in> set (bp_backends (ss_pool s)) \<and> dialled (se_proxy env) net b w \<and> wi_sent (ss_upstream s1) = wi_sent w @ y
         \<and> ee_to_dc (se_proxy env) secret (of_backend frame) (of_initial frame @ d) y)"
proof -
  let ?h = "of_initial frame"
  obtain q fw where p: "peek_raw_after_ack (se_fuel env) wire_read (ss_client s) = (q, fw)" by fastforce
  note pw = peeked_wire [OF p c(3)]
  show ?thesis
  proof (cases "\<exists>peeked. q = Some (Inr peeked) \<and> 0 < se_fuel env")
    case False
    have none: "q \<noteq> Some (Inr pk)" for pk
      using False no_fuel_peeks [of wire_read "ss_client s" q fw pk] p by (cases "se_fuel env") auto
    have "ss_upstream s1 = ss_upstream s \<and> r \<noteq> Some (Inr ())"
    proof (cases q)
      case None
      then show ?thesis using run p by (auto simp: back_ee_session_def bindT_def on_client_def)
    next
      case (Some z)
      then show ?thesis using run p none by (cases z) (auto simp: back_ee_session_def bindT_def on_client_def)
    qed
    then show ?thesis by (rule disjI1)
  next
    case True
    then obtain peeked where peeked: "q = Some (Inr peeked)" "0 < se_fuel env" by blast
    let ?s = "s\<lparr>ss_client := fw\<rparr>"
    let ?fw = "prefix_wire peeked fw"
    let ?a = "\<lparr>ac_stream = \<lparr>ob_inner = \<lparr>px_data = ?h, px_pos = length ?h, px_inner = wrap_relay_stream ?fw keys enc False\<rparr>,
         ob_enc = client_cipher sha (rev ?h) secret, ob_dec = advance 64 (client_cipher sha ?h secret), ob_pending = []\<rparr>,
       ac_dc_id = the (handshake_dc_index sha ks ?h secret), ac_proto_tag = hi_proto_tag info\<rparr>"
    let ?dial = "timed ''split back ee: timeout connecting to DC'' (connect_pool (se_proxy env) net (of_backend frame))"
    have acc: "accept_handshake sha ks (se_fuel env) (prefixed_poll_read (relay_poll_read (se_aead env)))
        (back_front_io ?h peeked fw keys enc) secret = Some (Inr ?a)"
      unfolding back_front_io_def by (rule back_accepts_at_once [OF h(1) peeked(2) h(2)])
    have go: "bindT ?dial (\<lambda>_. back_ee_copy env (frame_dc_id env ?h secret (of_backend frame)) ?a) ?s = (r, s1)"
      using run p peeked(1) acc unfolding sha_def ks_def by (simp add: back_ee_session_def bindT_def on_client_def)
    obtain v s2 where cn: "connect_pool (se_proxy env) net (of_backend frame) ?s = (v, s2)" by fastforce
    from connect_pool_cases [OF cn] have "ss_client s2 = ss_client ?s" and f0:
      "case v of Some (Inr b) \<Rightarrow> b \<in> set (bp_backends (ss_pool ?s)) \<and> dialled (se_proxy env) net b (ss_upstream s2)
       | _ \<Rightarrow> ss_upstream s2 = ss_upstream ?s" by blast+
    note f = this(1) f0 [simplified]
    show ?thesis
    proof (cases "\<exists>b. v = Some (Inr b)")
      case False
      then have "\<nexists>b. fst (?dial ?s) = Some (Inr b)" "snd (?dial ?s) = s2"
        by (cases v; use cn False in \<open>simp add: timed_def\<close>)+
      then have "ss_upstream s1 = ss_upstream s2 \<and> r \<noteq> Some (Inr ())"
        using go by (cases "?dial ?s") (auto simp: bindT_def split: option.splits sum.splits)
      then show ?thesis using False f(2) by (auto split: option.splits sum.splits)
    next
      case True
      then obtain b where b: "v = Some (Inr b)" by blast
      have d: "b \<in> set (bp_backends (ss_pool s))" "dialled (se_proxy env) net b (ss_upstream s2)" using f(2) b by simp_all
      have copy: "back_ee_copy env (frame_dc_id env ?h secret (of_backend frame)) ?a s2 = (r, s1)"
        using go cn b by (simp add: bindT_def timed_def)
      have fw: "roomy ?fw" "RData [] \<notin> set (wi_in ?fw)" "script_data (wi_in ?fw) = script_data (wi_in (ss_client s))"
        using pw c(2) peeked(1) roomy_cong [of fw "ss_client s"] by simp_all
      have stream: "ac_stream ?a = \<lparr>ob_inner = \<lparr>px_data = ?h, px_pos = length ?h, px_inner = wrap_relay_stream ?fw keys enc False\<rparr>,
         ob_enc = client_cipher sha (rev ?h) secret, ob_dec = advance 64 (client_cipher sha ?h secret), ob_pending = []\<rparr>" by simp
      have carries: "relay_carries (se_aead env) (relay_key keys enc True) (script_data (wi_in ?fw)) d" using c(4) fw(3) by simp
      have up: "accepting (ss_upstream s2)" "RData [] \<notin> set (wi_in (ss_upstream s2))" using dc d(2) by blast+
      obtain y where y: "wi_sent (ss_upstream s1) = wi_sent (ss_upstream s2) @ y"
        "y = [] \<or> (\<exists>header rk. generate_relay_init ks (pe_draws (se_proxy env))
           (if ac_dc_id ?a \<noteq> 0 then ac_dc_id ?a else frame_dc_id env ?h secret (of_backend frame)) (ac_proto_tag ?a) = Some (Inr (header, rk))
           \<and> (prefix y header \<or> (\<exists>rest. y = header @ rest
                 \<and> rekeyed ks rk (crypt ks (advance 64 (client_cipher sha ?h secret)) d) rest)))"
        using back_ee_copy_delivers [OF copy stream c(1) fw(1,2) carries up] unfolding ks_def by blast
      obtain n where n: "handshake_dc_index sha ks ?h secret = Some n"
        using h by (auto simp: parse_handshake_alt [OF h(1)] Let_def split: if_splits)
      have tag: "handshake_proto_tag sha ks ?h secret = Some (hi_proto_tag info)" by (simp add: handshake_proto_tag_def h(2))
      have no: "(if ac_dc_id ?a \<noteq> 0 then ac_dc_id ?a else frame_dc_id env ?h secret (of_backend frame))
          = (if n \<noteq> 0 then n else dc_id_from_backend (of_backend frame))"
        using n unfolding sha_def ks_def by (simp add: frame_dc_id_def)
      have "ee_to_dc (se_proxy env) secret (of_backend frame) (?h @ d) y"
        using y(2) n tag unfolding no unfolding ee_to_dc_def sha_def ks_def accepted.simps by (simp add: h(1))
      then show ?thesis using d y(1) by blast
    qed
  qed
qed

lemma refuse_keeps: "refuse env m e s = (r, s1) \<Longrightarrow> ss_upstream s1 = ss_upstream s \<and> r \<noteq> Some (Inr v)"
  using refuse_says [of env m e s r s1] by auto

lemma back_ee_delivers:
  fixes env
  defines "sha \<equiv> ce_sha (se_crypto env)" and "ks \<equiv> ce_ks (se_crypto env)"
  assumes run: "handle_back_ee_connection env cfg frame keys enc s = (r, s1)"
    and c: "aead_laws (se_aead env)" "roomy (ss_client s)" "RData [] \<notin> set (wi_in (ss_client s))"
      "relay_carries (se_aead env) (relay_key keys enc True) (script_data (wi_in (ss_client s))) d"
    and dc: "\<forall>b w. dialled (se_proxy env) (network cfg) b w \<longrightarrow> accepting w \<and> RData [] \<notin> set (wi_in w)"
  shows "ss_upstream s1 = ss_upstream s \<and> r \<noteq> Some (Inr ())
    \<or> (\<exists>secret b w y. resolve_secret_bytes (ce_hex (se_crypto env)) (mtproto cfg) None = Inr secret
         \<and> length (of_initial frame) = 64 \<and> parse_handshake sha ks (of_initial frame) secret \<noteq> None
         \<and> b \<in> set (bp_backends (ss_pool s)) \<and> dialled (se_proxy env) (network cfg) b w \<and> wi_sent (ss_upstream s1) = wi_sent w @ y
         \<and> ee_to_dc (se_proxy env) secret (of_backend frame) (of_initial frame @ d) y)"
proof (cases "resolve_secret_bytes (ce_hex (se_crypto env)) (mtproto cfg) None")
  case (Inl e)
  then show ?thesis using run by (simp add: handle_back_ee_connection_def bindT_lift failT_def) auto
next
  case (Inr secret)
  let ?h = "of_initial frame"
  define valid where "valid = bindT (liftT (ok_or (Proxy ''no proto tag'') (handshake_proto_tag sha ks ?h secret))) (\<lambda>_.
       bindT (on_client (send_ack (se_fuel env) wire_write True None)) (\<lambda>_.
       back_ee_session env (network cfg) frame keys enc secret (frame_dc_id env ?h secret (of_backend frame))))"
  have run1: "(if length ?h \<noteq> 64 then refuse env split_ee_length_err (Proxy split_ee_length_err)
     else if parse_handshake sha ks ?h secret = None then refuse env split_ee_handshake_err (Proxy split_ee_handshake_err)
     else valid) s = (r, s1)"
    using run unfolding handle_back_ee_connection_def Inr bindT_lift handshake_len_def valid_def sha_def ks_def .
  show ?thesis
  proof (cases "length ?h = 64 \<and> parse_handshake sha ks ?h secret \<noteq> None")
    case False
    then obtain m e where "refuse env m e s = (r, s1)" using run1 by (auto split: if_splits)
    from refuse_keeps [OF this] show ?thesis by (rule disjI1)
  next
    case True
    then obtain info where h: "length ?h = 64" "parse_handshake sha ks ?h secret = Some info" by blast
    have run2: "bindT (on_client (send_ack (se_fuel env) wire_write True None)) (\<lambda>_.
       back_ee_session env (network cfg) frame keys enc secret (frame_dc_id env ?h secret (of_backend frame))) s = (r, s1)"
      using run1 h by (simp add: valid_def handshake_proto_tag_def bindT_lift)
    obtain q cw where a: "send_ack (se_fuel env) wire_write True None (ss_client s) = (q, cw)" by fastforce
    note ack = send_ok_says [OF a]
    show ?thesis
    proof (cases "q = Some (Inr ())")
      case False
      then have "ss_upstream s1 = ss_upstream s \<and> r \<noteq> Some (Inr ())"
        using run2 a by (auto simp: bindT_def on_client_def split: option.splits sum.splits)
      then show ?thesis by (rule disjI1)
    next
      case ok: True
      let ?s = "s\<lparr>ss_client := cw\<rparr>"
      have go: "back_ee_session env (network cfg) frame keys enc secret (frame_dc_id env ?h secret (of_backend frame)) ?s = (r, s1)"
        using run2 a ok by (simp add: bindT_def on_client_def)
      have cc: "roomy (ss_client ?s)" "RData [] \<notin> set (wi_in (ss_client ?s))"
        "relay_carries (se_aead env) (relay_key keys enc True) (script_data (wi_in (ss_client ?s))) d"
        using c ack(1) ack(2) [OF c(2)] by simp_all
      from back_ee_session_delivers [OF go h [unfolded sha_def ks_def] c(1) cc dc] show ?thesis
        using Inr h by simp
    qed
  qed
qed

section \<open>Properties of the back\<close>

text \<open>What the back has handed to a data centre of its pool when the front relays \<open>d\<close> after the frame.\<close>

definition back_handed :: "split_env \<Rightarrow> config \<Rightarrow> split_opening_frame \<Rightarrow> bytes \<Rightarrow> session \<Rightarrow> unit result option \<Rightarrow> session \<Rightarrow> bool" where
  "back_handed env cfg frame d s r s1 \<longleftrightarrow>
     ss_upstream s1 = ss_upstream s \<and> r \<noteq> Some (Inr ())
     \<or> (\<exists>b w y. b \<in> set (bp_backends (ss_pool s)) \<and> dialled (se_proxy env) (network cfg) b w \<and> wi_sent (ss_upstream s1) = wi_sent w @ y
          \<and> (if of_mode frame = Ee
             then \<exists>secret. resolve_secret_bytes (ce_hex (se_crypto env)) (mtproto cfg) None = Inr secret
               \<and> length (of_initial frame) = 64
               \<and> parse_handshake (ce_sha (se_crypto env)) (ce_ks (se_crypto env)) (of_initial frame) secret \<noteq> None
               \<and> ee_to_dc (se_proxy env) secret (of_backend frame) (of_initial frame @ d) y
             else prefix y (of_initial frame @ d) \<and> (r = Some (Inr ()) \<longrightarrow> prefix (of_initial frame) y)))"

lemma back_serves_delivers:
  assumes run: "back_serves env cfg sp token raw frame s = (r, s1)" and laws: "aead_laws (se_aead env)" "gen_range_law (pe_dd (se_proxy env))"
    and client: "roomy (ss_client s)" "RData [] \<notin> set (wi_in (ss_client s))"
      "relay_carries (se_aead env) (relay_key (derive_session_keys (ce_sha (se_crypto env)) token raw)
         (encrypt_relay sp \<and> opening_frame_encrypted raw) True) (script_data (wi_in (ss_client s))) d"
    and dc: "\<forall>b w. dialled (se_proxy env) (network cfg) b w \<longrightarrow> accepting w \<and> RData [] \<notin> set (wi_in w)"
  shows "back_handed env cfg frame d s r s1"
proof (cases "of_mode frame = Ee")
  case True
  have "handle_back_ee_connection env cfg frame (derive_session_keys (ce_sha (se_crypto env)) token raw)
      (encrypt_relay sp \<and> opening_frame_encrypted raw) s = (r, s1)" using run True by (simp add: back_serves_def)
  from back_ee_delivers [OF this laws(1) client dc] show ?thesis unfolding back_handed_def if_P [OF True] by blast
next
  case False
  have "back_plain_session env cfg frame (derive_session_keys (ce_sha (se_crypto env)) token raw)
      (encrypt_relay sp \<and> opening_frame_encrypted raw) s = (r, s1)" using run False by (simp add: back_serves_def)
  from back_plain_delivers [OF this laws client] dc show ?thesis unfolding back_handed_def if_not_P [OF False] by blast
qed

text \<open>
  C10. The back serves nobody it cannot authenticate: whatever a peer sends, no data centre is dialled
  and the peer is told at most an error message, of which the counter of failed authentications grows by at
  most one, unless the peer's address is allowed, its bytes start with an opening frame that decodes, the
  frame is not too long, and the frame carries the hash of the configured token.
\<close>

theorem back_serves_authentic:
  assumes "handle_back_connection env cfg sp peer_ip s = (r, s1)" and "RData [] \<notin> set (wi_in (ss_client s))"
  shows "ss_upstream s1 = ss_upstream s \<and> r \<noteq> Some (Inr ())
        \<and> (\<exists>x. wi_sent (ss_client s1) = wi_sent (ss_client s) @ x \<and> told_error x)
        \<and> ss_stats s1 \<in> {ss_stats s, auth_failed (ss_stats s)}
    \<or> (\<exists>token raw frame. admitted env sp peer_ip (script_data (wi_in (ss_client s))) token raw frame)"
  using back_admission [OF assms] by blast

text \<open>
  C9. What the back hands over, when its socket to the front takes a whole frame with every write that it
  takes (\<open>roomy\<close>) and the sockets of the data centres do not ask to be tried again or fail in the
  middle (\<open>accepting\<close>): the bytes that the front relays after the frame reach one data centre of the pool. For
  classic and dd clients it gets a front of the first bytes in the frame and of the relayed bytes, in order and once. For ee clients the frame's first bytes are a handshake for the first configured
  secret, and the data centre gets what a proxy without the split gives it for the same plain
  stream (lemma \<open>moved_to_dc\<close>): the relay header and the plaintext under the relay keys.
\<close>

theorem back_hands_over:
  assumes "handle_back_connection env cfg sp peer_ip s = (r, s1)" and "aead_laws (se_aead env)" and "gen_range_law (pe_dd (se_proxy env))"
    and "roomy (ss_client s)" and "RData [] \<notin> set (wi_in (ss_client s))"
    and "\<forall>b w. dialled (se_proxy env) (network cfg) b w \<longrightarrow> accepting w \<and> RData [] \<notin> set (wi_in w)"
  shows "ss_upstream s1 = ss_upstream s \<and> r \<noteq> Some (Inr ())
    \<or> (\<exists>token raw frame x. admitted env sp peer_ip (script_data (wi_in (ss_client s))) token raw frame
         \<and> script_data (wi_in (ss_client s)) = raw @ x
         \<and> (\<forall>d. relay_carries (se_aead env) (relay_key (derive_session_keys (ce_sha (se_crypto env)) token raw)
                 (encrypt_relay sp \<and> opening_frame_encrypted raw) True) x d \<longrightarrow> back_handed env cfg frame d s r s1))"
proof -
  consider "ss_upstream s1 = ss_upstream s \<and> r \<noteq> Some (Inr ())"
    | token raw frame w where "admitted env sp peer_ip (script_data (wi_in (ss_client s))) token raw frame"
        "script_data (wi_in (ss_client s)) = raw @ script_data (wi_in w)" "wi_out w = wi_out (ss_client s)" "RData [] \<notin> set (wi_in w)"
        "back_serves env cfg sp token raw frame (s\<lparr>ss_client := w\<rparr>) = (r, s1)"
    using back_admission [OF assms(1,5)] by blast
  then show ?thesis
  proof cases
    case (2 token raw frame w)
    have "back_handed env cfg frame d s r s1" if "relay_carries (se_aead env) (relay_key (derive_session_keys (ce_sha (se_crypto env)) token raw)
                 (encrypt_relay sp \<and> opening_frame_encrypted raw) True) (script_data (wi_in w)) d" for d
    proof -
      have "roomy w" using roomy_cong [OF 2(3)] assms(4) by simp
      then have "back_handed env cfg frame d (s\<lparr>ss_client := w\<rparr>) r s1"
        by (intro back_serves_delivers [OF 2(5) assms(2,3) _ _ _ assms(6)]) (use 2(4) that in simp_all)
      then show ?thesis by (simp add: back_handed_def)
    qed
    then show ?thesis using 2(1,2) by (intro disjI2 exI [of _ token] exI [of _ raw] exI [of _ frame] exI [of _ "script_data (wi_in w)"]) simp
  qed simp
qed

section \<open>Concrete sessions\<close>

definition toy_back :: wire where
  "toy_back = \<lparr>wi_in = [RPending, RData [ack_ok], RData [6], REof], wi_out = replicate 9 (WAccept 70000), wi_sent = []\<rparr>"

definition toy_split_env :: split_env where
  "toy_split_env = \<lparr>se_proxy = toy_proxy_env, se_aead = toy_aead,
     se_dial = (\<lambda>_ _ a. if a = ''b:1'' then Some (Inr toy_back) else None), se_io_text = (\<lambda>_. ''io'')\<rparr>"

definition toy_split :: split_config where
  "toy_split = split_default\<lparr>auth_token := Some ''t'', back_servers := [''b:0'', ''b:1''], encrypt_relay := False\<rparr>"

definition toy_back_session :: session where
  "toy_back_session = toy_session\<lparr>ss_client := \<lparr>wi_in = [RData (frame_layout 1 (hash_auth_token toy_sha ''t'')
       \<lparr>of_mode = Classic, of_backend = ''dc'', of_initial = [4, 2]\<rparr>), RPending, RData [8], REof],
     wi_out = replicate 9 (WAccept 70000), wi_sent = []\<rparr>\<rparr>"

definition toy_front_session :: "bytes list \<Rightarrow> front_session" where
  "toy_front_session xs = \<lparr>fs_client = \<lparr>wi_in = map RData xs @ [REof], wi_out = replicate 9 (WAccept 200), wi_sent = []\<rparr>,
     fs_backs = [], fs_dials = 0, fs_stats = stats_default\<rparr>"

abbreviation toy_back_config :: config where
  "toy_back_config \<equiv> (test_minimal ''u.json'')\<lparr>mtproto := toy_mtproto\<rparr>"

lemma toy_back_reads: "RData [] \<notin> set (wi_in (ss_client toy_back_session))"
  by (simp add: toy_back_session_def frame_layout_def)

lemma back_serves_authentic_witness:
  "\<exists>r s1. handle_back_connection toy_split_env toy_back_config toy_split (V4 10 0 0 1) toy_back_session = (r, s1)
    \<and> (ss_upstream s1 = ss_upstream toy_back_session
       \<or> (\<exists>token raw frame. admitted toy_split_env toy_split (V4 10 0 0 1) (script_data (wi_in (ss_client toy_back_session))) token raw frame))"
proof -
  obtain r s1 where run: "handle_back_connection toy_split_env toy_back_config toy_split (V4 10 0 0 1) toy_back_session = (r, s1)" by fastforce
  show ?thesis using run back_serves_authentic [OF run toy_back_reads] by blast
qed

lemma toy_back_dials: "\<forall>b w. dialled (se_proxy toy_split_env) (network toy_back_config) b w \<longrightarrow> accepting w \<and> RData [] \<notin> set (wi_in w)"
proof -
  have "network toy_back_config = po_network (toy_options Classic)" by (simp add: test_minimal_def toy_options_def)
  then show ?thesis using toy_dials by (simp add: toy_split_env_def toy_dc_def accepting_def list_all_iff)
qed

lemma back_hands_over_witness:
  "\<exists>r s1. handle_back_connection toy_split_env toy_back_config toy_split (V4 10 0 0 1) toy_back_session = (r, s1)
    \<and> (ss_upstream s1 = ss_upstream toy_back_session \<and> r \<noteq> Some (Inr ())
       \<or> (\<exists>token raw frame x. script_data (wi_in (ss_client toy_back_session)) = raw @ x
          \<and> admitted toy_split_env toy_split (V4 10 0 0 1) (raw @ x) token raw frame
          \<and> back_handed toy_split_env toy_back_config frame x toy_back_session r s1))"
proof -
  obtain r s1 where run: "handle_back_connection toy_split_env toy_back_config toy_split (V4 10 0 0 1) toy_back_session = (r, s1)" by fastforce
  have laws: "aead_laws (se_aead toy_split_env)" "gen_range_law (pe_dd (se_proxy toy_split_env))"
    using toy_aead_laws toy_gen_range by (simp_all add: toy_split_env_def)
  have roomy: "roomy (ss_client toy_back_session)"
    by (simp add: toy_back_session_def roomy_def list_all_iff max_frame_cipher_def max_frame_plain_def)
  have plain: "relay_carries A (relay_key k (encrypt_relay toy_split \<and> e) True) x x" for A k e x
    by (simp add: relay_key_def toy_split_def)
  show ?thesis using run back_hands_over [OF run laws roomy toy_back_reads toy_back_dials] plain by metis
qed

lemma toy_network: "honest_network toy_split_env toy_split mode preferred first"
proof -
  have "honest_back A (relay_key k False False) toy_back" for A k
    by (simp add: honest_back_def toy_back_def relay_key_def)
  then show ?thesis using toy_aead_laws by (auto simp: honest_network_def toy_split_env_def toy_split_def split: if_splits)
qed

lemma toy_roomy: "\<forall>n secs a w. se_dial toy_split_env n secs a = Some (Inr w) \<longrightarrow> roomy w"
  by (simp add: toy_split_env_def toy_back_def roomy_def list_all_iff max_frame_cipher_def max_frame_plain_def)

text \<open>A signed ClientHello as a record.\<close>

definition toy_hello_record :: tls_record where
  "toy_hello_record = \<lparr>rec_type = Handshake, rec_version = (3, 1), rec_payload = hello_message
     ((built_hello (sni_extension_bytes (as_bytes ''a.io'')))\<lparr>ch_random :=
        signed_random (the (toy_hmac (replicate 16 1))) 1000 (build_client_hello ''a.io'')\<rparr>)\<rparr>"

lemma toy_signed: "length (signed_random (the (toy_hmac (replicate 16 1))) 1000 (build_client_hello ''a.io'')) = 32"
  by (rule length_signed_random) (simp add: toy_hmac_def)

lemma toy_hello_built: "build_signed_client_hello toy_hmac 1000 ''a.io'' (replicate 16 1) = Some (record_bytes toy_hello_record)"
proof -
  let ?m = "the (toy_hmac (replicate 16 1))"
  have m: "toy_hmac (replicate 16 1) = Some ?m" "length (?m x) = 32" for x by (simp_all add: toy_hmac_def)
  have len: "43 \<le> length (build_client_hello ''a.io'')"
    by (simp add: build_client_hello_def hello_with_extensions_record length_record_bytes length_built_message length_sni_extension)
  have "build_signed_client_hello toy_hmac 1000 ''a.io'' (replicate 16 1)
      = Some (splice (build_client_hello ''a.io'') server_hello_random_offset (signed_random ?m 1000 (build_client_hello ''a.io'')))"
    unfolding build_signed_client_hello_def by (rule sign_splice [where mac = ?m and hmac = toy_hmac and secret = "replicate 16 1", OF m len])
  then show ?thesis using built_hello_splice [OF toy_signed, of "sni_extension_bytes (as_bytes ''a.io'')"]
    by (simp add: toy_hello_record_def flip: build_client_hello_def)
qed

lemma toy_hello: "hello_record toy_hello_record"
  using toy_signed by (simp add: hello_record_def toy_hello_record_def hello_message_def hello_front_def built_hello_def
      length_sni_extension Let_def)


text \<open>A classic session over a back server that takes three bytes with each write.\<close>

definition toy_slow_back :: wire where
  "toy_slow_back = \<lparr>wi_in = [RPending, RData [ack_ok], RData [6], REof], wi_out = replicate 60 (WAccept 3), wi_sent = []\<rparr>"

definition toy_slow_env :: split_env where
  "toy_slow_env = toy_split_env\<lparr>se_proxy := toy_proxy_env\<lparr>pe_fuel := 70, pe_schedule := replicate 500 True @ replicate 500 False\<rparr>,
     se_dial := \<lambda>_ _ _. Some (Inr toy_slow_back)\<rparr>"

abbreviation toy_slow_split :: split_config where
  "toy_slow_split \<equiv> toy_split\<lparr>back_servers := [''b:1'']\<rparr>"

lemma front_repeats_first_bytes_witness:
  "\<exists>s1 w1 frame. relay_from_front toy_slow_env toy_mtproto drs_default toy_slow_split [4, 2] ''dc'' Classic None (toy_front_session [[8]])
      = (Some (Inr ()), s1)
    \<and> fs_backs s1 = [(''b:1'', w1)]
    \<and> decode_opening_frame frame = Inr \<lparr>of_mode = Classic, of_backend = ''dc'', of_initial = [4, 2]\<rparr>
    \<and> wi_sent w1 = frame @ [4, 2] @ [8] \<and> wi_sent (fs_client s1) = [6]
    \<and> bytes_to_backend (fs_stats s1) = 5 \<and> bytes_from_backend (fs_stats s1) = 1"
proof -
  let ?s = "toy_front_session [[8]]"
  define frame where "frame = frame_layout 1 (hash_auth_token toy_sha ''t'') \<lparr>of_mode = Classic, of_backend = ''dc'', of_initial = [4, 2]\<rparr>"
  have sha: "ce_sha (se_crypto toy_slow_env) = toy_sha" by (simp add: toy_slow_env_def toy_proxy_env_def toy_env_def)
  have h: "length (toy_sha (as_bytes ''t'')) = 32" by (simp add: toy_sha_def)
  have enc: "encode_opening_frame (ce_sha (se_crypto toy_slow_env)) ''t'' Classic ''dc'' [4, 2] False = Inr frame"
    unfolding sha by (simp add: encode_layout frame_def split_consts)
  have len: "length frame = 48" using h by (simp add: frame_def frame_layout_def magic_def hash_auth_token_def)
  have u: "is_rust_str ''dc''" by code_simp
  have fuel: "se_fuel toy_slow_env = 70" "pe_schedule (se_proxy toy_slow_env) = replicate 500 True @ replicate 500 False"
    by (simp_all add: toy_slow_env_def)
  have dial: "se_dial toy_slow_env (fs_dials ?s) (connect_timeout_secs toy_slow_split) ''b:1'' = Some (Inr toy_slow_back)"
    by (simp add: toy_slow_env_def)
  have server: "talk (se_fuel toy_slow_env) (length frame + length [4 :: u8, 2] + length [8 :: u8]) (ack_ok # [6]) toy_slow_back"
    unfolding len fuel by (simp add: talk_def toy_slow_back_def willing_def clean_script_def list_all_iff)
  have client: "talk (se_fuel toy_slow_env) (length [6 :: u8]) [8] (fs_client ?s)"
    unfolding fuel by (simp add: talk_def toy_front_session_def willing_def clean_script_def list_all_iff)
  have reps: "count_list (replicate n b) b = n" for n and b :: bool by (induction n) simp_all
  have sched: "6 * se_fuel toy_slow_env + 3 * length [4 :: u8, 2] \<le> count_list (pe_schedule (se_proxy toy_slow_env)) True"
      "6 * se_fuel toy_slow_env \<le> count_list (pe_schedule (se_proxy toy_slow_env)) False"
    unfolding fuel by (simp_all add: reps)
  have cfg: "Classic \<noteq> Ee" "auth_token toy_slow_split = Some ''t''" "\<not> encrypt_relay toy_slow_split" "back_servers toy_slow_split = ''b:1'' # []"
    by (simp_all add: toy_split_def)
  obtain s1 w1 where "relay_from_front toy_slow_env toy_mtproto drs_default toy_slow_split [4, 2] ''dc'' Classic None ?s = (Some (Inr ()), s1)"
    "fs_backs s1 = fs_backs ?s @ [(''b:1'', w1)]"
    "decode_opening_frame frame = Inr \<lparr>of_mode = Classic, of_backend = ''dc'', of_initial = [4, 2]\<rparr>"
    "wi_sent w1 = wi_sent toy_slow_back @ frame @ [4, 2] @ [8]" "wi_sent (fs_client s1) = wi_sent (fs_client ?s) @ [6]"
    "bytes_to_backend (fs_stats s1) = bytes_to_backend (fs_stats ?s) + of_nat (length [4 :: u8, 2] + length [8 :: u8] + length [4 :: u8, 2])"
    "bytes_from_backend (fs_stats s1) = bytes_from_backend (fs_stats ?s) + of_nat (length [6 :: u8])"
    using front_repeats_first_bytes [OF cfg enc u h [folded sha] dial server client sched, of toy_mtproto drs_default None] by blast
  then show ?thesis by (auto simp: toy_slow_back_def toy_front_session_def stats_default_def)
qed

end
