(* ===== verification/Metrics_Text.thy ===== *)
theory Metrics_Text
  imports App_State
begin

text \<open>
  The metrics page (\<^verbatim>\<open>render_prometheus\<close> of \<^verbatim>\<open>src/metrics.rs\<close>) and the summary it reads
  (\<^verbatim>\<open>config_summary\<close> of \<^verbatim>\<open>src/state.rs\<close>). Reading the summary asks the rotation for the active SNI, which
  moves a rotation by time on, so it changes the state. The page is read back with a
  reader of the text exposition format.
\<close>

section \<open>Reading the summary\<close>

definition read_summary :: "(nat \<Rightarrow> nat) \<Rightarrow> world \<Rightarrow> config_summary \<times> world" where
  "read_summary pick w =
     (let s = wd_app w; t = tls (app_config s); r = app_rotation s in
      (summary_of pick (wd_now w) (wd_fs w) s,
       w\<lparr>wd_app := s\<lparr>app_rotation := r\<lparr>rot_sni := snd (select_item pick (wd_now w) (fake_domain t) (rot_sni r))\<rparr>\<rparr>\<rparr>))"

section \<open>The page\<close>

abbreviation newline :: char where "newline \<equiv> CHR 0x0A"

definition append_counter :: "string \<Rightarrow> string \<Rightarrow> u64 \<Rightarrow> string" where
  "append_counter out name value =
     out @ ''# TYPE '' @ name @ '' counter'' @ [newline] @ name @ '' '' @ dec_string (unat value) @ [newline]"

definition append_gauge :: "string \<Rightarrow> string \<Rightarrow> u64 \<Rightarrow> string" where
  "append_gauge out name value =
     out @ ''# TYPE '' @ name @ '' gauge'' @ [newline] @ name @ '' '' @ dec_string (unat value) @ [newline]"

definition metric_counters :: "stats \<Rightarrow> (string \<times> u64) list" where
  "metric_counters st =
     [(''stealthgate_connections_total'', total_connections st),
      (''stealthgate_connections_mtproto_total'', mtproto_connections st),
      (''stealthgate_connections_fallback_total'', fallback_connections st),
      (''stealthgate_bytes_to_backend_total'', bytes_to_backend st),
      (''stealthgate_bytes_from_backend_total'', bytes_from_backend st),
      (''stealthgate_tls_handshakes_total'', tls_handshakes st),
      (''stealthgate_fragmented_writes_total'', fragmented_writes st),
      (''stealthgate_drs_writes_total'', drs_writes st),
      (''stealthgate_dd_writes_total'', dd_writes st),
      (''stealthgate_backend_failovers_total'', backend_failovers st),
      (''stealthgate_replay_blocked_total'', replay_blocked st),
      (''stealthgate_domain_fronted_total'', domain_fronted st),
      (''stealthgate_split_relayed_total'', split_relayed st),
      (''stealthgate_split_auth_failed_total'', split_auth_failed st)]"

definition metric_gauges :: "config_summary \<Rightarrow> (string \<times> u64) list" where
  "metric_gauges c =
     [(''stealthgate_tls_enabled'', if cs_tls_enabled c then 1 else 0),
      (''stealthgate_fragmentation_enabled'', if cs_fragmentation_enabled c then 1 else 0),
      (''stealthgate_drs_enabled'', if cs_drs_enabled c then 1 else 0),
      (''stealthgate_webhooks_enabled'', if cs_webhooks_enabled c then 1 else 0)]"

definition render_prometheus :: "(nat \<Rightarrow> nat) \<Rightarrow> world \<Rightarrow> string \<times> world" where
  "render_prometheus pick w =
     (let st = stats_snapshot (wd_app w);
          out = foldl (\<lambda>out (name, value). append_counter out name value) [] (metric_counters st) in
      case read_summary pick w of
        (summary, w1) \<Rightarrow> (foldl (\<lambda>out (name, value). append_gauge out name value) out (metric_gauges summary), w1))"

section \<open>A reader of the exposition format\<close>

fun lines_of :: "string \<Rightarrow> string list" where
  "lines_of [] = []"
| "lines_of (c # s) =
     (if c = newline then [] # lines_of s
      else (case lines_of s of [] \<Rightarrow> [[c]] | l # ls \<Rightarrow> (c # l) # ls))"

definition samples :: "string \<Rightarrow> (string \<times> string) list" where
  "samples text = List.map_filter (\<lambda>l. if l = [] \<or> hd l = CHR ''#'' then None else split_once (CHR '' '') l) (lines_of text)"

definition scrape :: "string \<Rightarrow> string \<Rightarrow> nat option" where
  "scrape text name = Option.bind (map_of (samples text) name) (parse_unsigned (2 ^ 64))"

lemma lines_of_line: "newline \<notin> set l \<Longrightarrow> lines_of (l @ newline # s) = l # lines_of s"
  by (induction l) auto

definition metric_name :: "string \<Rightarrow> bool" where
  "metric_name n \<longleftrightarrow> n \<noteq> [] \<and> list_all (\<lambda>c. c \<noteq> newline \<and> c \<noteq> CHR '' '' \<and> c \<noteq> CHR ''#'') n"

lemma split_once_here: "c \<notin> set a \<Longrightarrow> split_once c (a @ c # b) = Some (a, b)"
  by (induction a) auto

lemma digits_plain: "newline \<notin> set (dec_string n)" "dec_string n \<noteq> []"
  using dec_string_digits [of n] by (auto simp: list_all_iff is_digit_def)

definition sample_text :: "string \<Rightarrow> string \<times> u64 \<Rightarrow> string" where
  "sample_text kind = (\<lambda>(n, v). ''# TYPE '' @ n @ kind @ [newline] @ n @ '' '' @ dec_string (unat v) @ [newline])"

lemma sample_lines:
  assumes "metric_name n" and "newline \<notin> set kind"
  shows "samples (sample_text kind (n, v) @ s) = (n, dec_string (unat v)) # samples s"
proof -
  have n: "newline \<notin> set n" "CHR '' '' \<notin> set n" "n \<noteq> []" "hd n \<noteq> CHR ''#''"
    using assms(1) by (cases n; auto simp: metric_name_def list_all_iff)+
  have l: "lines_of (sample_text kind (n, v) @ s) = (''# TYPE '' @ n @ kind) # (n @ '' '' @ dec_string (unat v)) # lines_of s"
    using lines_of_line [of "''# TYPE '' @ n @ kind" "n @ '' '' @ dec_string (unat v) @ [newline] @ s"]
      lines_of_line [of "n @ '' '' @ dec_string (unat v)" s] n(1) assms(2) digits_plain by (simp add: sample_text_def)
  have "split_once (CHR '' '') (n @ '' '' @ dec_string (unat v)) = Some (n, dec_string (unat v))"
    using split_once_here [OF n(2)] by simp
  then show ?thesis unfolding samples_def l using n(3,4) by (simp add: map_filter_simps)
qed

lemma samples_concat:
  assumes "list_all (\<lambda>(n, v). metric_name n) xs" and "newline \<notin> set kind"
  shows "samples (concat (map (sample_text kind) xs) @ s) = map (\<lambda>(n, v). (n, dec_string (unat v))) xs @ samples s"
  using assms(1) by (induction xs) (auto simp: sample_lines [OF _ assms(2)])

lemma folded:
  "foldl (\<lambda>out (name, value). append_counter out name value) out xs = out @ concat (map (sample_text '' counter'') xs)"
  "foldl (\<lambda>out (name, value). append_gauge out name value) out xs = out @ concat (map (sample_text '' gauge'') xs)"
  by (induction xs arbitrary: out) (auto simp: append_counter_def append_gauge_def sample_text_def)

lemma metric_names: "list_all (\<lambda>(n, v). metric_name n) (metric_counters st)" "list_all (\<lambda>(n, v). metric_name n) (metric_gauges c)"
  by (simp_all add: metric_counters_def metric_gauges_def metric_name_def)

lemma samples_rendered:
  "samples (fst (render_prometheus pick w)) = map (\<lambda>(n, v). (n, dec_string (unat v)))
     (metric_counters (app_stats (wd_app w)) @ metric_gauges (fst (read_summary pick w)))"
proof -
  have e: "samples [] = []" by (simp add: samples_def map_filter_simps)
  have k: "newline \<notin> set '' counter''" "newline \<notin> set '' gauge''" by simp_all
  obtain c w1 where r: "read_summary pick w = (c, w1)" by fastforce
  show ?thesis
    using samples_concat [OF metric_names(1) k(1), of "app_stats (wd_app w)" "concat (map (sample_text '' gauge'') (metric_gauges c))"]
      samples_concat [OF metric_names(2) k(2), of c "[]"]
    by (simp add: render_prometheus_def r folded stats_snapshot_def e)
qed

text \<open>
  The metrics page says what the counters are: a reader of the text exposition format finds the fourteen
  counters and four gauges, in this order and nothing else, each name once and with the value it has in memory, as
  a decimal number; and rendering changes nothing but the rotation of the displayed SNI.
\<close>

theorem metrics_page_reads_back:
  "map fst (samples (fst (render_prometheus pick w))) = map fst (metric_counters (app_stats (wd_app w)) @ metric_gauges (fst (read_summary pick w)))
   \<and> distinct (map fst (samples (fst (render_prometheus pick w))))
   \<and> map (\<lambda>(n, v). scrape (fst (render_prometheus pick w)) n)
        (metric_counters (app_stats (wd_app w)) @ metric_gauges (fst (read_summary pick w)))
      = map (\<lambda>(n, v). Some (unat v)) (metric_counters (app_stats (wd_app w)) @ metric_gauges (fst (read_summary pick w)))
   \<and> (\<exists>r. snd (render_prometheus pick w) = w\<lparr>wd_app := (wd_app w)\<lparr>app_rotation := (app_rotation (wd_app w))\<lparr>rot_sni := r\<rparr>\<rparr>\<rparr>)"
proof -
  let ?xs = "metric_counters (app_stats (wd_app w)) @ metric_gauges (fst (read_summary pick w))"
  let ?t = "fst (render_prometheus pick w)"
  have names: "map fst (samples ?t) = map fst ?xs" by (simp add: samples_rendered split_beta o_def)
  have dist: "distinct (map fst ?xs)" by (simp add: metric_counters_def metric_gauges_def)
  have "scrape ?t n = Some (unat v)" if "(n, v) \<in> set ?xs" for n v
  proof -
    have "(n, dec_string (unat v)) \<in> set (samples ?t)"
      unfolding samples_rendered set_map by (rule image_eqI [OF _ that]) simp
    moreover have "distinct (map fst (samples ?t))" using dist names by simp
    ultimately have "map_of (samples ?t) n = Some (dec_string (unat v))" by (rule map_of_is_SomeI [rotated])
    moreover have "unat v < 2 ^ 64" using unsigned_less [of v] by simp
    ultimately show ?thesis by (simp add: scrape_def parse_dec_string)
  qed
  then have "map (\<lambda>(n, v). scrape ?t n) ?xs = map (\<lambda>(n, v). Some (unat v)) ?xs" by (intro map_cong) auto
  moreover have "\<exists>r. snd (render_prometheus pick w) = w\<lparr>wd_app := (wd_app w)\<lparr>app_rotation := (app_rotation (wd_app w))\<lparr>rot_sni := r\<rparr>\<rparr>\<rparr>"
    by (auto simp: render_prometheus_def read_summary_def Let_def)
  ultimately show ?thesis using names dist by metis
qed

end
