(* ===== verification/Admin_Api.thy ===== *)
theory Admin_Api
  imports Metrics_Text
begin

text \<open>
  The administration interface on the Unix socket: the dispatch of \<^verbatim>\<open>src/admin/handlers.rs\<close>, reading a request
  and writing an answer in \<^verbatim>\<open>src/admin/mod.rs\<close>, and the client that the MCP server uses. JSON is the
  parameter \<open>admin_lib\<close>; a request is its text, and the answer \<open>None\<close> means that the connection is
  closed without one. The listening socket is not modelled.
\<close>

section \<open>Text\<close>

fun split_at :: "string \<Rightarrow> string \<Rightarrow> (string \<times> string) option" where
  "split_at pat [] = (if pat = [] then Some ([], []) else None)"
| "split_at pat (c # s) =
     (if starts_with (c # s) pat then Some ([], drop (length pat) (c # s))
      else map_option (\<lambda>(a, b). (c # a, b)) (split_at pat s))"

text \<open>\<^verbatim>\<open>split(pat).nth(1)\<close>\<close>

definition second_piece :: "string \<Rightarrow> string \<Rightarrow> string option" where
  "second_piece pat s =
     map_option (\<lambda>(_, rest). case split_at pat rest of Some (piece, _) \<Rightarrow> piece | None \<Rightarrow> rest) (split_at pat s)"

definition crlf :: string where "crlf = [CHR 0x0D, CHR 0x0A]"
definition blank_crlf :: string where "blank_crlf = crlf @ crlf"
definition blank_lf :: string where "blank_lf = [CHR 0x0A, CHR 0x0A]"

text \<open>\<^verbatim>\<open>split_whitespace().next()\<close>, and what is left behind the word.\<close>

fun take_word :: "string \<Rightarrow> string \<times> string" where
  "take_word [] = ([], [])"
| "take_word (c # s) =
     (if strip_one ws_encodings (c # s) \<noteq> None then ([], c # s)
      else (case take_word s of (w, r) \<Rightarrow> (c # w, r)))"

definition next_word :: "string \<Rightarrow> string \<times> string" where
  "next_word s = take_word (trim_start s)"

text \<open>\<^verbatim>\<open>lines().next()\<close>; a carriage return left at the end is white space to the words.\<close>

definition first_line :: "string \<Rightarrow> string" where
  "first_line s = takeWhile (\<lambda>c. c \<noteq> newline) s"

definition quoted :: "string \<Rightarrow> string" where
  "quoted s = [CHR 0x22] @ s @ [CHR 0x22]"

section \<open>Requests and answers\<close>

record admin_response =
  ar_status :: nat
  ar_type :: string
  ar_body :: string

record admin_lib =
  ad_app :: app_lib
  ad_pick :: "nat \<Rightarrow> nat"
  ad_stats_json :: "stats \<Rightarrow> string option"
  ad_summary_json :: "config_summary \<Rightarrow> string option"
  ad_config_json :: "config \<Rightarrow> string option"
  ad_link_json :: "string \<Rightarrow> string option"
  ad_read_secret :: "string \<Rightarrow> string option option"
  ad_read_mtproto :: "string \<Rightarrow> mtproto_config option"
  ad_read_fragmentation :: "string \<Rightarrow> fragmentation_config option"

definition json_response :: "string option \<Rightarrow> admin_response result" where
  "json_response body = bindR (ok_or (Config ''JSON serialisation'') body)
     (\<lambda>b. Inr \<lparr>ar_status = 200, ar_type = ''application/json'', ar_body = b\<rparr>)"

definition ok_message :: "string \<Rightarrow> unit result \<Rightarrow> admin_response result" where
  "ok_message status r = bindR r (\<lambda>_.
     Inr \<lparr>ar_status = 200, ar_type = ''application/json'', ar_body = ''{'' @ quoted ''status'' @ '':'' @ quoted status @ ''}''\<rparr>)"

definition parse_json_body :: "(string \<Rightarrow> 'a option) \<Rightarrow> string option \<Rightarrow> 'a result" where
  "parse_json_body parse body = ok_or (Config ''malformed JSON'') (parse (case body of None \<Rightarrow> [] | Some b \<Rightarrow> b))"

definition parse_secret_body :: "admin_lib \<Rightarrow> string option \<Rightarrow> string result" where
  "parse_secret_body L body = bindR (parse_json_body (ad_read_secret L) body) (ok_or (Config ''field secret is required''))"

text \<open>An operation on the state behind \<^verbatim>\<open>?\<close>, then the message.\<close>

definition perform :: "admin_lib \<Rightarrow> app_op \<Rightarrow> string \<Rightarrow> world \<Rightarrow> admin_response result \<times> world" where
  "perform L op status w = (case app_apply (ad_app L) op w of (r, w1) \<Rightarrow> (ok_message status r, w1))"

definition handle_admin :: "admin_lib \<Rightarrow> string \<Rightarrow> string \<Rightarrow> string option \<Rightarrow> world \<Rightarrow> admin_response result \<times> world" where
  "handle_admin L mth path body w =
     (if (mth, path) = (''GET'', ''/stats'') then (json_response (ad_stats_json L (stats_snapshot (wd_app w))), w)
      else if (mth, path) = (''GET'', ''/health'') then (Inr \<lparr>ar_status = 200, ar_type = ''text/plain'', ar_body = ''ok''\<rparr>, w)
      else if (mth, path) = (''GET'', ''/metrics'') then
        (case render_prometheus (ad_pick L) w of
           (text, w1) \<Rightarrow> (Inr \<lparr>ar_status = 200, ar_type = ''text/plain; version=0.0.4'', ar_body = text\<rparr>, w1))
      else if (mth, path) = (''GET'', ''/proxy-link'') then
        (bindR (proxy_link (al_hex (ad_app L)) (wd_app w)) (\<lambda>link. json_response (ad_link_json L link)), w)
      else if (mth, path) = (''GET'', ''/config'') then
        (case read_summary (ad_pick L) w of (c, w1) \<Rightarrow> (json_response (ad_summary_json L c), w1))
      else if (mth, path) = (''GET'', ''/config/full'') then (json_response (ad_config_json L (full_config (wd_app w))), w)
      else if (mth, path) = (''POST'', ''/reload'') then perform L Reload ''reloaded'' w
      else if (mth, path) = (''POST'', ''/secret'') then
        (case parse_secret_body L body of Inl e \<Rightarrow> (Inl e, w) | Inr secret \<Rightarrow> perform L (Secret secret) ''secret_updated'' w)
      else if (mth, path) = (''PUT'', ''/config/mtproto'') then
        (case parse_json_body (ad_read_mtproto L) body of Inl e \<Rightarrow> (Inl e, w) | Inr m \<Rightarrow> perform L (Mtproto m) ''mtproto_updated'' w)
      else if (mth, path) = (''PUT'', ''/config/fragmentation'') then
        (case parse_json_body (ad_read_fragmentation L) body of
           Inl e \<Rightarrow> (Inl e, w) | Inr f \<Rightarrow> perform L (Fragmentation f) ''fragmentation_updated'' w)
      else (Inr \<lparr>ar_status = 404, ar_type = ''text/plain'', ar_body = ''not found''\<rparr>, w))"

definition to_http_response :: "admin_response \<Rightarrow> string" where
  "to_http_response response =
     (let reason = (if ar_status response = 200 then ''OK'' else if ar_status response = 404 then ''Not Found'' else ''Error'') in
      ''HTTP/1.1 '' @ dec_string (ar_status response) @ '' '' @ reason @ crlf @ ''Content-Type: '' @ ar_type response @ crlf
      @ ''Content-Length: '' @ dec_string (length (ar_body response)) @ crlf @ ''Connection: close'' @ blank_crlf @ ar_body response)"

definition parse_http_request :: "string \<Rightarrow> string \<times> string \<times> string option" where
  "parse_http_request request =
     (case next_word (first_line request) of
        (mth, parts) \<Rightarrow> (mth, fst (next_word parts),
          (case second_piece blank_crlf request of Some b \<Rightarrow> Some b | None \<Rightarrow> second_piece blank_lf request)))"

text \<open>\<open>request\<close> is what the one \<^verbatim>\<open>read\<close> gave; at the end of the stream (\<^verbatim>\<open>n == 0\<close>) there is no answer.\<close>

definition handle_admin_request :: "admin_lib \<Rightarrow> string \<Rightarrow> world \<Rightarrow> string option \<times> world" where
  "handle_admin_request L request w =
     (if request = [] then (None, w)
      else case parse_http_request request of
        (mth, path, body) \<Rightarrow>
          (case handle_admin L mth path body w of
             (Inl e, w1) \<Rightarrow> (None, w1)
           | (Inr response, w1) \<Rightarrow> (Some (to_http_response response), w1)))"

section \<open>The client\<close>

definition admin_request_text :: "string \<Rightarrow> string \<Rightarrow> string option \<Rightarrow> string" where
  "admin_request_text mth path body =
     (let payload = (case body of None \<Rightarrow> [] | Some b \<Rightarrow> b) in
      if payload = [] then
        mth @ '' '' @ path @ '' HTTP/1.1'' @ crlf @ ''Host: localhost'' @ crlf @ ''Connection: close'' @ blank_crlf
      else
        mth @ '' '' @ path @ '' HTTP/1.1'' @ crlf @ ''Host: localhost'' @ crlf @ ''Content-Type: application/json'' @ crlf
        @ ''Content-Length: '' @ dec_string (length payload) @ crlf @ ''Connection: close'' @ blank_crlf @ payload)"

definition admin_reply_body :: "string \<Rightarrow> string" where
  "admin_reply_body text =
     (case second_piece blank_crlf text of
        Some b \<Rightarrow> b
      | None \<Rightarrow> (case second_piece blank_lf text of Some b \<Rightarrow> b | None \<Rightarrow> text))"

section \<open>Lemmas on text\<close>

text \<open>A character that is visible ASCII.\<close>

definition visible :: "char \<Rightarrow> bool" where
  "visible c \<longleftrightarrow> (of_char c :: nat) \<in> {0x21..0x7E}"

definition plain_word :: "string \<Rightarrow> bool" where
  "plain_word m \<longleftrightarrow> m \<noteq> [] \<and> list_all visible m"

lemma strip_one_other: "list_all (\<lambda>w. w = [] \<or> hd w \<noteq> c) ws \<Longrightarrow> strip_one ws (c # s) = None"
proof (induction ws)
  case (Cons w ws)
  then show ?case by (cases w) auto
qed simp

lemma visible_not_ws: "visible c \<Longrightarrow> strip_one ws_encodings (c # s) = None"
  by (rule strip_one_other) (auto simp: ws_encodings_def visible_def)

lemma space_is_ws: "strip_one ws_encodings (CHR '' '' # s) = Some s"
  by (simp add: ws_encodings_def)

lemma take_word_plain: "list_all visible m \<Longrightarrow> take_word (m @ CHR '' '' # s) = (m, CHR '' '' # s)"
  by (induction m) (simp_all add: visible_not_ws space_is_ws)

lemma next_word_plain:
  assumes "plain_word m"
  shows "next_word (m @ CHR '' '' # s) = (m, CHR '' '' # s)" "next_word (CHR '' '' # m @ CHR '' '' # s) = (m, CHR '' '' # s)"
proof -
  obtain c m' where m: "m = c # m'" "visible c" using assms by (cases m) (auto simp: plain_word_def)
  have t: "trim_start (m @ CHR '' '' # s) = m @ CHR '' '' # s"
    using visible_not_ws [OF m(2), of "m' @ CHR '' '' # s"] by (simp add: trim_start_def strip_many.simps m(1))
  then have "trim_start (CHR '' '' # m @ CHR '' '' # s) = m @ CHR '' '' # s"
    by (simp add: trim_start_def strip_many.simps [of _ "CHR '' '' # _"] space_is_ws)
  then show "next_word (m @ CHR '' '' # s) = (m, CHR '' '' # s)" "next_word (CHR '' '' # m @ CHR '' '' # s) = (m, CHR '' '' # s)"
    using t take_word_plain assms by (simp_all add: next_word_def plain_word_def)
qed

text \<open>The blank line after header lines is the first one.\<close>

definition header_line :: "string \<Rightarrow> bool" where
  "header_line l \<longleftrightarrow> l \<noteq> [] \<and> CHR 0x0D \<notin> set l"

lemma split_at_skip: "CHR 0x0D \<notin> set l \<Longrightarrow> split_at blank_crlf (l @ s) = map_option (\<lambda>(a, b). (l @ a, b)) (split_at blank_crlf s)"
proof (induction l)
  case Nil
  then show ?case by (simp add: option.map_ident)
next
  case (Cons c l)
  then show ?case by (auto simp: starts_with_def blank_crlf_def crlf_def option.map_comp o_def split_beta)
qed

lemma split_at_headers:
  assumes "list_all header_line ls" and "ls \<noteq> []"
  shows "map_option snd (split_at blank_crlf (concat (map (\<lambda>l. l @ crlf) ls) @ crlf @ b)) = Some b"
  using assms
proof (induction ls)
  case (Cons l ls)
  have l: "CHR 0x0D \<notin> set l" using Cons.prems by (simp add: header_line_def)
  show ?case
  proof (cases ls)
    case Nil
    then show ?thesis
      by (simp add: split_at_skip [OF l] option.map_comp o_def split_beta)
        (simp add: starts_with_def blank_crlf_def crlf_def)
  next
    case (Cons k ks)
    let ?rest = "concat (map (\<lambda>l. l @ crlf) ls) @ crlf @ b"
    have k: "k \<noteq> []" "CHR 0x0D \<notin> set k" using Cons Cons.prems \<open>list_all header_line (l # ls)\<close> by (simp_all add: header_line_def)
    then obtain c k' where c: "k = c # k'" "c \<noteq> CHR 0x0D" by (cases k) auto
    have ih: "map_option snd (split_at blank_crlf ?rest) = Some b"
      using Cons.IH \<open>list_all header_line (l # ls)\<close> Cons by simp
    have "split_at blank_crlf (crlf @ ?rest) = map_option (\<lambda>(a, b). (crlf @ a, b)) (split_at blank_crlf ?rest)"
      using c Cons by (simp add: crlf_def blank_crlf_def starts_with_def option.map_comp o_def split_beta)
    then show ?thesis using ih
      by (simp add: split_at_skip [OF l] option.map_comp o_def split_beta)
  qed
qed simp

lemma second_piece_headers:
  assumes "list_all header_line ls" and "ls \<noteq> []" and "split_at blank_crlf b = None"
  shows "second_piece blank_crlf (concat (map (\<lambda>l. l @ crlf) ls) @ crlf @ b) = Some b"
  using split_at_headers [OF assms(1,2), of b] assms(3) by (auto simp: second_piece_def)

lemma up_to_newline: "newline \<notin> set l \<Longrightarrow> takeWhile (\<lambda>c. c \<noteq> newline) (l @ newline # s) = l"
  by (induction l) auto

section \<open>What requests change\<close>

text \<open>The operation a request asks for.\<close>

definition requested :: "admin_lib \<Rightarrow> string \<Rightarrow> string \<Rightarrow> string option \<Rightarrow> app_op option" where
  "requested L mth path body =
     (if (mth, path) = (''POST'', ''/reload'') then Some Reload
      else if (mth, path) = (''POST'', ''/secret'') then map_option Secret (to_opt (parse_secret_body L body))
      else if (mth, path) = (''PUT'', ''/config/mtproto'') then map_option Mtproto (to_opt (parse_json_body (ad_read_mtproto L) body))
      else if (mth, path) = (''PUT'', ''/config/fragmentation'')
        then map_option Fragmentation (to_opt (parse_json_body (ad_read_fragmentation L) body))
      else None)"

definition with_rot_sni :: "rotation_selector \<Rightarrow> world \<Rightarrow> world" where
  "with_rot_sni r w = w\<lparr>wd_app := (wd_app w)\<lparr>app_rotation := (app_rotation (wd_app w))\<lparr>rot_sni := r\<rparr>\<rparr>\<rparr>"

lemma with_own_rot_sni: "with_rot_sni (rot_sni (app_rotation (wd_app w))) w = w"
  by (simp add: with_rot_sni_def)

lemma read_summary_changes: "read_summary pick w = (c, w1) \<Longrightarrow> \<exists>r. w1 = with_rot_sni r w"
  by (auto simp: read_summary_def with_rot_sni_def Let_def)

lemma render_changes: "render_prometheus pick w = (t, w1) \<Longrightarrow> \<exists>r. w1 = with_rot_sni r w"
  by (auto simp: render_prometheus_def Let_def split: prod.splits dest: read_summary_changes)

lemma perform_cases: "perform L op status w = (r, w1) \<Longrightarrow>
   \<exists>q. app_apply (ad_app L) op w = (q, w1) \<and> ((\<exists>e. r = Inl e) \<longleftrightarrow> (\<exists>e. q = Inl e))"
  by (cases "fst (app_apply (ad_app L) op w)") (auto simp: perform_def ok_message_def split: prod.splits)

lemma four_answers: "(if a then (x1, w) else if b then (x2, w) else if c then (x3, w) else if d then (x4, w) else (x5, w)) = (r, w1) \<Longrightarrow> w1 = w"
  by (auto split: if_splits)

lemma reading_requests:
  assumes "(mth, path) \<notin> {(''POST'', ''/reload''), (''POST'', ''/secret''), (''PUT'', ''/config/mtproto''), (''PUT'', ''/config/fragmentation'')}"
    and "handle_admin L mth path body w = (r, w1)"
  shows "\<exists>rot. w1 = with_rot_sni rot w"
proof -
  consider (metrics) "(mth, path) = (''GET'', ''/metrics'')" | (summary) "(mth, path) = (''GET'', ''/config'')"
    | (other) "(mth, path) \<noteq> (''GET'', ''/metrics'')" "(mth, path) \<noteq> (''GET'', ''/config'')" by blast
  then show ?thesis
  proof cases
    case metrics
    then show ?thesis using assms(2) by (auto simp: handle_admin_def split: prod.splits dest: render_changes)
  next
    case summary
    then show ?thesis using assms(2) by (auto simp: handle_admin_def split: prod.splits dest: read_summary_changes)
  next
    case other
    have n: "(mth, path) \<noteq> (''POST'', ''/reload'')" "(mth, path) \<noteq> (''POST'', ''/secret'')"
        "(mth, path) \<noteq> (''PUT'', ''/config/mtproto'')" "(mth, path) \<noteq> (''PUT'', ''/config/fragmentation'')"
      using assms(1) by blast+
    have "w1 = w"
      using assms(2) unfolding handle_admin_def if_not_P [OF n(1)] if_not_P [OF n(2)] if_not_P [OF n(3)] if_not_P [OF n(4)]
        if_not_P [OF other(1)] if_not_P [OF other(2)] by (rule four_answers)
    then show ?thesis using with_own_rot_sni [of w] by metis
  qed
qed

lemma handle_admin_changes:
  assumes "handle_admin L mth path body w = (r, w1)"
  shows "case requested L mth path body of
     Some op \<Rightarrow> \<exists>q. app_apply (ad_app L) op w = (q, w1) \<and> ((\<exists>e. r = Inl e) \<longleftrightarrow> (\<exists>e. q = Inl e))
   | None \<Rightarrow> \<exists>rot. w1 = with_rot_sni rot w"
proof -
  have same: "\<exists>rot. w = with_rot_sni rot w" using with_own_rot_sni [of w] by metis
  have done_: ?thesis if "requested L mth path body = Some op" "perform L op status w = (r, w1)" for op status
    using perform_cases [OF that(2)] that(1) by simp
  consider (reload) "(mth, path) = (''POST'', ''/reload'')" | (secret) "(mth, path) = (''POST'', ''/secret'')"
    | (mtproto) "(mth, path) = (''PUT'', ''/config/mtproto'')" | (frag) "(mth, path) = (''PUT'', ''/config/fragmentation'')"
    | (other) "(mth, path) \<notin> {(''POST'', ''/reload''), (''POST'', ''/secret''), (''PUT'', ''/config/mtproto''), (''PUT'', ''/config/fragmentation'')}"
    by blast
  then show ?thesis
  proof cases
    case reload
    have "requested L mth path body = Some Reload" using reload by (simp add: requested_def)
    moreover have "perform L Reload ''reloaded'' w = (r, w1)" using assms reload by (simp add: handle_admin_def)
    ultimately show ?thesis by (rule done_)
  next
    case secret
    show ?thesis
    proof (cases "parse_secret_body L body")
      case (Inl e)
      then show ?thesis using assms secret same by (simp add: handle_admin_def requested_def)
    next
      case (Inr x)
      then show ?thesis using assms secret by (intro done_ [of "Secret x"]) (simp_all add: handle_admin_def requested_def)
    qed
  next
    case mtproto
    show ?thesis
    proof (cases "parse_json_body (ad_read_mtproto L) body")
      case (Inl e)
      then show ?thesis using assms mtproto same by (simp add: handle_admin_def requested_def)
    next
      case (Inr x)
      then show ?thesis using assms mtproto by (intro done_ [of "Mtproto x"]) (simp_all add: handle_admin_def requested_def)
    qed
  next
    case frag
    show ?thesis
    proof (cases "parse_json_body (ad_read_fragmentation L) body")
      case (Inl e)
      then show ?thesis using assms frag same by (simp add: handle_admin_def requested_def)
    next
      case (Inr x)
      then show ?thesis using assms frag by (intro done_ [of "Fragmentation x"]) (simp_all add: handle_admin_def requested_def)
    qed
  next
    case other
    then have "requested L mth path body = None" by (auto simp: requested_def)
    then show ?thesis using reading_requests [OF other assms] by simp
  qed
qed

lemma nothing_requested:
  assumes "parse_http_request [] = (mth, path, body)"
  shows "requested L mth path body = None"
proof -
  have "parse_http_request [] = ([], [], None)" by code_simp
  then show ?thesis using assms by (simp add: requested_def)
qed

lemma admin_request_changes:
  assumes "parse_http_request request = (mth, path, body)" and "handle_admin_request L request w = (out, w1)"
  shows "case requested L mth path body of
     Some op \<Rightarrow> \<exists>q. app_apply (ad_app L) op w = (q, w1) \<and> (out = None \<longleftrightarrow> (\<exists>e. q = Inl e))
   | None \<Rightarrow> \<exists>rot. w1 = with_rot_sni rot w"
proof -
  obtain r w2 where h: "handle_admin L mth path body w = (r, w2)" by fastforce
  show ?thesis
  proof (cases "request = []")
    case True
    then have "w1 = w" "requested L mth path body = None"
      using assms nothing_requested by (auto simp: handle_admin_request_def)
    then show ?thesis using with_own_rot_sni [of w] by (auto intro: exI [of _ "rot_sni (app_rotation (wd_app w))"])
  next
    case False
  then have "w1 = w2 \<and> (out = None \<longleftrightarrow> (\<exists>e. r = Inl e))"
    using assms h by (auto simp: handle_admin_request_def split: sum.splits)
  then show ?thesis using handle_admin_changes [OF h] by (auto split: option.splits)
  qed
qed

section \<open>Properties\<close>

text \<open>
  C36. A request on the administration socket does one of the operations on the configuration or nothing:
  exactly the four modifying requests with a readable body run theirs, and are answered if and only if it succeeds;
  every other request, whatever its text, leaves everything as it is but the rotation of the displayed SNI.
\<close>

theorem admin_requests_are_operations:
  assumes "handle_admin_request L request w = (out, w1)"
  shows "(\<exists>op q. (case parse_http_request request of (mth, path, body) \<Rightarrow> requested L mth path body) = Some op
            \<and> app_apply (ad_app L) op w = (q, w1) \<and> (out = None \<longleftrightarrow> (\<exists>e. q = Inl e)))
     \<or> (\<exists>rot. (case parse_http_request request of (mth, path, body) \<Rightarrow> requested L mth path body) = None
            \<and> w1 = w\<lparr>wd_app := (wd_app w)\<lparr>app_rotation := (app_rotation (wd_app w))\<lparr>rot_sni := rot\<rparr>\<rparr>\<rparr>)"
proof -
  obtain mth path body where p: "parse_http_request request = (mth, path, body)" using prod_cases3 by blast
  show ?thesis using admin_request_changes [OF p assms]
    by (cases "requested L mth path body") (auto simp: p with_rot_sni_def)
qed

lemma admin_exchange_parts:
  assumes "plain_word mth" and "plain_word path" and "split_at blank_crlf (case body of None \<Rightarrow> [] | Some b \<Rightarrow> b) = None"
    and "split_at blank_crlf (ar_body response) = None" and "header_line (''Content-Type: '' @ ar_type response)"
  shows "parse_http_request (admin_request_text mth path body) = (mth, path, Some (case body of None \<Rightarrow> [] | Some b \<Rightarrow> b))
      \<and> admin_reply_body (to_http_response response) = ar_body response"
proof (intro conjI)
  let ?b = "case body of None \<Rightarrow> [] | Some b \<Rightarrow> b"
  have plain: "CHR 0x0D \<notin> set m \<and> newline \<notin> set m" if "plain_word m" for m
    using that by (auto simp: plain_word_def visible_def list_all_iff)
  have dec: "CHR 0x0D \<notin> set (dec_string n)" for n using dec_string_digits [of n] by (auto simp: list_all_iff is_digit_def)
  let ?first = "mth @ '' '' @ path @ '' HTTP/1.1''"
  let ?ls = "if ?b = [] then [?first, ''Host: localhost'', ''Connection: close'']
     else [?first, ''Host: localhost'', ''Content-Type: application/json'', ''Content-Length: '' @ dec_string (length ?b), ''Connection: close'']"
  have t: "admin_request_text mth path body = concat (map (\<lambda>l. l @ crlf) ?ls) @ crlf @ ?b"
    by (simp add: admin_request_text_def Let_def blank_crlf_def)
  have ls: "list_all header_line ?ls" "?ls \<noteq> []"
    using plain [OF assms(1)] plain [OF assms(2)] dec by (simp_all add: header_line_def)
  have body: "second_piece blank_crlf (admin_request_text mth path body) = Some ?b"
    unfolding t by (rule second_piece_headers [OF ls assms(3)])
  obtain s where s: "admin_request_text mth path body = ?first @ [CHR 0x0D] @ newline # s"
    by (cases "?b = []") (simp_all add: admin_request_text_def Let_def crlf_def)
  then have s: "admin_request_text mth path body = (?first @ [CHR 0x0D]) @ newline # s" by simp
  have "first_line (admin_request_text mth path body) = ?first @ [CHR 0x0D]"
    unfolding first_line_def s by (rule up_to_newline) (use plain [OF assms(1)] plain [OF assms(2)] in simp)
  then show "parse_http_request (admin_request_text mth path body) = (mth, path, Some ?b)"
    using body next_word_plain(1) [OF assms(1), of "path @ '' HTTP/1.1'' @ [CHR 0x0D]"]
      next_word_plain(2) [OF assms(2), of "''HTTP/1.1'' @ [CHR 0x0D]"]
    by (simp add: parse_http_request_def)
  let ?st = "''HTTP/1.1 '' @ dec_string (ar_status response) @ '' '' @ (if ar_status response = 200 then ''OK''
     else if ar_status response = 404 then ''Not Found'' else ''Error'')"
  let ?rs = "[?st, ''Content-Type: '' @ ar_type response, ''Content-Length: '' @ dec_string (length (ar_body response)), ''Connection: close'']"
  have r: "to_http_response response = concat (map (\<lambda>l. l @ crlf) ?rs) @ crlf @ ar_body response"
    by (simp add: to_http_response_def Let_def blank_crlf_def)
  have "list_all header_line ?rs" using assms(5) dec by (simp add: header_line_def)
  from second_piece_headers [OF this _ assms(4)] show "admin_reply_body (to_http_response response) = ar_body response"
    unfolding r admin_reply_body_def by simp
qed

text \<open>
  The client of the administration socket and its server understand each other: for a method and a path
  of visible characters and a body without a blank line, the server reads method, path and body as they were
  given, and the client takes the body of the answer out of it.
\<close>

theorem admin_exchange:
  assumes "plain_word mth" and "plain_word path" and "split_at blank_crlf (case body of None \<Rightarrow> [] | Some b \<Rightarrow> b) = None"
    and "split_at blank_crlf (ar_body response) = None" and "header_line (''Content-Type: '' @ ar_type response)"
  shows "parse_http_request (admin_request_text mth path body) = (mth, path, Some (case body of None \<Rightarrow> [] | Some b \<Rightarrow> b))
      \<and> admin_reply_body (to_http_response response) = ar_body response"
  using assms by (rule admin_exchange_parts)

section \<open>A concrete exchange\<close>

definition toy_admin_lib :: admin_lib where
  "toy_admin_lib = \<lparr>ad_app = toy_app_lib, ad_pick = (\<lambda>n. 0), ad_stats_json = (\<lambda>_. Some ''stats''), ad_summary_json = (\<lambda>_. Some ''summary''),
     ad_config_json = (\<lambda>_. Some ''config''), ad_link_json = Some, ad_read_secret = (\<lambda>b. if b = ''x'' then None else Some (Some b)),
     ad_read_mtproto = (\<lambda>_. None), ad_read_fragmentation = (\<lambda>_. Some fragmentation_default)\<rparr>"

lemma toy_admin_words: "plain_word ''PUT''" "plain_word ''/config/fragmentation''"
  by (simp_all add: plain_word_def visible_def)

lemma admin_exchange_witness:
  "parse_http_request (admin_request_text ''PUT'' ''/config/fragmentation'' (Some ''{}'')) = (''PUT'', ''/config/fragmentation'', Some ''{}'')
   \<and> admin_reply_body (to_http_response \<lparr>ar_status = 200, ar_type = ''text/plain'', ar_body = ''ok''\<rparr>) = ''ok''"
  using admin_exchange [OF toy_admin_words, of "Some ''{}''" "\<lparr>ar_status = 200, ar_type = ''text/plain'', ar_body = ''ok''\<rparr>"]
  by (simp add: blank_crlf_def crlf_def starts_with_def header_line_def)

lemma admin_requests_are_operations_witness:
  "\<exists>out w1. handle_admin_request toy_admin_lib (admin_request_text ''PUT'' ''/config/fragmentation'' (Some ''{}'')) (toy_world toy_config) = (out, w1)
    \<and> (\<exists>q. app_apply toy_app_lib (Fragmentation fragmentation_default) (toy_world toy_config) = (q, w1) \<and> (out = None \<longleftrightarrow> (\<exists>e. q = Inl e)))"
proof -
  let ?t = "admin_request_text ''PUT'' ''/config/fragmentation'' (Some ''{}'')"
  obtain out w1 where run: "handle_admin_request toy_admin_lib ?t (toy_world toy_config) = (out, w1)" by fastforce
  have p: "parse_http_request ?t = (''PUT'', ''/config/fragmentation'', Some ''{}'')" by code_simp
  have "requested toy_admin_lib ''PUT'' ''/config/fragmentation'' (Some ''{}'') = Some (Fragmentation fragmentation_default)"
    by (simp add: requested_def parse_json_body_def toy_admin_lib_def)
  moreover have "ad_app toy_admin_lib = toy_app_lib" by (simp add: toy_admin_lib_def)
  ultimately show ?thesis using admin_requests_are_operations [OF run] run unfolding p by auto
qed

end
