(* ===== verification/Web_Api.thy ===== *)
theory Web_Api
  imports Admin_Api
begin

text \<open>
  The web interface: sessions and roles (\<^verbatim>\<open>src/web/session.rs\<close>), the handlers behind the routes
  (\<^verbatim>\<open>src/web/api.rs\<close>) and removing the service (\<^verbatim>\<open>src/system_ops.rs\<close>). The session store of
  tower-sessions is the parameter \<open>session_lib\<close>: a session is named by the number in the signed cookie, and
  may expire at any time. A request is what the router and the JSON extractor make of it; the HTTP server is
  not modelled.
\<close>

section \<open>Sessions and errors\<close>

record session_user =
  su_name :: string
  su_display :: string
  su_role :: user_role

record 'st session_lib =
  sl_get :: "'st \<Rightarrow> nat \<Rightarrow> session_user option"
  sl_insert :: "'st \<Rightarrow> nat \<Rightarrow> session_user \<Rightarrow> 'st option"
  sl_flush :: "'st \<Rightarrow> nat \<Rightarrow> 'st option"

text \<open>Documented behaviour: inserting and flushing touch one session, and no session appears by itself.\<close>

definition session_laws :: "'st session_lib \<Rightarrow> bool" where
  "session_laws L \<longleftrightarrow>
     (\<forall>st k u st1 j v. sl_insert L st k u = Some st1 \<longrightarrow> sl_get L st1 j = Some v \<longrightarrow> j = k \<and> v = u \<or> sl_get L st j = Some v)
     \<and> (\<forall>st k st1 j v. sl_flush L st k = Some st1 \<longrightarrow> sl_get L st1 j = Some v \<longrightarrow> j \<noteq> k \<and> sl_get L st j = Some v)"

datatype http_status = Ok200 | Created201 | NoContent204 | BadRequest400 | Unauthorized401 | Forbidden403

record api_error =
  ae_status :: http_status
  ae_message :: string

definition unauthorized :: "string \<Rightarrow> api_error" where
  "unauthorized m = \<lparr>ae_status = Unauthorized401, ae_message = m\<rparr>"

definition forbidden :: "string \<Rightarrow> api_error" where
  "forbidden m = \<lparr>ae_status = Forbidden403, ae_message = m\<rparr>"

definition bad_request :: "string \<Rightarrow> api_error" where
  "bad_request m = \<lparr>ae_status = BadRequest400, ae_message = m\<rparr>"

definition from_stealth_gate :: "(io_kind \<Rightarrow> string) \<Rightarrow> sg_error \<Rightarrow> api_error" where
  "from_stealth_gate io err = \<lparr>ae_status = BadRequest400, ae_message = error_text io err\<rparr>"

definition require_user :: "'st session_lib \<Rightarrow> 'st \<Rightarrow> nat \<Rightarrow> api_error + session_user" where
  "require_user L st k = ok_or (unauthorized ''login required'') (sl_get L st k)"

definition require_editor :: "session_user \<Rightarrow> api_error + unit" where
  "require_editor u = (if can_edit_config (su_role u) then Inr () else Inl (forbidden ''not enough rights''))"

definition require_admin :: "session_user \<Rightarrow> api_error + unit" where
  "require_admin u = (if can_manage_users (su_role u) then Inr () else Inl (forbidden ''administrators only''))"

definition parse_role :: "string \<Rightarrow> api_error + user_role" where
  "parse_role role =
     (if role = ''admin'' then Inr AdminRole
      else if role = ''operator'' then Inr OperatorRole
      else if role = ''viewer'' then Inr ViewerRole
      else Inl (bad_request ''unknown role''))"

section \<open>Removing the service\<close>

record uninstall_settings =
  un_enabled :: bool
  un_script :: string
  un_sudo :: bool

definition uninstall_confirm_phrase :: string where "uninstall_confirm_phrase = ''UNINSTALL''"

definition uninstall_settings_from :: "config \<Rightarrow> uninstall_settings" where
  "uninstall_settings_from c =
     \<lparr>un_enabled = uninstall_enabled (admin c),
      un_script = (case uninstall_script (admin c) of Some p \<Rightarrow> p | None \<Rightarrow> ''/opt/stealth-gate/bin/uninstall''),
      un_sudo = uninstall_use_sudo (admin c)\<rparr>"

text \<open>The command line that is started, when it is.\<close>

definition schedule_uninstall :: "(string list \<Rightarrow> bool) \<Rightarrow> file_system \<Rightarrow> uninstall_settings \<Rightarrow> bool \<Rightarrow> string list result" where
  "schedule_uninstall spawn fs u purge =
     (if \<not> un_enabled u then Inl (Config ''removing the service is disabled'')
      else if fs (un_script u) = None then Inl (Config ''uninstall script not found'')
      else let command = (if un_sudo u then [''sudo'', un_script u] else [un_script u]) @ [''--from-webui'']
                         @ (if purge then [''--purge''] else []) in
        if spawn command then Inr command else Inl (Proxy ''cannot start uninstall''))"

section \<open>State and requests\<close>

record 'st web_state =
  wb_world :: world
  wb_store :: 'st
  wb_jobs :: "string list list"

record 'st web_env =
  we_admin :: admin_lib
  we_sessions :: "'st session_lib"
  we_qr :: "string \<Rightarrow> string option"
  we_spawn :: "string list \<Rightarrow> bool"
  we_io_text :: "io_kind \<Rightarrow> string"

abbreviation web_app :: "'st web_env \<Rightarrow> app_lib" where "web_app env \<equiv> ad_app (we_admin env)"

datatype api_body =
    NoBody
  | UserBody session_user
  | StatsBody stats
  | SummaryBody config_summary
  | ConfigBody config
  | StatusBody string
  | LinkBody string
  | SvgBody string
  | MetricsBody string
  | UsersBody "user_view list"
  | CreatedBody user_view
  | UninstallBody bool

type_synonym api_answer = "api_error + http_status \<times> api_body"
type_synonym 'st handler = "'st web_state \<Rightarrow> api_answer \<times> 'st web_state"

datatype api_request =
    Login string string
  | Logout
  | Me
  | GetStats
  | GetConfig
  | GetFullConfig
  | PostReload
  | PutMtproto string string string
  | PutFragmentation fragmentation_config
  | GetProxyLink
  | GetProxyLinkQr
  | GetMetrics
  | GetUsers
  | PostUser string string string string
  | DeleteUser string
  | PutPassword string string
  | PostUninstall string bool

section \<open>Handlers\<close>

text \<open>\<^verbatim>\<open>require_user(session).await?\<close>, and the checks of the role after it.\<close>

definition as_user :: "'st web_env \<Rightarrow> nat \<Rightarrow> (session_user \<Rightarrow> 'st handler) \<Rightarrow> 'st handler" where
  "as_user env k f s = (case require_user (we_sessions env) (wb_store s) k of Inl e \<Rightarrow> (Inl e, s) | Inr u \<Rightarrow> f u s)"

definition as_editor :: "'st web_env \<Rightarrow> nat \<Rightarrow> 'st handler \<Rightarrow> 'st handler" where
  "as_editor env k f = as_user env k (\<lambda>u s. case require_editor u of Inl e \<Rightarrow> (Inl e, s) | Inr _ \<Rightarrow> f s)"

definition as_admin :: "'st web_env \<Rightarrow> nat \<Rightarrow> (session_user \<Rightarrow> 'st handler) \<Rightarrow> 'st handler" where
  "as_admin env k f = as_user env k (\<lambda>u s. case require_admin u of Inl e \<Rightarrow> (Inl e, s) | Inr _ \<Rightarrow> f u s)"

definition answer_result :: "'st web_env \<Rightarrow> ('a \<Rightarrow> http_status \<times> api_body) \<Rightarrow> 'a result \<Rightarrow> api_answer" where
  "answer_result env f r = (case r of Inl e \<Rightarrow> Inl (from_stealth_gate (we_io_text env) e) | Inr a \<Rightarrow> Inr (f a))"

definition login :: "'st web_env \<Rightarrow> nat \<Rightarrow> string \<Rightarrow> string \<Rightarrow> 'st handler" where
  "login env k username password s =
     (case authenticate (al_users (web_app env)) username password (app_users (wd_app (wb_world s))) of
        Inl e \<Rightarrow> (Inl (from_stealth_gate (we_io_text env) e), s)
      | Inr None \<Rightarrow> (Inl (unauthorized ''wrong login or password''), s)
      | Inr (Some v) \<Rightarrow>
          let u = \<lparr>su_name = uv_name v, su_display = uv_display v, su_role = uv_role v\<rparr> in
          (case sl_insert (we_sessions env) (wb_store s) k u of
             None \<Rightarrow> (Inl (bad_request ''session error''), s)
           | Some st \<Rightarrow> (Inr (Ok200, UserBody u), s\<lparr>wb_store := st\<rparr>)))"

definition logout :: "'st web_env \<Rightarrow> nat \<Rightarrow> 'st handler" where
  "logout env k s =
     (case sl_flush (we_sessions env) (wb_store s) k of
        None \<Rightarrow> (Inl (bad_request ''session error''), s)
      | Some st \<Rightarrow> (Inr (NoContent204, NoBody), s\<lparr>wb_store := st\<rparr>))"

definition run_operation :: "'st web_env \<Rightarrow> app_op \<Rightarrow> string \<Rightarrow> 'st handler" where
  "run_operation env op status s =
     (case app_apply (web_app env) op (wb_world s) of
        (r, w) \<Rightarrow> (answer_result env (\<lambda>_. (Ok200, StatusBody status)) r, s\<lparr>wb_world := w\<rparr>))"

text \<open>A request on the user store.\<close>

definition on_users ::
    "'st web_env \<Rightarrow> ('a \<Rightarrow> http_status \<times> api_body) \<Rightarrow> (file_system \<Rightarrow> user_store \<Rightarrow> 'a result \<times> file_system \<times> user_store) \<Rightarrow> 'st handler" where
  "on_users env f act s =
     (let w = wb_world s in
      case act (wd_fs w) (app_users (wd_app w)) of
        (r, fs, us) \<Rightarrow> (answer_result env f r, s\<lparr>wb_world := w\<lparr>wd_fs := fs, wd_app := (wd_app w)\<lparr>app_users := us\<rparr>\<rparr>\<rparr>))"

definition api_config_summary :: "'st web_env \<Rightarrow> 'st handler" where
  "api_config_summary env s =
     (case read_summary (ad_pick (we_admin env)) (wb_world s) of (c, w) \<Rightarrow> (Inr (Ok200, SummaryBody c), s\<lparr>wb_world := w\<rparr>))"

definition api_metrics :: "'st web_env \<Rightarrow> 'st handler" where
  "api_metrics env s =
     (case render_prometheus (ad_pick (we_admin env)) (wb_world s) of (t, w) \<Rightarrow> (Inr (Ok200, MetricsBody t), s\<lparr>wb_world := w\<rparr>))"

definition api_proxy_link :: "'st web_env \<Rightarrow> 'st handler" where
  "api_proxy_link env s =
     (answer_result env (\<lambda>link. (Ok200, LinkBody link)) (proxy_link (al_hex (web_app env)) (wd_app (wb_world s))), s)"

definition proxy_link_qr :: "'st web_env \<Rightarrow> 'st handler" where
  "proxy_link_qr env s =
     (case proxy_link (al_hex (web_app env)) (wd_app (wb_world s)) of
        Inl e \<Rightarrow> (Inl (from_stealth_gate (we_io_text env) e), s)
      | Inr link \<Rightarrow> (case we_qr env link of None \<Rightarrow> (Inl (bad_request ''QR''), s) | Some svg \<Rightarrow> (Inr (Ok200, SvgBody svg), s)))"

definition api_create_user :: "'st web_env \<Rightarrow> nat \<Rightarrow> string \<Rightarrow> string \<Rightarrow> string \<Rightarrow> string \<Rightarrow> 'st handler" where
  "api_create_user env salt username password role display s =
     (case parse_role role of
        Inl e \<Rightarrow> (Inl e, s)
      | Inr r \<Rightarrow> on_users env (\<lambda>v. (Created201, CreatedBody v)) (create_user (al_users (web_app env)) salt username password r display) s)"

definition api_delete_user :: "'st web_env \<Rightarrow> string \<Rightarrow> session_user \<Rightarrow> 'st handler" where
  "api_delete_user env username u s =
     (if su_name u = username then (Inl (bad_request ''cannot delete oneself''), s)
      else on_users env (\<lambda>_. (NoContent204, NoBody)) (delete_user (al_users (web_app env)) username) s)"

definition api_update_password :: "'st web_env \<Rightarrow> nat \<Rightarrow> string \<Rightarrow> string \<Rightarrow> session_user \<Rightarrow> 'st handler" where
  "api_update_password env salt username password u s =
     (if su_name u \<noteq> username \<and> \<not> can_manage_users (su_role u) then (Inl (forbidden ''not enough rights''), s)
      else on_users env (\<lambda>_. (NoContent204, NoBody)) (update_password (al_users (web_app env)) salt username password) s)"

definition uninstall_service :: "'st web_env \<Rightarrow> string \<Rightarrow> bool \<Rightarrow> 'st handler" where
  "uninstall_service env confirm purge s =
     (if confirm \<noteq> uninstall_confirm_phrase then (Inl (bad_request ''confirm with UNINSTALL''), s)
      else let w = wb_world s; u = uninstall_settings_from (full_config (wd_app w)) in
        (case schedule_uninstall (we_spawn env) (wd_fs w) u purge of
           Inl e \<Rightarrow> (Inl (from_stealth_gate (we_io_text env) e), s)
         | Inr command \<Rightarrow> (Inr (Ok200, UninstallBody purge), s\<lparr>wb_jobs := wb_jobs s @ [command]\<rparr>)))"

text \<open>The routes; \<open>k\<close> is the session of the request and \<open>salt\<close> the salt drawn if a password is hashed.\<close>

fun handle_api :: "'st web_env \<Rightarrow> nat \<Rightarrow> nat \<Rightarrow> api_request \<Rightarrow> 'st handler" where
  "handle_api env salt k (Login n p) = login env k n p"
| "handle_api env salt k Logout = logout env k"
| "handle_api env salt k Me = as_user env k (\<lambda>u s. (Inr (Ok200, UserBody u), s))"
| "handle_api env salt k GetStats = as_user env k (\<lambda>_ s. (Inr (Ok200, StatsBody (stats_snapshot (wd_app (wb_world s)))), s))"
| "handle_api env salt k GetConfig = as_user env k (\<lambda>_. api_config_summary env)"
| "handle_api env salt k GetFullConfig = as_editor env k (\<lambda>s. (Inr (Ok200, ConfigBody (full_config (wd_app (wb_world s)))), s))"
| "handle_api env salt k PostReload = as_editor env k (run_operation env Reload ''reloaded'')"
| "handle_api env salt k (PutMtproto secret backend domain) =
     as_editor env k (run_operation env (ProxySettings secret backend domain) ''proxy_settings_updated'')"
| "handle_api env salt k (PutFragmentation f) = as_editor env k (run_operation env (Fragmentation f) ''fragmentation_updated'')"
| "handle_api env salt k GetProxyLink = as_user env k (\<lambda>_. api_proxy_link env)"
| "handle_api env salt k GetProxyLinkQr = as_user env k (\<lambda>_. proxy_link_qr env)"
| "handle_api env salt k GetMetrics = as_user env k (\<lambda>_. api_metrics env)"
| "handle_api env salt k GetUsers = as_admin env k (\<lambda>_ s. (Inr (Ok200, UsersBody (list_users (app_users (wd_app (wb_world s))))), s))"
| "handle_api env salt k (PostUser n p role display) = as_admin env k (\<lambda>_. api_create_user env salt n p role display)"
| "handle_api env salt k (DeleteUser n) = as_admin env k (api_delete_user env n)"
| "handle_api env salt k (PutPassword n p) = as_user env k (api_update_password env salt n p)"
| "handle_api env salt k (PostUninstall confirm purge) = as_admin env k (\<lambda>_. uninstall_service env confirm purge)"

text \<open>A sequence of requests, each with the salt and its session.\<close>

definition web_step :: "'st web_env \<Rightarrow> 'st web_state \<Rightarrow> nat \<times> nat \<times> api_request \<Rightarrow> 'st web_state" where
  "web_step env s = (\<lambda>(salt, k, req). snd (handle_api env salt k req s))"

definition web_run :: "'st web_env \<Rightarrow> (nat \<times> nat \<times> api_request) list \<Rightarrow> 'st web_state \<Rightarrow> 'st web_state" where
  "web_run env reqs s = foldl (web_step env) s reqs"

section \<open>Access control\<close>

text \<open>Who may do what.\<close>

fun allowed :: "api_request \<Rightarrow> session_user \<Rightarrow> bool" where
  "allowed GetFullConfig u = can_edit_config (su_role u)"
| "allowed PostReload u = can_edit_config (su_role u)"
| "allowed (PutMtproto _ _ _) u = can_edit_config (su_role u)"
| "allowed (PutFragmentation _) u = can_edit_config (su_role u)"
| "allowed GetUsers u = can_manage_users (su_role u)"
| "allowed (PostUser _ _ _ _) u = can_manage_users (su_role u)"
| "allowed (DeleteUser _) u = can_manage_users (su_role u)"
| "allowed (PostUninstall _ _) u = can_manage_users (su_role u)"
| "allowed (PutPassword n _) u = (su_name u = n \<or> can_manage_users (su_role u))"
| "allowed _ u = True"

fun public_request :: "api_request \<Rightarrow> bool" where
  "public_request (Login _ _) = True"
| "public_request Logout = True"
| "public_request _ = False"

definition permitted :: "session_user option \<Rightarrow> api_request \<Rightarrow> bool" where
  "permitted u req \<longleftrightarrow> public_request req \<or> (\<exists>v. u = Some v \<and> allowed req v)"

definition denied :: "api_answer \<Rightarrow> bool" where
  "denied a \<longleftrightarrow> (\<exists>e. a = Inl e \<and> ae_status e \<in> {Unauthorized401, Forbidden403})"

lemma denied_simps [simp]: "denied (Inr x) = False" "denied (Inl (unauthorized m)) = True" "denied (Inl (forbidden m)) = True"
    "denied (Inl (bad_request m)) = False" "denied (Inl (from_stealth_gate io e)) = False"
  by (simp_all add: denied_def unauthorized_def forbidden_def bad_request_def from_stealth_gate_def)

lemma answer_not_denied [simp]: "\<not> denied (answer_result env f r)"
  by (simp add: answer_result_def split: sum.splits)

lemmas handler_defs = api_config_summary_def api_metrics_def api_proxy_link_def proxy_link_qr_def api_create_user_def
  uninstall_service_def run_operation_def on_users_def Let_def parse_role_def

lemma plain_handlers_answer:
  "\<not> denied (fst (api_config_summary env s))" "\<not> denied (fst (api_metrics env s))" "\<not> denied (fst (api_proxy_link env s))"
  "\<not> denied (fst (proxy_link_qr env s))" "\<not> denied (fst (run_operation env op m s))" "\<not> denied (fst (on_users env g act s))"
  "\<not> denied (fst (api_create_user env salt n p r d s))" "\<not> denied (fst (api_delete_user env n u s))"
  "\<not> denied (fst (uninstall_service env c pg s))"
  by (simp_all add: handler_defs api_delete_user_def split: prod.splits sum.splits option.splits if_splits)

lemma login_denied: "denied (fst (login env k n p s)) \<longleftrightarrow> authenticate (al_users (web_app env)) n p (app_users (wd_app (wb_world s))) = Inr None"
  by (simp add: login_def Let_def split: sum.splits option.splits)

lemma logout_answers: "\<not> denied (fst (logout env k s))"
  by (simp add: logout_def split: option.splits)

lemma guards:
  "denied (fst (as_user env k f s)) \<longleftrightarrow> (case sl_get (we_sessions env) (wb_store s) k of None \<Rightarrow> True | Some u \<Rightarrow> denied (fst (f u s)))"
  "denied (fst (as_editor env k g s)) \<longleftrightarrow> (case sl_get (we_sessions env) (wb_store s) k of None \<Rightarrow> True
     | Some u \<Rightarrow> \<not> can_edit_config (su_role u) \<or> denied (fst (g s)))"
  "denied (fst (as_admin env k f s)) \<longleftrightarrow> (case sl_get (we_sessions env) (wb_store s) k of None \<Rightarrow> True
     | Some u \<Rightarrow> \<not> can_manage_users (su_role u) \<or> denied (fst (f u s)))"
  by (simp_all add: as_editor_def as_admin_def as_user_def require_user_def require_editor_def require_admin_def split: option.splits)

lemma password_denied: "denied (fst (api_update_password env salt n p u s)) \<longleftrightarrow> su_name u \<noteq> n \<and> \<not> can_manage_users (su_role u)"
  by (simp add: api_update_password_def plain_handlers_answer)

lemma api_denied_iff:
  "denied (fst (handle_api env salt k req s)) \<longleftrightarrow> \<not> permitted (sl_get (we_sessions env) (wb_store s) k) req
     \<or> (\<exists>n p. req = Login n p \<and> authenticate (al_users (web_app env)) n p (app_users (wd_app (wb_world s))) = Inr None)"
  by (cases req) (auto simp: guards plain_handlers_answer login_denied logout_answers password_denied permitted_def split: option.splits)

section \<open>What requests change\<close>

definition user_of :: "user_record \<Rightarrow> session_user" where
  "user_of u = \<lparr>su_name = ur_name u, su_display = ur_display u, su_role = ur_role u\<rparr>"

text \<open>The request logs a stored user in, with that user's password.\<close>

definition logs_in :: "'st web_env \<Rightarrow> 'st web_state \<Rightarrow> nat \<times> nat \<times> api_request \<Rightarrow> nat \<Rightarrow> user_record \<Rightarrow> bool" where
  "logs_in env s r k u \<longleftrightarrow> (\<exists>salt p. r = (salt, k, Login (ur_name u) p) \<and> u \<in> set (st_users (app_users (wd_app (wb_world s))))
     \<and> us_verify (al_users (web_app env)) (ur_hash u) p = Some True)"

lemma authenticated:
  "authenticate L n p st = Inr (Some v) \<Longrightarrow> \<exists>u\<in>set (st_users st). ur_name u = n \<and> us_verify L (ur_hash u) p = Some True \<and> v = view_of u"
  by (auto simp: authenticate_def split: option.splits if_splits simp: find_Some_iff)

lemma login_cases:
  assumes "login env k n p s = (a, s1)"
  shows "s1 = s \<or> (\<exists>u st. logs_in env s (salt, k, Login n p) k u \<and> sl_insert (we_sessions env) (wb_store s) k (user_of u) = Some st
     \<and> s1 = s\<lparr>wb_store := st\<rparr>)"
proof (cases "authenticate (al_users (web_app env)) n p (app_users (wd_app (wb_world s)))")
  case (Inl e)
  then show ?thesis using assms by (simp add: login_def)
next
  case (Inr o1)
  show ?thesis
  proof (cases o1)
    case None
    then show ?thesis using assms Inr by (simp add: login_def)
  next
    case (Some v)
    then obtain u where u: "u \<in> set (st_users (app_users (wd_app (wb_world s))))" "ur_name u = n"
        "us_verify (al_users (web_app env)) (ur_hash u) p = Some True" "v = view_of u"
      using authenticated Inr by blast
    then have "\<lparr>su_name = uv_name v, su_display = uv_display v, su_role = uv_role v\<rparr> = user_of u"
      by (simp add: user_of_def view_of_def)
    then show ?thesis using assms Inr Some u by (auto simp: login_def Let_def logs_in_def split: option.splits)
  qed
qed

lemma guard_cases:
  "as_user env k f s = (a, s1) \<Longrightarrow> s1 = s \<or> (\<exists>u. sl_get (we_sessions env) (wb_store s) k = Some u \<and> f u s = (a, s1))"
  "as_editor env k g s = (a, s1) \<Longrightarrow> s1 = s \<or> (\<exists>u. sl_get (we_sessions env) (wb_store s) k = Some u \<and> can_edit_config (su_role u) \<and> g s = (a, s1))"
  "as_admin env k f s = (a, s1) \<Longrightarrow> s1 = s \<or> (\<exists>u. sl_get (we_sessions env) (wb_store s) k = Some u \<and> can_manage_users (su_role u) \<and> f u s = (a, s1))"
  by (cases "sl_get (we_sessions env) (wb_store s) k";
      auto simp: as_editor_def as_admin_def as_user_def require_user_def require_editor_def require_admin_def split: if_splits)+

lemma password_cases: "api_update_password env salt n p u s = (a, s1) \<Longrightarrow> denied a \<Longrightarrow> s1 = s"
  using plain_handlers_answer(6) [of env "\<lambda>_. (NoContent204, NoBody)" "update_password (al_users (web_app env)) salt n p" s]
  by (auto simp: api_update_password_def split: if_splits)

lemma handlers_answer:
  "api_config_summary env s = (a, s1) \<Longrightarrow> \<not> denied a" "api_metrics env s = (a, s1) \<Longrightarrow> \<not> denied a"
  "api_proxy_link env s = (a, s1) \<Longrightarrow> \<not> denied a" "proxy_link_qr env s = (a, s1) \<Longrightarrow> \<not> denied a"
  "run_operation env op m s = (a, s1) \<Longrightarrow> \<not> denied a" "api_create_user env salt n p r d s = (a, s1) \<Longrightarrow> \<not> denied a"
  "api_delete_user env n u s = (a, s1) \<Longrightarrow> \<not> denied a" "uninstall_service env c pg s = (a, s1) \<Longrightarrow> \<not> denied a"
  using plain_handlers_answer by (metis fst_conv)+

lemma denied_changes_nothing:
  assumes "handle_api env salt k req s = (a, s1)" and "denied a"
  shows "s1 = s"
proof (cases req)
  case (Login n p)
  then show ?thesis using assms by (auto simp: login_def Let_def split: sum.splits option.splits)
next
  case Logout
  then show ?thesis using assms by (auto simp: logout_def split: option.splits)
qed (use assms in \<open>auto dest!: guard_cases dest: handlers_answer password_cases\<close>)

lemma handlers_keep_store:
  "api_config_summary env s = (a, s1) \<Longrightarrow> wb_store s1 = wb_store s" "api_metrics env s = (a, s1) \<Longrightarrow> wb_store s1 = wb_store s"
  "api_proxy_link env s = (a, s1) \<Longrightarrow> wb_store s1 = wb_store s" "proxy_link_qr env s = (a, s1) \<Longrightarrow> wb_store s1 = wb_store s"
  "run_operation env op m s = (a, s1) \<Longrightarrow> wb_store s1 = wb_store s" "on_users env g act s = (a, s1) \<Longrightarrow> wb_store s1 = wb_store s"
  "api_create_user env salt n p r d s = (a, s1) \<Longrightarrow> wb_store s1 = wb_store s"
  "api_delete_user env n u s = (a, s1) \<Longrightarrow> wb_store s1 = wb_store s"
  "api_update_password env salt n p u s = (a, s1) \<Longrightarrow> wb_store s1 = wb_store s"
  "uninstall_service env c pg s = (a, s1) \<Longrightarrow> wb_store s1 = wb_store s"
  by (auto simp: handler_defs api_delete_user_def api_update_password_def split: prod.splits sum.splits option.splits if_splits)

lemma handler_keeps_store:
  assumes "handle_api env salt k req s = (a, s1)" and "\<not> public_request req"
  shows "wb_store s1 = wb_store s"
  using assms by (cases req) (auto dest!: guard_cases dest: handlers_keep_store)

lemma store_step:
  assumes "session_laws (we_sessions env)" and "handle_api env salt k req s = (a, s1)" and "sl_get (we_sessions env) (wb_store s1) j = Some v"
  shows "sl_get (we_sessions env) (wb_store s) j = Some v \<or> (\<exists>u. logs_in env s (salt, k, req) j u \<and> v = user_of u)"
proof (cases req)
  case (Login n p)
  then have "login env k n p s = (a, s1)" using assms(2) by simp
  from login_cases [OF this, of salt] show ?thesis using assms(1,3) Login unfolding session_laws_def by fastforce
next
  case Logout
  then show ?thesis using assms unfolding session_laws_def
    by (auto simp: logout_def split: option.splits)
qed (use handler_keeps_store [OF assms(2)] assms(3) in auto)

text \<open>The configuration changes by the operations of editors only.\<close>

lemma handlers_keep_config:
  "api_config_summary env s = (a, s1) \<Longrightarrow> app_config (wd_app (wb_world s1)) = app_config (wd_app (wb_world s))"
  "api_metrics env s = (a, s1) \<Longrightarrow> app_config (wd_app (wb_world s1)) = app_config (wd_app (wb_world s))"
  "api_proxy_link env s = (a, s1) \<Longrightarrow> app_config (wd_app (wb_world s1)) = app_config (wd_app (wb_world s))"
  "proxy_link_qr env s = (a, s1) \<Longrightarrow> app_config (wd_app (wb_world s1)) = app_config (wd_app (wb_world s))"
  "on_users env g act s = (a, s1) \<Longrightarrow> app_config (wd_app (wb_world s1)) = app_config (wd_app (wb_world s))"
  "api_create_user env salt n p r d s = (a, s1) \<Longrightarrow> app_config (wd_app (wb_world s1)) = app_config (wd_app (wb_world s))"
  "api_delete_user env n u s = (a, s1) \<Longrightarrow> app_config (wd_app (wb_world s1)) = app_config (wd_app (wb_world s))"
  "api_update_password env salt n p u s = (a, s1) \<Longrightarrow> app_config (wd_app (wb_world s1)) = app_config (wd_app (wb_world s))"
  "uninstall_service env c pg s = (a, s1) \<Longrightarrow> app_config (wd_app (wb_world s1)) = app_config (wd_app (wb_world s))"
  by (auto simp: handler_defs api_delete_user_def api_update_password_def render_prometheus_def read_summary_def
      split: prod.splits sum.splits option.splits if_splits)

lemma config_step:
  assumes "handle_api env salt k req s = (a, s1)" and "app_config (wd_app (wb_world s1)) \<noteq> app_config (wd_app (wb_world s))"
  shows "\<exists>v. sl_get (we_sessions env) (wb_store s) k = Some v \<and> can_edit_config (su_role v)"
proof (cases req)
  case (Login n p)
  then have "login env k n p s = (a, s1)" using assms(1) by simp
  from login_cases [OF this, of salt] show ?thesis using assms(2) by auto
next
  case Logout
  then show ?thesis using assms by (auto simp: logout_def split: option.splits)
qed (use assms in \<open>auto dest!: guard_cases dest: handlers_keep_config\<close>)

section \<open>Runs\<close>

lemma web_run_snoc: "web_run env (xs @ [r]) s = web_step env (web_run env xs s) r"
  by (simp add: web_run_def)

lemma sessions_are_logins:
  assumes "session_laws (we_sessions env)" and "\<forall>j. sl_get (we_sessions env) (wb_store s) j = None"
    and "sl_get (we_sessions env) (wb_store (web_run env reqs s)) k = Some v"
  shows "\<exists>xs r ys u. reqs = xs @ r # ys \<and> logs_in env (web_run env xs s) r k u \<and> v = user_of u"
  using assms(3)
proof (induction reqs rule: rev_induct)
  case Nil
  then show ?case using assms(2) by (simp add: web_run_def)
next
  case (snoc r xs)
  obtain salt j req where r: "r = (salt, j, req)" using prod_cases3 by blast
  obtain a s1 where h: "handle_api env salt j req (web_run env xs s) = (a, s1)" by fastforce
  have "sl_get (we_sessions env) (wb_store s1) k = Some v"
    using snoc.prems h by (simp add: web_run_snoc web_step_def r)
  from store_step [OF assms(1) h this] show ?case
  proof
    assume "sl_get (we_sessions env) (wb_store (web_run env xs s)) k = Some v"
    then obtain ys q zs u where "xs = ys @ q # zs" "logs_in env (web_run env ys s) q k u" "v = user_of u" using snoc.IH by blast
    then show ?thesis by (intro exI [of _ ys] exI [of _ q] exI [of _ "zs @ [r]"] exI [of _ u]) simp
  next
    assume "\<exists>u. logs_in env (web_run env xs s) (salt, j, req) k u \<and> v = user_of u"
    then obtain u where "logs_in env (web_run env xs s) r k u" "v = user_of u" unfolding r by blast
    then show ?thesis by (intro exI [of _ xs] exI [of _ r] exI [of _ "[]"] exI [of _ u]) simp
  qed
qed

lemma config_change_is_edited:
  assumes "app_config (wd_app (wb_world (web_run env reqs s))) \<noteq> app_config (wd_app (wb_world s))"
  shows "\<exists>xs r ys k v. reqs = xs @ r # ys \<and> sl_get (we_sessions env) (wb_store (web_run env xs s)) k = Some v \<and> can_edit_config (su_role v)"
  using assms
proof (induction reqs rule: rev_induct)
  case Nil
  then show ?case by (simp add: web_run_def)
next
  case (snoc r xs)
  show ?case
  proof (cases "app_config (wd_app (wb_world (web_run env xs s))) = app_config (wd_app (wb_world s))")
    case True
    obtain salt j req where r: "r = (salt, j, req)" using prod_cases3 by blast
    obtain a s1 where h: "handle_api env salt j req (web_run env xs s) = (a, s1)" by fastforce
    have "app_config (wd_app (wb_world s1)) \<noteq> app_config (wd_app (wb_world (web_run env xs s)))"
      using snoc.prems h True by (simp add: web_run_snoc web_step_def r)
    from config_step [OF h this] show ?thesis by (intro exI [of _ xs] exI [of _ r] exI [of _ "[]"] exI [of _ j]) simp
  next
    case False
    then obtain ys q zs k v where "xs = ys @ q # zs" "sl_get (we_sessions env) (wb_store (web_run env ys s)) k = Some v"
        "can_edit_config (su_role v)" using snoc.IH by blast
    then show ?thesis by (intro exI [of _ ys] exI [of _ q] exI [of _ "zs @ [r]"] exI [of _ k] exI [of _ v]) simp
  qed
qed

section \<open>Properties\<close>

text \<open>
  C12. Access control of the web interface, for every request: the answer is 401 or 403 exactly if the request
  is not a login or logout and the session has no user or a user whose role does not allow the request (editing
  needs an operator or administrator, users and removal an administrator, a password its owner or an
  administrator), or if it is a login with a wrong name or password; and then nothing has changed at all.
\<close>

theorem web_access_control:
  assumes "handle_api env salt k req s = (a, s1)"
  shows "(denied a \<longleftrightarrow> \<not> permitted (sl_get (we_sessions env) (wb_store s) k) req
       \<or> (\<exists>n p. req = Login n p \<and> authenticate (al_users (web_app env)) n p (app_users (wd_app (wb_world s))) = Inr None))
     \<and> (denied a \<longrightarrow> s1 = s)"
proof -
  have "a = fst (handle_api env salt k req s)" using assms by simp
  then show ?thesis using api_denied_iff [of env salt k req s] denied_changes_nothing [OF assms] by simp
qed

text \<open>
  C13. Whatever the requests, in any number and from any sessions: the configuration changes only if somebody has
  logged in with the password of a stored user whose role at that time was operator or administrator.
\<close>

theorem config_change_needs_editor_login:
  assumes "session_laws (we_sessions env)" and "\<forall>k. sl_get (we_sessions env) (wb_store s) k = None"
    and "app_config (wd_app (wb_world (web_run env reqs s))) \<noteq> app_config (wd_app (wb_world s))"
  shows "\<exists>xs salt k u p ys. reqs = xs @ (salt, k, Login (ur_name u) p) # ys
     \<and> u \<in> set (st_users (app_users (wd_app (wb_world (web_run env xs s)))))
     \<and> us_verify (al_users (web_app env)) (ur_hash u) p = Some True \<and> ur_role u \<in> {AdminRole, OperatorRole}"
proof -
  obtain xs r ys k v where x: "reqs = xs @ r # ys" "sl_get (we_sessions env) (wb_store (web_run env xs s)) k = Some v"
      "can_edit_config (su_role v)" using config_change_is_edited [OF assms(3)] by blast
  obtain as q bs u where q: "xs = as @ q # bs" "logs_in env (web_run env as s) q k u" "v = user_of u"
    using sessions_are_logins [OF assms(1,2) x(2)] by blast
  then obtain salt p where "q = (salt, k, Login (ur_name u) p)" "u \<in> set (st_users (app_users (wd_app (wb_world (web_run env as s)))))"
      "us_verify (al_users (web_app env)) (ur_hash u) p = Some True" by (auto simp: logs_in_def)
  moreover have "reqs = as @ q # bs @ r # ys" using x(1) q(1) by simp
  moreover have "ur_role u \<in> {AdminRole, OperatorRole}" using x(3) q(3) by (auto simp: can_edit_config_def user_of_def)
  ultimately show ?thesis by blast
qed

text \<open>The configuration takes the parameters of a fragmentation request, whether or not it can be saved.\<close>

lemma fragmentation_takes_effect: "fragmentation (app_config (wd_app (snd (update_fragmentation A f w)))) = f"
  by (auto simp: update_fragmentation_def and_then_def set_config_def save_config_def split: prod.splits)

lemma put_fragmentation_takes_effect:
  assumes "sl_get (we_sessions env) (wb_store s) j = Some v" and "can_edit_config (su_role v)"
  shows "fragmentation (app_config (wd_app (wb_world (snd (handle_api env salt j (PutFragmentation f) s))))) = f"
  using assms fragmentation_takes_effect [of "web_app env" f "wb_world s"]
  by (auto simp: as_editor_def as_user_def require_user_def require_editor_def run_operation_def split: prod.splits)

text \<open>A deletion that was answered with success.\<close>

lemma deletion_succeeded:
  assumes "handle_api env salt k (DeleteUser n) s = (Inr reply, s1)" and "user_lib_laws (al_users (web_app env))"
  obtains boss where "sl_get (we_sessions env) (wb_store s) k = Some boss" "su_role boss = AdminRole" "su_name boss \<noteq> n"
    "n \<in> ur_name ` set (st_users (app_users (wd_app (wb_world s))))"
    "st_users (app_users (wd_app (wb_world s1))) = filter (\<lambda>u. ur_name u \<noteq> n) (st_users (app_users (wd_app (wb_world s))))"
    "wb_store s1 = wb_store s"
proof -
  let ?us = "app_users (wd_app (wb_world s))"
  obtain boss where b: "sl_get (we_sessions env) (wb_store s) k = Some boss" "can_manage_users (su_role boss)"
      "api_delete_user env n boss s = (Inr reply, s1)"
    using assms(1) by (cases "sl_get (we_sessions env) (wb_store s) k")
      (auto simp: as_admin_def as_user_def require_user_def require_admin_def split: if_splits)
  then have own: "su_name boss \<noteq> n" by (auto simp: api_delete_user_def)
  obtain r fs us where d: "delete_user (al_users (web_app env)) n (wd_fs (wb_world s)) ?us = (r, fs, us)" using prod_cases3 by blast
  have ok: "r = Inr ()" "app_users (wd_app (wb_world s1)) = us"
    using b(3) own d by (auto simp: api_delete_user_def on_users_def Let_def answer_result_def split: sum.splits)
  then obtain rest where p: "plan_delete n (st_users ?us) = Inr rest" "write_data (al_users (web_app env)) rest (wd_fs (wb_world s)) ?us = (Inr (), fs, us)"
    using d by (auto simp: delete_user_def split: sum.splits)
  have "st_users us = rest" using write_data_cases [OF p(2) assms(2)] by auto
  then show thesis
    using that [OF b(1)] b(2) own ok(2) p(1) handler_keeps_store [OF assms(1)] by (auto simp: plan_delete_Inr can_manage_users_def)
qed

text \<open>
  C34. The role is the one of the login, not the stored one. When the request to delete a user is answered with
  success, it came from another user who is an administrator, the user was in the store and is not any more, and
  every login under that name is refused. But a session of the deleted user goes on: each of its requests is
  refused exactly if the role from its login does not allow it, so a deleted administrator still manages
  users, and if that role may edit, the parameters which the session sends are the configuration.
\<close>

theorem deleted_user_still_edits:
  assumes "user_lib_laws (al_users (web_app env))" and "handle_api env salt k (DeleteUser n) s = (Inr reply, s1)"
    and "sl_get (we_sessions env) (wb_store s) j = Some v" and "su_name v = n"
  shows "reply = (NoContent204, NoBody)
    \<and> (\<exists>boss. sl_get (we_sessions env) (wb_store s) k = Some boss \<and> su_role boss = AdminRole \<and> su_name boss \<noteq> n)
    \<and> n \<in> ur_name ` set (st_users (app_users (wd_app (wb_world s))))
    \<and> n \<notin> ur_name ` set (st_users (app_users (wd_app (wb_world s1))))
    \<and> (\<forall>salt' i p. denied (fst (handle_api env salt' i (Login n p) s1)))
    \<and> (\<forall>salt' req. \<not> public_request req \<longrightarrow> denied (fst (handle_api env salt' j req s1)) = (\<not> allowed req v))
    \<and> (can_edit_config (su_role v) \<longrightarrow> (\<forall>salt' f.
         fragmentation (app_config (wd_app (wb_world (snd (handle_api env salt' j (PutFragmentation f) s1))))) = f))"
proof -
  obtain boss where b: "sl_get (we_sessions env) (wb_store s) k = Some boss" "su_role boss = AdminRole" "su_name boss \<noteq> n"
    "n \<in> ur_name ` set (st_users (app_users (wd_app (wb_world s))))"
    "st_users (app_users (wd_app (wb_world s1))) = filter (\<lambda>u. ur_name u \<noteq> n) (st_users (app_users (wd_app (wb_world s))))"
    "wb_store s1 = wb_store s" by (rule deletion_succeeded [OF assms(2,1)])
  have gone: "n \<notin> ur_name ` set (st_users (app_users (wd_app (wb_world s1))))" using b(5) by auto
  then have "find (\<lambda>u. ur_name u = n) (st_users (app_users (wd_app (wb_world s1)))) = None" by (simp add: find_name_None)
  then have login: "denied (fst (handle_api env salt' i (Login n p) s1))" for salt' i p
    by (simp add: login_denied authenticate_def)
  have v: "sl_get (we_sessions env) (wb_store s1) j = Some v" using assms(3) b(6) by simp
  have rights: "denied (fst (handle_api env salt' j req s1)) = (\<not> allowed req v)" if "\<not> public_request req" for salt' req
    using that unfolding api_denied_iff v by (auto simp: permitted_def)
  have reply: "reply = (NoContent204, NoBody)"
    using assms(2) b(1-3) by (auto simp: as_admin_def as_user_def require_user_def require_admin_def can_manage_users_def
        api_delete_user_def on_users_def Let_def answer_result_def split: prod.splits sum.splits)
  show ?thesis
    using reply b gone login rights put_fragmentation_takes_effect [OF v] by blast
qed

section \<open>A concrete web interface\<close>

definition toy_sessions :: "(nat \<Rightarrow> session_user option) session_lib" where
  "toy_sessions = \<lparr>sl_get = (\<lambda>st k. st k), sl_insert = (\<lambda>st k u. Some (st(k \<mapsto> u))), sl_flush = (\<lambda>st k. Some (st(k := None)))\<rparr>"

definition toy_web_env :: "(nat \<Rightarrow> session_user option) web_env" where
  "toy_web_env = \<lparr>we_admin = toy_admin_lib, we_sessions = toy_sessions, we_qr = Some, we_spawn = (\<lambda>_. True), we_io_text = (\<lambda>_. ''io'')\<rparr>"

definition toy_web_state :: "(nat \<Rightarrow> session_user option) web_state" where
  "toy_web_state = \<lparr>wb_world = toy_world toy_config, wb_store = Map.empty, wb_jobs = []\<rparr>"

lemma toy_session_laws: "session_laws toy_sessions"
  by (auto simp: session_laws_def toy_sessions_def split: if_splits)

lemma web_access_control_witness:
  "\<exists>a s1. handle_api toy_web_env 0 7 (PutFragmentation fragmentation_default) toy_web_state = (a, s1) \<and> denied a \<and> s1 = toy_web_state"
proof -
  obtain a s1 where run: "handle_api toy_web_env 0 7 (PutFragmentation fragmentation_default) toy_web_state = (a, s1)" by fastforce
  have "\<not> permitted (sl_get (we_sessions toy_web_env) (wb_store toy_web_state) 7) (PutFragmentation fragmentation_default)"
    by (simp add: permitted_def toy_web_env_def toy_sessions_def toy_web_state_def)
  then show ?thesis using web_access_control [OF run] run by blast
qed

definition toy_web_requests :: "(nat \<times> nat \<times> api_request) list" where
  "toy_web_requests = [(0, 7, Login ''admin'' ''admin123''), (0, 7, PutFragmentation (fragmentation_default\<lparr>delay_ms := 5\<rparr>))]"

lemma toy_web_run:
  "app_config (wd_app (wb_world (web_run toy_web_env toy_web_requests toy_web_state))) \<noteq> app_config (wd_app (wb_world toy_web_state))"
proof -
  let ?u = "\<lparr>su_name = ''admin'', su_display = ''Administrator'', su_role = AdminRole\<rparr>"
  let ?s = "toy_web_state\<lparr>wb_store := [7 \<mapsto> ?u]\<rparr>"
  have "authenticate (al_users toy_app_lib) ''admin'' ''admin123'' (app_users (wd_app (wb_world toy_web_state))) = Inr (Some (view_of root_user))"
    by (simp add: authenticate_def toy_app_lib_def toy_user_lib_def toy_web_state_def toy_world_def root_user_def)
  then have "web_step toy_web_env toy_web_state (0, 7, Login ''admin'' ''admin123'') = ?s"
    by (simp add: web_step_def login_def toy_web_env_def toy_admin_lib_def toy_sessions_def toy_web_state_def view_of_def root_user_def Let_def)
  then have "web_run toy_web_env toy_web_requests toy_web_state
      = snd (run_operation toy_web_env (Fragmentation (fragmentation_default\<lparr>delay_ms := 5\<rparr>)) ''fragmentation_updated'' ?s)"
    by (simp add: web_run_def toy_web_requests_def) (simp add: web_step_def as_editor_def as_user_def require_user_def require_editor_def
        can_edit_config_def toy_web_env_def toy_sessions_def)
  moreover note fragmentation_takes_effect
  ultimately have "fragmentation (app_config (wd_app (wb_world (web_run toy_web_env toy_web_requests toy_web_state)))) = fragmentation_default\<lparr>delay_ms := 5\<rparr>"
    by (simp add: run_operation_def split: prod.splits) (metis snd_conv)
  moreover have "fragmentation (app_config (wd_app (wb_world toy_web_state))) = fragmentation_default"
    by (simp add: toy_web_state_def toy_world_def toy_config_def test_minimal_def)
  moreover have "fragmentation_default\<lparr>delay_ms := 5\<rparr> \<noteq> fragmentation_default" by (simp add: fragmentation_default_def)
  ultimately show ?thesis by metis
qed

lemma config_change_needs_editor_login_witness:
  "\<exists>xs salt k (u :: user_record) p ys. toy_web_requests = xs @ (salt, k, Login (ur_name u) p) # ys \<and> ur_role u \<in> {AdminRole, OperatorRole}"
proof -
  have l: "session_laws (we_sessions toy_web_env)" using toy_session_laws by (simp add: toy_web_env_def)
  have e: "\<forall>k. sl_get (we_sessions toy_web_env) (wb_store toy_web_state) k = None"
    by (simp add: toy_web_env_def toy_sessions_def toy_web_state_def)
  from config_change_needs_editor_login [OF l e toy_web_run] show ?thesis by blast
qed

definition toy_bob_state :: "(nat \<Rightarrow> session_user option) web_state" where
  "toy_bob_state = toy_web_state\<lparr>wb_world := (toy_world toy_config)\<lparr>wd_app := (wd_app (toy_world toy_config))
       \<lparr>app_users := \<lparr>st_path = ''u.json'', st_users = [root_user, bob]\<rparr>\<rparr>\<rparr>,
     wb_store := [7 \<mapsto> user_of root_user, 8 \<mapsto> user_of bob]\<rparr>"

lemma toy_bob_deleted: "\<exists>s1. handle_api toy_web_env 0 7 (DeleteUser ''bob'') toy_bob_state = (Inr (NoContent204, NoBody), s1)"
proof -
  have n: "ur_name root_user = ''admin''" "ur_name bob = ''bob''" "bob \<noteq> root_user" "ur_role root_user = AdminRole"
    by (simp_all add: root_user_def bob_def)
  have l: "al_users (web_app toy_web_env) = toy_user_lib" by (simp add: toy_web_env_def toy_admin_lib_def toy_app_lib_def)
  have u: "app_users (wd_app (wb_world toy_bob_state)) = \<lparr>st_path = ''u.json'', st_users = [root_user, bob]\<rparr>"
    "sl_get (we_sessions toy_web_env) (wb_store toy_bob_state) 7 = Some (user_of root_user)"
    by (simp_all add: toy_bob_state_def toy_web_env_def toy_sessions_def)
  have "plan_delete ''bob'' [root_user, bob] = Inr [root_user]" by (simp add: plan_delete_def n Let_def)
  moreover have "us_print toy_user_lib [root_user] = Some ''a''" "us_put toy_user_lib = (\<lambda>fs p c. (True, fs(p \<mapsto> c)))"
    by (simp_all add: toy_user_lib_def)
  ultimately have "delete_user toy_user_lib ''bob'' fs \<lparr>st_path = ''u.json'', st_users = [root_user, bob]\<rparr>
      = (Inr (), fs(''u.json'' \<mapsto> ''a''), \<lparr>st_path = ''u.json'', st_users = [root_user]\<rparr>)" for fs
    by (simp add: delete_user_def write_data_def)
  then show ?thesis
    by (simp add: as_admin_def as_user_def require_user_def require_admin_def u user_of_def can_manage_users_def n api_delete_user_def
        on_users_def Let_def l answer_result_def)
qed

lemma deleted_user_still_edits_witness:
  "\<exists>s1. handle_api toy_web_env 0 7 (DeleteUser ''bob'') toy_bob_state = (Inr (NoContent204, NoBody), s1)
    \<and> denied (fst (handle_api toy_web_env 0 9 (Login ''bob'' ''secret12'') s1))
    \<and> \<not> denied (fst (handle_api toy_web_env 0 8 (PutFragmentation fragmentation_default) s1))
    \<and> denied (fst (handle_api toy_web_env 0 8 GetUsers s1))
    \<and> fragmentation (app_config (wd_app (wb_world (snd (handle_api toy_web_env 0 8 (PutFragmentation (fragmentation_default\<lparr>delay_ms := 5\<rparr>)) s1)))))
        = fragmentation_default\<lparr>delay_ms := 5\<rparr>"
proof -
  obtain s1 where run: "handle_api toy_web_env 0 7 (DeleteUser ''bob'') toy_bob_state = (Inr (NoContent204, NoBody), s1)"
    using toy_bob_deleted by blast
  have l: "user_lib_laws (al_users (web_app toy_web_env))"
    using toy_user_laws by (simp add: toy_web_env_def toy_admin_lib_def toy_app_lib_def)
  have v: "sl_get (we_sessions toy_web_env) (wb_store toy_bob_state) 8 = Some (user_of bob)"
    by (simp add: toy_bob_state_def toy_web_env_def toy_sessions_def)
  have b: "su_name (user_of bob) = ''bob''" "can_edit_config (su_role (user_of bob))" "\<not> can_manage_users (su_role (user_of bob))"
    by (simp_all add: user_of_def bob_def can_edit_config_def can_manage_users_def)
  have a: "\<not> public_request (PutFragmentation f)" "allowed (PutFragmentation f) (user_of bob)"
    "\<not> public_request GetUsers" "\<not> allowed GetUsers (user_of bob)" for f using b by simp_all
  from deleted_user_still_edits [OF l run v b(1)] run a b(2) show ?thesis by blast
qed

end
