(* ===== verification/Fallback_Route.thy ===== *)
theory Fallback_Route
  imports Split_Session App_State Decoy_Tls
begin

text \<open>
  What a connection gets that is not served as MTProto: domain fronting (\<^verbatim>\<open>src/domain_fronting.rs\<close>), the
  static page (\<^verbatim>\<open>src/fallback.rs\<close>), TLS termination in front of it (\<^verbatim>\<open>serve_tls_fallback\<close> of
  \<^verbatim>\<open>src/tls_server.rs\<close>) and the decoy answer on the client's socket (\<^verbatim>\<open>src/decoy_tls.rs\<close>). Connecting,
  reading a file, the certificates and the TLS library are parameters; a TLS stream is a value of the type \<open>'t\<close> with
  its two polls. The connection is a \<open>session\<close> whose upstream is the site fronted for.
\<close>

section \<open>Parameters\<close>

datatype private_key = Pkcs8 bytes | Pkcs1 bytes

record server_config =
  sc_chain :: "bytes list"
  sc_key :: private_key
  sc_alpn :: "bytes list"

text \<open>
  \<open>fe_open\<close> is the content of a file that can be opened. The PEM readers of \<^verbatim>\<open>rustls_pemfile\<close>: \<open>fe_certs\<close>
  gives all certificates or (\<^term>\<open>None\<close>) an error, the key readers the first item, which may be missing.
  \<open>fe_key_fits\<close> is the check of \<^verbatim>\<open>with_single_cert\<close>. \<open>fe_tls_accept\<close> is the handshake: its end, and
  the socket when there is no TLS stream.
\<close>

record 't fallback_env =
  fe_fuel :: nat
  fe_schedule :: "bool list"
  fe_connect :: "string \<Rightarrow> (io_kind + wire) option"
  fe_read_file :: "string \<Rightarrow> string option"
  fe_exists :: "string \<Rightarrow> bool"
  fe_open :: "string \<Rightarrow> bytes option"
  fe_certs :: "bytes \<Rightarrow> bytes list option"
  fe_pkcs8 :: "bytes \<Rightarrow> bytes option option"
  fe_rsa :: "bytes \<Rightarrow> bytes option option"
  fe_key_fits :: "bytes list \<Rightarrow> private_key \<Rightarrow> bool"
  fe_tls_accept :: "server_config \<Rightarrow> wire \<Rightarrow> (io_kind + 't) option \<times> wire"
  fe_tls_read :: "'t poll_read_fun"
  fe_tls_write :: "'t poll_write_fun"
  fe_tls_wire :: "'t \<Rightarrow> wire"
  fe_decoy_random :: bytes

section \<open>Domain fronting\<close>

definition resolve_fronting_target :: "fallback_config \<Rightarrow> string option \<Rightarrow> string option" where
  "resolve_fronting_target c sni =
     (case domain_fronting c of
        FrontNone \<Rightarrow> None
      | FrontSni \<Rightarrow> map_option (\<lambda>host. host @ '':'' @ dec_string (unat (fronting_port c))) sni
      | FrontFixed \<Rightarrow> map_option (\<lambda>host. host @ '':'' @ dec_string (unat (fronting_port c))) (fronting_host c))"

definition connect_to :: "'t fallback_env \<Rightarrow> string \<Rightarrow> (session, unit) task" where
  "connect_to env target s =
     (case fe_connect env target of
        None \<Rightarrow> (None, s)
      | Some (Inl k) \<Rightarrow> (Some (Inl (Proxy ''domain fronting connect'')), s)
      | Some (Inr w) \<Rightarrow> (Some (Inr ()), s\<lparr>ss_upstream := w\<rparr>))"

definition forward_tcp :: "'t fallback_env \<Rightarrow> bytes \<Rightarrow> string \<Rightarrow> (session, unit) task" where
  "forward_tcp env initial target =
     bindT (connect_to env target) (\<lambda>_.
     bindT (on_upstream (proxy_err ''fronting upstream write'' (write_all (fe_fuel env) wire_write initial))) (\<lambda>_.
     bindT (\<lambda>s. case copy_bidirectional_graceful tcp tcp (fe_schedule env) (ss_client s) (ss_upstream s) of
              (r, l, u) \<Rightarrow> (r, s\<lparr>ss_client := l, ss_upstream := u\<rparr>)) (\<lambda>_.
     retT ())))"

section \<open>The page\<close>

definition default_html :: string where
  \<open>default_html = concat (map (\<lambda>l. l @ [CHR 0x0A])
    [''<!DOCTYPE html>'',
     ''<html lang="en">'',
     ''<head>'',
     ''  <meta charset="UTF-8">'',
     ''  <meta name="viewport" content="width=device-width, initial-scale=1.0">'',
     ''  <title>Welcome</title>'',
     ''  <style>'',
     ''    body { font-family: system-ui, sans-serif; margin: 4rem auto; max-width: 40rem; padding: 0 1rem; color: #1a1a1a; }'',
     ''    h1 { font-size: 1.75rem; }'',
     ''    p { line-height: 1.6; color: #444; }'',
     ''  </style>'',
     ''</head>'',
     ''<body>'',
     ''  <h1>Welcome</h1>'',
     ''  <p>The site is up and running.</p>'',
     ''</body>'',
     ''</html>''])\<close>

text \<open>
  \<^verbatim>\<open>Path::extension\<close>: of the last component, what follows its last dot, unless the dot is the first
  character or the component is \<^verbatim>\<open>..\<close>.
\<close>

fun path_parts :: "string \<Rightarrow> string list" where
  "path_parts [] = [[]]"
| "path_parts (c # s) =
     (if c = CHR ''/'' then [] # path_parts s
      else (case path_parts s of [] \<Rightarrow> [[c]] | p # ps \<Rightarrow> (c # p) # ps))"

definition path_extension :: "string \<Rightarrow> string option" where
  "path_extension path =
     (case rev (filter (\<lambda>p. p \<noteq> [] \<and> p \<noteq> ''.'') (path_parts path)) of
        [] \<Rightarrow> None
      | name # _ \<Rightarrow>
          if name = ''..'' then None
          else (case rsplit_once (CHR ''.'') name of
                  None \<Rightarrow> None
                | Some (stem, ext) \<Rightarrow> if stem = [] then None else Some ext))"

definition resolve_html :: "(string \<Rightarrow> string option) \<Rightarrow> string option \<Rightarrow> string" where
  "resolve_html read_file html =
     (case html of
        None \<Rightarrow> default_html
      | Some v \<Rightarrow>
          if path_extension v = Some ''html'' then (case read_file v of Some page \<Rightarrow> page | None \<Rightarrow> v) else v)"

definition http_header :: "nat \<Rightarrow> string" where
  "http_header n =
     ''HTTP/1.1 200 OK'' @ [CHR 0x0D, CHR 0x0A] @ ''Content-Type: text/html; charset=utf-8'' @ [CHR 0x0D, CHR 0x0A]
     @ ''Content-Length: '' @ dec_string n @ [CHR 0x0D, CHR 0x0A] @ ''Connection: close'' @ [CHR 0x0D, CHR 0x0A, CHR 0x0D, CHR 0x0A]"

text \<open>The header and the body, in two writes.\<close>

definition send_page :: "nat \<Rightarrow> 's poll_write_fun \<Rightarrow> string \<Rightarrow> ('s, unit) task" where
  "send_page fuel wr html =
     bindT (proxy_err ''writing the HTTP header'' (write_all fuel wr (as_bytes (http_header (length (as_bytes html)))))) (\<lambda>_.
     proxy_err ''writing the HTML'' (write_all fuel wr (as_bytes html)))"

definition is_http :: "bytes \<Rightarrow> bool" where
  "is_http data = list_ex (\<lambda>p. take (length p) data = p) (map as_bytes [''GET '', ''HEAD '', ''POST ''])"

definition serve_static_html :: "'t fallback_env \<Rightarrow> bytes \<Rightarrow> string option \<Rightarrow> (wire, unit) task" where
  "serve_static_html env initial html =
     (let page = resolve_html (fe_read_file env) html in
      if is_http initial then send_page (fe_fuel env) wire_write page
      else if initial \<noteq> [] \<and> hd initial = 0x16
        then proxy_err ''writing the TLS alert'' (write_all (fe_fuel env) wire_write [0x15, 0x03, 0x03, 0x00, 0x02, 0x02, 0x0a])
      else send_page (fe_fuel env) wire_write page)"

definition domain_fronted_one :: "stats \<Rightarrow> stats" where
  "domain_fronted_one st = st\<lparr>domain_fronted := domain_fronted st + 1\<rparr>"

definition handle_fallback :: "'t fallback_env \<Rightarrow> bytes \<Rightarrow> fallback_config \<Rightarrow> string option \<Rightarrow> (session, unit) task" where
  "handle_fallback env initial c sni =
     (case resolve_fronting_target c sni of
        Some target \<Rightarrow> bindT (count domain_fronted_one) (\<lambda>_. forward_tcp env initial target)
      | None \<Rightarrow>
          (case fb_upstream c of
             Some upstream \<Rightarrow> forward_tcp env initial upstream
           | None \<Rightarrow> on_client (serve_static_html env initial (static_html c))))"

section \<open>TLS\<close>

definition load_certs :: "'t fallback_env \<Rightarrow> string \<Rightarrow> bytes list result" where
  "load_certs env path =
     bindR (ok_or (Config (''cannot open '' @ path)) (fe_open env path)) (\<lambda>data.
     bindR (ok_or (Config ''reading cert'') (fe_certs env data)) (\<lambda>certs.
     if certs = [] then Inl (Config ''the cert file is empty'') else Inr certs))"

definition load_private_key :: "'t fallback_env \<Rightarrow> string \<Rightarrow> private_key result" where
  "load_private_key env path =
     bindR (ok_or (Config (''cannot open '' @ path)) (fe_open env path)) (\<lambda>data.
     bindR (ok_or (Config ''reading key'') (fe_pkcs8 env data)) (\<lambda>first.
     case first of
       Some key \<Rightarrow> Inr (Pkcs8 key)
     | None \<Rightarrow>
         bindR (ok_or (Config ''reading RSA key'') (fe_rsa env data)) (\<lambda>first.
         case first of
           Some key \<Rightarrow> Inr (Pkcs1 key)
         | None \<Rightarrow> Inl (Config ''no private key (PKCS#8 or RSA)''))))"

definition load_server_config :: "'t fallback_env \<Rightarrow> tls_config \<Rightarrow> server_config result" where
  "load_server_config env t =
     bindR (ok_or (Config ''cert_file is not set'') (cert_file t)) (\<lambda>cert_path.
     bindR (ok_or (Config ''key_file is not set'') (key_file t)) (\<lambda>key_path.
     bindR (load_certs env cert_path) (\<lambda>chain.
     bindR (load_private_key env key_path) (\<lambda>key.
     if fe_key_fits env chain key
     then Inr \<lparr>sc_chain = chain, sc_key = key, sc_alpn = map as_bytes [''http/1.1'', ''h2'']\<rparr>
     else Inl (Config ''building the TLS config'')))))"

definition serve_tls_fallback ::
    "'t fallback_env \<Rightarrow> bytes \<Rightarrow> server_config \<Rightarrow> fallback_config \<Rightarrow> (session, unit) task" where
  "serve_tls_fallback env initial sc c s =
     (case fe_tls_accept env sc (prefix_wire initial (ss_client s)) of
        (None, w) \<Rightarrow> (None, s\<lparr>ss_client := w\<rparr>)
      | (Some (Inl k), w) \<Rightarrow> (Some (Inl (Proxy ''TLS handshake'')), s\<lparr>ss_client := w\<rparr>)
      | (Some (Inr t), _) \<Rightarrow>
          (case bindT (proxy_err ''reading HTTP over TLS'' (read_some (fe_fuel env) (fe_tls_read env) 4096)) (\<lambda>_.
                  send_page (fe_fuel env) (fe_tls_write env) (resolve_html (fe_read_file env) (static_html c))) t of
             (r, t1) \<Rightarrow> (r, s\<lparr>ss_client := fe_tls_wire env t1,
                 ss_stats := (ss_stats s)\<lparr>tls_handshakes := tls_handshakes (ss_stats s) + 1\<rparr>\<rparr>)))"

text \<open>\<^verbatim>\<open>serve_decoy\<close> on the socket.\<close>

definition serve_decoy_wire :: "'t fallback_env \<Rightarrow> bytes \<Rightarrow> (wire, unit) task" where
  "serve_decoy_wire env initial =
     (if \<not> looks_like_tls_client_hello initial then retT ()
      else proxy_err ''decoy TLS write'' (write_all (fe_fuel env) wire_write (build_decoy_response (fe_decoy_random env) initial)))"

section \<open>What a fronted connection moves\<close>

text \<open>
  Between \<open>client\<close> and the site \<open>site\<close>, when \<open>initial\<close> has been read already: to each side only a front of
  what it should get, and all of \<open>initial\<close> when the session has ended well.
\<close>

definition fronted :: "bytes \<Rightarrow> wire \<Rightarrow> wire \<Rightarrow> unit result option \<Rightarrow> session \<Rightarrow> bool" where
  "fronted initial client site r s1 \<longleftrightarrow>
     (\<exists>to_site to_client. wi_sent (ss_upstream s1) = wi_sent site @ to_site
       \<and> wi_sent (ss_client s1) = wi_sent client @ to_client
       \<and> prefix to_site (initial @ script_data (wi_in client)) \<and> prefix to_client (script_data (wi_in site))
       \<and> (r = Some (Inr ()) \<longrightarrow> prefix initial to_site))"

definition only_sockets :: "session \<Rightarrow> session \<Rightarrow> bool" where
  "only_sockets s s1 \<longleftrightarrow> s1 = s\<lparr>ss_client := ss_client s1, ss_upstream := ss_upstream s1\<rparr>"

lemma forward_tcp_delivers:
  assumes "forward_tcp env initial target s = (r, s1)" and "RData [] \<notin> set (wi_in (ss_client s))"
    and "\<forall>w. fe_connect env target = Some (Inr w) \<longrightarrow> RData [] \<notin> set (wi_in w)"
  shows "only_sockets s s1 \<and>
    (case fe_connect env target of
       Some (Inr w) \<Rightarrow> fronted initial (ss_client s) w r s1
     | _ \<Rightarrow> s1 = s \<and> r \<noteq> Some (Inr ()))"
proof (cases "\<exists>w. fe_connect env target = Some (Inr w)")
  case False
  then show ?thesis using assms(1)
    by (auto simp: forward_tcp_def connect_to_def bindT_def only_sockets_def split: option.splits sum.splits)
next
  case True
  then obtain w where w: "fe_connect env target = Some (Inr w)" by blast
  obtain v w1 where wr: "write_all (fe_fuel env) wire_write initial w = (v, w1)" by fastforce
  obtain x where x: "wi_sent w1 = wi_sent w @ x" "prefix x initial" "v = Some (Inr ()) \<longrightarrow> x = initial"
    using wire_sink.write_all_accepts [OF _ wr, of "wi_sent w"] by (auto simp: took_wire_def)
  have i1: "wi_in w1 = wi_in w" by (rule write_all_in [OF wr])
  show ?thesis
  proof (cases "v = Some (Inr ())")
    case False
    then have "s1 = s\<lparr>ss_upstream := w1\<rparr>" "r \<noteq> Some (Inr ())"
      using assms(1) by (auto simp: forward_tcp_def connect_to_def w bindT_def on_upstream_def proxy_err_def wr
          split: option.splits sum.splits)
    then show ?thesis using x unfolding w fronted_def only_sockets_def
      by (auto intro: prefix_prefix)
  next
    case True
    obtain q l u where c: "copy_bidirectional_graceful tcp tcp (fe_schedule env) (ss_client s) w1 = (q, l, u)"
      using prod_cases3 by blast
    have io: "io_wire (ss_client s) (script_data (wi_in (ss_client s))) (wi_sent (ss_client s))"
        "io_wire w1 (script_data (wi_in w1)) (wi_sent w1)"
      using assms(2,3) i1 w by (simp_all add: io_wire_def owes_wire_def owes_script_def took_wire_def)
    obtain mc ms where f: "wi_sent l = wi_sent (ss_client s) @ ms" "wi_sent u = wi_sent w1 @ mc"
        "prefix mc (script_data (wi_in (ss_client s)))" "prefix ms (script_data (wi_in w))"
      using wire_relay.relay_flow [OF io c [unfolded tcp_def]] i1 by (fastforce simp: io_wire_def took_wire_def)
    have "s1 = s\<lparr>ss_client := l, ss_upstream := u\<rparr>"
      using assms(1) by (auto simp: forward_tcp_def connect_to_def w bindT_def on_upstream_def proxy_err_def wr True c retT_def
          split: option.splits sum.splits)
    then show ?thesis using x True f unfolding w fronted_def only_sockets_def
      by (auto intro!: exI [of _ "initial @ mc"])
  qed
qed

end
