(* ===== verification/Acceptor.thy ===== *)
theory Acceptor
  imports Fallback_Route Split_Back
begin

text \<open>
  One incoming connection, from the first byte to the end (\<^verbatim>\<open>handle_connection\<close> of \<^verbatim>\<open>src/acceptor.rs\<close>): peek, the
  replay cache, detection, JA4 enforcement, the connection limits, and then the MTProto session, the
  split front or the fallback; and the start of the server with its accept loop. A
  \<open>connection\<close> is the shared state with everything the handler touches; other connections do not run
  in between (\<open>Conn_Limits\<close> has the interleavings of the limiter). A timer of a read is the fuel of
  \<open>ae_peek_fuel\<close> polls.
\<close>

section \<open>Connections\<close>

record connection =
  cn_app :: app_state
  cn_client :: wire
  cn_upstream :: wire
  cn_backs :: "(string \<times> wire) list"
  cn_dials :: nat
  cn_now :: nat
  cn_spawned :: "(string list \<times> webhook_payload) list"

record 't acceptor_env =
  ae_split :: split_env
  ae_fallback :: "'t fallback_env"
  ae_hasher :: "bytes \<Rightarrow> u64"
  ae_peek_fuel :: nat

abbreviation ae_proxy :: "'t acceptor_env \<Rightarrow> proxy_env" where "ae_proxy env \<equiv> se_proxy (ae_split env)"
abbreviation ae_crypto :: "'t acceptor_env \<Rightarrow> crypto_env" where "ae_crypto env \<equiv> pe_crypto (ae_proxy env)"

text \<open>The tasks of the other theories, on their part of the connection.\<close>

definition session_of :: "connection \<Rightarrow> session" where
  "session_of c = \<lparr>ss_client = cn_client c, ss_upstream = cn_upstream c, ss_stats = app_stats (cn_app c),
     ss_pool = app_pool (cn_app c), ss_now = cn_now c, ss_spawned = cn_spawned c\<rparr>"

definition on_session :: "(session, 'a) task \<Rightarrow> (connection, 'a) task" where
  "on_session t c =
     (case t (session_of c) of
        (r, s) \<Rightarrow> (r, c\<lparr>cn_client := ss_client s, cn_upstream := ss_upstream s, cn_now := ss_now s, cn_spawned := ss_spawned s,
          cn_app := (cn_app c)\<lparr>app_stats := ss_stats s, app_pool := ss_pool s\<rparr>\<rparr>))"

definition on_front_session :: "(front_session, 'a) task \<Rightarrow> (connection, 'a) task" where
  "on_front_session t c =
     (case t \<lparr>fs_client = cn_client c, fs_backs = cn_backs c, fs_dials = cn_dials c, fs_stats = app_stats (cn_app c)\<rparr> of
        (r, s) \<Rightarrow> (r, c\<lparr>cn_client := fs_client s, cn_backs := fs_backs s, cn_dials := fs_dials s,
          cn_app := (cn_app c)\<lparr>app_stats := fs_stats s\<rparr>\<rparr>))"

definition on_socket :: "(wire, 'a) task \<Rightarrow> (connection, 'a) task" where
  "on_socket t c = (case t (cn_client c) of (r, w) \<Rightarrow> (r, c\<lparr>cn_client := w\<rparr>))"

definition bump :: "(stats \<Rightarrow> stats) \<Rightarrow> (connection, unit) task" where
  "bump f c = (Some (Inr ()), c\<lparr>cn_app := (cn_app c)\<lparr>app_stats := f (app_stats (cn_app c))\<rparr>\<rparr>)"

section \<open>The peek\<close>

definition peek_buffer_size :: nat where "peek_buffer_size = 4096"

text \<open>The loop that completes a record; an end of the stream or the timer ends it.\<close>

function read_more :: "nat \<Rightarrow> nat \<Rightarrow> bytes \<Rightarrow> (wire, bytes) task" where
  "read_more fuel needed buf w =
     (if needed \<le> length buf then (Some (Inr buf), w)
      else (case read_some fuel wire_read (min (needed - length buf) (peek_buffer_size - length buf)) w of
          (None, w1) \<Rightarrow> (Some (Inr buf), w1)
        | (Some (Inl _), w1) \<Rightarrow> (Some (Inl (Proxy ''reading the rest of the TLS record'')), w1)
        | (Some (Inr bs), w1) \<Rightarrow> if bs = [] then (Some (Inr buf), w1) else read_more fuel needed (buf @ bs) w1))"
  by pat_completeness auto
termination
  by (relation "measure (\<lambda>(fuel, needed, buf, w). needed - length buf)") (auto simp flip: length_greater_0_conv)

declare read_more.simps [simp del]

definition read_initial_peek :: "nat \<Rightarrow> (wire, bytes) task" where
  "read_initial_peek fuel =
     bindT (proxy_err ''reading the first bytes'' (read_some fuel wire_read peek_buffer_size)) (\<lambda>buf.
     case tls_record_total_len buf of
       None \<Rightarrow> retT buf
     | Some needed \<Rightarrow>
         if peek_buffer_size < needed then failT (Proxy ''TLS record too large to peek'')
         else if looks_like_tls_client_hello buf then retT buf
         else read_more fuel needed buf)"

section \<open>Detection\<close>

record connection_context =
  cc_fake_domains :: "string list"
  cc_default_backend :: string
  cc_fragmentation :: fragmentation_config
  cc_fallback :: fallback_config
  cc_network :: network_config
  cc_tls_enabled :: bool
  cc_ja4_profiles :: "string list"
  cc_ja4_enforce :: bool
  cc_max_per_ip :: u32

definition load_connection_context :: "'t acceptor_env \<Rightarrow> config \<Rightarrow> connection_context" where
  "load_connection_context env c =
     \<lparr>cc_fake_domains = all_sni_domains (tls c), cc_default_backend = mt_backend (mtproto c),
      cc_fragmentation = fragmentation c, cc_fallback = fallback c, cc_network = network c,
      cc_tls_enabled = tls_is_enabled (fe_exists (ae_fallback env)) (tls c),
      cc_ja4_profiles = all_fingerprint_profiles (tls c), cc_ja4_enforce = ja4_enforce (security c),
      cc_max_per_ip = max_connections_per_ip (security c)\<rparr>"

definition ja4_allowed :: "crypto_env \<Rightarrow> bytes \<Rightarrow> string list \<Rightarrow> bool" where
  "ja4_allowed ce data profiles =
     (if profiles = [] then True
      else if \<not> looks_like_tls_client_hello data then True
      else (case parse_record data of
          Inl _ \<Rightarrow> False
        | Inr r \<Rightarrow>
            (case parse_client_hello (rec_payload r) of
               Inl _ \<Rightarrow> False
             | Inr hello \<Rightarrow> ja4_matches_any (compute_ja4 (ce_sha ce) (ce_hex ce) hello) profiles)))"

definition detect_route :: "'t acceptor_env \<Rightarrow> config \<Rightarrow> connection_context \<Rightarrow> bytes \<Rightarrow> detection_result result" where
  "detect_route env c ctx data =
     bindR (from_routes (ce_hex (ae_crypto env)) (all_secrets (mtproto c)) (cc_fake_domains ctx)) (\<lambda>d.
     let det = detect (ae_crypto env) (pe_unix (ae_proxy env)) d data in
     Inr (if dt_type det = Mtproto \<and> cc_ja4_enforce ctx \<and> \<not> ja4_allowed (ae_crypto env) data (cc_ja4_profiles ctx)
          then det\<lparr>dt_type := Fallback, dt_label := None, dt_mode := None, dt_backend := None, dt_max := 0\<rparr>
          else det))"

definition replay_blocked_one :: "stats \<Rightarrow> stats" where
  "replay_blocked_one st = st\<lparr>replay_blocked := replay_blocked st + 1\<rparr>"

definition detect_with_security ::
    "'t acceptor_env \<Rightarrow> connection_context \<Rightarrow> bytes \<Rightarrow> (connection, detection_result) task" where
  "detect_with_security env ctx data c =
     (let app = cn_app c in
      if looks_like_tls_client_hello data then
        (case is_replay (client_hello_fingerprint (ae_hasher env) data) (app_antireplay app) of
           (replayed, cache) \<Rightarrow>
             let app1 = app\<lparr>app_antireplay := cache\<rparr> in
             if replayed then
               (Some (Inr (detected_fallback (try_client_hello_sni data))),
                c\<lparr>cn_app := app1\<lparr>app_stats := replay_blocked_one (app_stats app1)\<rparr>\<rparr>)
             else (Some (detect_route env (app_config app) ctx data), c\<lparr>cn_app := app1\<rparr>))
      else (Some (detect_route env (app_config app) ctx data), c))"

section \<open>The handlers\<close>

definition mtproto_one :: "stats \<Rightarrow> stats" where
  "mtproto_one st = st\<lparr>mtproto_connections := mtproto_connections st + 1\<rparr>"

definition fallback_one :: "stats \<Rightarrow> stats" where
  "fallback_one st = st\<lparr>fallback_connections := fallback_connections st + 1\<rparr>"

definition total_one :: "stats \<Rightarrow> stats" where
  "total_one st = st\<lparr>total_connections := total_connections st + 1\<rparr>"

definition chosen_backend :: "connection_context \<Rightarrow> detection_result \<Rightarrow> string" where
  "chosen_backend ctx det =
     (case dt_backend det of Some b \<Rightarrow> if b = [] then cc_default_backend ctx else b | None \<Rightarrow> cc_default_backend ctx)"

definition handle_mtproto ::
    "'t acceptor_env \<Rightarrow> bytes \<Rightarrow> connection_context \<Rightarrow> detection_result \<Rightarrow> (connection, unit) task" where
  "handle_mtproto env peek ctx det =
     bindT (bump mtproto_one) (\<lambda>_ c.
     let cfg = app_config (cn_app c);
         backend = chosen_backend ctx det;
         mode = (case dt_mode det of Some m \<Rightarrow> m | None \<Rightarrow> Classic) in
     if sp_mode (split cfg) = Front then
       on_front_session (relay_from_front (ae_split env) (mtproto cfg) (drs cfg) (split cfg) peek backend mode (dt_label det)) c
     else
       on_session (proxy_mtproto (ae_proxy env) (mtproto cfg)
         \<lparr>po_preferred = backend, po_mode = mode, po_fragmentation = cc_fragmentation ctx, po_drs = drs cfg,
          po_dd = dd cfg, po_network = cc_network ctx, po_webhooks = webhooks cfg\<rparr> peek) c)"

definition handle_fallback_path ::
    "'t acceptor_env \<Rightarrow> bytes \<Rightarrow> connection_context \<Rightarrow> detection_result \<Rightarrow> (connection, unit) task" where
  "handle_fallback_path env peek ctx det =
     bindT (bump fallback_one) (\<lambda>_.
     case resolve_fronting_target (cc_fallback ctx) (dt_sni det) of
       Some target \<Rightarrow>
         bindT (bump domain_fronted_one) (\<lambda>_. on_session (forward_tcp (ae_fallback env) peek target))
     | None \<Rightarrow>
         if cc_tls_enabled ctx \<and> looks_like_tls_client_hello peek then
           (\<lambda>c. bindT (liftT (load_server_config (ae_fallback env) (tls (app_config (cn_app c))))) (\<lambda>sc.
              on_session (serve_tls_fallback (ae_fallback env) peek sc (cc_fallback ctx))) c)
         else if looks_like_tls_client_hello peek then on_socket (serve_decoy_wire (ae_fallback env) peek)
         else on_session (handle_fallback (ae_fallback env) peek (cc_fallback ctx) (dt_sni det)))"

text \<open>\<^verbatim>\<open>acquire\<close>, the handler, and \<^verbatim>\<open>release\<close> when it has ended, whatever its result.\<close>

definition with_slot ::
    "ip_addr \<Rightarrow> string \<Rightarrow> u32 \<Rightarrow> u32 \<Rightarrow> ip_addr list \<Rightarrow> (connection, unit) task \<Rightarrow> (connection, unit) task" where
  "with_slot ip label max_ip max_secret blacklist t c =
     (case acquire ip label max_ip max_secret blacklist (app_limits (cn_app c)) of
        (Inl e, l) \<Rightarrow> (Some (Inl e), c\<lparr>cn_app := (cn_app c)\<lparr>app_limits := l\<rparr>\<rparr>)
      | (Inr _, l) \<Rightarrow>
          (case t (c\<lparr>cn_app := (cn_app c)\<lparr>app_limits := l\<rparr>\<rparr>) of
             (None, c1) \<Rightarrow> (None, c1)
           | (Some r, c1) \<Rightarrow>
               (Some r, c1\<lparr>cn_app := (cn_app c1)\<lparr>app_limits :=
                  release ip label max_ip max_secret (app_limits (cn_app c1))\<rparr>\<rparr>)))"

definition serve_connection ::
    "'t acceptor_env \<Rightarrow> ip_addr \<Rightarrow> connection_context \<Rightarrow> ip_addr list \<Rightarrow> bytes \<Rightarrow> detection_result \<Rightarrow> (connection, unit) task" where
  "serve_connection env ip ctx blacklist peek det =
     (case dt_type det of
        Mtproto \<Rightarrow>
          with_slot ip (case dt_label det of Some l \<Rightarrow> l | None \<Rightarrow> ''default'') (cc_max_per_ip ctx) (dt_max det) blacklist
            (handle_mtproto env peek ctx det)
      | Fallback \<Rightarrow> handle_fallback_path env peek ctx det)"

definition handle_peeked :: "'t acceptor_env \<Rightarrow> ip_addr \<Rightarrow> bytes \<Rightarrow> (connection, unit) task" where
  "handle_peeked env ip peek c =
     (let ctx = load_connection_context env (app_config (cn_app c)) in
      bindT (liftT (ip_blacklist_of (cn_app c))) (\<lambda>blacklist.
      bindT (detect_with_security env ctx peek) (\<lambda>det.
      serve_connection env ip ctx blacklist peek det)) c)"

definition handle_connection :: "'t acceptor_env \<Rightarrow> ip_addr option \<Rightarrow> (connection, unit) task" where
  "handle_connection env peer =
     bindT (bump total_one) (\<lambda>_.
     bindT (on_socket (read_initial_peek (ae_peek_fuel env))) (\<lambda>peek.
     if peek = [] then retT ()
     else handle_peeked env (case peer of Some ip \<Rightarrow> ip | None \<Rightarrow> V4 0 0 0 0) peek))"

definition detect_traffic :: "crypto_env \<Rightarrow> u64 \<Rightarrow> bytes \<Rightarrow> string \<Rightarrow> string list \<Rightarrow> detection_result result" where
  "detect_traffic ce now data secret domains =
     bindR (from_routes (ce_hex ce)
        [\<lparr>sr_label = ''default'', sr_secret = secret, sr_mode = secret_mode secret, sr_backend = [], sr_max_connections = 0\<rparr>]
        domains) (\<lambda>d. Inr (detect ce now d data))"

section \<open>The peek loses nothing\<close>

definition peeked :: "wire \<Rightarrow> bytes \<Rightarrow> wire \<Rightarrow> bool" where
  "peeked w buf w1 \<longleftrightarrow> script_data (wi_in w) = buf @ script_data (wi_in w1) \<and> RData [] \<notin> set (wi_in w1)
     \<and> wi_sent w1 = wi_sent w \<and> wi_out w1 = wi_out w"

lemma read_some_sends_nothing: "read_some fuel wire_read n w = (r, w1) \<Longrightarrow> wi_sent w1 = wi_sent w \<and> wi_out w1 = wi_out w"
proof (induction fuel arbitrary: w)
  case (Suc fuel)
  then show ?case by (auto split: prod.splits poll.splits dest!: wire_read_sent)
qed simp

lemma read_some_peeks:
  assumes "read_some fuel wire_read n w = (r, w1)" and "0 < n" and "RData [] \<notin> set (wi_in w)"
  shows "peeked w (case r of Some (Inr bs) \<Rightarrow> bs | _ \<Rightarrow> []) w1 \<and> (\<forall>bs. r = Some (Inr bs) \<longrightarrow> length bs \<le> n)"
  using wire_source.read_some_delivers [OF _ assms(2,1), of "script_data (wi_in w)"] read_some_sends_nothing [OF assms(1)] assms(3)
  by (auto simp: owes_wire_def owes_script_def peeked_def split: option.splits sum.splits)

lemma peeked_trans: "peeked w a w1 \<Longrightarrow> peeked w1 b w2 \<Longrightarrow> peeked w (a @ b) w2"
  by (simp add: peeked_def)

lemma read_more_peeks:
  "read_more fuel needed buf w = (Some (Inr out), w1) \<Longrightarrow> needed \<le> peek_buffer_size \<Longrightarrow> length buf \<le> peek_buffer_size
     \<Longrightarrow> RData [] \<notin> set (wi_in w) \<Longrightarrow>
   \<exists>more. out = buf @ more \<and> peeked w more w1 \<and> length out \<le> peek_buffer_size"
proof (induction fuel needed buf w rule: read_more.induct)
  case (1 fuel needed buf w)
  show ?case
  proof (cases "needed \<le> length buf")
    case True
    then show ?thesis using 1(2,4,5) by (simp add: read_more.simps [of fuel needed buf] peeked_def)
  next
    case False
    let ?n = "min (needed - length buf) (peek_buffer_size - length buf)"
    have n: "0 < ?n" using False 1(3) by simp
    obtain r w2 where r: "read_some fuel wire_read ?n w = (r, w2)" by fastforce
    note p = read_some_peeks [OF r n 1(5)]
    show ?thesis
    proof (cases "\<exists>bs. r = Some (Inr bs) \<and> bs \<noteq> []")
      case True
      then obtain bs where bs: "r = Some (Inr bs)" "bs \<noteq> []" by blast
      then have "read_more fuel needed (buf @ bs) w2 = (Some (Inr out), w1)" "length (buf @ bs) \<le> peek_buffer_size"
          "RData [] \<notin> set (wi_in w2)"
        using 1(2) p False r n by (auto simp: read_more.simps [of fuel needed buf] peeked_def)
      from 1(1) [OF False r [symmetric] bs(1) refl bs(2) this(1) 1(3) this(2,3)]
      show ?thesis using p bs(1) peeked_trans by fastforce
    next
      case no: False
      then have "out = buf" "w1 = w2" "\<not> (\<exists>bs. r = Some (Inr bs) \<and> bs \<noteq> [])"
        using 1(2) False r by (auto simp: read_more.simps [of fuel needed buf] split: option.splits sum.splits if_splits)
      then show ?thesis using p 1(4) by (auto split: option.splits sum.splits)
    qed
  qed
qed

lemma read_initial_peek_peeks:
  assumes "read_initial_peek fuel w = (Some (Inr buf), w1)" and "RData [] \<notin> set (wi_in w)"
  shows "peeked w buf w1 \<and> length buf \<le> peek_buffer_size"
proof -
  obtain r w2 where r: "read_some fuel wire_read peek_buffer_size w = (r, w2)" by fastforce
  then obtain bs where bs: "r = Some (Inr bs)"
    using assms(1) by (auto simp: read_initial_peek_def bindT_def proxy_err_def split: option.splits sum.splits)
  have p: "peeked w bs w2" "length bs \<le> peek_buffer_size"
    using read_some_peeks [OF r _ assms(2)] bs by (simp_all add: peek_buffer_size_def)
  have "bs = buf \<and> w2 = w1 \<or> (\<exists>needed \<le> peek_buffer_size. read_more fuel needed bs w2 = (Some (Inr buf), w1))"
    using assms(1) r bs
    by (auto simp: read_initial_peek_def bindT_def proxy_err_def retT_def failT_def split: option.splits if_splits)
  then show ?thesis
    using p read_more_peeks [of fuel _ bs w2 buf w1] peeked_trans [OF p(1)] by (fastforce simp: peeked_def [of w bs])
qed

section \<open>What a task leaves alone\<close>

definition keeps :: "('s \<Rightarrow> 'b) \<Rightarrow> ('s, 'a) task \<Rightarrow> bool" where
  "keeps f t \<longleftrightarrow> (\<forall>s r s1. t s = (r, s1) \<longrightarrow> f s1 = f s)"

named_theorems keeps_intros

lemma keepsD: "keeps f t \<Longrightarrow> t s = (r, s1) \<Longrightarrow> f s1 = f s"
  by (simp add: keeps_def)

lemma keeps_bindT [keeps_intros]: "keeps f t \<Longrightarrow> (\<And>a. keeps f (g a)) \<Longrightarrow> keeps f (bindT t g)"
  unfolding keeps_def bindT_def by (fastforce split: prod.splits option.splits sum.splits)

lemma keeps_simple [keeps_intros]: "keeps f (retT a)" "keeps f (failT e)" "keeps f (liftT r)"
  by (simp_all add: keeps_def retT_def failT_def liftT_def)

text \<open>What the fallback must not touch: of a session, and of the connection it belongs to.\<close>

definition session_kept :: "session \<Rightarrow> backend_pool \<times> u64 \<times> nat \<times> (string list \<times> webhook_payload) list" where
  "session_kept s = (ss_pool s, mtproto_connections (ss_stats s), ss_now s, ss_spawned s)"

definition conn_kept :: "connection \<Rightarrow> (config \<times> user_store \<times> limiter \<times> backend_pool \<times> u64)
    \<times> (string \<times> wire) list \<times> nat \<times> nat \<times> (string list \<times> webhook_payload) list" where
  "conn_kept c = ((app_config (cn_app c), app_users (cn_app c), app_limits (cn_app c), app_pool (cn_app c),
       mtproto_connections (app_stats (cn_app c))), cn_backs c, cn_dials c, cn_now c, cn_spawned c)"

lemma session_kept_rules [keeps_intros]: "keeps session_kept (on_client t)" "keeps session_kept (on_upstream t)"
  by (auto simp: keeps_def session_kept_def on_client_def on_upstream_def split: prod.splits)

lemma forward_tcp_kept [keeps_intros]: "keeps session_kept (forward_tcp env initial target)"
proof -
  have "keeps session_kept (connect_to env target)"
    by (auto simp: keeps_def session_kept_def connect_to_def split: option.splits sum.splits)
  moreover have "keeps session_kept (\<lambda>s. case copy_bidirectional_graceful tcp tcp p (ss_client s) (ss_upstream s) of
              (r, l, u) \<Rightarrow> (r, s\<lparr>ss_client := l, ss_upstream := u\<rparr>))" for p
    by (auto simp: keeps_def session_kept_def split: prod.splits)
  ultimately show ?thesis unfolding forward_tcp_def by (intro keeps_intros)
qed

lemma handle_fallback_kept [keeps_intros]: "keeps session_kept (handle_fallback env initial c sni)"
proof -
  have "keeps session_kept (count domain_fronted_one)"
    by (auto simp: keeps_def session_kept_def count_def domain_fronted_one_def)
  then show ?thesis unfolding handle_fallback_def by (auto split: option.splits intro!: keeps_intros)
qed

lemma serve_tls_kept [keeps_intros]: "keeps session_kept (serve_tls_fallback env initial sc c)"
  by (auto simp: keeps_def session_kept_def serve_tls_fallback_def split: prod.splits option.splits sum.splits)

lemma conn_kept_rules [keeps_intros]:
  "keeps session_kept s \<Longrightarrow> keeps conn_kept (on_session s)"
  "keeps conn_kept (on_socket t)"
  "(\<And>st. mtproto_connections (f st) = mtproto_connections st) \<Longrightarrow> keeps conn_kept (bump f)"
  unfolding keeps_def
  by (fastforce simp: conn_kept_def session_kept_def session_of_def on_session_def on_socket_def bump_def split: prod.splits)+

lemma keeps_env: "(\<And>c. keeps f (g c)) \<Longrightarrow> keeps f (\<lambda>c. g c c)"
  unfolding keeps_def by blast

lemma handle_fallback_path_kept: "keeps conn_kept (handle_fallback_path env peek ctx det)"
proof -
  have "keeps conn_kept (\<lambda>c. bindT (liftT (load_server_config (ae_fallback env) (tls (app_config (cn_app c))))) (\<lambda>sc.
          on_session (serve_tls_fallback (ae_fallback env) peek sc (cc_fallback ctx))) c)"
    by (rule keeps_env) (intro keeps_intros)
  then show ?thesis unfolding handle_fallback_path_def
    by (auto split: option.splits simp: fallback_one_def domain_fronted_one_def intro!: keeps_intros)
qed

section \<open>The connection limits\<close>

abbreviation limits_of :: "connection \<Rightarrow> limiter" where "limits_of c \<equiv> app_limits (cn_app c)"

lemma conn_kept_limits: "keeps conn_kept t \<Longrightarrow> keeps limits_of t"
  by (simp add: keeps_def conn_kept_def)

lemma limits_rules [keeps_intros]: "keeps limits_of (on_session s)" "keeps limits_of (on_front_session f)"
  "keeps limits_of (on_socket t)" "keeps limits_of (bump g)"
  by (auto simp: keeps_def on_session_def on_front_session_def on_socket_def bump_def split: prod.splits)

lemma detect_limits [keeps_intros]: "keeps limits_of (detect_with_security env ctx data)"
  by (auto simp: keeps_def detect_with_security_def Let_def split: prod.splits if_splits)

lemma limits_either:
  "keeps limits_of (\<lambda>c. if P c then on_front_session (f c) c else on_session (s c) c)"
  using limits_rules(1,2) unfolding keeps_def by metis

lemma handle_mtproto_limits [keeps_intros]: "keeps limits_of (handle_mtproto env peek ctx det)"
  unfolding handle_mtproto_def Let_def by (intro keeps_bindT limits_rules limits_either)

text \<open>The limits of a connection that has ended are those before it; while it runs it holds one slot, or none.\<close>

definition one_slot :: "limiter \<Rightarrow> 'a option \<Rightarrow> limiter \<Rightarrow> bool" where
  "one_slot l r l1 \<longleftrightarrow> l1 = l
     \<or> r = None \<and> (\<exists>ip label max_ip max_secret blacklist. acquire ip label max_ip max_secret blacklist l = (Inr (), l1))"

lemma with_slot_limits:
  assumes "with_slot ip label mi ms bl t c = (r, c1)" and "keeps limits_of t" and "no_zero (limits_of c)"
  shows "one_slot (limits_of c) r (limits_of c1)"
proof -
  obtain q l where a: "acquire ip label mi ms bl (limits_of c) = (q, l)" by fastforce
  show ?thesis
  proof (cases q)
    case (Inl e)
    then have "l = limits_of c" using acquire_error_unchanged [OF assms(3)] a by simp
    then show ?thesis using assms(1) a Inl by (auto simp: with_slot_def one_slot_def)
  next
    case (Inr u)
    obtain p c2 where t: "t (c\<lparr>cn_app := (cn_app c)\<lparr>app_limits := l\<rparr>\<rparr>) = (p, c2)" by fastforce
    have k: "limits_of c2 = l" using keepsD [OF assms(2) t] by simp
    have "release ip label mi ms l = limits_of c" using release_undoes_acquire [OF assms(3)] a Inr by simp
    then show ?thesis using assms(1) a Inr t k by (auto simp: with_slot_def one_slot_def split: option.splits)
  qed
qed

lemma handle_peeked_limits:
  assumes "handle_peeked env ip peek c = (r, c1)" and "no_zero (limits_of c)"
  shows "one_slot (limits_of c) r (limits_of c1)"
proof (cases "ip_blacklist_of (cn_app c)")
  case (Inl e)
  then show ?thesis using assms(1) by (simp add: handle_peeked_def bindT_def liftT_def one_slot_def)
next
  case (Inr bl)
  let ?ctx = "load_connection_context env (app_config (cn_app c))"
  obtain q c2 where d: "detect_with_security env ?ctx peek c = (q, c2)" by fastforce
  have l: "limits_of c2 = limits_of c" by (rule keepsD [OF detect_limits d])
  show ?thesis
  proof (cases "\<exists>det. q = Some (Inr det)")
    case False
    then show ?thesis using assms(1) Inr d l
      by (auto simp: handle_peeked_def Let_def bindT_def liftT_def one_slot_def split: option.splits sum.splits)
  next
    case True
    then obtain det where q: "q = Some (Inr det)" by blast
    have s: "serve_connection env ip ?ctx bl peek det c2 = (r, c1)"
      using assms(1) Inr d q by (simp add: handle_peeked_def Let_def bindT_def liftT_def)
    show ?thesis
    proof (cases "dt_type det")
      case Mtproto
      from s [unfolded serve_connection_def Mtproto traffic_type.case]
      show ?thesis using with_slot_limits [OF _ handle_mtproto_limits] assms(2) l by metis
    next
      case Fallback
      then have "handle_fallback_path env peek ?ctx det c2 = (r, c1)" using s by (simp add: serve_connection_def)
      from keepsD [OF conn_kept_limits [OF handle_fallback_path_kept] this] show ?thesis using l by (simp add: one_slot_def)
    qed
  qed
qed

section \<open>The handler, step by step\<close>

text \<open>The connection when the peek has been read.\<close>

definition after_peek :: "connection \<Rightarrow> wire \<Rightarrow> connection" where
  "after_peek c w = c\<lparr>cn_app := (cn_app c)\<lparr>app_stats := total_one (app_stats (cn_app c))\<rparr>, cn_client := w\<rparr>"

abbreviation peer_ip_of :: "ip_addr option \<Rightarrow> ip_addr" where
  "peer_ip_of peer \<equiv> (case peer of Some ip \<Rightarrow> ip | None \<Rightarrow> V4 0 0 0 0)"

lemma handle_connection_cases:
  assumes "handle_connection env peer c = (r, c1)"
  obtains (stopped) w where "c1 = after_peek c w"
  | (peek) buf w where "read_initial_peek (ae_peek_fuel env) (cn_client c) = (Some (Inr buf), w)" "buf \<noteq> []"
      "handle_peeked env (peer_ip_of peer) buf (after_peek c w) = (r, c1)"
  using assms that
  by (cases "read_initial_peek (ae_peek_fuel env) (cn_client c)")
    (auto simp: handle_connection_def bindT_def bump_def on_socket_def after_peek_def retT_def split: option.splits sum.splits if_splits)

lemma after_peek_kept [simp]: "conn_kept (after_peek c w) = conn_kept c" "app_limits (cn_app (after_peek c w)) = app_limits (cn_app c)"
  "app_config (cn_app (after_peek c w)) = app_config (cn_app c)" "app_antireplay (cn_app (after_peek c w)) = app_antireplay (cn_app c)"
  "ip_blacklist_of (cn_app (after_peek c w)) = ip_blacklist_of (cn_app c)" "cn_client (after_peek c w) = w"
  "app_pool (cn_app (after_peek c w)) = app_pool (cn_app c)"
  by (simp_all add: after_peek_def conn_kept_def total_one_def ip_blacklist_of_def)

lemma handle_connection_peeked:
  assumes "handle_connection env peer c = (r, c1)" and "read_initial_peek (ae_peek_fuel env) (cn_client c) = (Some (Inr buf), w)"
    and "buf \<noteq> []"
  shows "handle_peeked env (peer_ip_of peer) buf (after_peek c w) = (r, c1)"
  using assms by (simp add: handle_connection_def bindT_def bump_def on_socket_def after_peek_def)

lemma detect_kept [keeps_intros]: "keeps conn_kept (detect_with_security env ctx data)"
  by (auto simp: keeps_def conn_kept_def detect_with_security_def Let_def replay_blocked_one_def split: prod.splits if_splits)

lemma detect_client: "keeps cn_client (detect_with_security env ctx data)"
  by (auto simp: keeps_def detect_with_security_def Let_def split: prod.splits if_splits)

text \<open>What detection says decides; a refusal before leaves everything.\<close>

lemma handle_peeked_fallback:
  assumes "handle_peeked env ip peek c = (r, c1)"
    and "\<forall>det. fst (detect_with_security env (load_connection_context env (app_config (cn_app c))) peek c) = Some (Inr det) \<longrightarrow> dt_type det = Fallback"
  shows "conn_kept c1 = conn_kept c"
proof -
  let ?ctx = "load_connection_context env (app_config (cn_app c))"
  obtain q c2 where d: "detect_with_security env ?ctx peek c = (q, c2)" by fastforce
  note k = keepsD [OF detect_kept d]
  show ?thesis
  proof (cases "\<exists>bl det. ip_blacklist_of (cn_app c) = Inr bl \<and> q = Some (Inr det)")
    case False
    then have "c1 = c \<or> c1 = c2" using assms(1) d
      by (auto simp: handle_peeked_def Let_def bindT_def liftT_def split: option.splits sum.splits)
    then show ?thesis using k by auto
  next
    case True
    then obtain bl det where b: "ip_blacklist_of (cn_app c) = Inr bl" "q = Some (Inr det)" by blast
    then have "dt_type det = Fallback" using assms(2) d by simp
    then have "handle_fallback_path env peek ?ctx det c2 = (r, c1)"
      using assms(1) d b by (simp add: handle_peeked_def Let_def bindT_def liftT_def serve_connection_def)
    from keepsD [OF handle_fallback_path_kept this] show ?thesis using k by simp
  qed
qed

text \<open>The replay cache, which only detection touches.\<close>

abbreviation replay_of :: "connection \<Rightarrow> antireplay_cache" where "replay_of c \<equiv> app_antireplay (cn_app c)"

lemma replay_rules [keeps_intros]: "keeps replay_of (on_session s)" "keeps replay_of (on_front_session f)"
  "keeps replay_of (on_socket t)" "keeps replay_of (bump g)"
  by (auto simp: keeps_def on_session_def on_front_session_def on_socket_def bump_def split: prod.splits)

lemma replay_either:
  "keeps replay_of (\<lambda>c. if P c then on_front_session (f c) c else on_session (s c) c)"
  using replay_rules(1,2) unfolding keeps_def by metis

lemma handle_mtproto_replay: "keeps replay_of (handle_mtproto env peek ctx det)"
  unfolding handle_mtproto_def Let_def by (intro keeps_bindT replay_rules replay_either)

lemma handle_fallback_path_replay: "keeps replay_of (handle_fallback_path env peek ctx det)"
proof -
  have "keeps replay_of (\<lambda>c. bindT (liftT (load_server_config (ae_fallback env) (tls (app_config (cn_app c))))) (\<lambda>sc.
          on_session (serve_tls_fallback (ae_fallback env) peek sc (cc_fallback ctx))) c)"
    by (rule keeps_env) (intro keeps_intros)
  then show ?thesis unfolding handle_fallback_path_def by (auto split: option.splits intro!: keeps_intros)
qed

lemma with_slot_replay: "keeps replay_of t \<Longrightarrow> keeps replay_of (with_slot ip label mi ms bl t)"
  unfolding keeps_def with_slot_def by (fastforce split: prod.splits option.splits sum.splits)

lemma serve_connection_replay: "keeps replay_of (serve_connection env ip ctx bl peek det)"
  by (cases "dt_type det") (simp_all add: serve_connection_def handle_fallback_path_replay with_slot_replay handle_mtproto_replay)

lemma is_replay_remembers: "cache_inv k \<Longrightarrow> fp \<in> seen (snd (is_replay fp k))"
proof -
  assume inv: "cache_inv k"
  have "fp \<in> set (order (snd (is_replay fp k)))"
    using is_replay_window(2) [OF inv, of fp] window_step_contains inv by (simp add: cache_inv_def)
  then show ?thesis using is_replay_window(3) [OF inv, of fp] by (simp add: cache_inv_def)
qed

lemma handle_peeked_remembers:
  assumes "handle_peeked env ip peek c = (r, c1)" and "looks_like_tls_client_hello peek" and "is_ok (ip_blacklist_of (cn_app c))"
    and "cache_inv (replay_of c)"
  shows "client_hello_fingerprint (ae_hasher env) peek \<in> seen (replay_of c1)"
proof -
  let ?ctx = "load_connection_context env (app_config (cn_app c))" and ?fp = "client_hello_fingerprint (ae_hasher env) peek"
  obtain q c2 where d: "detect_with_security env ?ctx peek c = (q, c2)" by fastforce
  have "replay_of c2 = snd (is_replay ?fp (replay_of c))"
    using d assms(2) by (auto simp: detect_with_security_def Let_def split: prod.splits if_splits)
  then have s: "?fp \<in> seen (replay_of c2)" using is_replay_remembers [OF assms(4)] by simp
  obtain bl where bl: "ip_blacklist_of (cn_app c) = Inr bl" using assms(3) by (auto simp: is_ok_iff)
  have "c1 = c2 \<or> (\<exists>det. serve_connection env ip ?ctx bl peek det c2 = (r, c1))"
    using assms(1) d bl by (auto simp: handle_peeked_def Let_def bindT_def liftT_def split: option.splits sum.splits)
  then show ?thesis
  proof
    assume "\<exists>det. serve_connection env ip ?ctx bl peek det c2 = (r, c1)"
    then obtain det where "serve_connection env ip ?ctx bl peek det c2 = (r, c1)" by blast
    from keepsD [OF serve_connection_replay this] show ?thesis using s by simp
  qed (use s in simp)
qed

section \<open>Properties\<close>

text \<open>
  C4. A connection costs nothing for good: when the handler has ended, with whatever result, the
  connection counters are those it found; and while it still runs it holds one slot that a successful
  \<^verbatim>\<open>acquire\<close> gave it, or none.
\<close>

theorem connection_restores_limits:
  assumes "no_zero (app_limits (cn_app c))" and "handle_connection env peer c = (r, c1)"
  shows "one_slot (app_limits (cn_app c)) r (app_limits (cn_app c1))"
  using assms(2)
proof (cases rule: handle_connection_cases)
  case (stopped w)
  then show ?thesis by (simp add: one_slot_def)
next
  case (peek buf w)
  from handle_peeked_limits [OF peek(3)] show ?thesis using assms(1) by simp
qed

text \<open>
  C3. A ClientHello is served once: when a connection has got as far as detection, a later one on the
  state it leaves whose first bytes are the same is kept out; it gets the fallback, and neither the
  backend pool nor the limiter, the MTProto counter, the back servers or the webhooks see it.
\<close>

theorem replayed_hello_kept_out:
  assumes "cache_inv (app_antireplay (cn_app c))" and "is_ok (ip_blacklist_of (cn_app c))"
    and "looks_like_tls_client_hello buf"
    and "read_initial_peek (ae_peek_fuel env) (cn_client c) = (Some (Inr buf), w)"
    and "handle_connection env peer c = (r, c1)"
    and "cn_app c2 = cn_app c1"
    and "read_initial_peek (ae_peek_fuel env) (cn_client c2) = (Some (Inr buf), w2)"
    and "handle_connection env peer2 c2 = (r2, c3)"
  shows "conn_kept c3 = conn_kept c2"
proof -
  have ne: "buf \<noteq> []" using assms(3) by (auto simp: looks_like_tls_client_hello_def)
  have "client_hello_fingerprint (ae_hasher env) buf \<in> seen (replay_of c1)"
    using handle_peeked_remembers [OF handle_connection_peeked [OF assms(5,4) ne] assms(3)] assms(1,2) by simp
  then have "client_hello_fingerprint (ae_hasher env) buf \<in> seen (replay_of (after_peek c2 w2))" using assms(6) by simp
  then have "fst (detect_with_security env ctx buf (after_peek c2 w2)) = Some (Inr (detected_fallback (try_client_hello_sni buf)))" for ctx
    using assms(3) by (simp add: detect_with_security_def Let_def is_replay_def)
  then have "conn_kept c3 = conn_kept (after_peek c2 w2)"
    using handle_peeked_fallback [OF handle_connection_peeked [OF assms(8,7) ne]] by (simp add: detected_fallback_def)
  then show ?thesis by simp
qed

text \<open>
  C5. A stranger stays a stranger: a connection whose first bytes no configured route recognises leaves the
  backend pool, the limiter, the MTProto counter, the back servers and the webhooks as they were.
\<close>

theorem stranger_kept_out:
  assumes "read_initial_peek (ae_peek_fuel env) (cn_client c) = (Some (Inr buf), w)"
    and "from_routes (ce_hex (ae_crypto env)) (all_secrets (mtproto (app_config (cn_app c))))
           (all_sni_domains (tls (app_config (cn_app c)))) = Inr d"
    and "\<forall>route \<in> set (de_routes d). \<not> recognises (ae_crypto env) (pe_unix (ae_proxy env)) d buf route"
    and "handle_connection env peer c = (r, c1)"
  shows "conn_kept c1 = conn_kept c"
  using assms(4)
proof (cases rule: handle_connection_cases)
  case (peek buf' w')
  then have eq: "buf' = buf" "w' = w" using assms(1) by simp_all
  let ?ctx = "load_connection_context env (app_config (cn_app c))"
  have v: "dt_type (detect (ae_crypto env) (pe_unix (ae_proxy env)) d buf) = Fallback"
    using assms(3) detect_verdict [of "ae_crypto env" "pe_unix (ae_proxy env)" d buf]
    by (cases "dt_type (detect (ae_crypto env) (pe_unix (ae_proxy env)) d buf)") auto
  have "dt_type det = Fallback" if "fst (detect_with_security env ?ctx buf (after_peek c w)) = Some (Inr det)" for det
    using that assms(2) v
    by (auto simp: detect_with_security_def Let_def detect_route_def load_connection_context_def detected_fallback_def
        split: prod.splits if_splits)
  then have "conn_kept c1 = conn_kept (after_peek c w)" using handle_peeked_fallback [OF peek(3)] eq by simp
  then show ?thesis by simp
qed simp

section \<open>What a connection delivers\<close>

text \<open>
  Between \<open>client\<close>, whose first bytes \<open>first\<close> were peeked, and the \<open>server\<close> it was connected to: each side has
  got a front of what the other sends, from its first byte on, and nothing else; all of \<open>first\<close> when the
  handler has ended well.
\<close>

definition carried :: "bytes \<Rightarrow> wire \<Rightarrow> wire \<Rightarrow> unit result option \<Rightarrow> connection \<Rightarrow> bool" where
  "carried first client server r c1 \<longleftrightarrow>
     (\<exists>to_server to_client. wi_sent (cn_upstream c1) = wi_sent server @ to_server
       \<and> wi_sent (cn_client c1) = wi_sent client @ to_client
       \<and> prefix to_server (script_data (wi_in client)) \<and> prefix to_client (script_data (wi_in server))
       \<and> (r = Some (Inr ()) \<longrightarrow> prefix first to_server))"

lemma carried_release: "carried first client server r (c1\<lparr>cn_app := a\<rparr>) = carried first client server r c1"
  by (simp add: carried_def)

lemma on_session_carried:
  assumes "on_session t c = (r, c1)" and "peeked client first (cn_client c)"
    and "\<And>s1. t (session_of c) = (r, s1) \<Longrightarrow> fronted first (cn_client c) server r s1"
  shows "carried first client server r c1"
proof -
  obtain s1 where t: "t (session_of c) = (r, s1)" and c1: "cn_client c1 = ss_client s1" "cn_upstream c1 = ss_upstream s1"
    using assms(1) by (auto simp: on_session_def split: prod.splits)
  show ?thesis using assms(2) assms(3) [OF t] unfolding carried_def fronted_def peeked_def c1 by simp
qed

lemma relayed_fronted: "relayed sch first client server st r s1 \<Longrightarrow> fronted first client server r s1"
  unfolding relayed_def fronted_def by blast

text \<open>What the connection is when detection has spoken, as far as the handlers look at it.\<close>

definition ready :: "connection \<Rightarrow> wire \<Rightarrow> connection \<Rightarrow> bool" where
  "ready c w c2 \<longleftrightarrow> cn_client c2 = w \<and> cn_upstream c2 = cn_upstream c \<and> conn_kept c2 = conn_kept c"

lemma ready_detected:
  assumes "detect_with_security env ctx buf (after_peek c w) = (q, c2)"
  shows "ready c w c2"
proof -
  have "keeps cn_upstream (detect_with_security env ctx buf)"
    by (auto simp: keeps_def detect_with_security_def Let_def split: prod.splits if_splits)
  from keepsD [OF this assms] keepsD [OF detect_client assms] keepsD [OF detect_kept assms] show ?thesis
    by (simp add: ready_def after_peek_def) (simp add: conn_kept_def total_one_def)
qed

lemma ready_simps: "ready c w c2 \<Longrightarrow> cn_client c2 = w \<and> cn_upstream c2 = cn_upstream c
    \<and> app_pool (cn_app c2) = app_pool (cn_app c) \<and> app_config (cn_app c2) = app_config (cn_app c)"
  by (simp add: ready_def conn_kept_def)

lemma handle_mtproto_plain:
  assumes "handle_mtproto env peek ctx det c = (r, c1)" and "dt_mode det \<noteq> Some Ee"
    and "sp_mode (split (app_config (cn_app c))) \<noteq> Front" and "gen_range_law (pe_dd (ae_proxy env))"
    and "peeked client peek (cn_client c)"
    and "\<forall>b v. dialled (ae_proxy env) (cc_network ctx) b v \<longrightarrow> RData [] \<notin> set (wi_in v)"
  shows "cn_client c1 = cn_client c \<and> cn_upstream c1 = cn_upstream c \<and> r \<noteq> Some (Inr ())
    \<or> (\<exists>b server. b \<in> set (bp_backends (app_pool (cn_app c))) \<and> dialled (ae_proxy env) (cc_network ctx) b server
         \<and> carried peek client server r c1)"
proof -
  let ?cfg = "app_config (cn_app c)"
  let ?c = "c\<lparr>cn_app := (cn_app c)\<lparr>app_stats := mtproto_one (app_stats (cn_app c))\<rparr>\<rparr>"
  let ?o = "\<lparr>po_preferred = chosen_backend ctx det, po_mode = (case dt_mode det of Some m \<Rightarrow> m | None \<Rightarrow> Classic),
      po_fragmentation = cc_fragmentation ctx, po_drs = drs ?cfg, po_dd = dd ?cfg, po_network = cc_network ctx,
      po_webhooks = webhooks ?cfg\<rparr>"
  let ?t = "proxy_mtproto (ae_proxy env) (mtproto ?cfg) ?o peek"
  have run: "on_session ?t ?c = (r, c1)"
    using assms(1,3) by (simp add: handle_mtproto_def bindT_def bump_def Let_def)
  obtain s1 where t: "?t (session_of ?c) = (r, s1)" using run by (auto simp: on_session_def split: prod.splits)
  have c1: "cn_client c1 = ss_client s1" "cn_upstream c1 = ss_upstream s1"
    using run t by (auto simp: on_session_def)
  have m: "po_mode ?o \<noteq> Ee" using assms(2) by (auto split: option.splits)
  have i: "RData [] \<notin> set (wi_in (ss_client (session_of ?c)))" using assms(5) by (simp add: session_of_def peeked_def)
  have n: "\<forall>b v. dialled (ae_proxy env) (po_network ?o) b v \<longrightarrow> RData [] \<notin> set (wi_in v)" using assms(6) by simp
  from plain_session_flow [OF m assms(4) i n t] show ?thesis
  proof
    assume "ss_client s1 = ss_client (session_of ?c) \<and> ss_upstream s1 = ss_upstream (session_of ?c) \<and> r \<noteq> Some (Inr ())"
    then show ?thesis by (simp add: c1 session_of_def)
  next
    assume "\<exists>b server. b \<in> set (bp_backends (ss_pool (session_of ?c))) \<and> dialled (ae_proxy env) (po_network ?o) b server
         \<and> relayed (pe_schedule (ae_proxy env)) peek (ss_client (session_of ?c)) server (ss_stats (session_of ?c)) r s1"
    then obtain b server where b: "b \<in> set (bp_backends (app_pool (cn_app c)))" "dialled (ae_proxy env) (cc_network ctx) b server"
        "fronted peek (cn_client c) server r s1"
      using relayed_fronted by (fastforce simp: session_of_def)
    have "carried peek client server r c1"
      by (rule on_session_carried [OF run]) (use assms(5) b(3) t in \<open>simp_all\<close>)
    then show ?thesis using b by blast
  qed
qed

lemma handle_peeked_detected:
  assumes "handle_peeked env ip peek c = (r, c1)"
    and "detect_with_security env (load_connection_context env (app_config (cn_app c))) peek c = (Some (Inr det), c2)"
  shows "(\<exists>e. ip_blacklist_of (cn_app c) = Inl e) \<and> r \<noteq> Some (Inr ()) \<and> c1 = c
    \<or> (\<exists>bl. ip_blacklist_of (cn_app c) = Inr bl
         \<and> serve_connection env ip (load_connection_context env (app_config (cn_app c))) bl peek det c2 = (r, c1))"
  using assms by (cases "ip_blacklist_of (cn_app c)") (auto simp: handle_peeked_def Let_def bindT_def liftT_def)

text \<open>
  C1. An MTProto client is connected, end to end: when detection takes its first bytes for a classic or dd
  secret (and this server is no split front), either it gets nothing and the handler does not end well, or it
  is connected to one dialled data centre of the pool, which receives a front of exactly what the
  client sends, from the first peeked byte on, while the client receives a front of what the data
  centre sends.
\<close>

theorem mtproto_connection_delivers:
  assumes "read_initial_peek (ae_peek_fuel env) (cn_client c) = (Some (Inr buf), w)" and "buf \<noteq> []"
    and "detect_with_security env (load_connection_context env (app_config (cn_app c))) buf (after_peek c w) = (Some (Inr det), c2)"
    and "dt_type det = Mtproto" and "dt_mode det \<noteq> Some Ee" and "sp_mode (split (app_config (cn_app c))) \<noteq> Front"
    and "gen_range_law (pe_dd (ae_proxy env))" and "RData [] \<notin> set (wi_in (cn_client c))"
    and "\<forall>b v. dialled (ae_proxy env) (network (app_config (cn_app c))) b v \<longrightarrow> RData [] \<notin> set (wi_in v)"
    and "handle_connection env peer c = (r, c1)"
  shows "wi_sent (cn_client c1) = wi_sent (cn_client c) \<and> cn_upstream c1 = cn_upstream c \<and> r \<noteq> Some (Inr ())
    \<or> (\<exists>b server. b \<in> set (bp_backends (app_pool (cn_app c)))
         \<and> dialled (ae_proxy env) (network (app_config (cn_app c))) b server \<and> carried buf (cn_client c) server r c1)"
proof -
  let ?ctx = "load_connection_context env (app_config (cn_app c))"
  have ctx: "cc_network ?ctx = network (app_config (cn_app c))" by (simp add: load_connection_context_def)
  have p: "peeked (cn_client c) buf w" using read_initial_peek_peeks [OF assms(1,8)] by simp
  have d: "detect_with_security env (load_connection_context env (app_config (cn_app (after_peek c w)))) buf (after_peek c w)
      = (Some (Inr det), c2)" using assms(3) by simp
  note c2 = ready_simps [OF ready_detected [OF assms(3)]]
  from handle_peeked_detected [OF handle_connection_peeked [OF assms(10,1,2)] d]
  show ?thesis
  proof
    assume "(\<exists>e. ip_blacklist_of (cn_app (after_peek c w)) = Inl e) \<and> r \<noteq> Some (Inr ()) \<and> c1 = after_peek c w"
    then show ?thesis using p by (simp add: after_peek_def peeked_def)
  next
    assume "\<exists>bl. ip_blacklist_of (cn_app (after_peek c w)) = Inr bl
      \<and> serve_connection env (peer_ip_of peer) (load_connection_context env (app_config (cn_app (after_peek c w)))) bl buf det c2 = (r, c1)"
    then obtain bl where s: "serve_connection env (peer_ip_of peer) ?ctx bl buf det c2 = (r, c1)" by auto
    obtain q l where a: "acquire (peer_ip_of peer) (case dt_label det of Some l \<Rightarrow> l | None \<Rightarrow> ''default'') (cc_max_per_ip ?ctx)
        (dt_max det) bl (limits_of c2) = (q, l)" by fastforce
    let ?c3 = "c2\<lparr>cn_app := (cn_app c2)\<lparr>app_limits := l\<rparr>\<rparr>"
    obtain r' c4 where h: "handle_mtproto env buf ?ctx det ?c3 = (r', c4)" by fastforce
    show ?thesis
    proof (cases q)
      case (Inl e)
      then show ?thesis using s a p c2 assms(4) by (auto simp: serve_connection_def with_slot_def peeked_def)
    next
      case (Inr u)
      then have r: "r' = r" "\<exists>b. c1 = c4\<lparr>cn_app := b\<rparr>"
        using s a h assms(4) by (auto simp: serve_connection_def with_slot_def split: option.splits intro: exI [of _ "cn_app c4"])
      have m: "sp_mode (split (app_config (cn_app ?c3))) \<noteq> Front" "peeked (cn_client c) buf (cn_client ?c3)"
          "\<forall>b v. dialled (ae_proxy env) (cc_network ?ctx) b v \<longrightarrow> RData [] \<notin> set (wi_in v)"
        using assms(6,9) c2 p by (simp_all add: ctx)
      from handle_mtproto_plain [OF h [unfolded r(1)] assms(5) m(1) assms(7) m(2,3)] show ?thesis
        using r(2) c2 p carried_release by (auto simp: ctx peeked_def)
    qed
  qed
qed

text \<open>
  C2. To a stranger the server is the site it fronts for: when detection does not take the first bytes for
  MTProto and the configuration names a target (by fronting, or by an upstream for what is not a
  ClientHello) that can be connected to, the target receives a front of exactly what the client sends, from the first
  peeked byte on, and the client receives a front of what the target sends and nothing from the proxy itself.
\<close>

theorem fronted_connection_delivers:
  assumes "read_initial_peek (ae_peek_fuel env) (cn_client c) = (Some (Inr buf), w)" and "buf \<noteq> []"
    and "detect_with_security env (load_connection_context env (app_config (cn_app c))) buf (after_peek c w) = (Some (Inr det), c2)"
    and "dt_type det = Fallback" and "is_ok (ip_blacklist_of (cn_app c))"
    and "resolve_fronting_target (fallback (app_config (cn_app c))) (dt_sni det) = Some target
      \<or> resolve_fronting_target (fallback (app_config (cn_app c))) (dt_sni det) = None
        \<and> \<not> looks_like_tls_client_hello buf \<and> fb_upstream (fallback (app_config (cn_app c))) = Some target"
    and "fe_connect (ae_fallback env) target = Some (Inr site)"
    and "RData [] \<notin> set (wi_in (cn_client c))" and "RData [] \<notin> set (wi_in site)"
    and "handle_connection env peer c = (r, c1)"
  shows "carried buf (cn_client c) site r c1"
proof -
  let ?ctx = "load_connection_context env (app_config (cn_app c))"
  have p: "peeked (cn_client c) buf w" using read_initial_peek_peeks [OF assms(1,8)] by simp
  have d: "detect_with_security env (load_connection_context env (app_config (cn_app (after_peek c w)))) buf (after_peek c w)
      = (Some (Inr det), c2)" using assms(3) by simp
  note c2 = ready_simps [OF ready_detected [OF assms(3)]]
  obtain bl where "serve_connection env (peer_ip_of peer) ?ctx bl buf det c2 = (r, c1)"
    using handle_peeked_detected [OF handle_connection_peeked [OF assms(10,1,2)] d] assms(5) by (auto simp: is_ok_iff)
  then have run: "handle_fallback_path env buf ?ctx det c2 = (r, c1)" using assms(4) by (simp add: serve_connection_def)
  have fb: "cc_fallback ?ctx = fallback (app_config (cn_app c))" by (simp add: load_connection_context_def)
  let ?t = "forward_tcp (ae_fallback env) buf target"
  obtain c3 where c3: "on_session ?t c3 = (r, c1)" "cn_client c3 = w"
    using run assms(6) c2
    by (auto simp: handle_fallback_path_def bindT_def bump_def fb handle_fallback_def looks_like_tls_client_hello_def)
  have "fronted buf (cn_client c3) site r s1" if "?t (session_of c3) = (r, s1)" for s1
  proof -
    have "RData [] \<notin> set (wi_in (ss_client (session_of c3)))" using p c3(2) by (simp add: peeked_def session_of_def)
    from forward_tcp_delivers [OF that this] show ?thesis using assms(7,9) by (simp add: session_of_def)
  qed
  then show ?thesis using on_session_carried [OF c3(1)] p c3(2) by simp
qed

lemma five_first: "5 \<le> length xs \<Longrightarrow> xs = xs ! 0 # xs ! 1 # xs ! 2 # xs ! 3 # xs ! 4 # drop 5 xs"
  by (auto simp: numeral_eq_Suc Suc_le_length_iff)

text \<open>
  C6. A client of a configured secret can be turned away before detection: a handshake is random, and when its first
  byte is one of the four record types and its fourth and fifth announce more than 4091 bytes, the handler takes it for
  the head of a TLS record that is too large to peek and ends, although the detector would have recognised
  the client. It is told nothing and nothing else happens.
\<close>

theorem handshake_taken_for_record:
  assumes "hex_laws (ce_hex (ae_crypto env))"
    and "from_routes (ce_hex (ae_crypto env)) (all_secrets (mtproto (app_config (cn_app c))))
           (all_sni_domains (tls (app_config (cn_app c)))) = Inr d"
    and "r \<in> set (all_secrets (mtproto (app_config (cn_app c))))"
    and "decode_secret (ce_hex (ae_crypto env)) (sr_secret r) = Inr key"
    and "list_all (\<lambda>x. length x = 64) draws" and "is_valid_proto_tag tag"
    and "generate_test_handshake (ce_sha (ae_crypto env)) (ce_ks (ae_crypto env)) draws key dc tag = Some h"
    and "draw_nonce draws = Some nonce" and "nonce ! 0 \<in> {0x14, 0x15, 0x16, 0x17}" and "4091 < be16 (nonce ! 3) (nonce ! 4)"
    and "wi_in (cn_client c) = RData (h @ rest) # es" and "length (h @ rest) \<le> peek_buffer_size" and "0 < ae_peek_fuel env"
  shows "dt_type (detect (ae_crypto env) now d (h @ rest)) = Mtproto
    \<and> handle_connection env peer c = (Some (Inl (Proxy ''TLS record too large to peek'')),
        after_peek c ((cn_client c)\<lparr>wi_in := es\<rparr>))"
proof
  show "dt_type (detect (ae_crypto env) now d (h @ rest)) = Mtproto"
    by (rule handshake_detected [OF assms(1-7)])
next
  have ln: "length nonce = 64" using nonce_drawn [OF assms(8)] assms(5) by (auto simp: list_all_iff)
  have lh: "length h = 64" by (rule test_handshake_says(1) [OF assms(7,5,6)])
  have same: "h ! k = nonce ! k" if "k < 56" for k
  proof -
    obtain u v where "h = splice (splice nonce 56 (xor_bytes tag u)) 60 v"
      using assms(7,8) by (auto simp: generate_test_handshake_def Let_def proto_tag_pos_def dc_idx_pos_def)
    moreover have "length (splice nonce 56 (xor_bytes tag u)) = 64"
      using ln valid_tag_length [OF assms(6)] by simp
    ultimately show ?thesis using that ln by (simp add: splice_nth_before)
  qed
  have "\<exists>t. h = h ! 0 # h ! 1 # h ! 2 # h ! 3 # h ! 4 # t"
    using five_first [of h] lh by auto
  then obtain a0 a1 a2 a3 a4 t where h: "h = a0 # a1 # a2 # a3 # a4 # t" by blast
  have a: "a0 = nonce ! 0" "a3 = nonce ! 3" "a4 = nonce ! 4" using same [of 0] same [of 3] same [of 4] h by simp_all
  have n: "tls_record_total_len (h @ rest) = Some (5 + be16 (nonce ! 3) (nonce ! 4))"
    using assms(9)
    by (auto simp: tls_record_total_len_def h a record_type_of_def usize_checked_add_def less_trans [OF be16_less])
  obtain f where f: "ae_peek_fuel env = Suc f" using assms(13) gr0_implies_Suc by blast
  have "read_initial_peek (ae_peek_fuel env) (cn_client c)
      = (Some (Inl (Proxy ''TLS record too large to peek'')), (cn_client c)\<lparr>wi_in := es\<rparr>)"
    using assms(10,11,12) n
    by (simp add: read_initial_peek_def f bindT_def proxy_err_def wire_read_def failT_def peek_buffer_size_def)
  then show "handle_connection env peer c = (Some (Inl (Proxy ''TLS record too large to peek'')),
        after_peek c ((cn_client c)\<lparr>wi_in := es\<rparr>))"
    by (simp add: handle_connection_def bindT_def bump_def on_socket_def after_peek_def)
qed

section \<open>Concrete connections\<close>

definition toy_site :: wire where
  "toy_site = \<lparr>wi_in = [RData [9, 9], REof], wi_out = replicate 9 (WAccept 3), wi_sent = []\<rparr>"

definition toy_fallback_env :: "wire fallback_env" where
  "toy_fallback_env = \<lparr>fe_fuel = 20, fe_schedule = replicate 60 True @ replicate 60 False,
     fe_connect = (\<lambda>a. if a = ''site:80'' then Some (Inr toy_site) else None), fe_read_file = (\<lambda>_. None), fe_exists = (\<lambda>_. False),
     fe_open = (\<lambda>_. None), fe_certs = (\<lambda>_. None), fe_pkcs8 = (\<lambda>_. None), fe_rsa = (\<lambda>_. None), fe_key_fits = (\<lambda>_ _. False),
     fe_tls_accept = (\<lambda>_ w. (Some (Inl InvalidData), w)), fe_tls_read = wire_read, fe_tls_write = wire_write, fe_tls_wire = (\<lambda>w. w),
     fe_decoy_random = replicate 32 0\<rparr>"

definition toy_acceptor_env :: "wire acceptor_env" where
  "toy_acceptor_env = \<lparr>ae_split = toy_split_env, ae_fallback = toy_fallback_env, ae_hasher = (\<lambda>d. of_nat (length d)), ae_peek_fuel = Suc 0\<rparr>"

definition toy_dc_config :: config where
  "toy_dc_config = toy_config\<lparr>mtproto := (mtproto toy_config)\<lparr>mt_backend := ''dc''\<rparr>,
     fallback := (fallback toy_config)\<lparr>fb_upstream := Some ''site:80''\<rparr>\<rparr>"

definition toy_connection :: "bytes \<Rightarrow> connection" where
  "toy_connection first = \<lparr>cn_app = (wd_app (toy_world toy_dc_config))\<lparr>app_pool := pool_from_config (mtproto toy_dc_config)\<rparr>,
     cn_client = \<lparr>wi_in = [RData first, RPending, RData [5], REof], wi_out = replicate 9 (WAccept 200), wi_sent = []\<rparr>,
     cn_upstream = \<lparr>wi_in = [], wi_out = [], wi_sent = []\<rparr>, cn_backs = [], cn_dials = 0, cn_now = 5, cn_spawned = []\<rparr>"

definition toy_key :: bytes where
  "toy_key = [0x01, 0x23, 0x45, 0x67, 0x89, 0xab, 0xcd, 0xef, 0x01, 0x23, 0x45, 0x67, 0x89, 0xab, 0xcd, 0xef]"

definition toy_hello_front :: bytes where
  "toy_hello_front = [0x16, 0x03, 0x01, 0x00, 0x40, 0x01]"

definition toy_get :: bytes where
  "toy_get = [0x47, 0x45, 0x54, 0x20]"

lemma toy_key_decoded: "decode_secret base16 ''0123456789abcdef0123456789abcdef'' = Inr toy_key"
  by code_simp

lemmas toy_bytes_defs = toy_hello_front_def toy_get_def toy_key_def

lemma toy_lengths: "tls_record_total_len toy_hello_front = Some 69" "tls_record_total_len toy_get = None"
    "tls_record_total_len toy_key = None" "length toy_hello_front = 6" "length toy_get = 4" "length toy_key = 16"
  by (simp_all add: toy_bytes_defs tls_record_total_len_def record_type_of_def usize_checked_add_def be16_def)

lemma toy_looks: "looks_like_tls_client_hello toy_hello_front" "\<not> looks_like_tls_client_hello toy_get"
  "\<not> looks_like_tls_client_hello toy_key"
  by (simp_all add: toy_bytes_defs looks_like_tls_client_hello_def record_type_of_def be16_def handshake_of_def)

lemma toy_peek:
  "read_initial_peek (Suc 0) (cn_client (toy_connection toy_hello_front))
     = (Some (Inr toy_hello_front), (cn_client (toy_connection toy_hello_front))\<lparr>wi_in := [RPending, RData [5], REof]\<rparr>)"
  "read_initial_peek (Suc 0) (cn_client (toy_connection toy_get))
     = (Some (Inr toy_get), (cn_client (toy_connection toy_get))\<lparr>wi_in := [RPending, RData [5], REof]\<rparr>)"
  "read_initial_peek (Suc 0) (cn_client (toy_connection toy_key))
     = (Some (Inr toy_key), (cn_client (toy_connection toy_key))\<lparr>wi_in := [RPending, RData [5], REof]\<rparr>)"
  using toy_looks
  by (simp_all add: read_initial_peek_def bindT_def proxy_err_def retT_def wire_read_def toy_connection_def peek_buffer_size_def
      toy_lengths)

lemma toy_routes:
  "\<exists>d. from_routes (ce_hex (ae_crypto toy_acceptor_env)) (all_secrets (mtproto toy_dc_config)) (all_sni_domains (tls toy_dc_config)) = Inr d
     \<and> de_routes d = [\<lparr>rb_label = ''default'', rb_secret = toy_key, rb_secret_hex = ''0123456789abcdef0123456789abcdef'',
          rb_mode = Classic, rb_backend = ''dc'', rb_max = 0\<rparr>]"
proof -
  have m: "secret_mode ''0123456789abcdef0123456789abcdef'' = Classic" by code_simp
  have s: "all_sni_domains (tls toy_dc_config) \<noteq> []"
    using tls_validate_sni [of "tls toy_config"] toy_config_valid by (simp add: toy_dc_config_def config_validate_def split: if_splits)
  show ?thesis
    using s by (simp add: from_routes_def all_secrets_def toy_dc_config_def toy_config_def test_minimal_def parse_route_def
        toy_key_decoded toy_acceptor_env_def toy_split_env_def toy_proxy_env_def toy_env_def m)
qed

lemma toy_blacklist: "ip_blacklist_of (cn_app (toy_connection first)) = Inr []"
  by (simp add: ip_blacklist_of_def toy_connection_def toy_world_def toy_dc_config_def toy_config_def test_minimal_def security_default_def)

lemma toy_env_simps: "ae_peek_fuel toy_acceptor_env = Suc 0" "ae_fallback toy_acceptor_env = toy_fallback_env"
    "ae_proxy toy_acceptor_env = toy_proxy_env"
  by (simp_all add: toy_acceptor_env_def toy_split_env_def)

lemma toy_connection_simps: "limits_of (toy_connection first) = limiter_new" "replay_of (toy_connection first) = new_cache 4"
    "app_config (cn_app (toy_connection first)) = toy_dc_config" "wi_in (cn_client (toy_connection first)) = [RData first, RPending, RData [5], REof]"
  by (simp_all add: toy_connection_def toy_world_def)

lemma connection_restores_limits_witness:
  "\<exists>r c1. handle_connection toy_acceptor_env None (toy_connection toy_get) = (r, c1) \<and> one_slot limiter_new r (app_limits (cn_app c1))"
proof -
  obtain r c1 where run: "handle_connection toy_acceptor_env None (toy_connection toy_get) = (r, c1)" by fastforce
  have "no_zero (app_limits (cn_app (toy_connection toy_get)))" by (simp add: toy_connection_simps no_zero_def limiter_new_def)
  from connection_restores_limits [OF this run] show ?thesis using run by (simp add: toy_connection_simps)
qed

lemma replayed_hello_kept_out_witness:
  "\<exists>r c1 r2 c3. handle_connection toy_acceptor_env None (toy_connection toy_hello_front) = (r, c1)
     \<and> handle_connection toy_acceptor_env None ((toy_connection toy_hello_front)\<lparr>cn_app := cn_app c1\<rparr>) = (r2, c3)
     \<and> conn_kept c3 = conn_kept ((toy_connection toy_hello_front)\<lparr>cn_app := cn_app c1\<rparr>)"
proof -
  obtain r c1 where run: "handle_connection toy_acceptor_env None (toy_connection toy_hello_front) = (r, c1)" by fastforce
  let ?c2 = "(toy_connection toy_hello_front)\<lparr>cn_app := cn_app c1\<rparr>"
  obtain r2 c3 where run2: "handle_connection toy_acceptor_env None ?c2 = (r2, c3)" by fastforce
  have i: "cache_inv (app_antireplay (cn_app (toy_connection toy_hello_front)))" by (simp add: toy_connection_simps cache_inv_new)
  have b: "is_ok (ip_blacklist_of (cn_app (toy_connection toy_hello_front)))" by (simp add: toy_blacklist)
  note p = toy_peek(1) [folded toy_env_simps(1)]
  have p2: "read_initial_peek (ae_peek_fuel toy_acceptor_env) (cn_client ?c2)
      = (Some (Inr toy_hello_front), (cn_client (toy_connection toy_hello_front))\<lparr>wi_in := [RPending, RData [5], REof]\<rparr>)"
    using p by simp
  have "conn_kept c3 = conn_kept ?c2"
    by (rule replayed_hello_kept_out [OF i b toy_looks(1) p run _ p2 run2]) simp
  then show ?thesis using run run2 by blast
qed

lemma toy_unrecognised:
  "de_routes d = [\<lparr>rb_label = l, rb_secret = toy_key, rb_secret_hex = h, rb_mode = Classic, rb_backend = b, rb_max = m\<rparr>]
     \<Longrightarrow> \<forall>route \<in> set (de_routes d). \<not> recognises env now d toy_get route"
  using toy_looks(2) obf2_long [of "ce_sha env" "ce_ks env" toy_get toy_key] sublist_length_le [of toy_key toy_get]
  by (auto simp: recognises_def by_bytes_def obfuscated2_iff ee_hello_iff partial_hello_iff toy_lengths handshake_len_def)

lemma stranger_kept_out_witness:
  "\<exists>r c1. handle_connection toy_acceptor_env None (toy_connection toy_get) = (r, c1) \<and> conn_kept c1 = conn_kept (toy_connection toy_get)"
proof -
  obtain r c1 where run: "handle_connection toy_acceptor_env None (toy_connection toy_get) = (r, c1)" by fastforce
  obtain d where d: "from_routes (ce_hex (ae_crypto toy_acceptor_env)) (all_secrets (mtproto (app_config (cn_app (toy_connection toy_get)))))
      (all_sni_domains (tls (app_config (cn_app (toy_connection toy_get))))) = Inr d"
    and r: "\<forall>route \<in> set (de_routes d). \<not> recognises (ae_crypto toy_acceptor_env) (pe_unix (ae_proxy toy_acceptor_env)) d toy_get route"
    using toy_routes toy_unrecognised unfolding toy_connection_simps by blast
  from stranger_kept_out [OF toy_peek(2) [folded toy_env_simps(1)] d r run] show ?thesis using run by blast
qed

lemma toy_detect:
  "\<exists>c2. detect_with_security toy_acceptor_env (load_connection_context toy_acceptor_env toy_dc_config) first (after_peek (toy_connection first) w)
     = (Some (detect_route toy_acceptor_env toy_dc_config (load_connection_context toy_acceptor_env toy_dc_config) first), c2)"
  if "\<not> looks_like_tls_client_hello first"
  using that by (simp add: detect_with_security_def Let_def toy_connection_simps)

lemma toy_detected_get: "\<exists>det. detect_route toy_acceptor_env toy_dc_config (load_connection_context toy_acceptor_env toy_dc_config) toy_get = Inr det
    \<and> dt_type det = Fallback"
proof -
  obtain d where d: "from_routes (ce_hex (ae_crypto toy_acceptor_env)) (all_secrets (mtproto toy_dc_config)) (all_sni_domains (tls toy_dc_config)) = Inr d"
      and r: "\<forall>route \<in> set (de_routes d). \<not> recognises (ae_crypto toy_acceptor_env) (pe_unix (ae_proxy toy_acceptor_env)) d toy_get route"
    using toy_routes toy_unrecognised by blast
  then have "dt_type (detect (ae_crypto toy_acceptor_env) (pe_unix (ae_proxy toy_acceptor_env)) d toy_get) \<noteq> Mtproto"
    using detect_verdict by blast
  then show ?thesis using d by (cases "dt_type (detect (ae_crypto toy_acceptor_env) (pe_unix (ae_proxy toy_acceptor_env)) d toy_get)")
    (simp_all add: detect_route_def load_connection_context_def)
qed

lemma toy_detected_key: "\<exists>det. detect_route toy_acceptor_env toy_dc_config (load_connection_context toy_acceptor_env toy_dc_config) toy_key = Inr det
    \<and> dt_type det = Mtproto \<and> dt_mode det = Some Classic"
proof -
  obtain d where d: "from_routes (ce_hex (ae_crypto toy_acceptor_env)) (all_secrets (mtproto toy_dc_config)) (all_sni_domains (tls toy_dc_config)) = Inr d"
      and r: "de_routes d = [\<lparr>rb_label = ''default'', rb_secret = toy_key, rb_secret_hex = ''0123456789abcdef0123456789abcdef'',
          rb_mode = Classic, rb_backend = ''dc'', rb_max = 0\<rparr>]"
    using toy_routes by blast
  have "contains_secret toy_key toy_key" by (simp add: contains_secret_iff)
  then have v: "\<exists>sni. detect (ae_crypto toy_acceptor_env) (pe_unix (ae_proxy toy_acceptor_env)) d toy_key = route_result sni (hd (de_routes d))"
    by (intro exI [of _ "try_client_hello_sni toy_key"]) (simp add: detect_def Let_def r)
  have "\<not> ja4_enforce (security toy_dc_config)"
    by (simp add: toy_dc_config_def toy_config_def test_minimal_def security_default_def)
  then show ?thesis using d v r by (auto simp: detect_route_def load_connection_context_def route_result_def detected_mtproto_def)
qed

lemma mtproto_connection_delivers_witness:
  "\<exists>r c1. handle_connection toy_acceptor_env None (toy_connection toy_key) = (r, c1)
     \<and> (wi_sent (cn_client c1) = [] \<and> r \<noteq> Some (Inr ()) \<or> carried toy_key (cn_client (toy_connection toy_key)) toy_dc r c1)"
proof -
  let ?c = "toy_connection toy_key" and ?w = "(cn_client (toy_connection toy_key))\<lparr>wi_in := [RPending, RData [5], REof]\<rparr>"
  obtain r c1 where run: "handle_connection toy_acceptor_env None ?c = (r, c1)" by fastforce
  obtain det c2 where d: "detect_with_security toy_acceptor_env (load_connection_context toy_acceptor_env (app_config (cn_app ?c))) toy_key
      (after_peek ?c ?w) = (Some (Inr det), c2)" "dt_type det = Mtproto" "dt_mode det \<noteq> Some Ee"
    using toy_detected_key toy_detect [OF toy_looks(3)] unfolding toy_connection_simps by fastforce
  have ne: "toy_key \<noteq> []" by (simp add: toy_key_def)
  have m: "sp_mode (split (app_config (cn_app ?c))) \<noteq> Front"
    by (simp add: toy_connection_simps toy_dc_config_def toy_config_def test_minimal_def split_default_def)
  have g: "gen_range_law (pe_dd (ae_proxy toy_acceptor_env))" by (simp add: toy_env_simps toy_gen_range)
  have i: "RData [] \<notin> set (wi_in (cn_client ?c))" by (simp add: toy_connection_simps toy_key_def)
  have net: "network toy_dc_config = po_network (toy_options Dd)"
    by (simp add: toy_options_def toy_dc_config_def toy_config_def test_minimal_def)
  have n: "\<forall>b v. dialled (ae_proxy toy_acceptor_env) (network (app_config (cn_app ?c))) b v \<longrightarrow> RData [] \<notin> set (wi_in v)"
    unfolding toy_env_simps toy_connection_simps net toy_dials by (simp add: toy_dc_def)
  from mtproto_connection_delivers [OF toy_peek(3) [folded toy_env_simps(1)] ne d m g i n run] show ?thesis
    using run unfolding toy_env_simps toy_connection_simps net toy_dials by (auto simp: toy_connection_def)
qed

lemma fronted_connection_delivers_witness:
  "\<exists>r c1. handle_connection toy_acceptor_env None (toy_connection toy_get) = (r, c1)
     \<and> carried toy_get (cn_client (toy_connection toy_get)) toy_site r c1"
proof -
  let ?c = "toy_connection toy_get" and ?w = "(cn_client (toy_connection toy_get))\<lparr>wi_in := [RPending, RData [5], REof]\<rparr>"
  obtain r c1 where run: "handle_connection toy_acceptor_env None ?c = (r, c1)" by fastforce
  obtain det c2 where d: "detect_with_security toy_acceptor_env (load_connection_context toy_acceptor_env (app_config (cn_app ?c))) toy_get
      (after_peek ?c ?w) = (Some (Inr det), c2)" "dt_type det = Fallback"
    using toy_detected_get toy_detect [OF toy_looks(2)] unfolding toy_connection_simps by fastforce
  have ne: "toy_get \<noteq> []" by (simp add: toy_get_def)
  have b: "is_ok (ip_blacklist_of (cn_app ?c))" by (simp add: toy_blacklist)
  have t: "resolve_fronting_target (fallback (app_config (cn_app ?c))) (dt_sni det) = Some ''site:80''
      \<or> resolve_fronting_target (fallback (app_config (cn_app ?c))) (dt_sni det) = None
        \<and> \<not> looks_like_tls_client_hello toy_get \<and> fb_upstream (fallback (app_config (cn_app ?c))) = Some ''site:80''"
    using toy_looks(2) by (simp add: toy_connection_simps toy_dc_config_def toy_config_def test_minimal_def resolve_fronting_target_def)
  have s: "fe_connect (ae_fallback toy_acceptor_env) ''site:80'' = Some (Inr toy_site)" by (simp add: toy_env_simps toy_fallback_env_def)
  have i: "RData [] \<notin> set (wi_in (cn_client ?c))" by (simp add: toy_connection_simps toy_get_def)
  have j: "RData [] \<notin> set (wi_in toy_site)" by (simp add: toy_site_def)
  from fronted_connection_delivers [OF toy_peek(2) [folded toy_env_simps(1)] ne d b t s i j run] show ?thesis using run by blast
qed

definition toy_record_nonce :: bytes where
  "toy_record_nonce = map u8_of ([22, 1, 2, 200, 4] @ [5..<64])"

lemma handshake_taken_for_record_witness:
  "\<exists>h d. generate_test_handshake toy_sha toy_ks [toy_record_nonce] toy_key 2 proto_tag_secure = Some h
     \<and> from_routes base16 (all_secrets (mtproto toy_dc_config)) (all_sni_domains (tls toy_dc_config)) = Inr d
     \<and> dt_type (detect toy_env 0 d (h @ [])) = Mtproto
     \<and> fst (handle_connection toy_acceptor_env None (toy_connection (h @ []))) = Some (Inl (Proxy ''TLS record too large to peek''))"
proof -
  have ce: "ae_crypto toy_acceptor_env = toy_env" "ce_hex toy_env = base16" "ce_sha toy_env = toy_sha" "ce_ks toy_env = toy_ks"
    by (simp_all add: toy_env_simps toy_proxy_env_def toy_env_def)
  obtain d where d: "from_routes base16 (all_secrets (mtproto toy_dc_config)) (all_sni_domains (tls toy_dc_config)) = Inr d"
    using toy_routes unfolding ce by blast
  have n: "draw_nonce [toy_record_nonce] = Some toy_record_nonce" by code_simp
  then obtain h where h: "generate_test_handshake toy_sha toy_ks [toy_record_nonce] toy_key 2 proto_tag_secure = Some h"
    by (simp add: generate_test_handshake_def)
  let ?r = "\<lparr>sr_label = ''default'', sr_secret = ''0123456789abcdef0123456789abcdef'', sr_mode = Classic, sr_backend = ''dc'', sr_max_connections = 0\<rparr>"
  have m: "secret_mode ''0123456789abcdef0123456789abcdef'' = Classic" by code_simp
  have r: "?r \<in> set (all_secrets (mtproto toy_dc_config))"
    by (simp add: all_secrets_def toy_dc_config_def toy_config_def test_minimal_def m)
  have ln: "list_all (\<lambda>x. length x = 64) [toy_record_nonce]" by (simp add: toy_record_nonce_def)
  have v: "is_valid_proto_tag proto_tag_secure" by (simp add: is_valid_proto_tag_def)
  have lh: "length h = 64" by (rule test_handshake_says(1) [OF h ln v])
  have k: "decode_secret base16 (sr_secret ?r) = Inr toy_key" by (simp add: toy_key_decoded)
  have f0: "toy_record_nonce ! 0 \<in> {0x14, 0x15, 0x16, 0x17}" by (simp add: toy_record_nonce_def u8_of_def)
  have f3: "4091 < be16 (toy_record_nonce ! 3) (toy_record_nonce ! 4)" by (simp add: toy_record_nonce_def u8_of_def be16_def)
  have i: "wi_in (cn_client (toy_connection (h @ []))) = RData (h @ []) # [RPending, RData [5], REof]" by (simp add: toy_connection_simps)
  have l: "length (h @ []) \<le> peek_buffer_size" using lh by (simp add: peek_buffer_size_def)
  have p: "0 < ae_peek_fuel toy_acceptor_env" by (simp add: toy_env_simps)
  note t = handshake_taken_for_record [of toy_acceptor_env "toy_connection (h @ [])" d ?r toy_key "[toy_record_nonce]" proto_tag_secure
      2 h toy_record_nonce "[]" "[RPending, RData [5], REof]" 0 None, unfolded ce toy_connection_simps(3),
      OF hex_laws_base16 d r k ln v h n f0 f3 i l p]
  show ?thesis using t h d by auto
qed

end
