(* ===== verification/Server.thy ===== *)
theory Server
  imports Acceptor Metrics_Text
begin

text \<open>
  The start of the program and its listeners: \<^verbatim>\<open>run\<close> of \<^verbatim>\<open>src/bin/stealth-gate.rs\<close>, \<^verbatim>\<open>run_acceptor\<close> of
  \<^verbatim>\<open>src/acceptor.rs\<close>, \<^verbatim>\<open>run_back_listener\<close> of \<^verbatim>\<open>src/split.rs\<close> and the metrics server of \<^verbatim>\<open>src/metrics.rs\<close>. A listener
  is the sequence of its events; what it hands to a handler is a value of the type \<open>'c\<close>. The tasks that
  are spawned are named, in the order in which they are; binding a socket is a parameter.
\<close>

section \<open>Accept loops\<close>

datatype 'c accept_event = Accepted 'c | AcceptFailed io_kind | Shutdown

text \<open>The connections that get a handler, and the end of the loop; \<^term>\<open>None\<close> while it waits.\<close>

fun accept_loop :: "string \<Rightarrow> 'c accept_event list \<Rightarrow> 'c list \<times> unit result option" where
  "accept_loop msg [] = ([], None)"
| "accept_loop msg (Accepted c # es) = (case accept_loop msg es of (cs, r) \<Rightarrow> (c # cs, r))"
| "accept_loop msg (AcceptFailed k # es) = ([], Some (Inl (Proxy msg)))"
| "accept_loop msg (Shutdown # es) = ([], Some (Inr ()))"

definition bind_then_accept :: "(socket_addr \<Rightarrow> bool) \<Rightarrow> socket_addr \<Rightarrow> string \<Rightarrow> 'c accept_event list \<Rightarrow> 'c list \<times> unit result option" where
  "bind_then_accept can_bind addr msg es =
     (if can_bind addr then accept_loop msg es else ([], Some (Inl (Proxy ''bind''))))"

definition run_back_listener :: "(socket_addr \<Rightarrow> bool) \<Rightarrow> config \<Rightarrow> 'c accept_event list \<Rightarrow> 'c list \<times> unit result option" where
  "run_back_listener can_bind c es =
     (if sp_mode (split c) \<noteq> Back then ([], Some (Inr ()))
      else (case back_socket_addr (split c) of
          Inl e \<Rightarrow> ([], Some (Inl e))
        | Inr addr \<Rightarrow> bind_then_accept can_bind addr ''split accept'' es))"

section \<open>Metrics\<close>

text \<open>The listening address, if the server is enabled, and its routes: content type and body.\<close>

definition metrics_addr :: "metrics_config \<Rightarrow> socket_addr result option" where
  "metrics_addr c =
     (if \<not> me_enabled c then None
      else Some (ok_or (Config ''metrics addr'') (parse_socket_addr (me_host c @ '':'' @ dec_string (unat (me_port c))))))"

definition metrics_route :: "(nat \<Rightarrow> nat) \<Rightarrow> string \<Rightarrow> world \<Rightarrow> (string \<times> string) option \<times> world" where
  "metrics_route pick path w =
     (if path = ''/metrics'' then
        (case render_prometheus pick w of (page, w1) \<Rightarrow> (Some (''text/plain; version=0.0.4; charset=utf-8'', page), w1))
      else if path = ''/healthz'' then (Some (''text/plain; charset=utf-8'', ''ok''), w)
      else (None, w))"

section \<open>The start\<close>

datatype service = AdminSocket string | WebUi webui_config | MetricsServer | BackListener

record 'c started =
  sd_services :: "service list"
  sd_hooks :: "(string list \<times> webhook_payload) list"
  sd_served :: "'c list"

definition start_services :: "config \<Rightarrow> service list" where
  "start_services c =
     (case ad_socket (admin c) of Some path \<Rightarrow> [AdminSocket path] | None \<Rightarrow> [])
     @ (if ui_enabled (webui c) then [WebUi (webui c)] else []) @ [MetricsServer]
     @ (if sp_mode (split c) = Back then [BackListener] else [])"

definition run_acceptor :: "(socket_addr \<Rightarrow> bool) \<Rightarrow> nat \<Rightarrow> app_state \<Rightarrow> 'c accept_event list \<Rightarrow> 'c started \<times> unit result option" where
  "run_acceptor can_bind now app es =
     (let c = app_config app in
      case listen_socket_addr (listen c) of
        Inl e \<Rightarrow> (\<lparr>sd_services = [], sd_hooks = [], sd_served = []\<rparr>, Some (Inl e))
      | Inr addr \<Rightarrow>
          (case bind_then_accept can_bind addr ''accept'' es of
             (cs, r) \<Rightarrow> (\<lparr>sd_services = start_services c,
                sd_hooks = (case dispatch (webhooks c) ProxyStarted None now of None \<Rightarrow> [] | Some j \<Rightarrow> [j]), sd_served = cs\<rparr>, r)))"

text \<open>
  \<^verbatim>\<open>run\<close>: load, build the state, log and accept. The fields of the log record hold the two addresses, with a \<^verbatim>\<open>?\<close>
  each; they are evaluated when the level is enabled (\<open>info\<close>). The state comes with the file system,
  which the creation of the first user may have changed.
\<close>

definition run_main ::
    "app_lib \<Rightarrow> (socket_addr \<Rightarrow> bool) \<Rightarrow> bool \<Rightarrow> nat \<Rightarrow> nat \<Rightarrow> string \<Rightarrow> file_system \<Rightarrow> 'c accept_event list
     \<Rightarrow> ('c started \<times> unit result option) result \<times> file_system" where
  "run_main A can_bind info now salt path fs es =
     (case from_file (al_parse A) fs path of
        Inl e \<Rightarrow> (Inl e, fs)
      | Inr c \<Rightarrow>
          (case new_state A now salt c path fs of
             (Inl e, fs1) \<Rightarrow> (Inl e, fs1)
           | (Inr app, fs1) \<Rightarrow>
               (bindR (if info then bindR (listen_socket_addr (listen (app_config app))) (\<lambda>_. Inr ()) else Inr ()) (\<lambda>_.
                bindR (if info then bindR (webui_socket_addr (webui (app_config app))) (\<lambda>_. Inr ()) else Inr ()) (\<lambda>_.
                Inr (run_acceptor can_bind now app es))), fs1)))"

section \<open>Properties\<close>

fun accepted_of_event :: "'c accept_event \<Rightarrow> 'c option" where
  "accepted_of_event (Accepted c) = Some c"
| "accepted_of_event _ = None"

lemma accept_loop_exact:
  "accept_loop msg es = (List.map_filter accepted_of_event (takeWhile (\<lambda>e. accepted_of_event e \<noteq> None) es),
     case dropWhile (\<lambda>e. accepted_of_event e \<noteq> None) es of
       [] \<Rightarrow> None
     | AcceptFailed k # _ \<Rightarrow> Some (Inl (Proxy msg))
     | _ \<Rightarrow> Some (Inr ()))"
  by (induction msg es rule: accept_loop.induct) (simp_all add: List.map_filter_simps)

lemma new_state_config: "new_state A now salt c path fs = (Inr app, fs1) \<Longrightarrow> app_config app = c"
  by (auto simp: new_state_def split: prod.splits sum.splits)

text \<open>
  C20. The server serves every connection it accepts until the first accept that fails, and that one ends it: when the
  program has started on a file that loads, with addresses that are well formed and can be bound, exactly the
  connections accepted before the first failing accept or shutdown get a handler, in their order; a failing accept
  ends the program with an error, and only a shutdown without one.
\<close>

theorem server_serves_until_failure:
  assumes "from_file (al_parse A) fs path = Inr c" and "new_state A now salt c path fs = (Inr app, fs1)"
    and "listen_socket_addr (listen c) = Inr addr" and "info \<Longrightarrow> is_ok (webui_socket_addr (webui c))" and "can_bind addr"
  shows "\<exists>st. run_main A can_bind info now salt path fs es = (Inr (st, snd (accept_loop ''accept'' es)), fs1)
    \<and> sd_served st = List.map_filter accepted_of_event (takeWhile (\<lambda>e. accepted_of_event e \<noteq> None) es)
    \<and> (snd (accept_loop ''accept'' es) = (case dropWhile (\<lambda>e. accepted_of_event e \<noteq> None) es of
         [] \<Rightarrow> None | AcceptFailed k # _ \<Rightarrow> Some (Inl (Proxy ''accept'')) | _ \<Rightarrow> Some (Inr ())))"
  using assms new_state_config [OF assms(2)]
  by (auto simp: run_main_def run_acceptor_def bind_then_accept_def accept_loop_exact is_ok_iff)

lemma toy_listen: "listen_socket_addr (listen toy_config) = Inr (SocketAddr (V4 127 0 0 1) 8443)"
proof -
  have "parse_socket_addr ''127.0.0.1:8443'' = Some (SocketAddr (V4 127 0 0 1) 8443)"
    by (simp add: parse_socket_addr_def read_socket_def read_ipv4_def read_octet_def read_number_def radix_digit_def is_digit_def
        hex_value_def radix_value_def read_port_def Let_def)
  moreover have "digit_char 8 = CHR ''8''" "digit_char 4 = CHR ''4''" "digit_char 3 = CHR ''3''" by code_simp+
  then have "dec_string 8443 = ''8443''" by (simp add: dec_string.simps)
  ultimately show ?thesis by (simp add: listen_socket_addr_def host_port_addr_def toy_config_def test_minimal_def)
qed

lemma server_serves_until_failure_witness:
  "\<exists>st. run_main toy_app_lib (\<lambda>_. True) False 0 0 ''c'' [''c'' \<mapsto> ''1'', ''u.json'' \<mapsto> ''a''] [Accepted (5 :: nat), Accepted 6, AcceptFailed OtherIo, Accepted 7]
       = (Inr (st, Some (Inl (Proxy ''accept''))), [''c'' \<mapsto> ''1'', ''u.json'' \<mapsto> ''a'']) \<and> sd_served st = [5, 6]"
proof -
  let ?fs = "[''c'' \<mapsto> ''1'', ''u.json'' \<mapsto> ''a'']"
  have f: "from_file (al_parse toy_app_lib) ?fs ''c'' = Inr toy_config"
    using toy_config_valid by (simp add: from_file_def toy_app_lib_def)
  have u: "users_file (webui toy_config) = ''u.json''" by (simp add: toy_config_def test_minimal_def)
  have n: "\<exists>app. new_state toy_app_lib 0 0 toy_config ''c'' ?fs = (Inr app, ?fs)"
    by (simp add: new_state_def u load_users_def toy_app_lib_def toy_user_lib_def list_users_def Let_def)
  then obtain app where n: "new_state toy_app_lib 0 0 toy_config ''c'' ?fs = (Inr app, ?fs)" by blast
  from server_serves_until_failure [OF f n toy_listen, of False "\<lambda>_. True" "[Accepted (5 :: nat), Accepted 6, AcceptFailed OtherIo, Accepted 7]"]
  show ?thesis by (simp add: List.map_filter_simps)
qed

text \<open>The address of a web interface that is switched off can keep the program from starting.\<close>

lemma disabled_webui_address_checked:
  "from_file (al_parse A) fs path = Inr c \<Longrightarrow> new_state A now salt c path fs = (Inr app, fs1)
     \<Longrightarrow> is_ok (listen_socket_addr (listen c)) \<Longrightarrow> webui_socket_addr (webui c) = Inl e
     \<Longrightarrow> run_main A can_bind True now salt path fs es = (Inl e, fs1)"
  using new_state_config [of A now salt c path fs app fs1] by (auto simp: run_main_def is_ok_iff)

end
