(* ===== verification/Mcp_Service.thy ===== *)
theory Mcp_Service
  imports Admin_Api
begin

text \<open>
  The tools of the MCP server (\<^verbatim>\<open>src/mcp/service.rs\<close>). \<open>ms_proxy\<close> is the state of the running proxy and \<open>ms_local\<close> the
  \<^verbatim>\<open>Arc<AppState>\<close> the server was given: \<open>OwnState\<close>, a state of its own that the process of \<^verbatim>\<open>stealth-gate-mcp\<close> has built
  from the configuration file; \<open>ProxyState\<close>, the proxy's, shared, when the server runs in the process of the proxy; or none,
  when there is only the administration socket. The file system is common. The protocol library is
  not modelled; JSON is a parameter, as in \<open>Admin_Api\<close>.
\<close>

section \<open>State\<close>

datatype state_arc = OwnState app_state | ProxyState

record mcp_system =
  ms_local :: "state_arc option"
  ms_socket :: "string option"
  ms_proxy :: app_state
  ms_fs :: file_system
  ms_now :: nat
  ms_spawned :: "(string list \<times> webhook_payload) list"

text \<open>\<open>mc_reachable\<close> says whether a connection to the socket succeeds.\<close>

record mcp_lib =
  mc_admin :: admin_lib
  mc_reachable :: "string \<Rightarrow> bool"
  mc_read_stats :: "string \<Rightarrow> stats option"
  mc_error_text :: "sg_error \<Rightarrow> string"

datatype 'a tool_result = ToolError string | ToolOk 'a

text \<open>What an \<^verbatim>\<open>Arc\<close> points to, and an update through it.\<close>

fun arc_state :: "app_state \<Rightarrow> state_arc \<Rightarrow> app_state" where
  "arc_state proxy (OwnState l) = l"
| "arc_state proxy ProxyState = proxy"

fun set_arc :: "state_arc \<Rightarrow> app_state \<Rightarrow> mcp_system \<Rightarrow> mcp_system" where
  "set_arc (OwnState _) l s = s\<lparr>ms_local := Some (OwnState l)\<rparr>"
| "set_arc ProxyState l s = s\<lparr>ms_proxy := l\<rparr>"

definition mcp_new :: "state_arc \<Rightarrow> app_state \<Rightarrow> file_system \<Rightarrow> nat \<Rightarrow> mcp_system" where
  "mcp_new state proxy fs now =
     \<lparr>ms_local = Some state, ms_socket = ad_socket (admin (app_config (arc_state proxy state))), ms_proxy = proxy, ms_fs = fs, ms_now = now, ms_spawned = []\<rparr>"

definition mcp_from_admin_socket :: "string \<Rightarrow> app_state \<Rightarrow> file_system \<Rightarrow> nat \<Rightarrow> mcp_system" where
  "mcp_from_admin_socket path proxy fs now =
     \<lparr>ms_local = None, ms_socket = Some path, ms_proxy = proxy, ms_fs = fs, ms_now = now, ms_spawned = []\<rparr>"

section \<open>The administration socket\<close>

text \<open>
  \<^verbatim>\<open>admin_request\<close> against the proxy's handler, for a request that one read brings; a handler that fails
  closes the connection, and the answer is empty.
\<close>

definition admin_request :: "mcp_lib \<Rightarrow> string \<Rightarrow> string \<Rightarrow> string \<Rightarrow> string option \<Rightarrow> mcp_system \<Rightarrow> string result \<times> mcp_system" where
  "admin_request M path mth target body s =
     (if \<not> mc_reachable M path then (Inl (Proxy ''connecting to the admin socket''), s)
      else (case handle_admin_request (mc_admin M) (admin_request_text mth target body)
                   \<lparr>wd_fs = ms_fs s, wd_app = ms_proxy s, wd_now = ms_now s, wd_spawned = ms_spawned s\<rparr> of
          (answer, w) \<Rightarrow>
            (Inr (admin_reply_body (case answer of None \<Rightarrow> [] | Some t \<Rightarrow> t)),
             s\<lparr>ms_proxy := wd_app w, ms_fs := wd_fs w, ms_spawned := wd_spawned w\<rparr>)))"

section \<open>The tools\<close>

definition fetch_remote :: "mcp_lib \<Rightarrow> string \<Rightarrow> mcp_system \<Rightarrow> stats tool_result \<times> mcp_system" where
  "fetch_remote M path s =
     (case admin_request M path ''GET'' ''/stats'' None s of
        (Inl e, s1) \<Rightarrow> (ToolError (mc_error_text M e), s1)
      | (Inr body, s1) \<Rightarrow>
          (case mc_read_stats M body of None \<Rightarrow> (ToolError ''JSON'', s1) | Some st \<Rightarrow> (ToolOk st, s1)))"

definition fetch_stats :: "mcp_lib \<Rightarrow> mcp_system \<Rightarrow> stats tool_result \<times> mcp_system" where
  "fetch_stats M s =
     (case (ms_socket s, map_option (arc_state (ms_proxy s)) (ms_local s)) of
        (Some path, Some l) \<Rightarrow>
          if 0 < total_connections (app_stats l) then (ToolOk (stats_snapshot l), s) else fetch_remote M path s
      | (Some path, None) \<Rightarrow> fetch_remote M path s
      | (None, Some l) \<Rightarrow> (ToolOk (stats_snapshot l), s)
      | (None, None) \<Rightarrow> (ToolError ''no local state and no admin socket'', s))"

definition with_local :: "mcp_lib \<Rightarrow> (world \<Rightarrow> 'a result \<times> world) \<Rightarrow> mcp_system \<Rightarrow> 'a tool_result \<times> mcp_system" where
  "with_local M f s =
     (case ms_local s of
        None \<Rightarrow> (ToolError ''the operation needs a local state'', s)
      | Some arc \<Rightarrow>
          (case f \<lparr>wd_fs = ms_fs s, wd_app = arc_state (ms_proxy s) arc, wd_now = ms_now s, wd_spawned = ms_spawned s\<rparr> of
             (r, w) \<Rightarrow> (case r of Inl e \<Rightarrow> ToolError (mc_error_text M e) | Inr a \<Rightarrow> ToolOk a,
               (set_arc arc (wd_app w) s)\<lparr>ms_fs := wd_fs w, ms_spawned := wd_spawned w\<rparr>)))"

text \<open>The answer of a tool is text; a value is printed as JSON.\<close>

definition in_json :: "('a \<Rightarrow> string option) \<Rightarrow> 'a tool_result \<times> mcp_system \<Rightarrow> string tool_result \<times> mcp_system" where
  "in_json json answer =
     (case answer of
        (ToolError m, s) \<Rightarrow> (ToolError m, s)
      | (ToolOk a, s) \<Rightarrow> (case json a of None \<Rightarrow> ToolError ''JSON'' | Some t \<Rightarrow> ToolOk t, s))"

datatype mcp_tool = GetStats | GetConfig | GetProxyLink | ReloadConfig | UpdateSecret string

fun call_tool :: "mcp_lib \<Rightarrow> mcp_tool \<Rightarrow> mcp_system \<Rightarrow> string tool_result \<times> mcp_system" where
  "call_tool M GetStats s = in_json (ad_stats_json (mc_admin M)) (fetch_stats M s)"
| "call_tool M GetConfig s =
     in_json (ad_summary_json (mc_admin M)) (with_local M (\<lambda>w. case read_summary (ad_pick (mc_admin M)) w of (c, w1) \<Rightarrow> (Inr c, w1)) s)"
| "call_tool M GetProxyLink s =
     in_json (ad_link_json (mc_admin M)) (with_local M (\<lambda>w. (proxy_link (al_hex (ad_app (mc_admin M))) (wd_app w), w)) s)"
| "call_tool M ReloadConfig s =
     in_json (\<lambda>_. Some (''{'' @ quoted ''status'' @ '':'' @ quoted ''reloaded'' @ ''}'')) (with_local M (app_apply (ad_app (mc_admin M)) Reload) s)"
| "call_tool M (UpdateSecret secret) s =
     in_json (\<lambda>_. Some (''{'' @ quoted ''status'' @ '':'' @ quoted ''secret_updated'' @ ''}''))
       (with_local M (app_apply (ad_app (mc_admin M)) (Secret secret)) s)"

section \<open>Properties\<close>

lemma stats_request:
  "parse_http_request (admin_request_text ''GET'' ''/stats'' None) = (''GET'', ''/stats'', Some [])"
proof -
  have "plain_word ''GET''" "plain_word ''/stats''" by (simp_all add: plain_word_def visible_def)
  from admin_exchange_parts [OF this, of None "\<lparr>ar_status = 200, ar_type = ''text/plain'', ar_body = []\<rparr>"] show ?thesis
    by (simp add: blank_crlf_def crlf_def header_line_def)
qed

lemma request_not_empty: "plain_word mth \<Longrightarrow> admin_request_text mth path body \<noteq> []"
  by (simp add: admin_request_text_def Let_def plain_word_def)

lemma admin_words: "plain_word ''GET''" "plain_word ''POST''" "plain_word ''/reload''"
  by (simp_all add: plain_word_def visible_def)

lemma remote_stats:
  "admin_request M path ''GET'' ''/stats'' None s =
     (if \<not> mc_reachable M path then (Inl (Proxy ''connecting to the admin socket''), s)
      else (Inr (admin_reply_body (case ad_stats_json (mc_admin M) (app_stats (ms_proxy s)) of None \<Rightarrow> []
              | Some t \<Rightarrow> to_http_response \<lparr>ar_status = 200, ar_type = ''application/json'', ar_body = t\<rparr>)), s))"
  by (simp add: admin_request_def handle_admin_request_def request_not_empty admin_words stats_request handle_admin_def stats_snapshot_def json_response_def
      split: option.splits)

text \<open>A request to reload that finds a configuration in the file.\<close>

lemma remote_reload:
  assumes "mc_reachable M path"
    and "from_file (al_parse (ad_app (mc_admin M))) (ms_fs s) (app_config_path (ms_proxy s)) = Inr c"
  shows "\<exists>s2. admin_request M path ''POST'' ''/reload'' None s = (Inr (''{'' @ quoted ''status'' @ '':'' @ quoted ''reloaded'' @ ''}''), s2)
    \<and> app_config (ms_proxy s2) = c \<and> in_sync (ms_proxy s2)
    \<and> app_stats (ms_proxy s2) = app_stats (ms_proxy s) \<and> app_users (ms_proxy s2) = app_users (ms_proxy s)"
proof -
  let ?w = "\<lparr>wd_fs = ms_fs s, wd_app = ms_proxy s, wd_now = ms_now s, wd_spawned = ms_spawned s\<rparr>"
  let ?b = "''{'' @ quoted ''status'' @ '':'' @ quoted ''reloaded'' @ ''}''"
  let ?r = "\<lparr>ar_status = 200, ar_type = ''application/json'', ar_body = ?b\<rparr>"
  obtain r w1 where run: "reload_config (ad_app (mc_admin M)) ?w = (r, w1)" by fastforce
  have ok: "r = Inr ()" "app_config (wd_app w1) = c" "in_sync (wd_app w1)"
      "app_stats (wd_app w1) = app_stats (ms_proxy s)" "app_users (wd_app w1) = app_users (ms_proxy s)"
    using reload_cases [OF run] assms(2) run by (auto simp: reload_config_def app_step_defs split: option.splits)
  have none: "split_at blank_crlf ?b = None" by (simp add: quoted_def blank_crlf_def crlf_def starts_with_def)
  have x: "parse_http_request (admin_request_text ''POST'' ''/reload'' None) = (''POST'', ''/reload'', Some [])"
      "admin_reply_body (to_http_response ?r) = ?b"
    using admin_exchange_parts [OF admin_words(2,3), of None ?r] none by (simp_all add: blank_crlf_def crlf_def header_line_def)
  have "handle_admin_request (mc_admin M) (admin_request_text ''POST'' ''/reload'' None) ?w = (Some (to_http_response ?r), w1)"
    using run ok(1) by (simp add: handle_admin_request_def request_not_empty admin_words x(1) handle_admin_def perform_def ok_message_def)
  then show ?thesis using assms(1) ok(2-5) x(2) by (simp add: admin_request_def)
qed

text \<open>
  C37. A new secret through the MCP server: when \<^verbatim>\<open>update_secret\<close> has succeeded, the secret is valid and the configuration
  file holds the configuration of the server's state with that secret. A server that shares the proxy's state has given
  it to the proxy; for one in a process of its own (the only one the repository builds) the proxy has gone on with the
  state it had, until it is told to reload over the administration socket: that request then
  succeeds, and the proxy has the new configuration, its backend pool with it, and keeps its counters and its users.
\<close>

theorem mcp_secret_reaches_the_proxy:
  assumes "app_lib_laws (ad_app (mc_admin M))" and "ms_local s = Some arc"
    and "app_config_path (ms_proxy s) = app_config_path (arc_state (ms_proxy s) arc)"
    and "call_tool M (UpdateSecret secret) s = (ToolOk t, s1)" and "mc_reachable M path"
    and "c = (app_config (arc_state (ms_proxy s) arc))\<lparr>mtproto := (mtproto (app_config (arc_state (ms_proxy s) arc)))\<lparr>mt_secret := secret\<rparr>\<rparr>"
  shows "validate_secret secret = Inr ()
    \<and> from_file (al_parse (ad_app (mc_admin M))) (ms_fs s1) (app_config_path (ms_proxy s)) = Inr c
    \<and> (if arc = ProxyState then app_config (ms_proxy s1) = c else ms_proxy s1 = ms_proxy s)
    \<and> (\<exists>s2. admin_request M path ''POST'' ''/reload'' None s1 = (Inr (''{'' @ quoted ''status'' @ '':'' @ quoted ''reloaded'' @ ''}''), s2)
         \<and> app_config (ms_proxy s2) = c \<and> bp_backends (app_pool (ms_proxy s2)) = all_backends (mtproto c)
         \<and> app_stats (ms_proxy s2) = app_stats (ms_proxy s) \<and> app_users (ms_proxy s2) = app_users (ms_proxy s))"
proof -
  let ?A = "ad_app (mc_admin M)" and ?l = "arc_state (ms_proxy s) arc"
  let ?w = "\<lparr>wd_fs = ms_fs s, wd_app = ?l, wd_now = ms_now s, wd_spawned = ms_spawned s\<rparr>"
  obtain r w1 where run: "app_apply ?A (Secret secret) ?w = (r, w1)" by fastforce
  have tool: "r = Inr ()" "s1 = (set_arc arc (wd_app w1) s)\<lparr>ms_fs := wd_fs w1, ms_spawned := wd_spawned w1\<rparr>"
    using assms(2,4) run by (auto simp: in_json_def with_local_def split: sum.splits)
  have valid: "validate_secret secret = Inr ()" using run tool(1)
    by (auto simp: update_secret_def and_then_def checked_def split: sum.splits)
  note up = update_ok [OF assms(1) run [unfolded tool(1)]]
  have c: "app_config (wd_app w1) = c" using up by (simp only: assms(6)) simp
  have proxy: "ms_proxy s1 = (case arc of OwnState _ \<Rightarrow> ms_proxy s | ProxyState \<Rightarrow> wd_app w1)"
    by (cases arc) (simp_all add: tool(2))
  have kept: "app_config_path (ms_proxy s1) = app_config_path (ms_proxy s)" "app_stats (ms_proxy s1) = app_stats (ms_proxy s)"
      "app_users (ms_proxy s1) = app_users (ms_proxy s)"
    using up by (cases arc; simp add: proxy)+
  have stored: "from_file (al_parse ?A) (ms_fs s1) (app_config_path (ms_proxy s)) = Inr c"
  proof -
    have "durable ?A w1" using up by blast
    then have "from_file (al_parse ?A) (wd_fs w1) (app_config_path (wd_app w1)) = Inr c" unfolding durable_def c by blast
    moreover have "app_config_path (wd_app w1) = app_config_path (ms_proxy s)" using up assms(3) by simp
    ultimately show ?thesis by (simp add: tool(2))
  qed
  obtain s2 where "admin_request M path ''POST'' ''/reload'' None s1 = (Inr (''{'' @ quoted ''status'' @ '':'' @ quoted ''reloaded'' @ ''}''), s2)"
      "app_config (ms_proxy s2) = c" "in_sync (ms_proxy s2)"
      "app_stats (ms_proxy s2) = app_stats (ms_proxy s)" "app_users (ms_proxy s2) = app_users (ms_proxy s)"
    using remote_reload [OF assms(5), of s1 c] stored by (simp only: kept) blast
  moreover have "if arc = ProxyState then app_config (ms_proxy s1) = c else ms_proxy s1 = ms_proxy s"
    using c by (cases arc) (simp_all add: proxy)
  moreover have "bp_backends (app_pool (ms_proxy s2)) = all_backends (mtproto c)"
    using calculation by (simp add: in_sync_def)
  ultimately show ?thesis using valid stored by blast
qed

text \<open>
  The statistics are the proxy's: when the socket is reachable and the state of an MCP server in a process of its own has counted no
  connection, the tool gives the counters of the running proxy, printed and read back through the administration protocol, as they
  are at that moment, and changes nothing.
\<close>

theorem mcp_stats_are_the_proxys:
  assumes "ms_socket s = Some path" and "mc_reachable M path"
    and "\<forall>l. ms_local s = Some (OwnState l) \<longrightarrow> total_connections (app_stats l) = 0"
    and "ad_stats_json (mc_admin M) (app_stats (ms_proxy s)) = Some t" and "mc_read_stats M t = Some (app_stats (ms_proxy s))"
    and "split_at blank_crlf t = None"
  shows "call_tool M GetStats s = (ToolOk t, s)"
proof -
  have "admin_reply_body (to_http_response \<lparr>ar_status = 200, ar_type = ''application/json'', ar_body = t\<rparr>) = t"
    using admin_exchange_parts [of "''GET''" "''GET''" None "\<lparr>ar_status = 200, ar_type = ''application/json'', ar_body = t\<rparr>"] assms(6)
    by (simp add: plain_word_def visible_def blank_crlf_def crlf_def header_line_def)
  then have "fetch_remote M path s = (ToolOk (app_stats (ms_proxy s)), s)"
    using assms(2,4,5) by (simp add: fetch_remote_def remote_stats)
  then have "fetch_stats M s = (ToolOk (app_stats (ms_proxy s)), s)"
    using assms(1,3) by (cases "ms_local s"; cases "the (ms_local s)") (auto simp: fetch_stats_def stats_snapshot_def)
  then show ?thesis using assms(4) by (simp add: in_json_def)
qed

section \<open>Concrete servers\<close>

definition toy_mcp_lib :: mcp_lib where
  "toy_mcp_lib = \<lparr>mc_admin = toy_admin_lib, mc_reachable = (\<lambda>p. p = ''/run/sg''),
     mc_read_stats = (\<lambda>t. if t = ''stats'' then Some stats_default else None), mc_error_text = error_text (\<lambda>_. ''io'')\<rparr>"

lemma mcp_stats_are_the_proxys_witness:
  "call_tool toy_mcp_lib GetStats (mcp_from_admin_socket ''/run/sg'' (wd_app (toy_world toy_config)) Map.empty 7)
     = (ToolOk ''stats'', mcp_from_admin_socket ''/run/sg'' (wd_app (toy_world toy_config)) Map.empty 7)"
  by (rule mcp_stats_are_the_proxys)
    (simp_all add: mcp_from_admin_socket_def toy_mcp_lib_def toy_admin_lib_def toy_world_def blank_crlf_def crlf_def starts_with_def)

text \<open>A server in a process of its own that changes the secret.\<close>

abbreviation toy_fresh_secret :: string where
  "toy_fresh_secret \<equiv> ''fedcba9876543210fedcba9876543210''"

definition toy_config3 :: config where
  "toy_config3 = toy_config\<lparr>mtproto := (mtproto toy_config)\<lparr>mt_secret := toy_fresh_secret\<rparr>\<rparr>"

definition toy_secret_lib :: mcp_lib where
  "toy_secret_lib = toy_mcp_lib\<lparr>mc_admin := toy_admin_lib\<lparr>ad_app := toy_app_lib\<lparr>
     al_parse := \<lambda>s. if s = ''1'' then Some toy_config else if s = ''3'' then Some toy_config3 else None,
     al_print := \<lambda>c. if c = toy_config then Some ''1'' else if c = toy_config3 then Some ''3'' else None\<rparr>\<rparr>\<rparr>"

abbreviation toy_secret_system :: mcp_system where
  "toy_secret_system \<equiv> mcp_new (OwnState (wd_app (toy_world toy_config))) (wd_app (toy_world toy_config)) [''c'' \<mapsto> ''1''] 7"

lemma toy_config3_valid: "config_validate toy_config3 = Inr ()"
proof -
  have v: "validate_secret toy_fresh_secret = Inr ()" by code_simp
  have t: "trim ''example.com'' = ''example.com''" by code_simp
  show ?thesis
    unfolding config_validate_def toy_config3_def toy_config_def
    by (simp add: test_minimal_def v t all_backends_def all_secrets_def is_protocol_allowed_def
        security_default_def fragmentation_default_def drs_default_def default_drs_sizes_def dd_default_def
        split_default_def network_default_def split_validate_def tls_validate_def)
qed

lemma toy_config3_ne: "toy_config3 \<noteq> toy_config"
proof -
  have "mt_secret (mtproto toy_config3) \<noteq> mt_secret (mtproto toy_config)"
    by (simp add: toy_config3_def toy_config_def test_minimal_def)
  then show ?thesis by auto
qed

lemma toy_secret_changed:
  "\<exists>t s1. call_tool toy_secret_lib (UpdateSecret toy_fresh_secret) toy_secret_system = (ToolOk t, s1)"
proof -
  have v: "validate_secret toy_fresh_secret = Inr ()" by code_simp
  show ?thesis
    by (simp add: mcp_new_def with_local_def in_json_def update_secret_def app_step_defs v save_config_def save_to_file_def
        toy_world_def toy_config3_valid flip: toy_config3_def)
      (simp add: toy_secret_lib_def toy_app_lib_def toy_config3_ne announce_def split: option.splits)
qed

lemma mcp_secret_reaches_the_proxy_witness:
  "\<exists>t s1 s2 body. call_tool toy_secret_lib (UpdateSecret toy_fresh_secret) toy_secret_system = (ToolOk t, s1)
    \<and> app_config (ms_proxy s1) = toy_config
    \<and> admin_request toy_secret_lib ''/run/sg'' ''POST'' ''/reload'' None s1 = (Inr body, s2)
    \<and> app_config (ms_proxy s2) = toy_config3"
proof -
  let ?p = "wd_app (toy_world toy_config)"
  obtain t s1 where run: "call_tool toy_secret_lib (UpdateSecret toy_fresh_secret) toy_secret_system = (ToolOk t, s1)"
    using toy_secret_changed by blast
  have laws: "app_lib_laws (ad_app (mc_admin toy_secret_lib))"
    by (auto simp: app_lib_laws_def toml_law_def fs_write_law_def toy_secret_lib_def toy_app_lib_def split: if_splits)
  have own: "ms_local toy_secret_system = Some (OwnState ?p)" and proxy: "ms_proxy toy_secret_system = ?p" by (simp_all add: mcp_new_def)
  have path: "app_config_path (ms_proxy toy_secret_system) = app_config_path (arc_state (ms_proxy toy_secret_system) (OwnState ?p))"
    by (simp add: proxy)
  have reach: "mc_reachable toy_secret_lib ''/run/sg''" by (simp add: toy_secret_lib_def toy_mcp_lib_def)
  have cfg: "app_config ?p = toy_config" by (simp add: toy_world_def)
  have c: "toy_config3 = (app_config (arc_state (ms_proxy toy_secret_system) (OwnState ?p)))\<lparr>mtproto :=
      (mtproto (app_config (arc_state (ms_proxy toy_secret_system) (OwnState ?p))))\<lparr>mt_secret := toy_fresh_secret\<rparr>\<rparr>"
    by (simp add: cfg toy_config3_def)
  show ?thesis using mcp_secret_reaches_the_proxy [OF laws own path run reach c] run proxy cfg by auto
qed

end
